(* ===== verification/Prelude.thy ===== *)
theory Prelude
  imports Main "HOL-Library.Word" "HOL-Library.Char_ord" "HOL-Library.List_Lexorder" "HOL-Library.AList"
    "HOL-Library.Multiset"
begin

text \<open>
  What the components share: exceptions as values, the pieces of Python's string, integer
  and slice semantics that the code uses, little-endian packing as done by \<open>struct\<close>,
  float32 bit patterns, JSON values, and generic lemmas on them.

  Strings are lists of 8-bit characters, so the model covers the code points 0 to 255
  (Latin-1); the character classes below are Python's on that range.
\<close>

named_theorems py_defs \<open>definitions of the Python run-time pieces\<close>

section \<open>Exceptions and results\<close>

text \<open>
  One constructor per exception class that the code raises or tells apart. The string is the
  message the exception was constructed with. \<open>Unmodelled\<close> marks a value whose Python
  conversion is outside the model (for instance \<open>str\<close> of a nested dict).
\<close>

datatype exn =
    ValueError string
  | KeyError string
  | IdMappingError string
  | RuntimeError string
  | TypeError string
  | FileNotFoundError string
  | OSError string
  | StructError string
  | LockContentionError string
  | OtherError string
  | Unmodelled

type_synonym 'a res = "exn + 'a"

fun bind_res :: "'a res \<Rightarrow> ('a \<Rightarrow> 'b res) \<Rightarrow> 'b res" where
  "bind_res (Inl e) f = Inl e"
| "bind_res (Inr a) f = f a"

fun map_res :: "('a \<Rightarrow> 'b res) \<Rightarrow> 'a list \<Rightarrow> 'b list res" where
  "map_res f [] = Inr []"
| "map_res f (x # xs) = bind_res (f x) (\<lambda>y. bind_res (map_res f xs) (\<lambda>ys. Inr (y # ys)))"

lemma bind_res_Inr [simp]: "bind_res r f = Inr b \<longleftrightarrow> (\<exists>a. r = Inr a \<and> f a = Inr b)"
  by (cases r) auto

lemma bind_res_Inl: "bind_res r f = Inl e \<longleftrightarrow> r = Inl e \<or> (\<exists>a. r = Inr a \<and> f a = Inl e)"
  by (cases r) auto

lemma map_res_id: "(\<And>x. x \<in> set xs \<Longrightarrow> f (g x) = Inr x) \<Longrightarrow> map_res f (map g xs) = Inr xs"
  by (induction xs) auto

section \<open>Strings\<close>

text \<open>\<open>str.isspace\<close> on the range: tab to carriage return, the separators 28 to 31, space,
  next-line (133) and the no-break space (160). \<open>str.strip\<close> removes them at both ends.\<close>

definition py_isspace :: "char \<Rightarrow> bool" where
  "py_isspace c = (let n = of_char c :: nat
     in (9 \<le> n \<and> n \<le> 13) \<or> (28 \<le> n \<and> n \<le> 32) \<or> n = 133 \<or> n = 160)"

definition py_strip :: "string \<Rightarrow> string" where
  "py_strip s = rev (dropWhile py_isspace (rev (dropWhile py_isspace s)))"

text \<open>\<open>str.isalnum\<close> on the range: letters, digits, and the Latin-1 letters, superscripts and
  fractions that Python counts as alphabetic or numeric.\<close>

definition py_isalnum :: "char \<Rightarrow> bool" where
  "py_isalnum c = (let n = of_char c :: nat
     in (48 \<le> n \<and> n \<le> 57) \<or> (65 \<le> n \<and> n \<le> 90) \<or> (97 \<le> n \<and> n \<le> 122)
        \<or> n \<in> {170, 178, 179, 181, 185, 186, 188, 189, 190}
        \<or> (192 \<le> n \<and> n \<le> 255 \<and> n \<noteq> 215 \<and> n \<noteq> 247))"

definition py_lower_char :: "char \<Rightarrow> char" where
  "py_lower_char c = (let n = of_char c :: nat
     in if (65 \<le> n \<and> n \<le> 90) \<or> (192 \<le> n \<and> n \<le> 222 \<and> n \<noteq> 215) then char_of (n + 32) else c)"

definition py_lower :: "string \<Rightarrow> string" where
  "py_lower = map py_lower_char"

definition starts_with :: "string \<Rightarrow> string \<Rightarrow> bool" where
  "starts_with s p = (take (length p) s = p)"

fun contains_sub :: "'a list \<Rightarrow> 'a list \<Rightarrow> bool" where
  "contains_sub p [] = (p = [])"
| "contains_sub p (x # xs) = (take (length p) (x # xs) = p \<or> contains_sub p xs)"

fun join_with :: "string \<Rightarrow> string list \<Rightarrow> string" where
  "join_with sep [] = ''''"
| "join_with sep [x] = x"
| "join_with sep (x # y # ys) = x @ sep @ join_with sep (y # ys)"

text \<open>Decimal rendering of integers, as \<open>str(int)\<close> and f-strings do.\<close>

definition digit_char :: "nat \<Rightarrow> char" where
  "digit_char d = char_of (48 + d)"

fun nat_str :: "nat \<Rightarrow> string" where
  "nat_str n = (if n < 10 then [digit_char n] else nat_str (n div 10) @ [digit_char (n mod 10)])"

declare nat_str.simps [simp del]

definition int_str :: "int \<Rightarrow> string" where
  "int_str i = (if i < 0 then ''-'' @ nat_str (nat (- i)) else nat_str (nat i))"

text \<open>\<open>repr\<close> of a string: the quote is \<open>"\<close> when the text has a single quote and no double
  quote; backslash, the quote and unprintable characters are escaped.\<close>

definition hex_digit :: "nat \<Rightarrow> char" where
  "hex_digit d = (if d < 10 then char_of (48 + d) else char_of (87 + d))"

definition repr_char :: "char \<Rightarrow> char \<Rightarrow> string" where
  "repr_char q c = (let n = of_char c :: nat in
     if c = q \<or> n = 92 then [CHR 0x5C, c]
     else if n = 10 then [CHR 0x5C, CHR ''n'']
     else if n = 13 then [CHR 0x5C, CHR ''r'']
     else if n = 9 then [CHR 0x5C, CHR ''t'']
     else if n < 32 \<or> (127 \<le> n \<and> n \<le> 160) \<or> n = 173
       then [CHR 0x5C, CHR ''x'', hex_digit (n div 16), hex_digit (n mod 16)]
     else [c])"

definition py_repr :: "string \<Rightarrow> string" where
  "py_repr s = (let q = (if CHR 0x27 \<in> set s \<and> CHR 0x22 \<notin> set s then CHR 0x22 else CHR 0x27)
     in q # concat (map (repr_char q) s) @ [q])"

text \<open>\<open>str(exc)\<close>. \<open>KeyError\<close> and its subclass \<open>IdMappingError\<close> render the \<open>repr\<close>
  of their argument.\<close>

fun exn_str :: "exn \<Rightarrow> string" where
  "exn_str (ValueError m) = m"
| "exn_str (KeyError m) = py_repr m"
| "exn_str (IdMappingError m) = py_repr m"
| "exn_str (RuntimeError m) = m"
| "exn_str (TypeError m) = m"
| "exn_str (FileNotFoundError m) = m"
| "exn_str (OSError m) = m"
| "exn_str (StructError m) = m"
| "exn_str (LockContentionError m) = m"
| "exn_str (OtherError m) = m"
| "exn_str Unmodelled = ''''"

lemma dropWhile_idem: "dropWhile P (dropWhile P xs) = dropWhile P xs"
  by (induction xs) auto

lemma starts_with_append [simp]: "starts_with (p @ s) p"
  by (simp add: starts_with_def)

lemma contains_sub_Nil [simp]: "contains_sub [] xs"
  by (cases xs) auto

lemma contains_sub_iff: "contains_sub p xs \<longleftrightarrow> (\<exists>a b. xs = a @ p @ b)"
proof (induction xs)
  case Nil
  then show ?case by auto
next
  case (Cons x xs)
  show ?case
  proof
    assume "contains_sub p (x # xs)"
    then consider "take (length p) (x # xs) = p" | "contains_sub p xs" by auto
    then show "\<exists>a b. x # xs = a @ p @ b"
    proof cases
      case 1
      then have "x # xs = [] @ p @ drop (length p) (x # xs)"
        by (metis append_Nil append_take_drop_id)
      then show ?thesis by blast
    next
      case 2
      with Cons.IH obtain a b where "xs = a @ p @ b" by blast
      then have "x # xs = (x # a) @ p @ b" by simp
      then show ?thesis by blast
    qed
  next
    assume "\<exists>a b. x # xs = a @ p @ b"
    then obtain a b where eq: "x # xs = a @ p @ b" by blast
    show "contains_sub p (x # xs)"
    proof (cases a)
      case Nil
      with eq have "take (length p) (x # xs) = p" by simp
      then show ?thesis by simp
    next
      case (Cons y a')
      with eq have "xs = a' @ p @ b" by simp
      with Cons.IH show ?thesis by auto
    qed
  qed
qed

lemma py_strip_hd: "py_strip s = c # t \<Longrightarrow> \<not> py_isspace c"
proof -
  assume h: "py_strip s = c # t"
  let ?u = "dropWhile py_isspace s"
  have rev_eq: "dropWhile py_isspace (rev ?u) = rev t @ [c]"
    using h unfolding py_strip_def by (metis rev.simps(2) rev_rev_ident)
  then have "last (dropWhile py_isspace (rev ?u)) = c" by simp
  moreover have "dropWhile py_isspace (rev ?u) \<noteq> []" using rev_eq by simp
  ultimately have "last (rev ?u) = c" by (metis dropWhile_eq_drop last_drop drop_eq_Nil not_le)
  moreover have "?u \<noteq> []" using rev_eq by (cases ?u) auto
  ultimately have "hd ?u = c" by (simp add: last_rev)
  with \<open>?u \<noteq> []\<close> show ?thesis by (metis hd_dropWhile)
qed

lemma dropWhile_hd_False: "xs = [] \<or> \<not> P (hd xs) \<Longrightarrow> dropWhile P xs = xs"
  by (cases xs) auto

lemma py_strip_idem [simp]: "py_strip (py_strip s) = py_strip s"
proof -
  let ?t = "py_strip s"
  have "dropWhile py_isspace ?t = ?t"
    by (rule dropWhile_hd_False) (cases ?t, auto dest: py_strip_hd)
  moreover have "dropWhile py_isspace (rev ?t) = rev ?t"
    by (simp add: py_strip_def dropWhile_idem)
  ultimately show ?thesis unfolding py_strip_def [of ?t] by simp
qed

section \<open>Bytes and little-endian packing\<close>

type_synonym byte = "8 word"
type_synonym bytes = "byte list"

text \<open>\<open>struct.pack("<...")\<close> writes an unsigned field of \<open>n\<close> bytes least significant byte
  first; \<open>struct.unpack\<close> reads it back.\<close>

fun le_bytes :: "nat \<Rightarrow> nat \<Rightarrow> bytes" where
  "le_bytes 0 v = []"
| "le_bytes (Suc n) v = word_of_nat (v mod 256) # le_bytes n (v div 256)"

fun le_nat :: "bytes \<Rightarrow> nat" where
  "le_nat [] = 0"
| "le_nat (b # bs) = unat b + 256 * le_nat bs"

definition in_range :: "nat \<Rightarrow> int \<Rightarrow> bool" where
  "in_range n v \<longleftrightarrow> 0 \<le> v \<and> v < 256 ^ n"

lemma length_le_bytes [simp]: "length (le_bytes n v) = n"
  by (induction n arbitrary: v) auto

lemma le_nat_le_bytes: "v < 256 ^ n \<Longrightarrow> le_nat (le_bytes n v) = v"
proof (induction n arbitrary: v)
  case 0
  then show ?case by simp
next
  case (Suc n)
  have "v div 256 < 256 ^ n"
    using Suc.prems by (simp add: less_mult_imp_div_less mult.commute)
  then have "le_nat (le_bytes n (v div 256)) = v div 256" by (rule Suc.IH)
  moreover have "unat (word_of_nat (v mod 256) :: byte) = v mod 256"
    by (simp add: unat_of_nat)
  ultimately show ?case by simp
qed

lemma le_nat_bound: "le_nat bs < 256 ^ length bs"
proof (induction bs)
  case Nil
  then show ?case by simp
next
  case (Cons b bs)
  have "unat b < 256" using unsigned_less [of b] by simp
  with Cons.IH show ?case by simp
qed

lemma le_bytes_le_nat: "le_bytes (length bs) (le_nat bs) = bs"
proof (induction bs)
  case Nil
  then show ?case by simp
next
  case (Cons b bs)
  have "unat b < 256" using unsigned_less [of b] by simp
  with Cons.IH show ?case by simp
qed

lemma le_nat_le_bytes_int:
  "in_range n v \<Longrightarrow> int (le_nat (le_bytes n (nat v))) = v"
  by (simp add: in_range_def le_nat_le_bytes nat_less_iff)

lemma in_range_le_nat: "length bs = n \<Longrightarrow> in_range n (int (le_nat bs))"
proof -
  assume "length bs = n"
  then have "le_nat bs < 256 ^ n" using le_nat_bound [of bs] by simp
  then have "int (le_nat bs) < int (256 ^ n)" by (simp only: of_nat_less_iff)
  then show ?thesis by (simp add: in_range_def)
qed

definition str_bytes :: "string \<Rightarrow> bytes" where
  "str_bytes s = map (\<lambda>c. word_of_nat (of_char c)) s"

text \<open>\<open>s.encode("utf-8")\<close> on the range of the model: two bytes from code point 128 on.\<close>

definition utf8_char :: "char \<Rightarrow> bytes" where
  "utf8_char c = (let n = of_char c :: nat
     in if n < 128 then [word_of_nat n] else [word_of_nat (192 + n div 64), word_of_nat (128 + n mod 64)])"

definition utf8 :: "string \<Rightarrow> bytes" where
  "utf8 s = concat (map utf8_char s)"

section \<open>float32 values\<close>

text \<open>A float32 is its bit pattern. It compares equal to \<open>0.0\<close> exactly when everything but
  the sign bit is clear, so negative zero is zero and a NaN is not.\<close>

type_synonym f32 = "32 word"

unbundle bit_operations_syntax

definition f32_is_zero :: "f32 \<Rightarrow> bool" where
  "f32_is_zero x \<longleftrightarrow> x AND 0x7FFFFFFF = 0"

definition all_zero :: "f32 list \<Rightarrow> bool" where
  "all_zero v = list_all f32_is_zero v"

definition zero_row :: "nat \<Rightarrow> f32 list" where
  "zero_row d = replicate d 0"

lemma f32_is_zero_0 [simp]: "f32_is_zero 0"
  by (simp add: f32_is_zero_def)

lemma all_zero_zero_row [simp]: "all_zero (zero_row d)"
  by (simp add: all_zero_def zero_row_def list_all_iff)

lemma length_zero_row [simp]: "length (zero_row d) = d"
  by (simp add: zero_row_def)

section \<open>JSON values\<close>

text \<open>What \<open>json.loads\<close> returns and \<open>json.dumps\<close> takes; an object is an association list
  in insertion order. A float is the bit pattern of its double.\<close>

datatype json =
    JNull
  | JBool bool
  | JInt int
  | JFloat "64 word"
  | JStr string
  | JList "json list"
  | JObj "(string \<times> json) list"

fun coerce_str :: "json \<Rightarrow> string res" where
  "coerce_str (JStr s) = Inr s"
| "coerce_str (JInt i) = Inr (int_str i)"
| "coerce_str (JBool b) = Inr (if b then ''True'' else ''False'')"
| "coerce_str JNull = Inr ''None''"
| "coerce_str _ = Inl Unmodelled"

fun coerce_int :: "json \<Rightarrow> int res" where
  "coerce_int (JInt i) = Inr i"
| "coerce_int (JBool b) = Inr (if b then 1 else 0)"
| "coerce_int JNull = Inl (TypeError ''int() argument'')"
| "coerce_int (JList _) = Inl (TypeError ''int() argument'')"
| "coerce_int (JObj _) = Inl (TypeError ''int() argument'')"
| "coerce_int _ = Inl Unmodelled"

fun truthy :: "json \<Rightarrow> bool" where
  "truthy JNull = False"
| "truthy (JBool b) = b"
| "truthy (JInt i) = (i \<noteq> 0)"
| "truthy (JFloat x) = (x AND 0x7FFFFFFFFFFFFFFF \<noteq> 0)"
| "truthy (JStr s) = (s \<noteq> [])"
| "truthy (JList xs) = (xs \<noteq> [])"
| "truthy (JObj kvs) = (kvs \<noteq> [])"

text \<open>\<open>json.dumps(..., sort_keys=True)\<close> orders the keys of every object, inside lists and objects too; the receipt log and the file queue are written this way.\<close>

fun sort_keys :: "json \<Rightarrow> json" where
  "sort_keys (JList xs) = JList (map sort_keys xs)"
| "sort_keys (JObj kvs) = JObj (sort_key fst (map (\<lambda>kv. (fst kv, sort_keys (snd kv))) kvs))"
| "sort_keys j = j"

definition jopt :: "('a \<Rightarrow> json) \<Rightarrow> 'a option \<Rightarrow> json" where
  "jopt f x = (case x of None \<Rightarrow> JNull | Some y \<Rightarrow> f y)"

section \<open>Slices and environment flags\<close>

text \<open>\<open>xs[:n]\<close>: a negative bound counts from the end.\<close>

definition py_take :: "int \<Rightarrow> 'a list \<Rightarrow> 'a list" where
  "py_take n xs = (if n < 0 then take (nat (int (length xs) + n)) xs else take (nat n) xs)"

type_synonym environ = "string \<rightharpoonup> string"

definition env_get :: "environ \<Rightarrow> string \<Rightarrow> string \<Rightarrow> string" where
  "env_get env k d = (case env k of None \<Rightarrow> d | Some v \<Rightarrow> v)"

lemma length_py_take_le: "length (py_take n xs) \<le> length xs"
  by (cases "n < 0") (auto simp: py_take_def)

lemma set_py_take: "set (py_take n xs) \<subseteq> set xs"
  by (simp add: py_take_def set_take_subset)

lemma py_take_all: "int (length xs) \<le> n \<Longrightarrow> py_take n xs = xs"
  by (simp add: py_take_def)

section \<open>Dictionaries\<close>

text \<open>A Python dict is the association list of its items in insertion order: setting an existing key keeps
  its place, a new key goes to the end.\<close>

type_synonym ('k, 'v) dict = "('k \<times> 'v) list"

definition dget :: "('k, 'v) dict \<Rightarrow> 'k \<Rightarrow> 'v option" where
  "dget d k = map_of d k"

definition dset :: "'k \<Rightarrow> 'v \<Rightarrow> ('k, 'v) dict \<Rightarrow> ('k, 'v) dict" where
  "dset k v d = AList.update k v d"

definition ddel :: "'k \<Rightarrow> ('k, 'v) dict \<Rightarrow> ('k, 'v) dict" where
  "ddel k d = AList.delete k d"

definition dkeys :: "('k, 'v) dict \<Rightarrow> 'k list" where
  "dkeys d = map fst d"

definition dsetdefault :: "'k \<Rightarrow> 'v \<Rightarrow> ('k, 'v) dict \<Rightarrow> ('k, 'v) dict" where
  "dsetdefault k v d = (if dget d k = None then dset k v d else d)"

definition dict_ok :: "('k, 'v) dict \<Rightarrow> bool" where
  "dict_ok d = distinct (dkeys d)"

lemma dget_Nil [simp]: "dget [] k = None"
  by (simp add: dget_def)

lemma dget_dset [simp]: "dget (dset k v d) j = (if j = k then Some v else dget d j)"
  by (simp add: dget_def dset_def update_conv')

lemma dget_ddel [simp]: "dget (ddel k d) j = (if j = k then None else dget d j)"
  by (simp add: dget_def ddel_def delete_conv')

lemma dget_dsetdefault [simp]:
  "dget (dsetdefault k v d) j = (if j = k then (case dget d k of None \<Rightarrow> Some v | Some w \<Rightarrow> Some w) else dget d j)"
  by (auto simp: dsetdefault_def split: option.splits)

lemma dict_ok_Nil [simp]: "dict_ok []"
  by (simp add: dict_ok_def dkeys_def)

lemma dict_ok_dset [simp]: "dict_ok d \<Longrightarrow> dict_ok (dset k v d)"
  by (simp add: dict_ok_def dkeys_def dset_def distinct_update)

lemma dict_ok_ddel [simp]: "dict_ok d \<Longrightarrow> dict_ok (ddel k d)"
  by (simp add: dict_ok_def dkeys_def ddel_def distinct_delete)

lemma dict_ok_dsetdefault [simp]: "dict_ok d \<Longrightarrow> dict_ok (dsetdefault k v d)"
  by (simp add: dsetdefault_def)

lemma set_dkeys: "set (dkeys d) = dom (dget d)"
  by (auto simp: dkeys_def dget_def dom_map_of_conv_image_fst [symmetric] domIff)

lemma dget_in: "dict_ok d \<Longrightarrow> (k, v) \<in> set d \<longleftrightarrow> dget d k = Some v"
  by (simp add: dict_ok_def dkeys_def dget_def)

lemma dset_new: "dget d k = None \<Longrightarrow> dset k v d = d @ [(k, v)]"
  by (induction d) (auto simp: dset_def dget_def split: if_splits)

end
