(* ===== verification/Wal.thy ===== *)
theory Wal
  imports Digest
begin

text \<open>
  \<open>api/wal.py\<close>: the append-only write-ahead log of hard deletes. The log file is the list
  of its bytes; \<open>scan\<close> is the generator \<open>iter_records\<close> (the records it yields and, when it
  stops by raising, the exception). The lemmas show that a log written by the two append
  operations is read back record by record, that a torn last record is ignored, which
  deletes are uncommitted, that transaction ids are fresh, and what an append after a torn
  record does.
\<close>

section \<open>Records and their layout\<close>

definition REC_BEGIN_DELETE :: byte where "REC_BEGIN_DELETE = 1"
definition REC_COMMIT :: byte where "REC_COMMIT = 2"

definition MAGIC_BEGIN :: bytes where "MAGIC_BEGIN = str_bytes ''WDEL''"
definition MAGIC_COMMIT :: bytes where "MAGIC_COMMIT = str_bytes ''WCMT''"

definition BEGIN_SIZE :: nat where "BEGIN_SIZE = 72"
definition COMMIT_SIZE :: nat where "COMMIT_SIZE = 56"

record begin_delete_record =
  bd_timestamp :: int
  bd_transaction_id :: int
  bd_target_node_id :: int
  bd_max_m :: int
  bd_checksum :: bytes

record commit_record =
  cm_timestamp :: int
  cm_transaction_id :: int
  cm_checksum :: bytes

datatype wal_record = BeginDelete begin_delete_record | Commit commit_record

definition struct_error :: exn where
  "struct_error = StructError ''argument out of range''"

text \<open>\<open>struct.pack("<QQQI", ...)\<close> and \<open>struct.pack("<QQ", ...)\<close>: out-of-range integers raise.\<close>

definition pack_begin_payload :: "int \<Rightarrow> int \<Rightarrow> int \<Rightarrow> int \<Rightarrow> bytes res" where
  "pack_begin_payload ts tx node m =
    (if in_range 8 ts \<and> in_range 8 tx \<and> in_range 8 node \<and> in_range 4 m
     then Inr (le_bytes 8 (nat ts) @ le_bytes 8 (nat tx) @ le_bytes 8 (nat node) @ le_bytes 4 (nat m))
     else Inl struct_error)"

definition pack_commit_payload :: "int \<Rightarrow> int \<Rightarrow> bytes res" where
  "pack_commit_payload ts tx =
    (if in_range 8 ts \<and> in_range 8 tx then Inr (le_bytes 8 (nat ts) @ le_bytes 8 (nat tx))
     else Inl struct_error)"

definition checksum_begin :: "int \<Rightarrow> int \<Rightarrow> int \<Rightarrow> int \<Rightarrow> bytes res" where
  "checksum_begin ts tx node m = bind_res (pack_begin_payload ts tx node m) (\<lambda>p. Inr (sha256 p))"

definition checksum_commit :: "int \<Rightarrow> int \<Rightarrow> bytes res" where
  "checksum_commit ts tx = bind_res (pack_commit_payload ts tx) (\<lambda>p. Inr (sha256 p))"

text \<open>The two record images: \<open>"<4sB3sQQQII32s"\<close> and \<open>"<4sB3sQQ32s"\<close>. The format \<open>32s\<close>
  pads or cuts its argument to 32 bytes.\<close>

definition pack_s :: "nat \<Rightarrow> bytes \<Rightarrow> bytes" where
  "pack_s n b = take n (b @ replicate n 0)"

definition encode_begin :: "begin_delete_record \<Rightarrow> bytes" where
  "encode_begin r =
     MAGIC_BEGIN @ [REC_BEGIN_DELETE] @ [0, 0, 0]
     @ le_bytes 8 (nat (bd_timestamp r)) @ le_bytes 8 (nat (bd_transaction_id r))
     @ le_bytes 8 (nat (bd_target_node_id r)) @ le_bytes 4 (nat (bd_max_m r))
     @ le_bytes 4 0 @ pack_s 32 (bd_checksum r)"

definition encode_commit :: "commit_record \<Rightarrow> bytes" where
  "encode_commit r =
     MAGIC_COMMIT @ [REC_COMMIT] @ [0, 0, 0]
     @ le_bytes 8 (nat (cm_timestamp r)) @ le_bytes 8 (nat (cm_transaction_id r))
     @ pack_s 32 (cm_checksum r)"

fun encode_record :: "wal_record \<Rightarrow> bytes" where
  "encode_record (BeginDelete r) = encode_begin r"
| "encode_record (Commit r) = encode_commit r"

fun rec_tx :: "wal_record \<Rightarrow> int" where
  "rec_tx (BeginDelete r) = bd_transaction_id r"
| "rec_tx (Commit r) = cm_transaction_id r"

section \<open>Scanning\<close>

definition slice :: "nat \<Rightarrow> nat \<Rightarrow> 'a list \<Rightarrow> 'a list" where
  "slice i n xs = take n (drop i xs)"

definition unpack_begin :: "bytes \<Rightarrow> begin_delete_record" where
  "unpack_begin blob = \<lparr>
     bd_timestamp = int (le_nat (slice 8 8 blob)),
     bd_transaction_id = int (le_nat (slice 16 8 blob)),
     bd_target_node_id = int (le_nat (slice 24 8 blob)),
     bd_max_m = int (le_nat (slice 32 4 blob)),
     bd_checksum = slice 40 32 blob \<rparr>"

definition unpack_commit :: "bytes \<Rightarrow> commit_record" where
  "unpack_commit blob = \<lparr>
     cm_timestamp = int (le_nat (slice 8 8 blob)),
     cm_transaction_id = int (le_nat (slice 16 8 blob)),
     cm_checksum = slice 24 32 blob \<rparr>"

definition checksum_mismatch_begin :: "int \<Rightarrow> exn" where
  "checksum_mismatch_begin tx = ValueError (''WAL checksum mismatch on BEGIN tx='' @ int_str tx)"

definition checksum_mismatch_commit :: "int \<Rightarrow> exn" where
  "checksum_mismatch_commit tx = ValueError (''WAL checksum mismatch on COMMIT tx='' @ int_str tx)"

text \<open>\<open>repr\<close> of the magic bytes in the message is rendered through their characters.\<close>

definition unknown_magic :: "bytes \<Rightarrow> byte \<Rightarrow> exn" where
  "unknown_magic magic rt =
     ValueError (''WAL corrupt: unknown magic/type b'' @ py_repr (map (\<lambda>b. char_of (unat b)) magic)
       @ ''/'' @ int_str (uint rt))"

function scan :: "bytes \<Rightarrow> wal_record list \<times> exn option" where
  "scan bs =
    (if bs = [] then ([], None)
     else if length bs < 8 then ([], None)
     else
       let head = take 8 bs; magic = take 4 head; rt = head ! 4; after = drop 8 bs in
       if magic = MAGIC_BEGIN \<and> rt = REC_BEGIN_DELETE then
         (let body = take (BEGIN_SIZE - 8) after in
          if length body < BEGIN_SIZE - 8 then ([], None)
          else
            let r = unpack_begin (head @ body) in
            if Inr (bd_checksum r) \<noteq> checksum_begin (bd_timestamp r) (bd_transaction_id r)
                                     (bd_target_node_id r) (bd_max_m r)
            then ([], Some (checksum_mismatch_begin (bd_transaction_id r)))
            else let (rs, e) = scan (drop (BEGIN_SIZE - 8) after) in (BeginDelete r # rs, e))
       else if magic = MAGIC_COMMIT \<and> rt = REC_COMMIT then
         (let body = take (COMMIT_SIZE - 8) after in
          if length body < COMMIT_SIZE - 8 then ([], None)
          else
            let r = unpack_commit (head @ body) in
            if Inr (cm_checksum r) \<noteq> checksum_commit (cm_timestamp r) (cm_transaction_id r)
            then ([], Some (checksum_mismatch_commit (cm_transaction_id r)))
            else let (rs, e) = scan (drop (COMMIT_SIZE - 8) after) in (Commit r # rs, e))
       else ([], Some (unknown_magic magic rt)))"
  by pat_completeness auto
termination
  by (relation "measure length") (auto simp: BEGIN_SIZE_def COMMIT_SIZE_def)

declare scan.simps [simp del]

section \<open>The log object\<close>

text \<open>\<open>wal_file\<close> is the content of \<open>index.wal\<close>, \<open>None\<close> when there is no such file; the
  lock is taken by one caller at a time and the model is sequential.\<close>

record wal =
  wal_file :: "bytes option"
  tx_counter :: int

definition iter_records :: "bytes option \<Rightarrow> wal_record list \<times> exn option" where
  "iter_records f = (case f of None \<Rightarrow> ([], None) | Some bs \<Rightarrow> scan bs)"

text \<open>A \<open>for\<close> loop over the generator that does nothing but collect runs to the end or raises.\<close>

definition list_records :: "bytes option \<Rightarrow> wal_record list res" where
  "list_records f = (case iter_records f of (rs, None) \<Rightarrow> Inr rs | (_, Some e) \<Rightarrow> Inl e)"

definition recover_max_tx_id :: "bytes option \<Rightarrow> int res" where
  "recover_max_tx_id f = bind_res (list_records f) (\<lambda>rs. Inr (foldl (\<lambda>m r. max m (rec_tx r)) 0 rs))"

definition wal_init :: "bytes option \<Rightarrow> wal res" where
  "wal_init f = bind_res (recover_max_tx_id f) (\<lambda>n. Inr \<lparr>wal_file = f, tx_counter = n\<rparr>)"

definition next_transaction_id :: "wal \<Rightarrow> int \<times> wal" where
  "next_transaction_id w = (tx_counter w + 1, w\<lparr>tx_counter := tx_counter w + 1\<rparr>)"

definition append_bytes :: "bytes \<Rightarrow> wal \<Rightarrow> wal" where
  "append_bytes b w = w\<lparr>wal_file := Some ((case wal_file w of None \<Rightarrow> [] | Some f \<Rightarrow> f) @ b)\<rparr>"

definition append_begin_delete ::
  "int \<Rightarrow> int \<Rightarrow> int option \<Rightarrow> int option \<Rightarrow> int \<Rightarrow> wal \<Rightarrow> begin_delete_record res \<times> wal" where
  "append_begin_delete target_node_id max_m transaction_id timestamp now w =
    (if target_node_id < 0 then (Inl (ValueError ''target_node_id must be non-negative''), w)
     else if max_m < 1 then (Inl (ValueError ''max_m must be positive''), w)
     else
       let tx = (case transaction_id of None \<Rightarrow> tx_counter w + 1 | Some t \<Rightarrow> t);
           w1 = w\<lparr>tx_counter := (case transaction_id of None \<Rightarrow> tx | Some _ \<Rightarrow> max (tx_counter w) tx)\<rparr>;
           ts = (case timestamp of None \<Rightarrow> now | Some t \<Rightarrow> t)
       in case checksum_begin ts tx target_node_id max_m of
            Inl e \<Rightarrow> (Inl e, w1)
          | Inr digest \<Rightarrow>
              let r = \<lparr>bd_timestamp = ts, bd_transaction_id = tx, bd_target_node_id = target_node_id,
                       bd_max_m = max_m, bd_checksum = digest\<rparr>
              in (Inr r, append_bytes (encode_begin r) w1))"

definition append_commit :: "int \<Rightarrow> int option \<Rightarrow> int \<Rightarrow> wal \<Rightarrow> commit_record res \<times> wal" where
  "append_commit transaction_id timestamp now w =
    (let ts = (case timestamp of None \<Rightarrow> now | Some t \<Rightarrow> t)
     in case checksum_commit ts transaction_id of
          Inl e \<Rightarrow> (Inl e, w)
        | Inr digest \<Rightarrow>
            let r = \<lparr>cm_timestamp = ts, cm_transaction_id = transaction_id, cm_checksum = digest\<rparr>
            in (Inr r, append_bytes (encode_commit r) w))"

text \<open>\<open>uncommitted_deletes\<close>: the dict of BEGINs keeps the last one of each id; the committed
  ids are collected; what is left is listed by ascending id.\<close>

fun collect_begins :: "wal_record list \<Rightarrow> (int \<rightharpoonup> begin_delete_record) \<Rightarrow> (int \<rightharpoonup> begin_delete_record)" where
  "collect_begins [] m = m"
| "collect_begins (r # rs) m = collect_begins rs
     (case r of BeginDelete b \<Rightarrow> m(bd_transaction_id b \<mapsto> b) | Commit _ \<Rightarrow> m)"

fun begin_ids :: "wal_record list \<Rightarrow> int list" where
  "begin_ids [] = []"
| "begin_ids (BeginDelete r # rs) = bd_transaction_id r # begin_ids rs"
| "begin_ids (Commit _ # rs) = begin_ids rs"

fun commit_ids :: "wal_record list \<Rightarrow> int list" where
  "commit_ids [] = []"
| "commit_ids (BeginDelete _ # rs) = commit_ids rs"
| "commit_ids (Commit r # rs) = cm_transaction_id r # commit_ids rs"

definition pending_of :: "wal_record list \<Rightarrow> begin_delete_record list" where
  "pending_of rs =
    (let begins = collect_begins rs Map.empty;
         keys = sort (remdups (begin_ids rs))
     in map (\<lambda>tx. the (begins tx)) (filter (\<lambda>tx. tx \<notin> set (commit_ids rs)) keys))"

definition uncommitted_deletes :: "wal \<Rightarrow> begin_delete_record list res" where
  "uncommitted_deletes w = bind_res (list_records (wal_file w)) (\<lambda>rs. Inr (pending_of rs))"


section \<open>Reading back what was written\<close>

definition valid_begin :: "begin_delete_record \<Rightarrow> bool" where
  "valid_begin r \<longleftrightarrow> checksum_begin (bd_timestamp r) (bd_transaction_id r) (bd_target_node_id r) (bd_max_m r)
                     = Inr (bd_checksum r)"

definition valid_commit :: "commit_record \<Rightarrow> bool" where
  "valid_commit r \<longleftrightarrow> checksum_commit (cm_timestamp r) (cm_transaction_id r) = Inr (cm_checksum r)"

fun valid_record :: "wal_record \<Rightarrow> bool" where
  "valid_record (BeginDelete r) = valid_begin r"
| "valid_record (Commit r) = valid_commit r"

definition encode_log :: "wal_record list \<Rightarrow> bytes" where
  "encode_log rs = concat (map encode_record rs)"

text \<open>What a crash in the middle of an append leaves: a proper prefix of a record image.\<close>

definition torn :: "bytes \<Rightarrow> bool" where
  "torn t \<longleftrightarrow> (\<exists>r k. t = take k (encode_record r) \<and> k < length (encode_record r))"

lemma MAGIC_BEGIN_eval: "MAGIC_BEGIN = [0x57, 0x44, 0x45, 0x4C]"
  by (simp add: MAGIC_BEGIN_def str_bytes_def)

lemma MAGIC_COMMIT_eval: "MAGIC_COMMIT = [0x57, 0x43, 0x4D, 0x54]"
  by (simp add: MAGIC_COMMIT_def str_bytes_def)

lemmas magic_eval = MAGIC_BEGIN_eval MAGIC_COMMIT_eval REC_BEGIN_DELETE_def REC_COMMIT_def

lemma checksum_begin_InrD:
  "checksum_begin ts tx node m = Inr d \<Longrightarrow>
     in_range 8 ts \<and> in_range 8 tx \<and> in_range 8 node \<and> in_range 4 m \<and> length d = 32"
  by (auto simp: checksum_begin_def pack_begin_payload_def split: if_splits)

lemma checksum_commit_InrD:
  "checksum_commit ts tx = Inr d \<Longrightarrow> in_range 8 ts \<and> in_range 8 tx \<and> length d = 32"
  by (auto simp: checksum_commit_def pack_commit_payload_def split: if_splits)

lemma length_pack_s [simp]: "length (pack_s n b) = n"
  by (simp add: pack_s_def)

lemma pack_s_id: "length b = n \<Longrightarrow> pack_s n b = b"
  by (simp add: pack_s_def)

lemma length_encode_begin [simp]: "length (encode_begin r) = 72"
  by (simp add: encode_begin_def MAGIC_BEGIN_eval)

lemma length_encode_commit [simp]: "length (encode_commit r) = 56"
  by (simp add: encode_commit_def MAGIC_COMMIT_eval)

lemma encode_nonempty [simp]: "encode_begin r \<noteq> []" "encode_commit c \<noteq> []"
  using length_encode_begin [of r] length_encode_commit [of c]
  by (auto simp del: length_encode_begin length_encode_commit)

lemma slice_append:
  "i = length a \<Longrightarrow> n = length b \<Longrightarrow> slice i n (a @ b @ c) = b"
  by (simp add: slice_def)

lemma unpack_begin_encode: "valid_begin r \<Longrightarrow> unpack_begin (encode_begin r) = r"
proof -
  assume v: "valid_begin r"
  let ?h = "MAGIC_BEGIN @ [REC_BEGIN_DELETE] @ [0, 0, 0]"
  let ?a = "le_bytes 8 (nat (bd_timestamp r))" and ?b = "le_bytes 8 (nat (bd_transaction_id r))"
  let ?c = "le_bytes 8 (nat (bd_target_node_id r))" and ?d = "le_bytes 4 (nat (bd_max_m r))"
  let ?e = "le_bytes 4 0" and ?f = "bd_checksum r"
  have rng: "in_range 8 (bd_timestamp r)" "in_range 8 (bd_transaction_id r)"
    "in_range 8 (bd_target_node_id r)" "in_range 4 (bd_max_m r)" "length ?f = 32"
    using v checksum_begin_InrD unfolding valid_begin_def by blast+
  have enc: "encode_begin r = ?h @ ?a @ ?b @ ?c @ ?d @ ?e @ ?f"
    by (simp add: encode_begin_def pack_s_id rng)
  have "slice 8 8 (encode_begin r) = ?a"
  proof -
    have "slice 8 8 ((?h) @ ?a @ (?b @ ?c @ ?d @ ?e @ ?f)) = ?a"
      by (rule slice_append) (simp_all add: rng MAGIC_BEGIN_eval)
    then show ?thesis by (simp only: enc append_assoc append_Nil2)
  qed
  moreover have "slice 16 8 (encode_begin r) = ?b"
  proof -
    have "slice 16 8 ((?h @ ?a) @ ?b @ (?c @ ?d @ ?e @ ?f)) = ?b"
      by (rule slice_append) (simp_all add: rng MAGIC_BEGIN_eval)
    then show ?thesis by (simp only: enc append_assoc append_Nil2)
  qed
  moreover have "slice 24 8 (encode_begin r) = ?c"
  proof -
    have "slice 24 8 ((?h @ ?a @ ?b) @ ?c @ (?d @ ?e @ ?f)) = ?c"
      by (rule slice_append) (simp_all add: rng MAGIC_BEGIN_eval)
    then show ?thesis by (simp only: enc append_assoc append_Nil2)
  qed
  moreover have "slice 32 4 (encode_begin r) = ?d"
  proof -
    have "slice 32 4 ((?h @ ?a @ ?b @ ?c) @ ?d @ (?e @ ?f)) = ?d"
      by (rule slice_append) (simp_all add: rng MAGIC_BEGIN_eval)
    then show ?thesis by (simp only: enc append_assoc append_Nil2)
  qed
  moreover have "slice 40 32 (encode_begin r) = ?f"
  proof -
    have "slice 40 32 ((?h @ ?a @ ?b @ ?c @ ?d @ ?e) @ ?f @ ([])) = ?f"
      by (rule slice_append) (simp_all add: rng MAGIC_BEGIN_eval)
    then show ?thesis by (simp only: enc append_assoc append_Nil2)
  qed
  ultimately show ?thesis
    by (simp add: unpack_begin_def le_nat_le_bytes_int rng)
qed

lemma unpack_commit_encode: "valid_commit r \<Longrightarrow> unpack_commit (encode_commit r) = r"
proof -
  assume v: "valid_commit r"
  let ?h = "MAGIC_COMMIT @ [REC_COMMIT] @ [0, 0, 0]"
  let ?a = "le_bytes 8 (nat (cm_timestamp r))" and ?b = "le_bytes 8 (nat (cm_transaction_id r))"
  let ?f = "cm_checksum r"
  have rng: "in_range 8 (cm_timestamp r)" "in_range 8 (cm_transaction_id r)" "length ?f = 32"
    using v checksum_commit_InrD unfolding valid_commit_def by blast+
  have enc: "encode_commit r = ?h @ ?a @ ?b @ ?f"
    by (simp add: encode_commit_def pack_s_id rng)
  have "slice 8 8 (encode_commit r) = ?a"
  proof -
    have "slice 8 8 ((?h) @ ?a @ (?b @ ?f)) = ?a"
      by (rule slice_append) (simp_all add: rng MAGIC_COMMIT_eval)
    then show ?thesis by (simp only: enc append_assoc append_Nil2)
  qed
  moreover have "slice 16 8 (encode_commit r) = ?b"
  proof -
    have "slice 16 8 ((?h @ ?a) @ ?b @ (?f)) = ?b"
      by (rule slice_append) (simp_all add: rng MAGIC_COMMIT_eval)
    then show ?thesis by (simp only: enc append_assoc append_Nil2)
  qed
  moreover have "slice 24 32 (encode_commit r) = ?f"
  proof -
    have "slice 24 32 ((?h @ ?a @ ?b) @ ?f @ ([])) = ?f"
      by (rule slice_append) (simp_all add: rng MAGIC_COMMIT_eval)
    then show ?thesis by (simp only: enc append_assoc append_Nil2)
  qed
  ultimately show ?thesis
    by (simp add: unpack_commit_def le_nat_le_bytes_int rng)
qed

lemma encode_begin_prefix:
  "take 4 (encode_begin r) = MAGIC_BEGIN" "encode_begin r ! 4 = REC_BEGIN_DELETE"
  by (simp_all add: encode_begin_def MAGIC_BEGIN_eval)

lemma encode_commit_prefix:
  "take 4 (encode_commit r) = MAGIC_COMMIT" "encode_commit r ! 4 = REC_COMMIT"
  by (simp_all add: encode_commit_def MAGIC_COMMIT_eval)

lemma magics_differ: "MAGIC_COMMIT \<noteq> MAGIC_BEGIN"
  by (simp add: MAGIC_BEGIN_eval MAGIC_COMMIT_eval)

lemma take_nth_head: "8 \<le> length b \<Longrightarrow> take 4 (take 8 (b @ x)) = take 4 b \<and> take 8 (b @ x) ! 4 = b ! 4"
  by (simp add: nth_append)

lemma scan_begin:
  assumes "valid_begin r"
  shows "scan (encode_begin r @ bs) = (case scan bs of (rs, e) \<Rightarrow> (BeginDelete r # rs, e))"
proof -
  let ?x = "encode_begin r @ bs"
  have head: "take 4 (take 8 ?x) = MAGIC_BEGIN" "take 8 ?x ! 4 = REC_BEGIN_DELETE"
    using take_nth_head [of "encode_begin r" bs] by (simp_all add: encode_begin_prefix)
  have blob: "take 8 ?x @ take (BEGIN_SIZE - 8) (drop 8 ?x) = encode_begin r"
    by (simp add: BEGIN_SIZE_def)
  have rest: "drop (BEGIN_SIZE - 8) (drop 8 ?x) = bs"
    by (simp add: BEGIN_SIZE_def)
  have ne: "?x \<noteq> []" "\<not> length ?x < 8" "\<not> length (take (BEGIN_SIZE - 8) (drop 8 ?x)) < BEGIN_SIZE - 8"
    by (simp_all add: BEGIN_SIZE_def)
  show ?thesis
    using assms
    by (subst scan.simps)
      (simp only: Let_def head blob rest ne unpack_begin_encode [OF assms] valid_begin_def
        if_True if_False simp_thms split: prod.splits)
qed

lemma scan_commit:
  assumes "valid_commit r"
  shows "scan (encode_commit r @ bs) = (case scan bs of (rs, e) \<Rightarrow> (Commit r # rs, e))"
proof -
  let ?x = "encode_commit r @ bs"
  have head: "take 4 (take 8 ?x) = MAGIC_COMMIT" "take 8 ?x ! 4 = REC_COMMIT"
    using take_nth_head [of "encode_commit r" bs] by (simp_all add: encode_commit_prefix)
  have blob: "take 8 ?x @ take (COMMIT_SIZE - 8) (drop 8 ?x) = encode_commit r"
    by (simp add: COMMIT_SIZE_def)
  have rest: "drop (COMMIT_SIZE - 8) (drop 8 ?x) = bs"
    by (simp add: COMMIT_SIZE_def)
  have ne: "?x \<noteq> []" "\<not> length ?x < 8" "\<not> length (take (COMMIT_SIZE - 8) (drop 8 ?x)) < COMMIT_SIZE - 8"
    by (simp_all add: COMMIT_SIZE_def)
  show ?thesis
    using assms
    by (subst scan.simps)
      (simp only: Let_def head blob rest ne unpack_commit_encode [OF assms] valid_commit_def
        magics_differ if_True if_False simp_thms split: prod.splits)
qed

lemma scan_record:
  "valid_record r \<Longrightarrow> scan (encode_record r @ bs) = (case scan bs of (rs, e) \<Rightarrow> (r # rs, e))"
  by (cases r) (simp_all add: scan_begin scan_commit)

lemma scan_Nil [simp]: "scan [] = ([], None)"
  by (simp add: scan.simps)

lemma encode_record_prefix:
  "(take 4 (encode_record r) = MAGIC_BEGIN \<and> encode_record r ! 4 = REC_BEGIN_DELETE \<and> length (encode_record r) = 72)
   \<or> (take 4 (encode_record r) = MAGIC_COMMIT \<and> encode_record r ! 4 = REC_COMMIT \<and> length (encode_record r) = 56)"
  by (cases r) (simp_all add: encode_begin_prefix encode_commit_prefix)

text \<open>A torn record at the end of the file ends the scan without an error.\<close>

lemma scan_torn: "torn t \<Longrightarrow> scan t = ([], None)"
proof -
  assume "torn t"
  then obtain r k where t: "t = take k (encode_record r)" and k: "k < length (encode_record r)"
    unfolding torn_def by blast
  show ?thesis
  proof (cases "k < 8")
    case True
    with t k show ?thesis by (subst scan.simps) simp
  next
    case False
    then have k8: "8 \<le> k" by simp
    then have h: "take 4 (take 8 t) = take 4 (encode_record r)" "take 8 t ! 4 = encode_record r ! 4"
      using k t by (simp_all add: min_def)
    have len: "length t = k" using t k by simp
    then have ne: "t \<noteq> []" "\<not> length t < 8" using k8 by auto
    from encode_record_prefix [of r] show ?thesis
    proof
      assume a: "take 4 (encode_record r) = MAGIC_BEGIN \<and> encode_record r ! 4 = REC_BEGIN_DELETE
        \<and> length (encode_record r) = 72"
      then have short: "length (take (BEGIN_SIZE - 8) (drop 8 t)) < BEGIN_SIZE - 8"
        using k k8 len by (auto simp: BEGIN_SIZE_def)
      show ?thesis
        by (subst scan.simps) (simp only: Let_def h a ne short if_True if_False simp_thms)
    next
      assume a: "take 4 (encode_record r) = MAGIC_COMMIT \<and> encode_record r ! 4 = REC_COMMIT
        \<and> length (encode_record r) = 56"
      then have short: "length (take (COMMIT_SIZE - 8) (drop 8 t)) < COMMIT_SIZE - 8"
        using k k8 len by (auto simp: COMMIT_SIZE_def)
      show ?thesis
        by (subst scan.simps) (simp only: Let_def h a ne short magics_differ if_True if_False simp_thms)
    qed
  qed
qed

lemma scan_log_append:
  "list_all valid_record rs \<Longrightarrow> scan (encode_log rs @ bs) = (case scan bs of (xs, e) \<Rightarrow> (rs @ xs, e))"
  by (induction rs) (auto simp: encode_log_def scan_record split: prod.splits)

lemma torn_Nil [simp]: "torn []"
  unfolding torn_def by (rule exI [where x = "Commit undefined"], rule exI [where x = 0]) simp

lemma encode_log_Nil [simp]: "encode_log [] = []"
  by (simp add: encode_log_def)

lemma encode_log_append: "encode_log (rs @ ss) = encode_log rs @ encode_log ss"
  by (simp add: encode_log_def)

lemma encode_log_single [simp]: "encode_log [r] = encode_record r"
  by (simp add: encode_log_def)


section \<open>The abstract log\<close>

text \<open>
  \<open>log_image f rs t\<close>: the file \<open>f\<close> holds the valid records \<open>rs\<close> and then the torn record
  \<open>t\<close> (\<open>[]\<close> when there is none). \<open>wal_ok w rs\<close>: the log object of such a file without a torn
  record, whose counter is at least every id in it.
\<close>

definition log_image :: "bytes option \<Rightarrow> wal_record list \<Rightarrow> bytes \<Rightarrow> bool" where
  "log_image f rs t \<longleftrightarrow> list_all valid_record rs \<and> torn t
     \<and> (case f of None \<Rightarrow> rs = [] \<and> t = [] | Some b \<Rightarrow> b = encode_log rs @ t)"

definition ids_le :: "int \<Rightarrow> wal_record list \<Rightarrow> bool" where
  "ids_le n rs \<longleftrightarrow> list_all (\<lambda>r. rec_tx r \<le> n) rs"

definition wal_ok :: "wal \<Rightarrow> wal_record list \<Rightarrow> bool" where
  "wal_ok w rs \<longleftrightarrow> log_image (wal_file w) rs [] \<and> ids_le (tx_counter w) rs \<and> 0 \<le> tx_counter w"

lemma list_records_image: "log_image f rs t \<Longrightarrow> list_records f = Inr rs"
  by (auto simp: log_image_def list_records_def iter_records_def scan_log_append scan_torn
      split: option.splits)

lemma foldl_max_ge: "(m::int) \<le> foldl (\<lambda>m r. max m (f r)) m rs"
  by (induction rs arbitrary: m) (auto intro: order_trans [OF max.cobounded1])

lemma ids_le_foldl: "ids_le (foldl (\<lambda>m r. max m (rec_tx r)) m rs) rs"
proof (induction rs arbitrary: m)
  case Nil
  then show ?case by (simp add: ids_le_def)
next
  case (Cons r rs)
  have "rec_tx r \<le> max m (rec_tx r)" by simp
  also have "\<dots> \<le> foldl (\<lambda>m r. max m (rec_tx r)) (max m (rec_tx r)) rs" by (rule foldl_max_ge)
  finally show ?case using Cons.IH [of "max m (rec_tx r)"] by (simp add: ids_le_def)
qed

lemma wal_init_image:
  assumes "log_image f rs t"
  shows "\<exists>n. wal_init f = Inr \<lparr>wal_file = f, tx_counter = n\<rparr> \<and> ids_le n rs \<and> 0 \<le> n"
  using list_records_image [OF assms] ids_le_foldl [of 0 rs] foldl_max_ge [of 0 rec_tx rs]
  by (auto simp: wal_init_def recover_max_tx_id_def)

lemma append_bytes_image:
  "log_image (wal_file w) rs [] \<Longrightarrow> valid_record r \<Longrightarrow>
     log_image (wal_file (append_bytes (encode_record r) w)) (rs @ [r]) []"
  by (auto simp: log_image_def append_bytes_def encode_log_append split: option.splits)

lemma ids_le_append [simp]: "ids_le n (rs @ ss) \<longleftrightarrow> ids_le n rs \<and> ids_le n ss"
  by (simp add: ids_le_def)

lemma ids_le_mono: "ids_le n rs \<Longrightarrow> n \<le> m \<Longrightarrow> ids_le m rs"
  by (auto simp: ids_le_def list_all_iff)

lemma ids_le_Nil [simp]: "ids_le n []"
  by (simp add: ids_le_def)

lemma ids_le_single [simp]: "ids_le n [r] \<longleftrightarrow> rec_tx r \<le> n"
  by (simp add: ids_le_def)

text \<open>Appending a BEGIN under the next id.\<close>

lemma append_begin_ok:
  assumes w: "wal_ok w rs"
    and rng: "in_range 8 now" "in_range 8 (tx_counter w + 1)" "in_range 8 node" "in_range 4 m" "1 \<le> m"
  shows "\<exists>r w'. append_begin_delete node m None None now w = (Inr r, w')
    \<and> wal_ok w' (rs @ [BeginDelete r]) \<and> tx_counter w' = tx_counter w + 1
    \<and> bd_transaction_id r = tx_counter w + 1 \<and> bd_target_node_id r = node \<and> bd_max_m r = m"
proof -
  let ?tx = "tx_counter w + 1"
  obtain d where d: "checksum_begin now ?tx node m = Inr d"
    using rng by (simp add: checksum_begin_def pack_begin_payload_def)
  define r where "r = \<lparr>bd_timestamp = now, bd_transaction_id = ?tx, bd_target_node_id = node,
    bd_max_m = m, bd_checksum = d\<rparr>"
  let ?w1 = "w\<lparr>tx_counter := ?tx\<rparr>"
  have v: "valid_record (BeginDelete r)" using d by (simp add: r_def valid_begin_def)
  have eq: "append_begin_delete node m None None now w = (Inr r, append_bytes (encode_begin r) ?w1)"
    using d rng by (simp add: append_begin_delete_def r_def in_range_def Let_def)
  have "log_image (wal_file ?w1) rs []" using w by (simp add: wal_ok_def)
  from append_bytes_image [OF this v]
  have "log_image (wal_file (append_bytes (encode_begin r) ?w1)) (rs @ [BeginDelete r]) []" by simp
  moreover have "tx_counter (append_bytes (encode_begin r) ?w1) = ?tx" by (simp add: append_bytes_def)
  moreover have "ids_le ?tx rs" using w by (auto simp: wal_ok_def intro: ids_le_mono)
  ultimately show ?thesis using eq w by (auto simp: wal_ok_def r_def)
qed

lemma append_commit_ok:
  assumes w: "wal_ok w rs" and rng: "in_range 8 now" "in_range 8 tx" and le: "tx \<le> tx_counter w"
  shows "\<exists>r w'. append_commit tx None now w = (Inr r, w') \<and> wal_ok w' (rs @ [Commit r])
    \<and> tx_counter w' = tx_counter w \<and> cm_transaction_id r = tx"
proof -
  obtain d where d: "checksum_commit now tx = Inr d"
    using rng by (simp add: checksum_commit_def pack_commit_payload_def)
  define r where "r = \<lparr>cm_timestamp = now, cm_transaction_id = tx, cm_checksum = d\<rparr>"
  have v: "valid_record (Commit r)" using d by (simp add: r_def valid_commit_def)
  have eq: "append_commit tx None now w = (Inr r, append_bytes (encode_commit r) w)"
    using d by (simp add: append_commit_def r_def Let_def)
  have "log_image (wal_file w) rs []" using w by (simp add: wal_ok_def)
  from append_bytes_image [OF this v]
  have "log_image (wal_file (append_bytes (encode_commit r) w)) (rs @ [Commit r]) []" by simp
  then show ?thesis using eq w le by (auto simp: wal_ok_def r_def append_bytes_def)
qed

section \<open>Uncommitted deletes\<close>

lemma begin_ids_append [simp]: "begin_ids (rs @ ss) = begin_ids rs @ begin_ids ss"
  by (induction rs rule: begin_ids.induct) auto

lemma commit_ids_append [simp]: "commit_ids (rs @ ss) = commit_ids rs @ commit_ids ss"
  by (induction rs rule: commit_ids.induct) auto

lemma collect_begins_append: "collect_begins (rs @ ss) m = collect_begins ss (collect_begins rs m)"
  by (induction rs arbitrary: m) auto

lemma dom_collect_begins: "dom (collect_begins rs m) = dom m \<union> set (begin_ids rs)"
  by (induction rs arbitrary: m) (auto split: wal_record.splits)

lemma collect_begins_sound:
  "collect_begins rs m tx = Some r \<Longrightarrow>
     (m tx = Some r) \<or> (BeginDelete r \<in> set rs \<and> bd_transaction_id r = tx)"
  by (induction rs arbitrary: m) (fastforce split: wal_record.splits if_splits)+

lemma collect_begins_id:
  "tx \<in> set (begin_ids rs) \<Longrightarrow> \<exists>r. collect_begins rs Map.empty tx = Some r
     \<and> BeginDelete r \<in> set rs \<and> bd_transaction_id r = tx"
proof -
  assume "tx \<in> set (begin_ids rs)"
  then have "tx \<in> dom (collect_begins rs Map.empty)" by (simp add: dom_collect_begins)
  then obtain r where "collect_begins rs Map.empty tx = Some r" by blast
  with collect_begins_sound [OF this] show ?thesis by auto
qed

text \<open>The pending deletes are listed by strictly ascending id, one per BEGIN id without a COMMIT.\<close>

lemma pending_of_ids:
  "map bd_transaction_id (pending_of rs)
     = filter (\<lambda>tx. tx \<notin> set (commit_ids rs)) (sort (remdups (begin_ids rs)))"
proof -
  have "bd_transaction_id (the (collect_begins rs Map.empty tx)) = tx" if "tx \<in> set (begin_ids rs)" for tx
    using collect_begins_id [OF that] by auto
  then show ?thesis
    unfolding pending_of_def Let_def map_map
    by (intro map_idI) auto
qed

lemma pending_of_mem: "r \<in> set (pending_of rs) \<Longrightarrow> BeginDelete r \<in> set rs
    \<and> bd_transaction_id r \<in> set (begin_ids rs) \<and> bd_transaction_id r \<notin> set (commit_ids rs)"
  using collect_begins_id [of _ rs] by (fastforce simp: pending_of_def Let_def)

lemma begin_ids_le: "ids_le n rs \<Longrightarrow> tx \<in> set (begin_ids rs) \<Longrightarrow> tx \<le> n"
  by (induction rs rule: begin_ids.induct) (auto simp: ids_le_def)

lemma commit_ids_le: "ids_le n rs \<Longrightarrow> tx \<in> set (commit_ids rs) \<Longrightarrow> tx \<le> n"
  by (induction rs rule: commit_ids.induct) (auto simp: ids_le_def)

lemma sort_snoc_max: "\<forall>x\<in>set xs. x < (n::int) \<Longrightarrow> sort (xs @ [n]) = sort xs @ [n]"
  by (rule properties_for_sort) (auto simp: sorted_append less_imp_le)

lemma remdups_snoc_new: "n \<notin> set xs \<Longrightarrow> remdups (xs @ [n]) = remdups xs @ [n]"
  by (induction xs) auto


lemma pending_snoc_begin:
  assumes "ids_le n rs" and "n < bd_transaction_id r"
  shows "pending_of (rs @ [BeginDelete r]) = pending_of rs @ [r]"
proof -
  let ?n = "bd_transaction_id r" and ?ks = "remdups (begin_ids rs)"
  let ?m = "collect_begins rs Map.empty"
  have lt: "\<forall>x\<in>set ?ks. x < ?n" using begin_ids_le [OF assms(1)] assms(2) by fastforce
  have new: "?n \<notin> set (commit_ids rs)" using commit_ids_le [OF assms(1)] assms(2) by fastforce
  have keys: "sort (remdups (begin_ids rs @ [?n])) = sort ?ks @ [?n]"
    using lt by (subst remdups_snoc_new) (auto intro: sort_snoc_max)
  have "map (\<lambda>tx. the ((?m(?n \<mapsto> r)) tx)) (filter (\<lambda>tx. tx \<notin> set (commit_ids rs)) (sort ?ks))
      = map (\<lambda>tx. the (?m tx)) (filter (\<lambda>tx. tx \<notin> set (commit_ids rs)) (sort ?ks))"
    using lt by (intro map_cong) auto
  then show ?thesis
    using new by (simp add: pending_of_def Let_def collect_begins_append keys)
qed

lemma pending_snoc_commit:
  "pending_of (rs @ [Commit c]) = filter (\<lambda>r. bd_transaction_id r \<noteq> cm_transaction_id c) (pending_of rs)"
proof -
  let ?m = "collect_begins rs Map.empty"
  let ?P = "\<lambda>tx. tx \<notin> set (commit_ids rs)"
  have "filter (\<lambda>r. bd_transaction_id r \<noteq> cm_transaction_id c)
          (map (\<lambda>tx. the (?m tx)) (filter ?P (sort (remdups (begin_ids rs)))))
      = map (\<lambda>tx. the (?m tx)) (filter (\<lambda>tx. tx \<noteq> cm_transaction_id c)
          (filter ?P (sort (remdups (begin_ids rs)))))"
    unfolding filter_map comp_def
    using collect_begins_id [of _ rs] by (intro arg_cong [where f = "map _"] filter_cong) fastforce+
  then show ?thesis
    by (simp add: pending_of_def Let_def collect_begins_append conj_commute)
qed

lemma pending_of_Nil [simp]: "pending_of [] = []"
  by (simp add: pending_of_def)

lemma distinct_pending_ids: "distinct (map bd_transaction_id (pending_of rs))"
  by (simp add: pending_of_ids)

lemma pending_in_range:
  "list_all valid_record rs \<Longrightarrow> r \<in> set (pending_of rs) \<Longrightarrow>
     in_range 8 (bd_transaction_id r) \<and> in_range 8 (bd_target_node_id r) \<and> in_range 4 (bd_max_m r)"
  using pending_of_mem [of r rs] checksum_begin_InrD
  unfolding list_all_iff valid_begin_def by (metis valid_begin_def valid_record.simps(1))

section \<open>The log as an interface\<close>

text \<open>
  What the persistence engine relies on: \<open>inv\<close> (a usable log object), \<open>pend\<close> (its
  uncommitted deletes in replay order) and the effect of the three calls on them. Ids handed
  out are fresh, so a BEGIN goes to the end of the pending list.
\<close>

locale delete_log =
  fixes begin_op :: "int \<Rightarrow> int \<Rightarrow> int \<Rightarrow> 'l \<Rightarrow> begin_delete_record res \<times> 'l"
    and commit_op :: "int \<Rightarrow> int \<Rightarrow> 'l \<Rightarrow> commit_record res \<times> 'l"
    and pending_op :: "'l \<Rightarrow> begin_delete_record list res"
    and inv :: "'l \<Rightarrow> bool"
    and pend :: "'l \<Rightarrow> begin_delete_record list"
    and room :: "'l \<Rightarrow> int"
  assumes begin_law: "inv l \<Longrightarrow> in_range 8 now \<Longrightarrow> in_range 8 node \<Longrightarrow> in_range 4 m \<Longrightarrow> 1 \<le> m \<Longrightarrow> 0 < room l \<Longrightarrow>
      \<exists>r l'. begin_op node m now l = (Inr r, l') \<and> inv l' \<and> pend l' = pend l @ [r] \<and> room l' = room l - 1
        \<and> bd_target_node_id r = node \<and> bd_max_m r = m"
    and commit_law: "inv l \<Longrightarrow> in_range 8 now \<Longrightarrow> r \<in> set (pend l) \<Longrightarrow>
      \<exists>c l'. commit_op (bd_transaction_id r) now l = (Inr c, l') \<and> inv l' \<and> room l' = room l
        \<and> pend l' = filter (\<lambda>x. bd_transaction_id x \<noteq> bd_transaction_id r) (pend l)"
    and pending_law: "inv l \<Longrightarrow> pending_op l = Inr (pend l)"
    and distinct_law: "inv l \<Longrightarrow> distinct (map bd_transaction_id (pend l))"
begin

text \<open>A BEGIN that is committed right away leaves the pending deletes as they were.\<close>

lemma begin_commit:
  assumes "inv l" "in_range 8 n1" "in_range 8 n2" "in_range 8 node" "in_range 4 m" "1 \<le> m" "0 < room l"
  shows "\<exists>r l1 c l2. begin_op node m n1 l = (Inr r, l1) \<and> inv l1 \<and> pend l1 = pend l @ [r]
    \<and> commit_op (bd_transaction_id r) n2 l1 = (Inr c, l2) \<and> inv l2 \<and> pend l2 = pend l
    \<and> room l2 = room l - 1"
proof -
  obtain r l1 where b: "begin_op node m n1 l = (Inr r, l1)" "inv l1" "pend l1 = pend l @ [r]"
    "room l1 = room l - 1"
    using begin_law [OF assms(1,2,4,5,6,7)] by blast
  have "r \<in> set (pend l1)" using b by simp
  from commit_law [OF b(2) assms(3) this] obtain c l2 where
    c: "commit_op (bd_transaction_id r) n2 l1 = (Inr c, l2)" "inv l2" "room l2 = room l1"
      "pend l2 = filter (\<lambda>x. bd_transaction_id x \<noteq> bd_transaction_id r) (pend l1)" by blast
  have "distinct (map bd_transaction_id (pend l @ [r]))" using distinct_law [OF b(2)] b(3) by simp
  then have "filter (\<lambda>x. bd_transaction_id x \<noteq> bd_transaction_id r) (pend l) = pend l"
    by (intro filter_True) (metis distinct_append list.set_intros(1) list.simps(8,9) map_append
      not_distinct_conv_prefix disjoint_iff imageI image_set)
  then show ?thesis using b c by auto
qed

end

definition wal_inv :: "wal \<Rightarrow> bool" where
  "wal_inv w \<longleftrightarrow> (case list_records (wal_file w) of Inl _ \<Rightarrow> False | Inr rs \<Rightarrow> wal_ok w rs)"

definition wal_pend :: "wal \<Rightarrow> begin_delete_record list" where
  "wal_pend w = (case list_records (wal_file w) of Inl _ \<Rightarrow> [] | Inr rs \<Rightarrow> pending_of rs)"

definition wal_room :: "wal \<Rightarrow> int" where
  "wal_room w = 256 ^ 8 - 1 - tx_counter w"

lemma wal_okI: "wal_ok w rs \<Longrightarrow> wal_inv w \<and> wal_pend w = pending_of rs"
  using list_records_image [of "wal_file w" rs "[]"] by (simp add: wal_inv_def wal_pend_def wal_ok_def)

lemma wal_invD: "wal_inv w \<Longrightarrow> \<exists>rs. wal_ok w rs \<and> wal_pend w = pending_of rs
    \<and> list_records (wal_file w) = Inr rs \<and> list_all valid_record rs"
  by (auto simp: wal_inv_def wal_pend_def wal_ok_def log_image_def split: sum.splits)

interpretation wl: delete_log
  "\<lambda>node m now. append_begin_delete node m None None now"
  "\<lambda>tx now. append_commit tx None now" uncommitted_deletes wal_inv wal_pend wal_room
proof unfold_locales
  fix l now node m
  assume inv: "wal_inv l" and rng: "in_range 8 now" "in_range 8 node" "in_range 4 m" "1 \<le> m"
    and room: "0 < wal_room l"
  obtain rs where rs: "wal_ok l rs" "wal_pend l = pending_of rs" using wal_invD [OF inv] by blast
  have "in_range 8 (tx_counter l + 1)"
    using rs room by (auto simp: in_range_def wal_room_def wal_ok_def)
  from append_begin_ok [OF rs(1) rng(1) this rng(2,3,4)] obtain r w' where
    r: "append_begin_delete node m None None now l = (Inr r, w')" "wal_ok w' (rs @ [BeginDelete r])"
      "tx_counter w' = tx_counter l + 1" "bd_transaction_id r = tx_counter l + 1"
      "bd_target_node_id r = node" "bd_max_m r = m" by blast
  have "pending_of (rs @ [BeginDelete r]) = pending_of rs @ [r]"
    using rs r(4) by (intro pending_snoc_begin) (auto simp: wal_ok_def)
  then show "\<exists>r l'. append_begin_delete node m None None now l = (Inr r, l') \<and> wal_inv l'
      \<and> wal_pend l' = wal_pend l @ [r] \<and> wal_room l' = wal_room l - 1
      \<and> bd_target_node_id r = node \<and> bd_max_m r = m"
    using r rs wal_okI [OF r(2)] by (auto simp: wal_room_def)
next
  fix l now r
  assume inv: "wal_inv l" and rng: "in_range 8 now" and r: "r \<in> set (wal_pend l)"
  obtain rs where rs: "wal_ok l rs" "wal_pend l = pending_of rs" "list_all valid_record rs"
    using wal_invD [OF inv] by blast
  have "in_range 8 (bd_transaction_id r)" using pending_in_range rs r by auto
  moreover have "bd_transaction_id r \<le> tx_counter l"
    using pending_of_mem [of r rs] begin_ids_le rs r by (auto simp: wal_ok_def)
  ultimately obtain c w' where
    c: "append_commit (bd_transaction_id r) None now l = (Inr c, w')" "wal_ok w' (rs @ [Commit c])"
      "tx_counter w' = tx_counter l" "cm_transaction_id c = bd_transaction_id r"
    using append_commit_ok [OF rs(1) rng] by blast
  then show "\<exists>c l'. append_commit (bd_transaction_id r) None now l = (Inr c, l') \<and> wal_inv l'
      \<and> wal_room l' = wal_room l
      \<and> wal_pend l' = filter (\<lambda>x. bd_transaction_id x \<noteq> bd_transaction_id r) (wal_pend l)"
    using rs wal_okI [OF c(2)] by (auto simp: pending_snoc_commit wal_room_def)
next
  fix l assume "wal_inv l"
  then show "uncommitted_deletes l = Inr (wal_pend l)"
    using wal_invD [of l] by (auto simp: uncommitted_deletes_def)
next
  fix l assume "wal_inv l"
  then show "distinct (map bd_transaction_id (wal_pend l))"
    using wal_invD [of l] by (auto simp: distinct_pending_ids)
qed


section \<open>Properties\<close>

lemma scan_valid: "scan bs = (rs, e) \<Longrightarrow> list_all valid_record rs"
proof (induction "length bs" arbitrary: bs rs e rule: less_induct)
  case less
  have rec: "list_all valid_record xs"
    if "bs \<noteq> []" "\<not> length bs < 8" "scan (drop n (drop 8 bs)) = (xs, x)" for n xs x
    using less.hyps [of "drop n (drop 8 bs)" xs x] that by simp
  show ?case
    using less.prems
    by (subst (asm) scan.simps)
      (auto simp: Let_def valid_begin_def valid_commit_def simp del: drop_drop dest: rec
        split: if_splits prod.splits)
qed

lemma torn_short:
  assumes "torn t" "1 \<le> length t" "length t \<le> 4"
  shows "t \<in> {[0x57], [0x57, 0x44], [0x57, 0x43], [0x57, 0x44, 0x45], [0x57, 0x43, 0x4D],
              [0x57, 0x44, 0x45, 0x4C], [0x57, 0x43, 0x4D, 0x54]}"
proof -
  obtain r k where t: "t = take k (encode_record r)" and k: "k < length (encode_record r)"
    using assms(1) unfolding torn_def by blast
  then have kt: "k = length t" by simp
  then have "t = take k (take 4 (encode_record r))" using t assms(3) by (metis take_take min_absorb1)
  then have "t = take k MAGIC_BEGIN \<or> t = take k MAGIC_COMMIT"
    using encode_record_prefix [of r] by metis
  moreover have "k = 1 \<or> k = 2 \<or> k = 3 \<or> k = 4" using assms(2,3) kt by auto
  ultimately show ?thesis by (auto simp: magic_eval)
qed

lemma scan_poison:
  assumes "torn t" "1 \<le> length t" "length t \<le> 4"
  shows "\<exists>m. scan (t @ encode_begin r) = ([], Some (ValueError m))"
proof -
  obtain y where y: "encode_begin r = 0x57 # 0x44 # 0x45 # 0x4C # 1 # 0 # 0 # 0 # y"
    by (simp add: encode_begin_def magic_eval)
  show ?thesis
    using torn_short [OF assms]
    by (subst scan.simps) (auto simp: y magic_eval unknown_magic_def)
qed

text \<open>C12: \<open>iter_records\<close> on a log file gives back exactly the records that were appended, in order,
  and ends without an error even when the last append was cut off by a crash at any byte.\<close>

theorem wal_roundtrip_torn_tail:
  assumes "list_all valid_record rs" and "k < length (encode_record r)"
  shows "iter_records (Some (encode_log rs @ take k (encode_record r))) = (rs, None)"
proof -
  have "torn (take k (encode_record r))" using assms(2) unfolding torn_def by blast
  then show ?thesis using assms(1) by (simp add: iter_records_def scan_log_append scan_torn)
qed

definition sample_begin :: begin_delete_record where
  "sample_begin = \<lparr>bd_timestamp = 7, bd_transaction_id = 1, bd_target_node_id = 5, bd_max_m = 16,
     bd_checksum = sha256 (le_bytes 8 7 @ le_bytes 8 1 @ le_bytes 8 5 @ le_bytes 4 16)\<rparr>"

lemma sample_begin_valid: "valid_record (BeginDelete sample_begin)"
  by (simp add: sample_begin_def valid_begin_def checksum_begin_def pack_begin_payload_def in_range_def)

theorem wal_roundtrip_torn_tail_witness:
  "iter_records (Some (encode_log [BeginDelete sample_begin] @ take 20 (encode_record (BeginDelete sample_begin))))
     = ([BeginDelete sample_begin], None)"
  by (rule wal_roundtrip_torn_tail) (simp_all add: sample_begin_valid [simplified])

text \<open>whatever bytes the file holds, every record that \<open>iter_records\<close> yields carries the SHA-256
  of its own fields: a record with a changed field or checksum is never replayed.\<close>

theorem wal_scan_checks_records:
  "iter_records f = (rs, e) \<Longrightarrow> list_all valid_record rs"
  by (auto simp: iter_records_def scan_valid split: option.splits)

theorem wal_scan_checks_records_witness: "list_all valid_record [BeginDelete sample_begin]"
proof -
  have "iter_records (Some (encode_log [BeginDelete sample_begin] @ []))
      = ([BeginDelete sample_begin], None)"
    using scan_log_append [of "[BeginDelete sample_begin]" "[]"] sample_begin_valid
    by (simp add: iter_records_def)
  then show ?thesis by (rule wal_scan_checks_records)
qed

text \<open>\<open>uncommitted_deletes\<close> on an opened log lists, by strictly ascending transaction id, exactly
  the BEGIN ids that have no COMMIT, each with a BEGIN record of the log; a torn tail adds and
  hides nothing.\<close>

theorem wal_uncommitted_exact:
  assumes "log_image f rs t" and "wal_init f = Inr w"
  shows "\<exists>ds. uncommitted_deletes w = Inr ds
    \<and> sorted (map bd_transaction_id ds) \<and> distinct (map bd_transaction_id ds)
    \<and> set (map bd_transaction_id ds) = set (begin_ids rs) - set (commit_ids rs)
    \<and> BeginDelete ` set ds \<subseteq> set rs"
proof -
  have "wal_file w = f" using assms wal_init_image by fastforce
  then have u: "uncommitted_deletes w = Inr (pending_of rs)"
    using list_records_image [OF assms(1)] by (simp add: uncommitted_deletes_def)
  have "sorted (map bd_transaction_id (pending_of rs))"
    unfolding pending_of_ids by (metis list.map_id sorted_filter sorted_sort)
  moreover have "set (map bd_transaction_id (pending_of rs)) = set (begin_ids rs) - set (commit_ids rs)"
    unfolding pending_of_ids by auto
  ultimately show ?thesis
    using u distinct_pending_ids [of rs] pending_of_mem [of _ rs] by blast
qed

lemma sample_image: "log_image (Some (encode_record (BeginDelete sample_begin))) [BeginDelete sample_begin] []"
  using sample_begin_valid by (simp add: log_image_def)

theorem wal_uncommitted_exact_witness:
  "\<exists>w ds. wal_init (Some (encode_record (BeginDelete sample_begin))) = Inr w
     \<and> uncommitted_deletes w = Inr ds \<and> map bd_transaction_id ds = [1]"
proof -
  let ?f = "Some (encode_record (BeginDelete sample_begin))"
  obtain n where w: "wal_init ?f = Inr \<lparr>wal_file = ?f, tx_counter = n\<rparr>"
    using wal_init_image [OF sample_image] by blast
  from wal_uncommitted_exact [OF sample_image w] obtain ds where
    ds: "uncommitted_deletes \<lparr>wal_file = ?f, tx_counter = n\<rparr> = Inr ds" "sorted (map bd_transaction_id ds)"
      "distinct (map bd_transaction_id ds)" "set (map bd_transaction_id ds) = {1}"
    by (auto simp: sample_begin_def)
  have "map bd_transaction_id ds = sorted_list_of_set {1}"
    using ds(2-4) sorted_distinct_set_unique [of "map bd_transaction_id ds" "[1]"] by simp
  then show ?thesis using w ds(1) by auto
qed



text \<open>the append does not repair a torn tail. When a crash left one to four bytes of a record at
  the end of the file, the log still opens, but the next BEGIN is written behind those bytes and
  from then on the file cannot be opened: the constructor raises \<open>ValueError\<close>.\<close>

theorem wal_append_after_torn_tail_poisons:
  assumes "log_image f rs t" and "1 \<le> length t" and "length t \<le> 4" and "wal_init f = Inr w"
    and "append_begin_delete node m None None now w = (Inr r, w')"
  shows "\<exists>msg. wal_init (wal_file w') = Inl (ValueError msg)"
proof -
  have f: "f = Some (encode_log rs @ t)" "list_all valid_record rs" "torn t"
    using assms(1,2) by (auto simp: log_image_def split: option.splits)
  have "wal_file w = f" using assms(1,4) wal_init_image by fastforce
  then have "wal_file w' = Some (encode_log rs @ (t @ encode_begin r))"
    using assms(5) f(1)
    by (auto simp: append_begin_delete_def Let_def append_bytes_def split: if_splits sum.splits)
  moreover obtain msg where "scan (t @ encode_begin r) = ([], Some (ValueError msg))"
    using scan_poison [OF f(3) assms(2,3)] by blast
  ultimately show ?thesis
    by (simp add: wal_init_def recover_max_tx_id_def list_records_def iter_records_def
        scan_log_append [OF f(2)])
qed

theorem wal_append_after_torn_tail_poisons_witness:
  "\<exists>w r w' msg. wal_init (Some [0x57, 0x44]) = Inr w
     \<and> append_begin_delete 3 8 None None 9 w = (Inr r, w') \<and> wal_init (wal_file w') = Inl (ValueError msg)"
proof -
  have t: "torn [0x57, 0x44]"
    unfolding torn_def
    by (rule exI [where x = "BeginDelete sample_begin"], rule exI [where x = 2])
      (simp add: encode_begin_def magic_eval)
  then have img: "log_image (Some [0x57, 0x44]) [] [0x57, 0x44]" by (simp add: log_image_def)
  have w: "wal_init (Some [0x57, 0x44]) = Inr \<lparr>wal_file = Some [0x57, 0x44], tx_counter = 0\<rparr>"
    using list_records_image [OF img] by (simp add: wal_init_def recover_max_tx_id_def)
  obtain r w' where a: "append_begin_delete 3 8 None None 9 \<lparr>wal_file = Some [0x57, 0x44], tx_counter = 0\<rparr> = (Inr r, w')"
    by (simp add: append_begin_delete_def checksum_begin_def pack_begin_payload_def in_range_def Let_def)
  show ?thesis
    using wal_append_after_torn_tail_poisons [OF img _ _ w a] w a by fastforce
qed

end
