(* ===== verification/HnswIndex.thy ===== *)
theory HnswIndex
  imports Prelude
begin

text \<open>
  The native index that the Python code drives (\<open>src/hnsw_helper.hpp\<close>, class
  \<open>HNSWIndexProxy\<close>, and its binding in \<open>src/healer.cpp\<close>): the float32 rows, the layered
  adjacency, the entry point; loading, saving, wiping a row and the MN-RU repair that
  \<open>erase_node\<close> runs. Each call runs alone (the stripe locks only order concurrent calls), so a
  lock timeout is an outcome the environment chooses, see theory Persistence. The floating-point operations
  are arguments collected in \<open>fp\<close>: no lemma depends on what they compute.
\<close>

record hnsw_index =
  hx_dim :: nat
  hx_rows :: "f32 list list"
  hx_adj :: "nat list list list"
  hx_entry :: int

record 'd fp =
  fp_l2 :: "f32 list \<Rightarrow> f32 list \<Rightarrow> 'd"
  fp_less :: "'d \<Rightarrow> 'd \<Rightarrow> bool"
  fp_eq :: "'d \<Rightarrow> 'd \<Rightarrow> bool"
  fp_add :: "'d \<Rightarrow> 'd \<Rightarrow> 'd"
  fp_sub :: "'d \<Rightarrow> 'd \<Rightarrow> 'd"
  fp_inv1 :: "'d \<Rightarrow> 'd"
  fp_zero :: 'd
  fp_minus_one :: 'd

record erasure_result =
  er_success :: bool
  er_node_id :: int
  er_bytes_wiped :: int
  er_message :: string

record heal_state =
  hs_adj :: "nat list list list"
  hs_removed :: int
  hs_added :: int

definition empty_index :: hnsw_index where
  "empty_index = \<lparr>hx_dim = 0, hx_rows = [], hx_adj = [], hx_entry = -1\<rparr>"

definition num_elements :: "hnsw_index \<Rightarrow> nat" where
  "num_elements ix = length (hx_rows ix)"

definition is_loaded :: "hnsw_index \<Rightarrow> bool" where
  "is_loaded ix \<longleftrightarrow> hx_rows ix \<noteq> []"

section \<open>Loading and accessors\<close>

text \<open>\<open>load_index\<close>: the rows replace what was there; the graph starts empty.\<close>

definition load_index :: "f32 list list \<Rightarrow> nat \<Rightarrow> hnsw_index res" where
  "load_index rows d =
    (if rows \<noteq> [] \<and> d = 0
     then Inl (ValueError ''load_index: dimensions must be > 0 when num_elements > 0'')
     else if list_all (\<lambda>r. length r = d) rows
     then Inr \<lparr>hx_dim = d, hx_rows = rows, hx_adj = replicate (length rows) [],
               hx_entry = (if rows = [] then -1 else 0)\<rparr>
     else Inl (ValueError ''load_index: shape mismatch''))"

definition node_error :: "int \<Rightarrow> nat \<Rightarrow> exn" where
  "node_error node n = ValueError (''node_id '' @ int_str node @ '' out of range [0, '' @ nat_str n @ '')'')"

definition ensure_node :: "hnsw_index \<Rightarrow> int \<Rightarrow> nat res" where
  "ensure_node ix node =
    (if \<not> is_loaded ix then Inl (RuntimeError ''HNSWIndexProxy: no index loaded; call load_index first'')
     else if node < 0 \<or> int (num_elements ix) \<le> node then Inl (node_error node (num_elements ix))
     else Inr (nat node))"

definition hx_get_vector :: "hnsw_index \<Rightarrow> int \<Rightarrow> f32 list res" where
  "hx_get_vector ix node = bind_res (ensure_node ix node) (\<lambda>n. Inr (hx_rows ix ! n))"

definition ensure_layer_slot :: "nat \<Rightarrow> nat \<Rightarrow> nat list list list \<Rightarrow> nat list list list" where
  "ensure_layer_slot n L adj =
    (if length (adj ! n) \<le> L then adj[n := adj ! n @ replicate (Suc L - length (adj ! n)) []] else adj)"

definition put_nbrs :: "nat \<Rightarrow> nat \<Rightarrow> nat list \<Rightarrow> nat list list list \<Rightarrow> nat list list list" where
  "put_nbrs n L xs adj = adj[n := (adj ! n)[L := xs]]"

definition set_neighbors :: "hnsw_index \<Rightarrow> int \<Rightarrow> int \<Rightarrow> int list \<Rightarrow> hnsw_index res" where
  "set_neighbors ix node layer nbrs =
    bind_res (ensure_node ix node) (\<lambda>n.
      if layer < 0 then Inl (ValueError ''set_neighbors: layer must be non-negative'')
      else if \<exists>nb\<in>set nbrs. nb < 0 \<or> int (num_elements ix) \<le> nb
      then Inl (ValueError ''set_neighbors: neighbor label out of range'')
      else Inr (ix\<lparr>hx_adj := put_nbrs n (nat layer) (map nat nbrs) (ensure_layer_slot n (nat layer) (hx_adj ix))\<rparr>))"

definition overwrite_vector :: "hnsw_index \<Rightarrow> int \<Rightarrow> hnsw_index res" where
  "overwrite_vector ix node =
    bind_res (ensure_node ix node) (\<lambda>n. Inr (ix\<lparr>hx_rows := (hx_rows ix)[n := zero_row (hx_dim ix)]\<rparr>))"

section \<open>MN-RU repair\<close>

definition add_unique :: "nat \<Rightarrow> nat list \<Rightarrow> nat \<Rightarrow> nat list" where
  "add_unique N region n = (if n < N \<and> n \<notin> set region then region @ [n] else region)"

definition collect_heal_region :: "nat \<Rightarrow> nat list list list \<Rightarrow> nat \<Rightarrow> nat list" where
  "collect_heal_region N adj q =
    (let one = foldl (add_unique N) [q] (concat (adj ! q))
     in foldl (add_unique N) one (concat (map (\<lambda>u. concat (adj ! u)) (tl one))))"

definition hs_remove_label :: "nat \<Rightarrow> nat \<Rightarrow> nat \<Rightarrow> heal_state \<Rightarrow> heal_state" where
  "hs_remove_label target n L hs =
    (let xs = hs_adj hs ! n ! L; ys = removeAll target xs
     in hs\<lparr>hs_adj := put_nbrs n L ys (hs_adj hs), hs_removed := hs_removed hs + int (length xs - length ys)\<rparr>)"

definition hs_ensure :: "nat \<Rightarrow> nat \<Rightarrow> heal_state \<Rightarrow> heal_state" where
  "hs_ensure n L hs = hs\<lparr>hs_adj := ensure_layer_slot n L (hs_adj hs)\<rparr>"

definition node_dist :: "'d fp \<Rightarrow> f32 list list \<Rightarrow> nat \<Rightarrow> nat \<Rightarrow> 'd" where
  "node_dist f rows a b = fp_l2 f (rows ! a) (rows ! b)"

definition navigability_score :: "'d fp \<Rightarrow> f32 list list \<Rightarrow> nat list list list \<Rightarrow> nat \<Rightarrow> nat \<Rightarrow> 'd" where
  "navigability_score f rows adj n L =
    (if length adj \<le> n \<or> length (adj ! n) \<le> L then fp_zero f
     else foldl (\<lambda>s nb. if nb < length rows then fp_add f s (fp_inv1 f (node_dist f rows n nb)) else s)
            (fp_zero f) (adj ! n ! L))"

text \<open>Index and distance of the farthest neighbour, the first one among equals.\<close>

fun farthest :: "'d fp \<Rightarrow> f32 list list \<Rightarrow> nat \<Rightarrow> nat \<Rightarrow> nat list \<Rightarrow> nat \<Rightarrow> 'd \<Rightarrow> nat \<times> 'd" where
  "farthest f rows n i [] bi bd = (bi, bd)"
| "farthest f rows n i (x # xs) bi bd =
    (let d = node_dist f rows n x
     in if fp_less f bd d then farthest f rows n (Suc i) xs i d else farthest f rows n (Suc i) xs bi bd)"

definition ensure_capacity_for ::
  "'d fp \<Rightarrow> f32 list list \<Rightarrow> nat \<Rightarrow> nat \<Rightarrow> nat \<Rightarrow> int \<Rightarrow> heal_state \<Rightarrow> bool \<times> heal_state" where
  "ensure_capacity_for f rows node cand L max_m hs0 =
    (let hs = hs_ensure node L hs0; nbrs = hs_adj hs ! node ! L in
     if cand \<in> set nbrs then (True, hs)
     else if int (length nbrs) < max_m then (True, hs)
     else
       let (fi, fd) = farthest f rows node 0 nbrs 0 (fp_minus_one f);
           dc = node_dist f rows node cand
       in if \<not> fp_less f dc fd then (False, hs)
       else
         let far = nbrs ! fi;
             before = navigability_score f rows (hs_adj hs) node L;
             after = fp_add f (fp_sub f before (fp_inv1 f fd)) (fp_inv1 f dc)
         in if \<not> fp_less f before after then (False, hs)
         else
           let hs1 = hs\<lparr>hs_adj := put_nbrs node L (take fi nbrs @ drop (Suc fi) nbrs) (hs_adj hs),
                        hs_removed := hs_removed hs + 1\<rparr>
           in (True, if far < length rows then hs_remove_label node far L (hs_ensure far L hs1) else hs1))"

definition commit_half_edge ::
  "'d fp \<Rightarrow> f32 list list \<Rightarrow> nat \<Rightarrow> nat \<Rightarrow> nat \<Rightarrow> int \<Rightarrow> heal_state \<Rightarrow> heal_state" where
  "commit_half_edge f rows node cand L max_m hs0 =
    (let hs = hs_ensure node L hs0 in
     if cand \<in> set (hs_adj hs ! node ! L) then hs
     else case ensure_capacity_for f rows node cand L max_m hs of
       (False, hs1) \<Rightarrow> hs1
     | (True, hs1) \<Rightarrow>
         if cand \<in> set (hs_adj hs1 ! node ! L) then hs1
         else if max_m \<le> int (length (hs_adj hs1 ! node ! L)) then hs1
         else hs1\<lparr>hs_adj := put_nbrs node L (hs_adj hs1 ! node ! L @ [cand]) (hs_adj hs1),
                  hs_added := hs_added hs1 + 1\<rparr>)"

definition try_insert_healed_edge ::
  "'d fp \<Rightarrow> f32 list list \<Rightarrow> nat \<Rightarrow> int \<Rightarrow> heal_state \<Rightarrow> nat \<times> nat \<Rightarrow> heal_state" where
  "try_insert_healed_edge f rows L max_m hs0 c =
    (case c of (u, w) \<Rightarrow>
      if u = w then hs0
      else if length rows \<le> u \<or> length rows \<le> w then hs0
      else
        let hs = hs_ensure w L (hs_ensure u L hs0);
            u_has = (w \<in> set (hs_adj hs ! u ! L));
            w_has = (u \<in> set (hs_adj hs ! w ! L));
            commit = (\<lambda>h. let h1 = (if u_has then h else commit_half_edge f rows u w L max_m h)
                          in if w_has then h1 else commit_half_edge f rows w u L max_m h1)
        in if u_has \<and> w_has then hs
           else if \<not> u_has \<and> \<not> w_has then
             (case ensure_capacity_for f rows u w L max_m hs of
                (False, h1) \<Rightarrow> h1
              | (True, h1) \<Rightarrow>
                  (case ensure_capacity_for f rows w u L max_m h1 of
                     (False, h2) \<Rightarrow> h2
                   | (True, h2) \<Rightarrow> commit h2))
           else commit hs)"

fun pairs_of :: "nat list \<Rightarrow> (nat \<times> nat) list" where
  "pairs_of [] = []"
| "pairs_of (u # us) = map (\<lambda>w. (u, w)) us @ pairs_of us"

definition cand_less :: "'d fp \<Rightarrow> f32 list list \<Rightarrow> nat \<times> nat \<Rightarrow> nat \<times> nat \<Rightarrow> bool" where
  "cand_less f rows a b =
    (let da = node_dist f rows (fst a) (snd a); db = node_dist f rows (fst b) (snd b) in
     if \<not> fp_eq f da db then fp_less f da db
     else if fst a \<noteq> fst b then fst a < fst b else snd a < snd b)"

fun cand_insert :: "'d fp \<Rightarrow> f32 list list \<Rightarrow> nat \<times> nat \<Rightarrow> (nat \<times> nat) list \<Rightarrow> (nat \<times> nat) list" where
  "cand_insert f rows c [] = [c]"
| "cand_insert f rows c (x # xs) =
    (if cand_less f rows c x then c # x # xs else x # cand_insert f rows c xs)"

definition heal_layer ::
  "'d fp \<Rightarrow> f32 list list \<Rightarrow> nat \<Rightarrow> nat list \<Rightarrow> int \<Rightarrow> heal_state \<Rightarrow> nat \<Rightarrow> heal_state" where
  "heal_layer f rows q region max_m hs L =
    (let adj = hs_adj hs;
         raw = (if L < length (adj ! q) then adj ! q ! L else []);
         orphans = foldl (\<lambda>us u. if u \<noteq> q then add_unique (length rows) us u else us) [] raw;
         h1 = foldl (\<lambda>h u. hs_remove_label q u L (hs_ensure u L h)) hs orphans;
         h2 = (if L < length (hs_adj h1 ! q)
               then h1\<lparr>hs_removed := hs_removed h1 + int (length (hs_adj h1 ! q ! L)),
                       hs_adj := put_nbrs q L [] (hs_adj h1)\<rparr> else h1);
         h3 = foldl (\<lambda>h v. if v \<noteq> q \<and> L < length (hs_adj h ! v) then hs_remove_label q v L h else h) h2 region
     in if length orphans < 2 then h3
        else foldl (try_insert_healed_edge f rows L max_m) h3
               (foldr (cand_insert f rows) (pairs_of orphans) []))"

definition heal_graph_structure ::
  "'d fp \<Rightarrow> hnsw_index \<Rightarrow> int \<Rightarrow> int \<Rightarrow> (int \<times> int \<times> hnsw_index) res" where
  "heal_graph_structure f ix node max_m =
    (if max_m \<le> 0 then Inl (ValueError ''heal_graph_structure: max_m must be positive'')
     else bind_res (ensure_node ix node) (\<lambda>q.
       let rows = hx_rows ix; adj = hx_adj ix;
           region = collect_heal_region (length rows) adj q;
           layers = foldl max 0 (map (\<lambda>n. length (adj ! n)) (q # region));
           h = foldl (heal_layer f rows q region max_m) \<lparr>hs_adj = adj, hs_removed = 0, hs_added = 0\<rparr> [0..<layers];
           left = hs_adj h ! q;
           adj' = (hs_adj h)[q := map (\<lambda>_. []) left];
           entry = (if hx_entry ix = node
                    then (if q \<noteq> 0 then 0 else if 1 < length rows then 1 else -1) else hx_entry ix)
       in Inr (hs_removed h + int (sum_list (map length left)), hs_added h,
               ix\<lparr>hx_adj := adj', hx_entry := entry\<rparr>)))"

text \<open>\<open>erase_node\<close> through the binding: the arguments must fit \<open>int64\<close> and \<open>int\<close>. The wipe
  happens first, so it stays when the repair raises. \<open>ms\<close> is the rendered duration.\<close>

definition erase_node ::
  "'d fp \<Rightarrow> string \<Rightarrow> int \<Rightarrow> int \<Rightarrow> hnsw_index \<Rightarrow> erasure_result res \<times> hnsw_index" where
  "erase_node f ms node max_m ix =
    (if node < - (2 ^ 63) \<or> 2 ^ 63 \<le> node \<or> max_m < - (2 ^ 31) \<or> 2 ^ 31 \<le> max_m
     then (Inl (TypeError ''incompatible function arguments''), ix)
     else case overwrite_vector ix node of
       Inl e \<Rightarrow> (Inl e, ix)
     | Inr ix1 \<Rightarrow>
         (case heal_graph_structure f ix1 node max_m of
            Inl e \<Rightarrow> (Inl e, ix1)
          | Inr (removed, added, ix2) \<Rightarrow>
              (Inr \<lparr>er_success = True, er_node_id = node, er_bytes_wiped = int (hx_dim ix * 4),
                    er_message = ''vector zeroed; graph healed (removed='' @ int_str removed
                      @ '', added='' @ int_str added @ '', '' @ ms @ '' ms)''\<rparr>, ix2)))"


section \<open>The binary file\<close>

text \<open>\<open>save_to_file\<close> writes a header, the rows and the adjacency; \<open>load_from_file\<close> reads them
  back, checking magic, version, sizes and neighbour ranges. A signed 64-bit field is written in
  two's complement.\<close>

definition le_i64 :: "int \<Rightarrow> bytes" where
  "le_i64 v = le_bytes 8 (nat (v mod 2 ^ 64))"

definition i64_of :: "nat \<Rightarrow> int" where
  "i64_of n = (if n < 2 ^ 63 then int n else int n - 2 ^ 64)"

definition enc_list :: "('a \<Rightarrow> bytes) \<Rightarrow> 'a list \<Rightarrow> bytes" where
  "enc_list e xs = concat (map e xs)"

definition enc_layer :: "nat list \<Rightarrow> bytes" where
  "enc_layer nbrs = le_bytes 4 (length nbrs) @ enc_list (\<lambda>nb. le_i64 (int nb)) nbrs"

definition enc_node :: "nat list list \<Rightarrow> bytes" where
  "enc_node layers = le_bytes 4 (length layers) @ enc_list enc_layer layers"

definition row_bytes :: "f32 list \<Rightarrow> bytes" where
  "row_bytes r = enc_list (\<lambda>w. le_bytes 4 (unat w)) r"

definition HNSW_MAGIC :: bytes where "HNSW_MAGIC = str_bytes ''HNSW''"

definition save_to_file :: "hnsw_index \<Rightarrow> bytes res" where
  "save_to_file ix =
    (if \<not> is_loaded ix then Inl (RuntimeError ''save_to_file: no index loaded; call load_index first'')
     else Inr (HNSW_MAGIC @ le_bytes 4 1 @ le_bytes 8 (num_elements ix) @ le_bytes 8 (hx_dim ix)
               @ le_i64 (hx_entry ix) @ enc_list row_bytes (hx_rows ix) @ enc_list enc_node (hx_adj ix)))"

type_synonym 'a parser = "bytes \<Rightarrow> ('a \<times> bytes) res"

definition truncated :: exn where
  "truncated = RuntimeError ''load_from_file: truncated or corrupt file''"

definition read_le :: "nat \<Rightarrow> nat parser" where
  "read_le n bs = (if length bs < n then Inl truncated else Inr (le_nat (take n bs), drop n bs))"

fun read_n :: "nat \<Rightarrow> 'a parser \<Rightarrow> 'a list parser" where
  "read_n 0 p bs = Inr ([], bs)"
| "read_n (Suc k) p bs =
     bind_res (p bs) (\<lambda>(x, bs1). bind_res (read_n k p bs1) (\<lambda>(xs, bs2). Inr (x # xs, bs2)))"

definition read_nbr :: "nat \<Rightarrow> nat parser" where
  "read_nbr n bs = bind_res (read_le 8 bs) (\<lambda>(v, bs1).
     let nb = i64_of v in
     if nb < 0 \<or> int n \<le> nb then Inl (RuntimeError ''load_from_file: neighbor out of range'')
     else Inr (nat nb, bs1))"

definition read_counted :: "'a parser \<Rightarrow> 'a list parser" where
  "read_counted p bs = bind_res (read_le 4 bs) (\<lambda>(k, bs1). read_n k p bs1)"

definition read_row :: "nat \<Rightarrow> f32 list parser" where
  "read_row d bs = bind_res (read_n d (read_le 4) bs) (\<lambda>(vs, bs1). Inr (map word_of_nat vs, bs1))"

definition load_from_file :: "bytes \<Rightarrow> hnsw_index res" where
  "load_from_file bs =
    (if take 4 bs \<noteq> HNSW_MAGIC
     then Inl (RuntimeError ''load_from_file: bad magic (not an HNSW index blob)'')
     else bind_res (read_le 4 (drop 4 bs)) (\<lambda>(version, b1).
       if version \<noteq> 1
       then Inl (RuntimeError (''load_from_file: unsupported version '' @ nat_str version))
       else bind_res (read_le 8 b1) (\<lambda>(n, b2). bind_res (read_le 8 b2) (\<lambda>(d, b3).
         bind_res (read_le 8 b3) (\<lambda>(ep, b4).
           if 0 < n \<and> d = 0
           then Inl (RuntimeError ''load_from_file: dim == 0 with non-zero element count'')
           else if d \<noteq> 0 \<and> (2 ^ 64 - 1) div d < n
           then Inl (RuntimeError ''load_from_file: vector buffer overflow'')
           else bind_res (read_n n (read_row d) b4) (\<lambda>(rows, b5).
             bind_res (read_n n (read_counted (read_counted (read_nbr n))) b5) (\<lambda>(adj, _).
               let e = i64_of ep in
               Inr \<lparr>hx_dim = d, hx_rows = rows, hx_adj = adj,
                    hx_entry = (if 0 \<le> e \<and> int n \<le> e then (if 0 < n then 0 else -1) else e)\<rparr>)))))))"

section \<open>Well-formed indexes\<close>

definition index_ok :: "hnsw_index \<Rightarrow> bool" where
  "index_ok ix \<longleftrightarrow>
     list_all (\<lambda>r. length r = hx_dim ix) (hx_rows ix)
     \<and> length (hx_adj ix) = length (hx_rows ix)
     \<and> list_all (list_all (list_all (\<lambda>nb. nb < length (hx_rows ix)))) (hx_adj ix)
     \<and> - 1 \<le> hx_entry ix \<and> hx_entry ix < int (length (hx_rows ix))
     \<and> (hx_rows ix \<noteq> [] \<longrightarrow> 0 < hx_dim ix)"

text \<open>The sizes fit the fields of the file; true of every index that fits in memory.\<close>

definition index_fits :: "hnsw_index \<Rightarrow> bool" where
  "index_fits ix \<longleftrightarrow> length (hx_rows ix) < 2 ^ 63 \<and> hx_dim ix < 2 ^ 64
     \<and> length (hx_rows ix) * hx_dim ix < 2 ^ 64
     \<and> list_all (\<lambda>ls. length ls < 2 ^ 32 \<and> list_all (\<lambda>l. length l < 2 ^ 32) ls) (hx_adj ix)"

section \<open>Reading back a saved index\<close>

lemma read_le_append: "v < 256 ^ n \<Longrightarrow> read_le n (le_bytes n v @ bs) = Inr (v, bs)"
  by (simp add: read_le_def le_nat_le_bytes)

lemma read_n_append:
  assumes "\<And>x bs. x \<in> set xs \<Longrightarrow> p (e x @ bs) = Inr (f x, bs)"
  shows "read_n (length xs) p (enc_list e xs @ bs) = Inr (map f xs, bs)"
  using assms by (induction xs) (auto simp: enc_list_def)

lemma i64_le_i64:
  assumes "- (2 ^ 63) \<le> v" and "v < 2 ^ 63"
  shows "nat (v mod 2 ^ 64) < 256 ^ 8 \<and> i64_of (nat (v mod 2 ^ 64)) = v"
proof (cases "0 \<le> v")
  case True
  then show ?thesis using assms by (simp add: i64_of_def nat_less_iff)
next
  case False
  have "v mod 2 ^ 64 = (v + 2 ^ 64) mod 2 ^ 64" by simp
  also have "\<dots> = v + 2 ^ 64" using assms False by (intro mod_pos_pos_trivial) auto
  finally have "v mod 2 ^ 64 = v + 2 ^ 64" .
  then show ?thesis using assms False by (auto simp: i64_of_def nat_less_iff)
qed

lemma read_nbr_append:
  assumes "nb < n" and "n < 2 ^ 63"
  shows "read_nbr n (le_i64 (int nb) @ bs) = Inr (nb, bs)"
proof -
  have "nat (int nb mod 2 ^ 64) < 256 ^ 8" "i64_of (nat (int nb mod 2 ^ 64)) = int nb"
    using i64_le_i64 [of "int nb"] assms by simp_all
  then show ?thesis using assms by (simp add: read_nbr_def le_i64_def read_le_append)
qed

lemma read_counted_append:
  assumes "length xs < 2 ^ 32" and "\<And>x bs. x \<in> set xs \<Longrightarrow> p (e x @ bs) = Inr (x, bs)"
  shows "read_counted p (le_bytes 4 (length xs) @ enc_list e xs @ bs) = Inr (xs, bs)"
  using assms(1) read_n_append [of xs p e "\<lambda>x. x" bs] assms(2)
  by (simp add: read_counted_def read_le_append)

lemma read_row_append: "length r = d \<Longrightarrow> read_row d (row_bytes r @ bs) = Inr (r, bs)"
proof -
  assume d: "length r = d"
  have "read_n (length r) (read_le 4) (row_bytes r @ bs) = Inr (map unat r, bs)"
    unfolding row_bytes_def
  proof (intro read_n_append read_le_append)
    fix w :: f32
    show "unat w < 256 ^ 4" using unsigned_less [of w] by simp
  qed
  then show ?thesis using d by (simp add: read_row_def comp_def)
qed

lemma read_node_append:
  assumes "length ls < 2 ^ 32" "\<forall>l\<in>set ls. length l < 2 ^ 32 \<and> (\<forall>nb\<in>set l. nb < n)" "n < 2 ^ 63"
  shows "read_counted (read_counted (read_nbr n)) (enc_node ls @ bs) = Inr (ls, bs)"
proof -
  have "read_counted (read_nbr n) (enc_layer l @ x) = Inr (l, x)" if "l \<in> set ls" for l x
    unfolding enc_layer_def append_assoc
    using assms that by (intro read_counted_append) (auto intro: read_nbr_append)
  then show ?thesis
    unfolding enc_node_def append_assoc using assms(1) by (intro read_counted_append) auto
qed

lemma load_save:
  assumes ok: "index_ok ix" and fits: "index_fits ix" and ld: "is_loaded ix"
  shows "\<exists>b. save_to_file ix = Inr b \<and> load_from_file b = Inr ix"
proof -
  let ?n = "length (hx_rows ix)" and ?d = "hx_dim ix"
  have n: "?n < 2 ^ 63" and d: "?d < 2 ^ 64" and nd: "?n * ?d < 2 ^ 64" and d0: "0 < ?d" and n0: "0 < ?n"
    using ok fits ld by (auto simp: index_fits_def index_ok_def is_loaded_def)
  obtain E where ep: "le_i64 (hx_entry ix) = le_bytes 8 E" "E < 256 ^ 8" "i64_of E = hx_entry ix"
    using i64_le_i64 [of "hx_entry ix"] ok n unfolding le_i64_def index_ok_def by fastforce
  have rows: "read_n ?n (read_row ?d) (enc_list row_bytes (hx_rows ix) @ x) = Inr (hx_rows ix, x)" for x
    using read_n_append [of "hx_rows ix" "read_row ?d" row_bytes "\<lambda>r. r" x] ok
    by (auto simp: index_ok_def list_all_iff read_row_append)
  have adj: "read_n ?n (read_counted (read_counted (read_nbr ?n))) (enc_list enc_node (hx_adj ix) @ x)
      = Inr (hx_adj ix, x)" for x
    using read_n_append [of "hx_adj ix" "read_counted (read_counted (read_nbr ?n))" enc_node "\<lambda>r. r" x] ok fits n
    by (auto simp: index_ok_def index_fits_def list_all_iff read_node_append)
  have ovf: "\<not> (2 ^ 64 - 1) div ?d < ?n"
  proof -
    have "?n * ?d \<le> 2 ^ 64 - 1" using nd by simp
    then have "?n \<le> (2 ^ 64 - 1) div ?d" using d0 by (simp add: less_eq_div_iff_mult_less_eq)
    then show ?thesis by simp
  qed
  have magic: "length HNSW_MAGIC = 4" by (simp add: HNSW_MAGIC_def str_bytes_def)
  have n8: "?n < 256 ^ 8" using n by simp
  have d8: "?d < 256 ^ 8" using d by simp
  have e: "\<not> (0 \<le> hx_entry ix \<and> int ?n \<le> hx_entry ix)" using ok by (auto simp: index_ok_def)
  have v1: "read_le 4 (le_bytes 4 (Suc 0) @ x) = Inr (Suc 0, x)" for x by (rule read_le_append) simp
  show ?thesis
    using ld n0 d0 ovf e adj [of "[]"]
    by (auto simp: save_to_file_def load_from_file_def magic num_elements_def v1 ep rows
        read_le_append [OF n8] read_le_append [OF d8] read_le_append [OF ep(2)] Let_def
        simp del: bind_res_Inr)
qed


section \<open>What the repair can change\<close>

text \<open>
  \<open>nbrs_at adj n L\<close> is the neighbour list of \<open>n\<close> on layer \<open>L\<close>, empty when there is none.
  \<open>grows N m Q adj adj'\<close>: going from \<open>adj\<close> to \<open>adj'\<close> keeps the number of nodes, never makes a
  list longer than \<open>m\<close> unless it was that long before, and adds only nodes of \<open>Q\<close>, to nodes of
  \<open>Q\<close>. Every step of the repair is such a change, with the orphans of the layer for \<open>Q\<close>.
\<close>

definition nbrs_at :: "nat list list list \<Rightarrow> nat \<Rightarrow> nat \<Rightarrow> nat list" where
  "nbrs_at adj n L = (if n < length adj \<and> L < length (adj ! n) then adj ! n ! L else [])"

definition grows :: "nat \<Rightarrow> nat set \<Rightarrow> nat list list list \<Rightarrow> nat list list list \<Rightarrow> bool" where
  "grows m Q adj adj' \<longleftrightarrow> length adj' = length adj
     \<and> (\<forall>n L. length (nbrs_at adj' n L) \<le> max (length (nbrs_at adj n L)) m)
     \<and> (\<forall>n L. set (nbrs_at adj' n L) \<subseteq> set (nbrs_at adj n L) \<union> (if n \<in> Q then Q else {}))"

named_theorems grows_intros \<open>steps of the repair are \<open>grows\<close> changes\<close>

lemma grows_refl [simp, grows_intros]: "grows m Q adj adj"
  by (simp add: grows_def)

lemma grows_trans: "grows m Q a b \<Longrightarrow> grows m Q b c \<Longrightarrow> grows m Q a c"
  unfolding grows_def
  by (intro conjI allI) (simp, meson le_max_iff_disj order_trans max.bounded_iff max.cobounded2, blast)

lemma grows_mono: "grows m Q a b \<Longrightarrow> Q \<subseteq> P \<Longrightarrow> grows m P a b"
  unfolding grows_def by (auto split: if_splits) (blast, metis subset_iff Un_iff)

lemma grows_length: "grows m Q a b \<Longrightarrow> length b = length a"
  by (simp add: grows_def)

lemma nbrs_at_ensure [simp]: "nbrs_at (ensure_layer_slot n L adj) = nbrs_at adj"
proof (intro ext)
  fix k M
  show "nbrs_at (ensure_layer_slot n L adj) k M = nbrs_at adj k M"
    by (cases "k = n \<and> n < length adj") (auto simp: nbrs_at_def ensure_layer_slot_def nth_append)
qed

lemma length_ensure [simp]: "length (ensure_layer_slot n L adj) = length adj"
  by (simp add: ensure_layer_slot_def)

lemma ensure_slot: "n < length adj \<Longrightarrow> L < length (ensure_layer_slot n L adj ! n)"
  by (simp add: ensure_layer_slot_def)

lemma ensure_slot_mono: "k < length adj \<Longrightarrow> length (adj ! k) \<le> length (ensure_layer_slot n L adj ! k)"
  by (cases "k = n") (auto simp: ensure_layer_slot_def)

lemma grows_ensure [grows_intros]: "grows m Q adj (ensure_layer_slot n L adj)"
  by (simp add: grows_def)

lemma length_put [simp]: "length (put_nbrs n L xs adj) = length adj"
  by (simp add: put_nbrs_def)

lemma nbrs_at_put:
  "nbrs_at (put_nbrs n L xs adj) k M =
     (if k = n \<and> M = L \<and> n < length adj \<and> L < length (adj ! n) then xs else nbrs_at adj k M)"
  by (cases "n < length adj"; cases "L < length (adj ! n)"; cases "k = n")
    (auto simp: nbrs_at_def put_nbrs_def nth_list_update list_update_beyond)

lemma layers_put: "length (put_nbrs n L xs adj ! k) = length (adj ! k)"
  by (cases "k = n"; cases "n < length adj") (auto simp: put_nbrs_def list_update_beyond)

lemma grows_put_sub:
  assumes "length xs \<le> length (adj ! n ! L)" and "set xs \<subseteq> set (adj ! n ! L)"
  shows "grows m Q adj (put_nbrs n L xs adj)"
  using assms by (auto simp: grows_def nbrs_at_put) (auto simp: nbrs_at_def split: if_splits)

lemma grows_remove [grows_intros]: "grows m Q (hs_adj h) (hs_adj (hs_remove_label t n L h))"
  by (auto simp: hs_remove_label_def Let_def intro!: grows_put_sub length_removeAll_less_eq)

lemma grows_hs_ensure [grows_intros]: "grows m Q (hs_adj h) (hs_adj (hs_ensure n L h))"
  by (simp add: hs_ensure_def grows_ensure)

lemma farthest_bound:
  "farthest f rows n i xs bi bd = (k, d) \<Longrightarrow> k = bi \<or> (i \<le> k \<and> k < i + length xs)"
proof (induction f rows n i xs bi bd rule: farthest.induct)
  case (1 f rows n i bi bd)
  then show ?case by simp
next
  case (2 f rows n i x xs bi bd)
  then show ?case
    by (cases "fp_less f bd (node_dist f rows n x)") (fastforce simp: Let_def)+
qed

lemma grows_capacity [grows_intros]:
  "grows m Q (hs_adj h) (hs_adj (snd (ensure_capacity_for f rows n c L mm h)))"
proof -
  let ?h = "hs_ensure n L h"
  let ?x = "hs_adj ?h ! n ! L"
  have e: "grows m Q (hs_adj h) (hs_adj ?h)" by (rule grows_hs_ensure)
  have sub: "grows m Q (hs_adj ?h) (put_nbrs n L (take i ?x @ drop (Suc i) ?x) (hs_adj ?h))" for i
    by (rule grows_put_sub) (auto simp: min_def dest: in_set_takeD in_set_dropD)
  have rm: "grows m Q (put_nbrs n L (take i ?x @ drop (Suc i) ?x) (hs_adj ?h))
      (hs_adj (hs_remove_label n far L (hs_ensure far L
        (?h\<lparr>hs_adj := put_nbrs n L (take i ?x @ drop (Suc i) ?x) (hs_adj ?h), hs_removed := r\<rparr>))))" for i far r
    using grows_trans [OF grows_hs_ensure grows_remove,
        of m Q "?h\<lparr>hs_adj := put_nbrs n L (take i ?x @ drop (Suc i) ?x) (hs_adj ?h), hs_removed := r\<rparr>"]
    by simp
  show ?thesis
    using e grows_trans [OF e sub] grows_trans [OF grows_trans [OF e sub] rm]
    by (simp add: ensure_capacity_for_def Let_def split: prod.splits)
qed

lemma hs_adj_put_nbrs_grow:
  assumes "n \<in> Q" "c \<in> Q" "length (adj ! n ! L) < m"
  shows "grows m Q adj (put_nbrs n L (adj ! n ! L @ [c]) adj)"
  using assms by (auto simp: grows_def nbrs_at_put) (auto simp: nbrs_at_def split: if_splits)

lemma grows_commit [grows_intros]:
  assumes "n \<in> Q" "c \<in> Q"
  shows "grows (nat mm) Q (hs_adj h) (hs_adj (commit_half_edge f rows n c L mm h))"
proof -
  let ?h = "hs_ensure n L h"
  obtain b h1 where cap: "ensure_capacity_for f rows n c L mm ?h = (b, h1)" by fastforce
  have e: "grows (nat mm) Q (hs_adj h) (hs_adj ?h)" by (rule grows_hs_ensure)
  have e1: "grows (nat mm) Q (hs_adj h) (hs_adj h1)"
    using grows_trans [OF e grows_capacity [of _ _ ?h f rows n c L mm]] cap by simp
  have "grows (nat mm) Q (hs_adj h1) (put_nbrs n L (hs_adj h1 ! n ! L @ [c]) (hs_adj h1))"
    if "int (length (hs_adj h1 ! n ! L)) < mm"
    using assms that by (intro hs_adj_put_nbrs_grow) auto
  then show ?thesis
    using e e1 cap grows_trans [OF e1] by (auto simp: commit_half_edge_def Let_def split: bool.splits)
qed

lemma grows_try [grows_intros]:
  assumes "u \<in> Q" "w \<in> Q"
  shows "grows (nat mm) Q (hs_adj h) (hs_adj (try_insert_healed_edge f rows L mm h (u, w)))"
proof -
  define hs where "hs = hs_ensure w L (hs_ensure u L h)"
  have e: "grows (nat mm) Q (hs_adj h) (hs_adj hs)"
    unfolding hs_def by (rule grows_trans [OF grows_hs_ensure grows_hs_ensure])
  obtain b1 h1 where c1: "ensure_capacity_for f rows u w L mm hs = (b1, h1)" by fastforce
  obtain b2 h2 where c2: "ensure_capacity_for f rows w u L mm h1 = (b2, h2)" by fastforce
  have g1: "grows (nat mm) Q (hs_adj h) (hs_adj h1)"
    using grows_trans [OF e grows_capacity [of _ _ hs f rows u w L mm]] c1 by simp
  have g2: "grows (nat mm) Q (hs_adj h) (hs_adj h2)"
    using grows_trans [OF g1 grows_capacity [of _ _ h1 f rows w u L mm]] c2 by simp
  have uw: "grows (nat mm) Q (hs_adj x) (hs_adj (commit_half_edge f rows u w L mm x))" for x
    by (rule grows_commit [OF assms])
  have wu: "grows (nat mm) Q (hs_adj x) (hs_adj (commit_half_edge f rows w u L mm x))" for x
    by (rule grows_commit [OF assms(2,1)])
  show ?thesis
    unfolding try_insert_healed_edge_def prod.case hs_def [symmetric]
    using e g1 g2 grows_trans [OF e uw] grows_trans [OF e wu] grows_trans [OF g2 uw]
      grows_trans [OF grows_trans [OF g2 uw] wu]
    by (simp add: Let_def c1 c2 split: bool.splits)
qed

lemma grows_foldl:
  assumes "\<And>x h. x \<in> set xs \<Longrightarrow> grows m Q (hs_adj h) (hs_adj (g h x))"
  shows "grows m Q (hs_adj h) (hs_adj (foldl g h xs))"
  using assms
proof (induction xs arbitrary: h)
  case Nil
  then show ?case by simp
next
  case (Cons x xs)
  then show ?case using grows_trans [of m Q "hs_adj h" "hs_adj (g h x)"] by simp
qed


text \<open>The number of layers of a node never passes a bound that already holds for the region.\<close>

definition layers_le :: "nat \<Rightarrow> nat list list list \<Rightarrow> bool" where
  "layers_le B adj \<longleftrightarrow> (\<forall>n < length adj. length (adj ! n) \<le> B)"

lemma layers_le_put [simp]: "layers_le B (put_nbrs n L xs adj) = layers_le B adj"
  by (simp add: layers_le_def layers_put)

lemma layers_le_ensure: "layers_le B adj \<Longrightarrow> L < B \<Longrightarrow> layers_le B (ensure_layer_slot n L adj)"
  by (cases "n < length adj") (auto simp: layers_le_def ensure_layer_slot_def nth_list_update list_update_beyond)

lemma layers_le_hs_ensure: "layers_le B (hs_adj h) \<Longrightarrow> L < B \<Longrightarrow> layers_le B (hs_adj (hs_ensure n L h))"
  by (simp add: hs_ensure_def layers_le_ensure)

lemma layers_le_remove [simp]: "layers_le B (hs_adj (hs_remove_label t n L h)) = layers_le B (hs_adj h)"
  by (simp add: hs_remove_label_def Let_def)

lemma layers_le_capacity:
  "layers_le B (hs_adj h) \<Longrightarrow> L < B \<Longrightarrow> layers_le B (hs_adj (snd (ensure_capacity_for f rows n c L mm h)))"
  by (auto simp: ensure_capacity_for_def Let_def layers_le_hs_ensure split: prod.splits)

lemma layers_le_commit:
  assumes "layers_le B (hs_adj h)" "L < B"
  shows "layers_le B (hs_adj (commit_half_edge f rows n c L mm h))"
proof -
  obtain b h1 where cap: "ensure_capacity_for f rows n c L mm (hs_ensure n L h) = (b, h1)" by fastforce
  have "layers_le B (hs_adj (hs_ensure n L h))" using assms by (rule layers_le_hs_ensure)
  then show ?thesis
    using layers_le_capacity [of B "hs_ensure n L h" L f rows n c mm] assms(2) cap
    by (auto simp: commit_half_edge_def Let_def split: bool.splits)
qed

lemma layers_le_try:
  assumes "layers_le B (hs_adj h)" "L < B"
  shows "layers_le B (hs_adj (try_insert_healed_edge f rows L mm h c))"
proof -
  obtain u w where c: "c = (u, w)" by fastforce
  define hs where "hs = hs_ensure w L (hs_ensure u L h)"
  have e: "layers_le B (hs_adj hs)" unfolding hs_def using assms by (intro layers_le_hs_ensure)
  obtain b1 h1 where c1: "ensure_capacity_for f rows u w L mm hs = (b1, h1)" by fastforce
  obtain b2 h2 where c2: "ensure_capacity_for f rows w u L mm h1 = (b2, h2)" by fastforce
  have g1: "layers_le B (hs_adj h1)" using layers_le_capacity [OF e assms(2), of f rows u w mm] c1 by simp
  have g2: "layers_le B (hs_adj h2)" using layers_le_capacity [OF g1 assms(2), of f rows w u mm] c2 by simp
  show ?thesis
    unfolding try_insert_healed_edge_def c prod.case hs_def [symmetric]
    using assms e g1 g2 by (simp add: Let_def c1 c2 layers_le_commit split: bool.splits)
qed

lemma layers_le_foldl:
  assumes "layers_le B (hs_adj h)"
    and "\<And>x h. x \<in> set xs \<Longrightarrow> layers_le B (hs_adj h) \<Longrightarrow> layers_le B (hs_adj (g h x))"
  shows "layers_le B (hs_adj (foldl g h xs))"
  using assms by (induction xs arbitrary: h) auto

lemma heal_layer_layers: "layers_le B (hs_adj h) \<Longrightarrow> L < B \<Longrightarrow> layers_le B (hs_adj (heal_layer f rows q region mm h L))"
  unfolding heal_layer_def Let_def
  by (auto intro!: layers_le_foldl layers_le_try layers_le_hs_ensure)

section \<open>The deleted node is cut out of the graph\<close>

lemma set_add_unique: "set (add_unique N us u) = set us \<union> (if u < N then {u} else {})"
  by (auto simp: add_unique_def)

lemma set_foldl_add_unique: "set (foldl (add_unique N) us xs) = set us \<union> {x \<in> set xs. x < N}"
  by (induction xs arbitrary: us) (auto simp: set_add_unique)

lemma orphans_sub:
  "set (foldl (\<lambda>us u. if u \<noteq> q then add_unique N us u else us) us xs)
     = set us \<union> {x \<in> set xs. x < N \<and> x \<noteq> q}"
  by (induction xs arbitrary: us) (auto simp: set_add_unique)

lemma region_bounds: "q < N \<Longrightarrow> v \<in> set (collect_heal_region N adj q) \<Longrightarrow> v < N"
  by (auto simp: collect_heal_region_def Let_def set_foldl_add_unique)

lemma region_has: "q \<in> set (collect_heal_region N adj q)"
  by (simp add: collect_heal_region_def Let_def set_foldl_add_unique)

lemma set_pairs_of: "(u, w) \<in> set (pairs_of us) \<Longrightarrow> u \<in> set us \<and> w \<in> set us"
  by (induction us) auto

lemma set_cand_insert: "set (cand_insert f rows c xs) = insert c (set xs)"
  by (induction xs) auto

lemma set_cand_sort: "set (foldr (cand_insert f rows) cs []) = set cs"
  by (induction cs) (auto simp: set_cand_insert)

definition isolated_on :: "nat \<Rightarrow> nat list \<Rightarrow> nat list list list \<Rightarrow> nat \<Rightarrow> bool" where
  "isolated_on q region adj L \<longleftrightarrow> nbrs_at adj q L = [] \<and> (\<forall>v\<in>set region. q \<notin> set (nbrs_at adj v L))"

lemma isolated_grows:
  assumes "grows m Q a b" "q \<notin> Q" "isolated_on q region a L"
  shows "isolated_on q region b L"
proof -
  have sub: "set (nbrs_at b n L) \<subseteq> set (nbrs_at a n L) \<union> (if n \<in> Q then Q else {})" for n
    using assms(1) by (simp add: grows_def)
  have "set (nbrs_at b q L) = {}" using sub [of q] assms by (simp add: isolated_on_def)
  moreover have "q \<notin> set (nbrs_at b v L)" if "v \<in> set region" for v
    using sub [of v] assms(2,3) that by (auto simp: isolated_on_def split: if_splits)
  ultimately show ?thesis by (simp add: isolated_on_def)
qed

lemma absent_grows: "grows m {} a b \<Longrightarrow> q \<notin> set (nbrs_at a v L) \<Longrightarrow> q \<notin> set (nbrs_at b v L)"
  unfolding grows_def by (simp only: if_cancel) blast

lemma remove_absent:
  "v < length (hs_adj h) \<Longrightarrow> L < length (hs_adj h ! v) \<Longrightarrow> q \<notin> set (nbrs_at (hs_adj (hs_remove_label q v L h)) v L)"
  by (simp add: hs_remove_label_def Let_def nbrs_at_put)

lemma residual_removed:
  fixes h :: heal_state and q L :: nat
  defines "g \<equiv> \<lambda>h v. if v \<noteq> q \<and> L < length (hs_adj h ! v) then hs_remove_label q v L h else h"
  assumes "\<forall>v\<in>set region. v < length (hs_adj h)" and "nbrs_at (hs_adj h) q L = []"
  shows "grows m {} (hs_adj h) (hs_adj (foldl g h region)) \<and> isolated_on q region (hs_adj (foldl g h region)) L"
  using assms(2,3)
proof (induction region arbitrary: h)
  case Nil
  then show ?case by (simp add: isolated_on_def)
next
  case (Cons v vs)
  have gr: "grows m {} (hs_adj h) (hs_adj (g h v))" by (simp add: g_def grows_remove)
  have nq: "nbrs_at (hs_adj (g h v)) q L = []"
    using isolated_grows [OF gr, of q "[]" L] Cons.prems(2) by (simp add: isolated_on_def)
  have len: "\<forall>x\<in>set vs. x < length (hs_adj (g h v))" using Cons.prems(1) grows_length [OF gr] by simp
  have here: "q \<notin> set (nbrs_at (hs_adj (g h v)) v L)"
  proof (cases "v \<noteq> q \<and> L < length (hs_adj h ! v)")
    case True
    then show ?thesis using Cons.prems(1) by (simp add: g_def remove_absent)
  next
    case False
    then show ?thesis using Cons.prems by (auto simp: g_def nbrs_at_def split: if_splits)
  qed
  have tl: "grows m {} (hs_adj (g h v)) (hs_adj (foldl g (g h v) vs))
      \<and> isolated_on q vs (hs_adj (foldl g (g h v) vs)) L"
    by (rule Cons.IH [OF len nq])
  have "q \<notin> set (nbrs_at (hs_adj (foldl g (g h v) vs)) v L)"
    using absent_grows [of m _ _ q v L] tl here by blast
  then show ?case using tl gr grows_trans by (auto simp: isolated_on_def)
qed

text \<open>Only former neighbours of the node on the layer gain links, and only to each other.\<close>

lemma heal_layer_ok:
  assumes len: "length (hs_adj h) = length rows" and q: "q < length rows"
    and reg: "\<forall>v\<in>set region. v < length rows"
  shows "grows (nat mm) {u \<in> set (nbrs_at (hs_adj h) q L). u < length rows \<and> u \<noteq> q} (hs_adj h)
      (hs_adj (heal_layer f rows q region mm h L))
    \<and> isolated_on q region (hs_adj (heal_layer f rows q region mm h L)) L"
proof -
  let ?Q = "{u \<in> set (nbrs_at (hs_adj h) q L). u < length rows \<and> u \<noteq> q}"
  define raw where "raw = (if L < length (hs_adj h ! q) then hs_adj h ! q ! L else [])"
  define orphans where "orphans = foldl (\<lambda>us u. if u \<noteq> q then add_unique (length rows) us u else us) [] raw"
  define h1 where "h1 = foldl (\<lambda>h u. hs_remove_label q u L (hs_ensure u L h)) h orphans"
  define h2 where "h2 = (if L < length (hs_adj h1 ! q)
     then h1\<lparr>hs_removed := hs_removed h1 + int (length (hs_adj h1 ! q ! L)), hs_adj := put_nbrs q L [] (hs_adj h1)\<rparr>
     else h1)"
  define h3 where "h3 = foldl (\<lambda>h v. if v \<noteq> q \<and> L < length (hs_adj h ! v) then hs_remove_label q v L h else h) h2 region"
  have eq: "heal_layer f rows q region mm h L = (if length orphans < 2 then h3
      else foldl (try_insert_healed_edge f rows L mm) h3 (foldr (cand_insert f rows) (pairs_of orphans) []))"
    unfolding heal_layer_def Let_def raw_def [symmetric] orphans_def [symmetric] h1_def [symmetric]
      h2_def [symmetric] h3_def [symmetric] by (rule refl)
  have raw: "raw = nbrs_at (hs_adj h) q L" using len q by (simp add: raw_def nbrs_at_def)
  have orph: "set orphans \<subseteq> ?Q" unfolding orphans_def raw by (auto simp: orphans_sub)
  have g1: "grows (nat mm) {} (hs_adj h) (hs_adj h1)"
    unfolding h1_def by (rule grows_foldl) (rule grows_trans [OF grows_hs_ensure grows_remove])
  have g2: "grows (nat mm) {} (hs_adj h1) (hs_adj h2)"
    by (auto simp: h2_def intro: grows_put_sub)
  have l1: "length (hs_adj h1) = length rows" "length (hs_adj h2) = length rows"
    using grows_length [OF g1] grows_length [OF g2] len by simp_all
  have nq: "nbrs_at (hs_adj h2) q L = []"
    using q l1 by (auto simp: h2_def nbrs_at_put) (auto simp: nbrs_at_def)
  have h3: "grows (nat mm) {} (hs_adj h2) (hs_adj h3)" "isolated_on q region (hs_adj h3) L"
    using residual_removed [of region h2 q L "nat mm"] reg l1 nq unfolding h3_def by auto
  have g3: "grows (nat mm) {} (hs_adj h) (hs_adj h3)" using g1 g2 h3(1) grows_trans by blast
  have gQ: "grows (nat mm) ?Q (hs_adj h) (hs_adj h3)" using g3 by (rule grows_mono) simp
  have tr: "grows (nat mm) ?Q (hs_adj h3)
      (hs_adj (foldl (try_insert_healed_edge f rows L mm) h3 (foldr (cand_insert f rows) (pairs_of orphans) [])))"
  proof (rule grows_foldl)
    fix c h assume "c \<in> set (foldr (cand_insert f rows) (pairs_of orphans) [])"
    then have "c \<in> set (pairs_of orphans)" by (simp only: set_cand_sort)
    then obtain u w where c: "c = (u, w)" "u \<in> set orphans" "w \<in> set orphans"
      using set_pairs_of by (metis surj_pair)
    then show "grows (nat mm) ?Q (hs_adj h) (hs_adj (try_insert_healed_edge f rows L mm h c))"
      using orph grows_try [of u ?Q w mm h f rows L] by auto
  qed
  show ?thesis
    using gQ h3(2) grows_trans [OF gQ tr] isolated_grows [OF tr _ h3(2)] by (simp add: eq)
qed

lemma heal_layers_ok:
  assumes "length (hs_adj h) = length rows" "q < length rows" "\<forall>v\<in>set region. v < length rows"
  shows "grows (nat mm) {u. u < length rows \<and> u \<noteq> q} (hs_adj h) (hs_adj (foldl (heal_layer f rows q region mm) h [0..<n]))
    \<and> (\<forall>L<n. isolated_on q region (hs_adj (foldl (heal_layer f rows q region mm) h [0..<n])) L)"
proof (induction n)
  case 0
  then show ?case by simp
next
  case (Suc n)
  let ?Q = "{u. u < length rows \<and> u \<noteq> q}"
  let ?h = "foldl (heal_layer f rows q region mm) h [0..<n]"
  have len: "length (hs_adj ?h) = length rows" using grows_length Suc.IH assms(1) by fastforce
  from heal_layer_ok [OF len assms(2,3), where mm = mm and f = f and L = n]
  have st: "grows (nat mm) ?Q (hs_adj ?h) (hs_adj (heal_layer f rows q region mm ?h n))"
    and iso: "isolated_on q region (hs_adj (heal_layer f rows q region mm ?h n)) n" by (auto elim: grows_mono)
  show ?case
    using Suc.IH grows_trans [OF _ st] isolated_grows [OF st] iso
    by (auto simp: less_Suc_eq)
qed


section \<open>The whole repair, and the erase that runs it\<close>

lemma adj_bound_nbrs:
  "list_all (list_all (list_all (\<lambda>nb. nb < N))) adj \<longleftrightarrow> (\<forall>n L. set (nbrs_at adj n L) \<subseteq> {..<N})"
proof
  assume "list_all (list_all (list_all (\<lambda>nb. nb < N))) adj"
  then have h: "\<And>ls l nb. ls \<in> set adj \<Longrightarrow> l \<in> set ls \<Longrightarrow> nb \<in> set l \<Longrightarrow> nb < N"
    unfolding list_all_iff by blast
  have "set (nbrs_at adj n L) \<subseteq> {..<N}" for n L
    unfolding nbrs_at_def using h [OF nth_mem [of n adj] nth_mem [of L "adj ! n"]] by auto
  then show "\<forall>n L. set (nbrs_at adj n L) \<subseteq> {..<N}" by blast
next
  assume h: "\<forall>n L. set (nbrs_at adj n L) \<subseteq> {..<N}"
  have "nb < N" if m: "ls \<in> set adj" "l \<in> set ls" "nb \<in> set l" for ls l nb
  proof -
    obtain n where n: "n < length adj" "adj ! n = ls" using m(1) by (auto simp: in_set_conv_nth)
    obtain L where "L < length ls" "ls ! L = l" using m(2) by (auto simp: in_set_conv_nth)
    then have "nb \<in> set (nbrs_at adj n L)" using m(3) n by (simp add: nbrs_at_def)
    then show ?thesis using h by blast
  qed
  then show "list_all (list_all (list_all (\<lambda>nb. nb < N))) adj" unfolding list_all_iff by blast
qed

lemma degrees_nbrs:
  assumes "layers_le (2 ^ 32 - 1) adj" "\<forall>n L. length (nbrs_at adj n L) < 2 ^ 32"
  shows "list_all (\<lambda>ls. length ls < 2 ^ 32 \<and> list_all (\<lambda>l. length l < 2 ^ 32) ls) adj"
proof -
  have "length ls < 2 ^ 32 \<and> (\<forall>l\<in>set ls. length l < 2 ^ 32)" if m: "ls \<in> set adj" for ls
  proof -
    obtain n where n: "n < length adj" "adj ! n = ls" using m by (auto simp: in_set_conv_nth)
    then have "length ls \<le> 2 ^ 32 - 1" using assms(1) by (auto simp: layers_le_def)
    moreover have "length l < 2 ^ 32" if l: "l \<in> set ls" for l
    proof -
      obtain L where "L < length ls" "ls ! L = l" using l by (auto simp: in_set_conv_nth)
      then have "nbrs_at adj n L = l" using n by (simp add: nbrs_at_def)
      then show ?thesis using assms(2) by metis
    qed
    ultimately show ?thesis by simp
  qed
  then show ?thesis by (simp add: list_all_iff)
qed

lemma fits_nbrs:
  assumes "list_all (\<lambda>ls. length ls < 2 ^ 32 \<and> list_all (\<lambda>l. length l < 2 ^ 32) ls) adj"
  shows "layers_le (2 ^ 32 - 1) adj \<and> (\<forall>n L. length (nbrs_at adj n L) < 2 ^ 32)"
proof -
  have "length (adj ! n) < 2 ^ 32 \<and> (\<forall>L < length (adj ! n). length (adj ! n ! L) < 2 ^ 32)"
    if "n < length adj" for n
    using assms nth_mem [OF that] unfolding list_all_iff by (meson nth_mem)
  then show ?thesis by (fastforce simp: layers_le_def nbrs_at_def)
qed

lemma nat_foldl_max_ge: "(m :: nat) \<le> foldl max m xs \<and> (\<forall>x\<in>set xs. x \<le> foldl max m xs)"
  by (induction xs arbitrary: m) (auto, metis max.bounded_iff, metis max.bounded_iff)

lemma nat_foldl_max_le: "(m :: nat) \<le> B \<Longrightarrow> \<forall>x\<in>set xs. x \<le> B \<Longrightarrow> foldl max m xs \<le> B"
  by (induction xs arbitrary: m) auto

definition cut_out :: "nat \<Rightarrow> hnsw_index \<Rightarrow> hnsw_index \<Rightarrow> bool" where
  "cut_out q ix ix' \<longleftrightarrow>
     (\<forall>L. nbrs_at (hx_adj ix') q L = []) \<and>
     (\<forall>v\<in>set (collect_heal_region (length (hx_rows ix)) (hx_adj ix) q). \<forall>L. q \<notin> set (nbrs_at (hx_adj ix') v L))"

definition degree_kept :: "nat \<Rightarrow> hnsw_index \<Rightarrow> hnsw_index \<Rightarrow> bool" where
  "degree_kept m ix ix' \<longleftrightarrow>
     (\<forall>n L. length (nbrs_at (hx_adj ix') n L) \<le> max (length (nbrs_at (hx_adj ix) n L)) m)"

lemma wipe_lists:
  "q < length adj \<Longrightarrow> nbrs_at (adj[q := map (\<lambda>_. []) (adj ! q)]) v L = (if v = q then [] else nbrs_at adj v L)"
  by (cases "v = q") (auto simp: nbrs_at_def)

lemma region_layers:
  assumes "L \<ge> foldl max 0 (map (\<lambda>n. length (adj ! n)) (q # region))"
  shows "isolated_on q (q # region) adj L"
proof -
  have "length (adj ! v) \<le> L" if "v \<in> set (q # region)" for v
    using nat_foldl_max_ge [of 0 "map (\<lambda>n. length (adj ! n)) (q # region)"] assms that by fastforce
  then have "nbrs_at adj v L = []" if "v \<in> set (q # region)" for v
    using that by (simp add: nbrs_at_def leD)
  then show ?thesis by (simp add: isolated_on_def)
qed

lemma heal_graph_ok:
  assumes ok: "index_ok ix" and q: "ensure_node ix node = Inr q" and m: "0 < max_m"
  shows "\<exists>r a ix'. heal_graph_structure f ix node max_m = Inr (r, a, ix')
    \<and> hx_rows ix' = hx_rows ix \<and> hx_dim ix' = hx_dim ix \<and> index_ok ix'
    \<and> cut_out q ix ix' \<and> degree_kept (nat max_m) ix ix'
    \<and> (layers_le B (hx_adj ix) \<longrightarrow> layers_le B (hx_adj ix'))"
proof -
  let ?N = "length (hx_rows ix)" and ?adj = "hx_adj ix"
  let ?Q = "{u. u < ?N \<and> u \<noteq> q}"
  define region where "region = collect_heal_region ?N ?adj q"
  define layers where "layers = foldl max 0 (map (\<lambda>n. length (?adj ! n)) (q # region))"
  define h0 where "h0 = \<lparr>hs_adj = ?adj, hs_removed = 0, hs_added = 0\<rparr>"
  define h where "h = foldl (heal_layer f (hx_rows ix) q region max_m) h0 [0..<layers]"
  define adj' where "adj' = (hs_adj h)[q := map (\<lambda>_. []) (hs_adj h ! q)]"
  define entry where "entry = (if hx_entry ix = node
      then (if q \<noteq> 0 then 0 else if 1 < ?N then 1 else -1) else hx_entry ix)"
  have qN: "q < ?N" "int q = node" and n0: "?N \<noteq> 0"
    using q by (auto simp: ensure_node_def num_elements_def is_loaded_def split: if_splits)
  have len: "length ?adj = ?N" using ok by (simp add: index_ok_def)
  have reg: "\<forall>v\<in>set region. v < ?N" unfolding region_def using qN region_bounds by blast
  have run: "heal_graph_structure f ix node max_m
      = Inr (hs_removed h + int (sum_list (map length (hs_adj h ! q))), hs_added h,
             ix\<lparr>hx_adj := adj', hx_entry := entry\<rparr>)"
    using m q by (simp add: heal_graph_structure_def Let_def region_def [symmetric] layers_def [symmetric, simplified]
        h0_def [symmetric] h_def [symmetric] adj'_def entry_def)
  have g: "grows (nat max_m) ?Q ?adj (hs_adj h)" and iso: "\<forall>L<layers. isolated_on q region (hs_adj h) L"
    using heal_layers_ok [of h0 "hx_rows ix" q region max_m f layers] len qN reg by (auto simp: h0_def h_def)
  have qr: "set (q # region) = set region" using region_has by (auto simp: region_def)
  have iso2: "isolated_on q (q # region) (hs_adj h) L" for L
  proof (cases "L < layers")
    case True
    then show ?thesis using iso qr by (auto simp: isolated_on_def)
  next
    case False
    then have "isolated_on q (q # region) ?adj L" unfolding layers_def by (intro region_layers) simp
    then show ?thesis using isolated_grows [OF g] by simp
  qed
  have lh: "length (hs_adj h) = ?N" using grows_length [OF g] len by simp
  have nb: "nbrs_at adj' v L = (if v = q then [] else nbrs_at (hs_adj h) v L)" for v L
    unfolding adj'_def using wipe_lists lh qN by simp
  have "index_ok (ix\<lparr>hx_adj := adj', hx_entry := entry\<rparr>)"
  proof -
    have "\<forall>n L. set (nbrs_at ?adj n L) \<subseteq> {..<?N}"
      using ok by (simp add: index_ok_def adj_bound_nbrs)
    moreover have "set (nbrs_at (hs_adj h) n L) \<subseteq> set (nbrs_at ?adj n L) \<union> ?Q" for n L
    proof -
      have "set (nbrs_at (hs_adj h) n L) \<subseteq> set (nbrs_at ?adj n L) \<union> (if n \<in> ?Q then ?Q else {})"
        using g unfolding grows_def by blast
      then show ?thesis by (auto split: if_splits)
    qed
    ultimately have "\<forall>n L. set (nbrs_at adj' n L) \<subseteq> {..<?N}"
      unfolding nb by (fastforce split: if_splits)
    moreover have "- 1 \<le> entry" "entry < int ?N"
      using ok qN n0 by (auto simp: entry_def index_ok_def)
    ultimately show ?thesis
      using ok lh by (simp add: index_ok_def adj_bound_nbrs adj'_def)
  qed
  moreover have "cut_out q ix (ix\<lparr>hx_adj := adj', hx_entry := entry\<rparr>)"
    using iso2 qr by (auto simp: cut_out_def nb isolated_on_def region_def)
  moreover have "degree_kept (nat max_m) ix (ix\<lparr>hx_adj := adj', hx_entry := entry\<rparr>)"
    using g by (auto simp: degree_kept_def nb grows_def)
  moreover have "layers_le B adj'" if B: "layers_le B ?adj"
  proof -
    have "layers \<le> B"
      unfolding layers_def by (rule nat_foldl_max_le) (use B reg qN len in \<open>auto simp: layers_le_def\<close>)
    then have "layers_le B (hs_adj h)"
      unfolding h_def by (intro layers_le_foldl heal_layer_layers) (use B in \<open>auto simp: h0_def\<close>)
    then show ?thesis by (cases "q < length (hs_adj h)") (auto simp: layers_le_def adj'_def nth_list_update list_update_beyond)
  qed
  ultimately show ?thesis using run by auto
qed


lemma overwrite_ok:
  assumes "index_ok ix" "ensure_node ix node = Inr q"
  shows "\<exists>ix1. overwrite_vector ix node = Inr ix1 \<and> index_ok ix1 \<and> ensure_node ix1 node = Inr q
    \<and> hx_rows ix1 = (hx_rows ix)[q := zero_row (hx_dim ix)] \<and> hx_dim ix1 = hx_dim ix \<and> hx_adj ix1 = hx_adj ix"
  using assms
  by (auto simp: overwrite_vector_def index_ok_def ensure_node_def num_elements_def is_loaded_def list_all_iff
      split: if_splits dest!: set_update_subset_insert [THEN subsetD])

lemma ensure_node_in:
  "is_loaded ix \<Longrightarrow> 0 \<le> node \<Longrightarrow> node < int (num_elements ix) \<Longrightarrow> ensure_node ix node = Inr (nat node)"
  by (simp add: ensure_node_def)

lemma erase_node_ok:
  assumes ok: "index_ok ix" and q: "ensure_node ix node = Inr q"
    and m: "0 < max_m" "max_m < 2 ^ 31" and n: "node < 2 ^ 63"
  shows "\<exists>r ix'. erase_node f ms node max_m ix = (Inr r, ix') \<and> er_success r \<and> er_node_id r = node
    \<and> er_bytes_wiped r = int (hx_dim ix * 4)
    \<and> hx_rows ix' = (hx_rows ix)[q := zero_row (hx_dim ix)] \<and> hx_dim ix' = hx_dim ix
    \<and> index_ok ix' \<and> cut_out q ix ix' \<and> degree_kept (nat max_m) ix ix'
    \<and> (layers_le B (hx_adj ix) \<longrightarrow> layers_le B (hx_adj ix'))"
proof -
  obtain ix1 where w: "overwrite_vector ix node = Inr ix1" "index_ok ix1" "ensure_node ix1 node = Inr q"
    "hx_rows ix1 = (hx_rows ix)[q := zero_row (hx_dim ix)]" "hx_dim ix1 = hx_dim ix" "hx_adj ix1 = hx_adj ix"
    using overwrite_ok [OF ok q] by blast
  obtain r a ix' where h: "heal_graph_structure f ix1 node max_m = Inr (r, a, ix')"
    "hx_rows ix' = hx_rows ix1" "hx_dim ix' = hx_dim ix1" "index_ok ix'" "cut_out q ix1 ix'"
    "degree_kept (nat max_m) ix1 ix'" "layers_le B (hx_adj ix1) \<longrightarrow> layers_le B (hx_adj ix')"
    using heal_graph_ok [OF w(2,3) m(1), of f B] by blast
  have "0 \<le> node" using q by (auto simp: ensure_node_def split: if_splits)
  then have "\<not> (node < - (2 ^ 63) \<or> 2 ^ 63 \<le> node \<or> max_m < - (2 ^ 31) \<or> 2 ^ 31 \<le> max_m)"
    using m n by simp
  then show ?thesis
    using w h by (simp add: erase_node_def cut_out_def degree_kept_def)
qed

lemma erase_node_fits:
  assumes "index_fits ix" "degree_kept m ix ix'" "layers_le (2 ^ 32 - 1) (hx_adj ix')" "m < 2 ^ 31"
    and "length (hx_rows ix') = length (hx_rows ix)" "hx_dim ix' = hx_dim ix"
  shows "index_fits ix'"
proof -
  have f: "\<forall>n L. length (nbrs_at (hx_adj ix) n L) < 2 ^ 32"
    using assms(1) fits_nbrs unfolding index_fits_def by blast
  have "length (nbrs_at (hx_adj ix') n L) < 2 ^ 32" for n L
  proof -
    have "length (nbrs_at (hx_adj ix') n L) \<le> max (length (nbrs_at (hx_adj ix) n L)) m"
      using assms(2) by (simp add: degree_kept_def)
    also have "\<dots> < 2 ^ 32" using f assms(4) by simp
    finally show ?thesis .
  qed
  then have "list_all (\<lambda>ls. length ls < 2 ^ 32 \<and> list_all (\<lambda>l. length l < 2 ^ 32) ls) (hx_adj ix')"
    using assms(3) by (intro degrees_nbrs) auto
  then show ?thesis using assms(1,5,6) by (simp add: index_fits_def)
qed

lemma erase_node_refused:
  assumes "is_loaded ix" "node < 0 \<or> int (num_elements ix) \<le> node"
  shows "\<exists>e. erase_node f ms node max_m ix = (Inl e, ix)"
  using assms by (simp add: erase_node_def overwrite_vector_def ensure_node_def)

section \<open>Properties\<close>

text \<open>
  C10: on a well-formed index, \<open>erase_node\<close> of a loaded, in-range node with a positive
  \<open>max_m\<close> that fits a C \<open>int\<close> returns success; the node's row is the zero row and every other row
  is untouched; no layer lists the node as a neighbour inside its two-hop region and its own lists are
  empty; no neighbour list exceeds the larger of its old length and \<open>max_m\<close>; the index stays
  well formed. This holds for every behaviour of the floating-point operations.
\<close>

theorem erase_node_wipes_and_isolates:
  assumes "index_ok ix" "is_loaded ix" "0 \<le> node" "node < int (num_elements ix)" "node < 2 ^ 63"
    and "0 < max_m" "max_m < 2 ^ 31"
  shows "\<exists>r ix'. erase_node f ms node max_m ix = (Inr r, ix') \<and> er_success r
    \<and> hx_rows ix' = (hx_rows ix)[nat node := zero_row (hx_dim ix)]
    \<and> index_ok ix' \<and> cut_out (nat node) ix ix' \<and> degree_kept (nat max_m) ix ix'"
  using erase_node_ok [OF assms(1) ensure_node_in [OF assms(2,3,4)] assms(6,7,5)] by blast

definition demo_fp :: "nat fp" where
  "demo_fp = \<lparr>fp_l2 = (\<lambda>a b. sum_list (map (\<lambda>(x, y). unat (x XOR y)) (zip a b))), fp_less = (<), fp_eq = (=),
     fp_add = (+), fp_sub = (-), fp_inv1 = (\<lambda>d. 1000 div (d + 1)), fp_zero = 0, fp_minus_one = 0\<rparr>"

definition demo_index :: hnsw_index where
  "demo_index = \<lparr>hx_dim = 2, hx_rows = [[1, 2], [3, 4], [5, 6]], hx_adj = [[[1, 2]], [[0]], [[0, 1]]], hx_entry = 0\<rparr>"

lemma demo_index_ok: "index_ok demo_index" "is_loaded demo_index" "num_elements demo_index = 3"
  by (simp_all add: index_ok_def demo_index_def is_loaded_def num_elements_def)

lemma erase_node_wipes_and_isolates_witness:
  "\<exists>r ix'. erase_node demo_fp ''0.1'' 0 16 demo_index = (Inr r, ix') \<and> er_success r
    \<and> hx_rows ix' = [[0, 0], [3, 4], [5, 6]]
    \<and> index_ok ix' \<and> cut_out 0 demo_index ix' \<and> degree_kept 16 demo_index ix'"
  using erase_node_wipes_and_isolates [OF demo_index_ok(1,2), of 0 16 demo_fp "''0.1''"]
  by (simp add: demo_index_ok) (simp add: demo_index_def zero_row_def numeral_2_eq_2)

text \<open>
  C11: \<open>load_from_file\<close> after \<open>save_to_file\<close> gives back exactly the saved index (rows, bit
  for bit, adjacency and entry point), for every well-formed loaded index whose sizes fit the fields.
\<close>

theorem index_file_roundtrip:
  assumes "index_ok ix" "index_fits ix" "is_loaded ix"
  shows "\<exists>b. save_to_file ix = Inr b \<and> load_from_file b = Inr ix"
  by (rule load_save [OF assms])

lemma index_file_roundtrip_witness:
  "\<exists>b. save_to_file demo_index = Inr b \<and> load_from_file b = Inr demo_index"
  by (rule index_file_roundtrip [OF demo_index_ok(1) _ demo_index_ok(2)])
    (simp add: index_fits_def demo_index_def)

end
