(* ===== verification/Persistence.thy ===== *)
theory Persistence
  imports Wal HnswIndex
begin

text \<open>
  \<open>api/persistence.py\<close> and \<open>with_lock_retry\<close> of \<open>api/main.py\<close>: the engine that erases a row
  durably. An \<open>engine\<close> is the process state (log object, in-memory index) together with the files
  \<open>index.bin\<close> and \<open>index.bin.tmp\<close>; the log file is inside the log object. The environment \<open>penv\<close>
  decides, for the step with number \<open>pe_tick\<close>, the clock, which attempts of a native call run into
  lock contention, and which file operation of a flush fails. A crash leaves the three files
  (\<open>disk_of\<close>) and a new process starts with an empty index.
\<close>

section \<open>Retries under lock contention\<close>

text \<open>The third component is the number of attempts made. The sleeps only pass time.\<close>

fun retry_from :: "(nat \<Rightarrow> 's \<Rightarrow> 'a res \<times> 's) \<Rightarrow> nat \<Rightarrow> nat \<Rightarrow> 's \<Rightarrow> 'a res \<times> 's \<times> nat" where
  "retry_from fn i 0 s = (Inl (OtherError ''unreachable''), s, i)"
| "retry_from fn i (Suc k) s =
    (case fn i s of
       (Inl (LockContentionError msg), s1) \<Rightarrow>
         if k = 0 then (Inl (LockContentionError msg), s1, Suc i) else retry_from fn (Suc i) k s1
     | (r, s1) \<Rightarrow> (r, s1, Suc i))"

definition with_lock_retry :: "int \<Rightarrow> (nat \<Rightarrow> 's \<Rightarrow> 'a res \<times> 's) \<Rightarrow> 's \<Rightarrow> 'a res \<times> 's \<times> nat" where
  "with_lock_retry max_attempts fn s = retry_from fn 0 (nat (if max_attempts < 1 then 1 else max_attempts)) s"

section \<open>The engine\<close>

datatype contention = AtWipe | AtHeal

datatype io_fault = SaveFails nat | SyncFails | ReplaceFails

record 'd penv =
  pv_fp :: "'d fp"
  pv_ms :: "nat \<Rightarrow> string"
  pv_now :: "nat \<Rightarrow> int"
  pv_busy :: "nat \<Rightarrow> nat \<Rightarrow> contention option"
  pv_attempts :: int
  pv_fault :: "nat \<Rightarrow> io_fault option"

record engine =
  pe_wal :: wal
  pe_bin :: "bytes option"
  pe_tmp :: "bytes option"
  pe_mem :: hnsw_index
  pe_tick :: nat

record hard_delete_result =
  hd_success :: bool
  hd_node_id :: int
  hd_transaction_id :: int
  hd_message :: "string option"
  hd_bytes_wiped :: int
  hd_recovered :: bool

record disk =
  dk_wal :: "bytes option"
  dk_bin :: "bytes option"
  dk_tmp :: "bytes option"

definition disk_of :: "engine \<Rightarrow> disk" where
  "disk_of e = \<lparr>dk_wal = wal_file (pe_wal e), dk_bin = pe_bin e, dk_tmp = pe_tmp e\<rparr>"

definition engine_init :: "disk \<Rightarrow> engine res" where
  "engine_init d = bind_res (wal_init (dk_wal d)) (\<lambda>w.
     Inr \<lparr>pe_wal = w, pe_bin = dk_bin d, pe_tmp = dk_tmp d, pe_mem = empty_index, pe_tick = 0\<rparr>)"

text \<open>One native \<open>erase_node\<close> call: the range checks come before the locks, the stripe lock of the
  wipe before the region locks of the repair, so contention at the repair leaves the row wiped.\<close>

definition native_erase ::
  "'d fp \<Rightarrow> string \<Rightarrow> contention option \<Rightarrow> int \<Rightarrow> int \<Rightarrow> hnsw_index \<Rightarrow> erasure_result res \<times> hnsw_index" where
  "native_erase f ms busy node max_m ix =
    (case busy of
       None \<Rightarrow> erase_node f ms node max_m ix
     | Some c \<Rightarrow>
         if node < - (2 ^ 63) \<or> 2 ^ 63 \<le> node \<or> max_m < - (2 ^ 31) \<or> 2 ^ 31 \<le> max_m
         then (Inl (TypeError ''incompatible function arguments''), ix)
         else case overwrite_vector ix node of
           Inl e \<Rightarrow> (Inl e, ix)
         | Inr ix1 \<Rightarrow>
             (case c of
                AtWipe \<Rightarrow> (Inl (LockContentionError ''stripe lock timeout''), ix)
              | AtHeal \<Rightarrow>
                  if max_m \<le> 0 then (Inl (ValueError ''heal_graph_structure: max_m must be positive''), ix1)
                  else (Inl (LockContentionError ''stripe lock timeout''), ix1)))"

definition begin_step :: "'d penv \<Rightarrow> int \<Rightarrow> int \<Rightarrow> engine \<Rightarrow> begin_delete_record res \<times> engine" where
  "begin_step v node m e =
    (case append_begin_delete node m None None (pv_now v (pe_tick e)) (pe_wal e) of
       (r, w) \<Rightarrow> (r, e\<lparr>pe_wal := w, pe_tick := Suc (pe_tick e)\<rparr>))"

definition commit_step :: "'d penv \<Rightarrow> int \<Rightarrow> engine \<Rightarrow> commit_record res \<times> engine" where
  "commit_step v tx e =
    (case append_commit tx None (pv_now v (pe_tick e)) (pe_wal e) of
       (r, w) \<Rightarrow> (r, e\<lparr>pe_wal := w, pe_tick := Suc (pe_tick e)\<rparr>))"

definition erase_step :: "'d penv \<Rightarrow> int \<Rightarrow> int \<Rightarrow> engine \<Rightarrow> erasure_result res \<times> engine" where
  "erase_step v node m e =
    (case with_lock_retry (pv_attempts v)
            (\<lambda>i. native_erase (pv_fp v) (pv_ms v (pe_tick e)) (pv_busy v (pe_tick e) i) node m) (pe_mem e) of
       (r, ix, _) \<Rightarrow> (r, e\<lparr>pe_mem := ix, pe_tick := Suc (pe_tick e)\<rparr>))"

text \<open>\<open>atomic_flush_index\<close>: unlink a stale temp file, write the snapshot there, sync, replace. The
  structure lock of \<open>save_index\<close> blocks without a timeout, so there is nothing to retry.\<close>

definition atomic_flush_index :: "'d penv \<Rightarrow> engine \<Rightarrow> unit res \<times> engine" where
  "atomic_flush_index v e =
    (let e0 = e\<lparr>pe_tmp := None, pe_tick := Suc (pe_tick e)\<rparr>
     in case save_to_file (pe_mem e) of
          Inl x \<Rightarrow> (Inl x, e0)
        | Inr img \<Rightarrow>
            (case pv_fault v (pe_tick e) of
               Some (SaveFails k) \<Rightarrow>
                 (Inl (RuntimeError ''save_to_file: write failed''), e0\<lparr>pe_tmp := Some (take k img)\<rparr>)
             | Some SyncFails \<Rightarrow> (Inl (OSError ''fsync''), e0\<lparr>pe_tmp := Some img\<rparr>)
             | Some ReplaceFails \<Rightarrow> (Inl (OSError ''replace''), e0\<lparr>pe_tmp := Some img\<rparr>)
             | None \<Rightarrow> (Inr (), e0\<lparr>pe_bin := Some img\<rparr>)))"

definition hard_delete_and_heal ::
  "'d penv \<Rightarrow> int \<Rightarrow> int \<Rightarrow> bool \<Rightarrow> engine \<Rightarrow> hard_delete_result res \<times> engine" where
  "hard_delete_and_heal v node_id max_m recovered e =
    (case begin_step v node_id max_m e of
       (Inl x, e1) \<Rightarrow> (Inl x, e1)
     | (Inr b, e1) \<Rightarrow>
    (case erase_step v node_id max_m e1 of
       (Inl x, e2) \<Rightarrow> (Inl x, e2)
     | (Inr r, e2) \<Rightarrow>
       if \<not> er_success r then (Inl (RuntimeError (er_message r)), e2)
       else
    (case atomic_flush_index v e2 of
       (Inl x, e3) \<Rightarrow> (Inl x, e3)
     | (Inr _, e3) \<Rightarrow>
    (case commit_step v (bd_transaction_id b) e3 of
       (Inl x, e4) \<Rightarrow> (Inl x, e4)
     | (Inr _, e4) \<Rightarrow>
         (Inr \<lparr>hd_success = True, hd_node_id = node_id, hd_transaction_id = bd_transaction_id b,
               hd_message = Some (er_message r), hd_bytes_wiped = er_bytes_wiped r,
               hd_recovered = recovered\<rparr>, e4)))))"

section \<open>Startup recovery\<close>

definition load_index_if_present :: "engine \<Rightarrow> bool res \<times> engine" where
  "load_index_if_present e =
    (case pe_bin e of
       None \<Rightarrow> (Inr False, e)
     | Some b \<Rightarrow> (case load_from_file b of
                    Inl x \<Rightarrow> (Inl x, e)
                  | Inr ix \<Rightarrow> (Inr True, e\<lparr>pe_mem := ix\<rparr>)))"

definition replay_one :: "'d penv \<Rightarrow> begin_delete_record \<Rightarrow> engine \<Rightarrow> hard_delete_result res \<times> engine" where
  "replay_one v rec e =
    (case begin_step v (bd_target_node_id rec) (bd_max_m rec) e of
       (Inl x, e1) \<Rightarrow> (Inl x, e1)
     | (Inr b, e1) \<Rightarrow>
    (case erase_step v (bd_target_node_id rec) (bd_max_m rec) e1 of
       (Inl x, e2) \<Rightarrow> (Inl x, e2)
     | (Inr r, e2) \<Rightarrow>
       if \<not> er_success r then (Inl (RuntimeError (er_message r)), e2)
       else
    (case atomic_flush_index v e2 of
       (Inl x, e3) \<Rightarrow> (Inl x, e3)
     | (Inr _, e3) \<Rightarrow>
    (case commit_step v (bd_transaction_id b) e3 of
       (Inl x, e4) \<Rightarrow> (Inl x, e4)
     | (Inr _, e4) \<Rightarrow>
    (case (if bd_transaction_id rec \<noteq> bd_transaction_id b
           then (case commit_step v (bd_transaction_id rec) e4 of (c, e5) \<Rightarrow> (map_sum id (\<lambda>_. ()) c, e5))
           else (Inr (), e4)) of
       (Inl x, e5) \<Rightarrow> (Inl x, e5)
     | (Inr _, e5) \<Rightarrow>
         (Inr \<lparr>hd_success = True, hd_node_id = bd_target_node_id rec,
               hd_transaction_id = bd_transaction_id b, hd_message = Some (er_message r),
               hd_bytes_wiped = er_bytes_wiped r, hd_recovered = True\<rparr>, e5))))))"

fun replay_all :: "'d penv \<Rightarrow> begin_delete_record list \<Rightarrow> engine \<Rightarrow> hard_delete_result list res \<times> engine" where
  "replay_all v [] e = (Inr [], e)"
| "replay_all v (rec # rs) e =
    (case replay_one v rec e of
       (Inl x, e1) \<Rightarrow> (Inl x, e1)
     | (Inr r, e1) \<Rightarrow> (case replay_all v rs e1 of
                       (Inl x, e2) \<Rightarrow> (Inl x, e2)
                     | (Inr rest, e2) \<Rightarrow> (Inr (r # rest), e2)))"

definition recover_uncommitted :: "'d penv \<Rightarrow> engine \<Rightarrow> hard_delete_result list res \<times> engine" where
  "recover_uncommitted v e =
    (case uncommitted_deletes (pe_wal e) of
       Inl x \<Rightarrow> (Inl x, e)
     | Inr pending \<Rightarrow>
         if pending = [] then (Inr [], e)
         else if \<not> is_loaded (pe_mem e) then (Inr [], e)
         else replay_all v pending e)"

text \<open>\<open>bootstrap\<close> returns whether an index was loaded and the recovered transactions; the two paths in
  its result are constants of the installation.\<close>

definition bootstrap :: "'d penv \<Rightarrow> engine \<Rightarrow> (bool \<times> hard_delete_result list) res \<times> engine" where
  "bootstrap v e =
    (case load_index_if_present e of
       (Inl x, e1) \<Rightarrow> (Inl x, e1)
     | (Inr loaded, e1) \<Rightarrow>
         (case recover_uncommitted v e1 of
            (Inl x, e2) \<Rightarrow> (Inl x, e2)
          | (Inr rs, e2) \<Rightarrow> (Inr (loaded, rs), e2)))"

definition save_initial_checkpoint :: "'d penv \<Rightarrow> engine \<Rightarrow> unit res \<times> engine" where
  "save_initial_checkpoint v e =
    (if \<not> is_loaded (pe_mem e) then (Inl (RuntimeError ''cannot checkpoint: no index loaded''), e)
     else atomic_flush_index v e)"


section \<open>What a native erase does when its retries end in time\<close>

definition wiped :: "nat \<Rightarrow> hnsw_index \<Rightarrow> hnsw_index \<Rightarrow> bool" where
  "wiped q ix ix' \<longleftrightarrow> hx_rows ix' = (hx_rows ix)[q := zero_row (hx_dim ix)] \<and> hx_dim ix' = hx_dim ix"

definition ready :: "hnsw_index \<Rightarrow> bool" where
  "ready ix \<longleftrightarrow> index_ok ix \<and> index_fits ix \<and> is_loaded ix"

definition in_reach :: "hnsw_index \<Rightarrow> int \<Rightarrow> int \<Rightarrow> bool" where
  "in_reach ix node m \<longleftrightarrow> 0 \<le> node \<and> node < int (num_elements ix) \<and> 1 \<le> m \<and> m < 2 ^ 31"

definition benign_at :: "'d penv \<Rightarrow> nat \<Rightarrow> bool" where
  "benign_at v t \<longleftrightarrow> in_range 8 (pv_now v t) \<and> pv_fault v t = None
     \<and> (\<exists>i < nat (if pv_attempts v < 1 then 1 else pv_attempts v). pv_busy v t i = None)"

definition benign :: "'d penv \<Rightarrow> bool" where
  "benign v \<longleftrightarrow> (\<forall>t. benign_at v t)"

lemma in_reachD:
  assumes "ready ix" "in_reach ix node m"
  shows "ensure_node ix node = Inr (nat node)" "node < 2 ^ 63" "in_range 8 node" "in_range 4 m"
    "0 < m" "m < 2 ^ 31" "nat node < length (hx_rows ix)"
proof -
  have h: "0 \<le> node" "node < int (length (hx_rows ix))" "1 \<le> m" "m < 2 ^ 31" "length (hx_rows ix) < 2 ^ 63"
    using assms by (auto simp: in_reach_def ready_def index_fits_def num_elements_def)
  have "int (length (hx_rows ix)) < int (2 ^ 63)" using h(5) by (simp only: of_nat_less_iff)
  then show n63: "node < 2 ^ 63" using h(2) by simp
  show "ensure_node ix node = Inr (nat node)"
    using assms h by (simp add: ensure_node_in ready_def num_elements_def)
  show "in_range 8 node" "in_range 4 m" "0 < m" "m < 2 ^ 31" "nat node < length (hx_rows ix)"
    using h n63 by (auto simp: in_range_def)
qed

lemma erase_ready:
  assumes r: "ready ix" and n: "in_reach ix node m"
  shows "\<exists>r ix'. erase_node f ms node m ix = (Inr r, ix') \<and> er_success r \<and> ready ix' \<and> wiped (nat node) ix ix'"
proof -
  note d = in_reachD [OF r n]
  have ok: "index_ok ix" "index_fits ix" "is_loaded ix" using r by (auto simp: ready_def)
  obtain r ix' where e: "erase_node f ms node m ix = (Inr r, ix')" "er_success r"
    "hx_rows ix' = (hx_rows ix)[nat node := zero_row (hx_dim ix)]" "hx_dim ix' = hx_dim ix" "index_ok ix'"
    "degree_kept (nat m) ix ix'" "layers_le (2 ^ 32 - 1) (hx_adj ix) \<longrightarrow> layers_le (2 ^ 32 - 1) (hx_adj ix')"
    using erase_node_ok [OF ok(1) d(1,5,6,2), of f ms "2 ^ 32 - 1"] by blast
  have "layers_le (2 ^ 32 - 1) (hx_adj ix)" using ok(2) fits_nbrs unfolding index_fits_def by blast
  then have "index_fits ix'"
    using e d by (intro erase_node_fits [OF ok(2) e(6)]) auto
  moreover have "is_loaded ix'" using ok(3) e(3) by (simp add: is_loaded_def)
  ultimately show ?thesis using e by (auto simp: ready_def wiped_def)
qed

lemma overwrite_ready:
  assumes r: "ready ix" and n: "in_reach ix node m"
  shows "\<exists>ix1. overwrite_vector ix node = Inr ix1 \<and> ready ix1 \<and> in_reach ix1 node m \<and> wiped (nat node) ix ix1"
proof -
  note d = in_reachD [OF r n]
  obtain ix1 where w: "overwrite_vector ix node = Inr ix1" "index_ok ix1"
    "hx_rows ix1 = (hx_rows ix)[nat node := zero_row (hx_dim ix)]" "hx_dim ix1 = hx_dim ix" "hx_adj ix1 = hx_adj ix"
    using overwrite_ok [OF _ d(1)] r by (auto simp: ready_def)
  then show ?thesis
    using r n by (auto simp: ready_def wiped_def in_reach_def num_elements_def index_fits_def is_loaded_def)
qed

lemma wiped_again: "wiped q ix ix1 \<Longrightarrow> wiped q ix1 ix2 \<Longrightarrow> wiped q ix ix2"
  by (simp add: wiped_def)

lemma retry_erase:
  assumes "ready ix" "in_reach ix node m" "\<exists>j < k. busy (i + j) = None"
  shows "\<exists>r ix' n. retry_from (\<lambda>i. native_erase f ms (busy i) node m) i k ix = (Inr r, ix', n)
    \<and> er_success r \<and> ready ix' \<and> wiped (nat node) ix ix'"
  using assms
proof (induction k arbitrary: i ix)
  case 0
  then show ?case by simp
next
  case (Suc k)
  show ?case
  proof (cases "busy i")
    case None
    then show ?thesis using erase_ready [OF Suc.prems(1,2), of f ms] by (auto simp: native_erase_def)
  next
    case (Some c)
    have more: "\<exists>j < k. busy (Suc i + j) = None"
      using Suc.prems(3) Some by (metis Suc_less_eq add.right_neutral add_Suc_right add_Suc_shift not0_implies_Suc option.distinct(1))
    then have k0: "k \<noteq> 0" by auto
    note d = in_reachD [OF Suc.prems(1,2)]
    have arg: "\<not> (node < - (2 ^ 63) \<or> 2 ^ 63 \<le> node \<or> m < - (2 ^ 31) \<or> 2 ^ 31 \<le> m)" "\<not> m \<le> 0"
      using d Suc.prems(2) by (auto simp: in_reach_def)
    obtain ix1 where w: "overwrite_vector ix node = Inr ix1" "ready ix1" "in_reach ix1 node m" "wiped (nat node) ix ix1"
      using overwrite_ready [OF Suc.prems(1,2)] by blast
    show ?thesis
    proof (cases c)
      case AtWipe
      then show ?thesis
        using Suc.IH [OF Suc.prems(1,2) more] Some arg w(1) k0 by (simp add: native_erase_def)
    next
      case AtHeal
      then show ?thesis
        using Suc.IH [OF w(2,3) more] Some arg w(1) k0 wiped_again [OF w(4)]
        by (fastforce simp: native_erase_def)
    qed
  qed
qed

section \<open>The index as an interface\<close>

text \<open>
  What the engine relies on: on a \<open>good\<close> index and under a \<open>calm\<close> environment an erase of a
  reachable node succeeds and zeroes that row only; a saved good index loads back as it was.
\<close>

locale erasable_index =
  fixes erase_op :: "'env \<Rightarrow> int \<Rightarrow> int \<Rightarrow> 'ix \<Rightarrow> 'r res \<times> 'ix"
    and save_op :: "'ix \<Rightarrow> bytes res"
    and load_op :: "bytes \<Rightarrow> 'ix res"
    and calm :: "'env \<Rightarrow> bool"
    and good :: "'ix \<Rightarrow> bool"
    and reach :: "'ix \<Rightarrow> int \<Rightarrow> int \<Rightarrow> bool"
    and cleared :: "nat \<Rightarrow> 'ix \<Rightarrow> 'ix \<Rightarrow> bool"
    and succeeded :: "'r \<Rightarrow> bool"
  assumes erase_law: "calm v \<Longrightarrow> good ix \<Longrightarrow> reach ix node m \<Longrightarrow>
      \<exists>r ix'. erase_op v node m ix = (Inr r, ix') \<and> succeeded r \<and> good ix' \<and> cleared (nat node) ix ix'"
    and save_law: "good ix \<Longrightarrow> \<exists>b. save_op ix = Inr b \<and> load_op b = Inr ix"
begin

text \<open>An erase followed by a save is durable: loading the file gives the erased index.\<close>

lemma erase_then_save:
  assumes "calm v" "good ix" "reach ix node m"
  shows "\<exists>r ix' b. erase_op v node m ix = (Inr r, ix') \<and> succeeded r \<and> good ix' \<and> cleared (nat node) ix ix'
    \<and> save_op ix' = Inr b \<and> load_op b = Inr ix'"
  using erase_law [OF assms] save_law by blast

end

definition retried_erase :: "'d penv \<times> nat \<Rightarrow> int \<Rightarrow> int \<Rightarrow> hnsw_index \<Rightarrow> erasure_result res \<times> hnsw_index" where
  "retried_erase vt node m ix =
    (case with_lock_retry (pv_attempts (fst vt))
            (\<lambda>i. native_erase (pv_fp (fst vt)) (pv_ms (fst vt) (snd vt)) (pv_busy (fst vt) (snd vt) i) node m) ix of
       (r, ix', _) \<Rightarrow> (r, ix'))"

interpretation ni: erasable_index retried_erase save_to_file load_from_file
  "\<lambda>vt. benign_at (fst vt) (snd vt)" ready in_reach wiped er_success
proof unfold_locales
  fix vt :: "'d penv \<times> nat" and ix node m
  assume b: "benign_at (fst vt) (snd vt)" and r: "ready ix" and n: "in_reach ix node m"
  let ?k = "nat (if pv_attempts (fst vt) < 1 then 1 else pv_attempts (fst vt))"
  have "\<exists>j < ?k. pv_busy (fst vt) (snd vt) (0 + j) = None" using b by (simp add: benign_at_def)
  from retry_erase [OF r n this, of "pv_fp (fst vt)" "pv_ms (fst vt) (snd vt)"]
  show "\<exists>r ix'. retried_erase vt node m ix = (Inr r, ix') \<and> er_success r \<and> ready ix' \<and> wiped (nat node) ix ix'"
    by (auto simp: retried_erase_def with_lock_retry_def)
next
  fix ix assume "ready ix"
  then show "\<exists>b. save_to_file ix = Inr b \<and> load_from_file b = Inr ix"
    by (simp add: ready_def load_save)
qed


section \<open>The steps of a delete\<close>

definition engine_ok :: "engine \<Rightarrow> bool" where
  "engine_ok e \<longleftrightarrow> wal_inv (pe_wal e) \<and> ready (pe_mem e)"

definition published :: "engine \<Rightarrow> bool" where
  "published e \<longleftrightarrow> (\<exists>b. pe_bin e = Some b \<and> load_from_file b = Inr (pe_mem e))"

abbreviation pending :: "engine \<Rightarrow> begin_delete_record list" where
  "pending e \<equiv> wal_pend (pe_wal e)"

abbreviation ids_left :: "engine \<Rightarrow> int" where
  "ids_left e \<equiv> wal_room (pe_wal e)"

lemma erase_step_eq:
  "erase_step v node m e =
     (case retried_erase (v, pe_tick e) node m (pe_mem e) of (r, ix) \<Rightarrow> (r, e\<lparr>pe_mem := ix, pe_tick := Suc (pe_tick e)\<rparr>))"
  by (simp add: erase_step_def retried_erase_def split: prod.splits)

lemma begin_good:
  assumes "benign v" "wal_inv (pe_wal e)" "ready ix" "in_reach ix node m" "0 < ids_left e"
  shows "\<exists>b w. begin_step v node m e = (Inr b, e\<lparr>pe_wal := w, pe_tick := Suc (pe_tick e)\<rparr>) \<and> wal_inv w
    \<and> wal_pend w = pending e @ [b] \<and> wal_room w = ids_left e - 1
    \<and> bd_target_node_id b = node \<and> bd_max_m b = m"
proof -
  have now: "in_range 8 (pv_now v (pe_tick e))" using assms(1) by (simp add: benign_def benign_at_def)
  have "1 \<le> m" using assms(4) by (simp add: in_reach_def)
  from wl.begin_law [OF assms(2) now in_reachD(3,4) [OF assms(3,4)] this assms(5)]
  show ?thesis by (fastforce simp: begin_step_def)
qed

lemma commit_good:
  assumes "benign v" "wal_inv (pe_wal e)" "b \<in> set (pending e)"
  shows "\<exists>c w. commit_step v (bd_transaction_id b) e = (Inr c, e\<lparr>pe_wal := w, pe_tick := Suc (pe_tick e)\<rparr>) \<and> wal_inv w
    \<and> wal_pend w = filter (\<lambda>x. bd_transaction_id x \<noteq> bd_transaction_id b) (pending e) \<and> wal_room w = ids_left e"
proof -
  have now: "in_range 8 (pv_now v (pe_tick e))" using assms(1) by (simp add: benign_def benign_at_def)
  from wl.commit_law [OF assms(2) now assms(3)] show ?thesis by (fastforce simp: commit_step_def)
qed

text \<open>Erase and publish, the part between BEGIN and COMMIT.\<close>

lemma erase_publish:
  assumes "benign v" "ready (pe_mem e)" "in_reach (pe_mem e) node m"
  shows "\<exists>r ix b. erase_step v node m e = (Inr r, e\<lparr>pe_mem := ix, pe_tick := Suc (pe_tick e)\<rparr>)
    \<and> er_success r \<and> ready ix \<and> wiped (nat node) (pe_mem e) ix
    \<and> atomic_flush_index v (e\<lparr>pe_mem := ix, pe_tick := Suc (pe_tick e)\<rparr>)
        = (Inr (), e\<lparr>pe_mem := ix, pe_tick := Suc (Suc (pe_tick e)), pe_tmp := None, pe_bin := Some b\<rparr>)
    \<and> save_to_file ix = Inr b \<and> load_from_file b = Inr ix"
proof -
  have "benign_at (fst (v, pe_tick e)) (snd (v, pe_tick e))" using assms(1) by (simp add: benign_def)
  from ni.erase_then_save [OF this assms(2,3)] obtain r ix b where
    e: "retried_erase (v, pe_tick e) node m (pe_mem e) = (Inr r, ix)" "er_success r" "ready ix"
      "wiped (nat node) (pe_mem e) ix" "save_to_file ix = Inr b" "load_from_file b = Inr ix" by blast
  have "pv_fault v (Suc (pe_tick e)) = None" using assms(1) by (simp add: benign_def benign_at_def)
  then show ?thesis
    using e by (intro exI [of _ r] exI [of _ ix] exI [of _ b]) (simp add: erase_step_eq atomic_flush_index_def Let_def)
qed

lemma wiped_ready:
  "wiped q ix ix' \<Longrightarrow> num_elements ix' = num_elements ix"
  by (simp add: wiped_def num_elements_def)

lemma filter_new:
  "distinct (map f (xs @ [b])) \<Longrightarrow> filter (\<lambda>x. f x \<noteq> f b) (xs @ [b]) = xs"
  by (induction xs) auto

lemma hard_delete_ok:
  assumes v: "benign v" and ok: "engine_ok e" and n: "in_reach (pe_mem e) node m" and room: "0 < ids_left e"
  shows "\<exists>r e'. hard_delete_and_heal v node m rc e = (Inr r, e') \<and> engine_ok e' \<and> published e'
    \<and> hd_success r \<and> hd_node_id r = node \<and> hd_recovered r = rc \<and> pe_tmp e' = None
    \<and> wiped (nat node) (pe_mem e) (pe_mem e') \<and> pending e' = pending e \<and> ids_left e' = ids_left e - 1"
proof -
  have inv: "wal_inv (pe_wal e)" and rd: "ready (pe_mem e)" using ok by (auto simp: engine_ok_def)
  obtain b w where b: "begin_step v node m e = (Inr b, e\<lparr>pe_wal := w, pe_tick := Suc (pe_tick e)\<rparr>)" "wal_inv w"
    "wal_pend w = pending e @ [b]" "wal_room w = ids_left e - 1"
    using begin_good [OF v inv rd n room] by blast
  let ?e1 = "e\<lparr>pe_wal := w, pe_tick := Suc (pe_tick e)\<rparr>"
  obtain r ix img where x: "erase_step v node m ?e1 = (Inr r, ?e1\<lparr>pe_mem := ix, pe_tick := Suc (pe_tick ?e1)\<rparr>)"
    "er_success r" "ready ix" "wiped (nat node) (pe_mem ?e1) ix"
    "atomic_flush_index v (?e1\<lparr>pe_mem := ix, pe_tick := Suc (pe_tick ?e1)\<rparr>)
        = (Inr (), ?e1\<lparr>pe_mem := ix, pe_tick := Suc (Suc (pe_tick ?e1)), pe_tmp := None, pe_bin := Some img\<rparr>)"
    "load_from_file img = Inr ix"
    using erase_publish [OF v, of ?e1 node m] rd n by auto
  let ?e3 = "?e1\<lparr>pe_mem := ix, pe_tick := Suc (Suc (pe_tick ?e1)), pe_tmp := None, pe_bin := Some img\<rparr>"
  have "b \<in> set (pending ?e3)" using b(3) by simp
  from commit_good [OF v _ this] b(2) obtain c w2 where
    c: "commit_step v (bd_transaction_id b) ?e3 = (Inr c, ?e3\<lparr>pe_wal := w2, pe_tick := Suc (pe_tick ?e3)\<rparr>)" "wal_inv w2"
      "wal_pend w2 = filter (\<lambda>x. bd_transaction_id x \<noteq> bd_transaction_id b) (pending ?e3)" "wal_room w2 = ids_left ?e3"
    by auto
  have "wal_pend w2 = pending e"
    using c(3) b(3) wl.distinct_law [OF b(2)] filter_new [of bd_transaction_id "pending e" b] by simp
  then show ?thesis
    using b x c unfolding hard_delete_and_heal_def
    by (simp add: engine_ok_def published_def)
qed

lemma replay_one_ok:
  assumes v: "benign v" and ok: "engine_ok e" and n: "in_reach (pe_mem e) (bd_target_node_id rec) (bd_max_m rec)"
    and room: "0 < ids_left e" and pd: "pending e = rec # rs"
  shows "\<exists>r e'. replay_one v rec e = (Inr r, e') \<and> engine_ok e' \<and> published e'
    \<and> wiped (nat (bd_target_node_id rec)) (pe_mem e) (pe_mem e') \<and> pending e' = rs \<and> ids_left e' = ids_left e - 1"
proof -
  let ?node = "bd_target_node_id rec" and ?m = "bd_max_m rec"
  have inv: "wal_inv (pe_wal e)" and rd: "ready (pe_mem e)" using ok by (auto simp: engine_ok_def)
  obtain b w where b: "begin_step v ?node ?m e = (Inr b, e\<lparr>pe_wal := w, pe_tick := Suc (pe_tick e)\<rparr>)" "wal_inv w"
    "wal_pend w = pending e @ [b]" "wal_room w = ids_left e - 1"
    using begin_good [OF v inv rd n room] by blast
  let ?e1 = "e\<lparr>pe_wal := w, pe_tick := Suc (pe_tick e)\<rparr>"
  obtain r ix img where x: "erase_step v ?node ?m ?e1 = (Inr r, ?e1\<lparr>pe_mem := ix, pe_tick := Suc (pe_tick ?e1)\<rparr>)"
    "er_success r" "ready ix" "wiped (nat ?node) (pe_mem ?e1) ix"
    "atomic_flush_index v (?e1\<lparr>pe_mem := ix, pe_tick := Suc (pe_tick ?e1)\<rparr>)
        = (Inr (), ?e1\<lparr>pe_mem := ix, pe_tick := Suc (Suc (pe_tick ?e1)), pe_tmp := None, pe_bin := Some img\<rparr>)"
    "load_from_file img = Inr ix"
    using erase_publish [OF v, of ?e1 ?node ?m] rd n by auto
  let ?e3 = "?e1\<lparr>pe_mem := ix, pe_tick := Suc (Suc (pe_tick ?e1)), pe_tmp := None, pe_bin := Some img\<rparr>"
  have dist: "distinct (map bd_transaction_id (pending e @ [b]))" using wl.distinct_law [OF b(2)] b(3) by simp
  then have ne: "bd_transaction_id rec \<noteq> bd_transaction_id b" using pd by auto
  have "b \<in> set (pending ?e3)" using b(3) by simp
  from commit_good [OF v _ this] b(2) obtain c w2 where
    c: "commit_step v (bd_transaction_id b) ?e3 = (Inr c, ?e3\<lparr>pe_wal := w2, pe_tick := Suc (pe_tick ?e3)\<rparr>)" "wal_inv w2"
      "wal_pend w2 = filter (\<lambda>x. bd_transaction_id x \<noteq> bd_transaction_id b) (pending ?e3)" "wal_room w2 = ids_left ?e3"
    by auto
  let ?e4 = "?e3\<lparr>pe_wal := w2, pe_tick := Suc (pe_tick ?e3)\<rparr>"
  have p2: "wal_pend w2 = rec # rs" using c(3) b(3) filter_new [OF dist] pd by simp
  then have "rec \<in> set (pending ?e4)" by simp
  from commit_good [OF v _ this] c(2) obtain c2 w3 where
    d: "commit_step v (bd_transaction_id rec) ?e4 = (Inr c2, ?e4\<lparr>pe_wal := w3, pe_tick := Suc (pe_tick ?e4)\<rparr>)" "wal_inv w3"
      "wal_pend w3 = filter (\<lambda>x. bd_transaction_id x \<noteq> bd_transaction_id rec) (pending ?e4)" "wal_room w3 = ids_left ?e4"
    by auto
  have "distinct (map bd_transaction_id (rec # rs))" using wl.distinct_law [OF c(2)] p2 by simp
  then have "wal_pend w3 = rs" using d(3) p2 by (auto simp: image_iff intro!: filter_True)
  then show ?thesis
    using b x c d ne unfolding replay_one_def by (simp add: engine_ok_def published_def)
qed

definition wiped_all :: "nat set \<Rightarrow> hnsw_index \<Rightarrow> hnsw_index \<Rightarrow> bool" where
  "wiped_all Q ix ix' \<longleftrightarrow> hx_dim ix' = hx_dim ix \<and> length (hx_rows ix') = length (hx_rows ix)
     \<and> (\<forall>k < length (hx_rows ix). hx_rows ix' ! k = (if k \<in> Q then zero_row (hx_dim ix) else hx_rows ix ! k))"

lemma wiped_all_refl [simp]: "wiped_all {} ix ix"
  by (simp add: wiped_all_def)

lemma wiped_all_insert: "wiped q ix ix1 \<Longrightarrow> wiped_all Q ix1 ix2 \<Longrightarrow> wiped_all (insert q Q) ix ix2"
  by (auto simp: wiped_def wiped_all_def nth_list_update)

lemma replay_all_ok:
  assumes "benign v" "engine_ok e" "pending e = rs" "int (length rs) < ids_left e"
    and "\<forall>r\<in>set rs. in_reach (pe_mem e) (bd_target_node_id r) (bd_max_m r)" "published e \<or> rs \<noteq> []"
  shows "\<exists>out e'. replay_all v rs e = (Inr out, e') \<and> engine_ok e' \<and> published e' \<and> pending e' = []
    \<and> length out = length rs
    \<and> wiped_all ((\<lambda>r. nat (bd_target_node_id r)) ` set rs) (pe_mem e) (pe_mem e')"
  using assms
proof (induction rs arbitrary: e)
  case Nil
  then show ?case by simp
next
  case (Cons r rs)
  obtain x e1 where r: "replay_one v r e = (Inr x, e1)" "engine_ok e1" "published e1"
    "wiped (nat (bd_target_node_id r)) (pe_mem e) (pe_mem e1)" "pending e1 = rs" "ids_left e1 = ids_left e - 1"
    using replay_one_ok [OF Cons.prems(1,2) _ _ Cons.prems(3)] Cons.prems(4,5) by fastforce
  have "\<forall>y\<in>set rs. in_reach (pe_mem e1) (bd_target_node_id y) (bd_max_m y)"
    using Cons.prems(5) wiped_ready [OF r(4)] by (simp add: in_reach_def)
  moreover have "int (length rs) < ids_left e1" using Cons.prems(4) r(6) by simp
  ultimately obtain out e2 where o: "replay_all v rs e1 = (Inr out, e2)" "engine_ok e2" "published e2" "pending e2 = []"
    "length out = length rs"
    "wiped_all ((\<lambda>r. nat (bd_target_node_id r)) ` set rs) (pe_mem e1) (pe_mem e2)"
    using Cons.IH [OF Cons.prems(1) r(2,5)] r(3) by blast
  then show ?case using r wiped_all_insert [OF r(4) o(6)] by simp
qed


section \<open>Restart and recovery\<close>

lemma foldl_max_le_ids: "(m::int) \<le> n \<Longrightarrow> ids_le n rs \<Longrightarrow> foldl (\<lambda>m r. max m (rec_tx r)) m rs \<le> n"
  by (induction rs arbitrary: m) (auto simp: ids_le_def)

lemma wal_reopen:
  assumes "wal_inv w"
  shows "\<exists>w'. wal_init (wal_file w) = Inr w' \<and> wal_inv w' \<and> wal_pend w' = wal_pend w \<and> wal_room w \<le> wal_room w'"
proof -
  obtain rs where rs: "wal_ok w rs" "list_records (wal_file w) = Inr rs" using wal_invD [OF assms] by blast
  let ?n = "foldl (\<lambda>m r. max m (rec_tx r)) 0 rs"
  let ?w = "\<lparr>wal_file = wal_file w, tx_counter = ?n\<rparr>"
  have "wal_ok ?w rs" using rs(1) ids_le_foldl [of 0 rs] foldl_max_ge [of 0 rec_tx rs] by (simp add: wal_ok_def)
  moreover have "?n \<le> tx_counter w" using rs(1) by (intro foldl_max_le_ids) (auto simp: wal_ok_def)
  ultimately show ?thesis
    using rs wal_okI [of ?w rs] wal_okI [OF rs(1)]
    by (auto simp: wal_init_def recover_max_tx_id_def wal_room_def)
qed

lemma restart_ok:
  assumes v: "benign v" and w: "wal_inv w" "dk_wal d = wal_file w" and b: "dk_bin d = Some b"
    and ix: "load_from_file b = Inr ix" "ready ix"
    and reach: "\<forall>r\<in>set (wal_pend w). in_reach ix (bd_target_node_id r) (bd_max_m r)"
    and room: "int (length (wal_pend w)) < wal_room w"
  shows "\<exists>e0 out e1. engine_init d = Inr e0 \<and> bootstrap v e0 = (Inr (True, out), e1)
    \<and> length out = length (wal_pend w) \<and> engine_ok e1 \<and> published e1 \<and> pending e1 = []
    \<and> wiped_all ((\<lambda>r. nat (bd_target_node_id r)) ` set (wal_pend w)) ix (pe_mem e1)"
proof -
  obtain w' where w': "wal_init (wal_file w) = Inr w'" "wal_inv w'" "wal_pend w' = wal_pend w" "wal_room w \<le> wal_room w'"
    using wal_reopen [OF w(1)] by blast
  define e0 where "e0 = \<lparr>pe_wal = w', pe_bin = dk_bin d, pe_tmp = dk_tmp d, pe_mem = empty_index, pe_tick = 0\<rparr>"
  define el where "el = e0\<lparr>pe_mem := ix\<rparr>"
  have init: "engine_init d = Inr e0" using w' w(2) by (simp add: engine_init_def e0_def)
  have load: "load_index_if_present e0 = (Inr True, el)"
    using b ix by (simp add: load_index_if_present_def e0_def el_def)
  have el: "engine_ok el" "published el" "pending el = wal_pend w" "pe_mem el = ix" "int (length (wal_pend w)) < ids_left el"
    using w' ix b room by (auto simp: engine_ok_def published_def el_def e0_def)
  have pend: "uncommitted_deletes (pe_wal el) = Inr (wal_pend w)"
    using wl.pending_law [of "pe_wal el"] el by (simp add: engine_ok_def)
  obtain out e1 where o: "replay_all v (wal_pend w) el = (Inr out, e1)" "engine_ok e1" "published e1" "pending e1 = []"
    "length out = length (wal_pend w)" "wiped_all ((\<lambda>r. nat (bd_target_node_id r)) ` set (wal_pend w)) (pe_mem el) (pe_mem e1)"
    using replay_all_ok [OF v el(1,3,5)] reach el(2,4) by auto
  have "recover_uncommitted v el = (Inr out, e1)"
    using pend o(1) ix(2) el(4) by (cases "wal_pend w") (auto simp: recover_uncommitted_def ready_def)
  then have "bootstrap v e0 = (Inr (True, out), e1)" using load by (simp add: bootstrap_def)
  then show ?thesis using init o el(4) by auto
qed

text \<open>The disks that a crash of \<open>hard_delete_and_heal\<close> can leave once its BEGIN is durable: right
  after it, while the snapshot is written (any prefix of it is in the temp file, or none), after
  the replace, after the COMMIT.\<close>

inductive crash_disk :: "'d penv \<Rightarrow> int \<Rightarrow> int \<Rightarrow> engine \<Rightarrow> disk \<Rightarrow> bool" where
  begun: "begin_step v node m e = (Inr b, e1) \<Longrightarrow> crash_disk v node m e (disk_of e1)"
| saving: "begin_step v node m e = (Inr b, e1) \<Longrightarrow> erase_step v node m e1 = (Inr r, e2) \<Longrightarrow>
    save_to_file (pe_mem e2) = Inr img \<Longrightarrow> t = None \<or> t = Some (take k img) \<Longrightarrow>
    crash_disk v node m e (disk_of e2\<lparr>dk_tmp := t\<rparr>)"
| replaced: "begin_step v node m e = (Inr b, e1) \<Longrightarrow> erase_step v node m e1 = (Inr r, e2) \<Longrightarrow>
    atomic_flush_index v e2 = (Inr (), e3) \<Longrightarrow> crash_disk v node m e (disk_of e3)"
| committed: "begin_step v node m e = (Inr b, e1) \<Longrightarrow> erase_step v node m e1 = (Inr r, e2) \<Longrightarrow>
    atomic_flush_index v e2 = (Inr (), e3) \<Longrightarrow> commit_step v (bd_transaction_id b) e3 = (Inr c, e4) \<Longrightarrow>
    crash_disk v node m e (disk_of e4)"

text \<open>Each of them holds a log and an \<open>index.bin\<close> from which a restart reaches the wiped index.\<close>

lemma crash_disk_restartable:
  assumes v: "benign v" and ok: "engine_ok e" "published e" "pending e = []"
    and n: "in_reach (pe_mem e) node m" and room: "3 \<le> ids_left e" and c: "crash_disk v node m e d"
  shows "\<exists>w b ix. wal_inv w \<and> dk_wal d = wal_file w \<and> dk_bin d = Some b \<and> load_from_file b = Inr ix \<and> ready ix
    \<and> (\<forall>r\<in>set (wal_pend w). bd_target_node_id r = node \<and> bd_max_m r = m)
    \<and> length (wal_pend w) \<le> 1 \<and> 2 \<le> wal_room w
    \<and> (wiped (nat node) (pe_mem e) ix \<or> ix = pe_mem e \<and> wal_pend w \<noteq> [])"
proof -
  have inv: "wal_inv (pe_wal e)" and rd: "ready (pe_mem e)" using ok by (auto simp: engine_ok_def)
  obtain b0 where b0: "pe_bin e = Some b0" "load_from_file b0 = Inr (pe_mem e)" using ok(2) by (auto simp: published_def)
  have "0 < ids_left e" using room by simp
  from begin_good [OF v inv rd n this] obtain b w where
    b: "begin_step v node m e = (Inr b, e\<lparr>pe_wal := w, pe_tick := Suc (pe_tick e)\<rparr>)" "wal_inv w"
    "wal_pend w = [b]" "wal_room w = ids_left e - 1" "bd_target_node_id b = node" "bd_max_m b = m"
    using ok(3) by auto
  let ?e1 = "e\<lparr>pe_wal := w, pe_tick := Suc (pe_tick e)\<rparr>"
  obtain r ix img where x: "erase_step v node m ?e1 = (Inr r, ?e1\<lparr>pe_mem := ix, pe_tick := Suc (pe_tick ?e1)\<rparr>)"
    "ready ix" "wiped (nat node) (pe_mem e) ix"
    "atomic_flush_index v (?e1\<lparr>pe_mem := ix, pe_tick := Suc (pe_tick ?e1)\<rparr>)
        = (Inr (), ?e1\<lparr>pe_mem := ix, pe_tick := Suc (Suc (pe_tick ?e1)), pe_tmp := None, pe_bin := Some img\<rparr>)"
    "load_from_file img = Inr ix"
    using erase_publish [OF v, of ?e1 node m] rd n by auto
  let ?e3 = "?e1\<lparr>pe_mem := ix, pe_tick := Suc (Suc (pe_tick ?e1)), pe_tmp := None, pe_bin := Some img\<rparr>"
  have "b \<in> set (pending ?e3)" using b(3) by simp
  from commit_good [OF v _ this] b(2) obtain c w2 where
    cm: "commit_step v (bd_transaction_id b) ?e3 = (Inr c, ?e3\<lparr>pe_wal := w2, pe_tick := Suc (pe_tick ?e3)\<rparr>)" "wal_inv w2"
      "wal_pend w2 = filter (\<lambda>x. bd_transaction_id x \<noteq> bd_transaction_id b) (pending ?e3)" "wal_room w2 = ids_left ?e3"
    by auto
  have p2: "wal_pend w2 = []" using cm(3) b(3) by simp
  have pre: "wal_inv w \<and> length (wal_pend w) \<le> 1 \<and> 2 \<le> wal_room w
      \<and> (\<forall>r\<in>set (wal_pend w). bd_target_node_id r = node \<and> bd_max_m r = m)"
    using b room by simp
  from c show ?thesis
  proof (cases rule: crash_disk.cases)
    case (begun b' e1)
    then show ?thesis using b b0 rd pre by (intro exI [of _ w] exI [of _ b0] exI [of _ "pe_mem e"]) (auto simp: disk_of_def)
  next
    case (saving b' e1 r' e2 img' t k)
    then show ?thesis using b b0 rd pre x
      by (intro exI [of _ w] exI [of _ b0] exI [of _ "pe_mem e"]) (auto simp: disk_of_def)
  next
    case (replaced b' e1 r' e2 e3)
    then show ?thesis using b pre x
      by (intro exI [of _ w] exI [of _ img] exI [of _ ix]) (auto simp: disk_of_def)
  next
    case (committed b' e1 r' e2 e3 c' e4)
    then show ?thesis using b pre x cm p2
      by (intro exI [of _ w2] exI [of _ img] exI [of _ ix]) (auto simp: disk_of_def)
  qed
qed

lemma wiped_all_single: "q < length (hx_rows ix) \<Longrightarrow> wiped_all {q} ix ix' \<Longrightarrow> wiped q ix ix'"
  by (auto simp: wiped_def wiped_all_def nth_list_update intro!: nth_equalityI)

lemma wiped_all_none: "wiped_all {} ix ix' \<Longrightarrow> wiped q ix0 ix \<Longrightarrow> wiped q ix0 ix'"
  unfolding wiped_def wiped_all_def by (metis empty_iff nth_equalityI)

lemma crash_recovery:
  assumes v: "benign v" "benign v'" and ok: "engine_ok e" "published e" "pending e = []"
    and n: "in_reach (pe_mem e) node m" and room: "3 \<le> ids_left e" and c: "crash_disk v node m e d"
  shows "\<exists>e0 out e1. engine_init d = Inr e0 \<and> bootstrap v' e0 = (Inr (True, out), e1)
    \<and> wiped (nat node) (pe_mem e) (pe_mem e1) \<and> published e1 \<and> pending e1 = []"
proof -
  have q: "nat node < length (hx_rows (pe_mem e))" using in_reachD(7) [OF _ n] ok(1) by (simp add: engine_ok_def)
  obtain w b ix where r: "wal_inv w" "dk_wal d = wal_file w" "dk_bin d = Some b" "load_from_file b = Inr ix" "ready ix"
    "\<forall>r\<in>set (wal_pend w). bd_target_node_id r = node \<and> bd_max_m r = m"
    "length (wal_pend w) \<le> 1" "2 \<le> wal_room w"
    "wiped (nat node) (pe_mem e) ix \<or> ix = pe_mem e \<and> wal_pend w \<noteq> []"
    using crash_disk_restartable [OF v(1) ok n room c] by blast
  have num: "num_elements ix = num_elements (pe_mem e)" using r(9) wiped_ready by blast
  have "\<forall>r\<in>set (wal_pend w). in_reach ix (bd_target_node_id r) (bd_max_m r)"
    using r(6) n num by (simp add: in_reach_def)
  moreover have "int (length (wal_pend w)) < wal_room w" using r(7,8) by linarith
  ultimately obtain e0 out e1 where o: "engine_init d = Inr e0" "bootstrap v' e0 = (Inr (True, out), e1)"
    "published e1" "pending e1 = []"
    "wiped_all ((\<lambda>r. nat (bd_target_node_id r)) ` set (wal_pend w)) ix (pe_mem e1)"
    using restart_ok [OF v(2) r(1-5)] by blast
  have len: "length (hx_rows ix) = length (hx_rows (pe_mem e))" using num by (simp add: num_elements_def)
  have "wiped (nat node) (pe_mem e) (pe_mem e1)"
  proof (cases "wal_pend w = []")
    case True
    then show ?thesis using o(5) r(9) wiped_all_none by auto
  next
    case False
    then have "(\<lambda>r. nat (bd_target_node_id r)) ` set (wal_pend w) = {nat node}" using r(6) by (cases "wal_pend w") auto
    then have "wiped (nat node) ix (pe_mem e1)" using o(5) wiped_all_single q len by simp
    then show ?thesis using r(9) wiped_again by blast
  qed
  then show ?thesis using o by blast
qed


section \<open>Calls that fail\<close>

lemma native_erase_rows:
  "native_erase f ms busy node m ix = (r, ix') \<Longrightarrow> num_elements ix' = num_elements ix"
proof -
  have ow: "num_elements ix1 = num_elements ix" if "overwrite_vector ix node = Inr ix1" for ix ix1
    using that by (auto simp: overwrite_vector_def num_elements_def)
  have hg: "num_elements ix2 = num_elements ix1" if "heal_graph_structure f ix1 node m = Inr (a, b, ix2)" for a b ix1 ix2
    using that by (auto simp: heal_graph_structure_def num_elements_def Let_def split: if_splits)
  have en: "num_elements ix' = num_elements ix" if "erase_node f ms node m ix = (r, ix')" for r ix'
    using that ow hg by (auto simp: erase_node_def split: if_splits sum.splits prod.splits)
  assume "native_erase f ms busy node m ix = (r, ix')"
  then show ?thesis
    using ow en by (auto simp: native_erase_def split: option.splits if_splits sum.splits contention.splits)
qed

lemma retry_rows:
  "retry_from (\<lambda>i. native_erase f ms (busy i) node m) i k ix = (r, ix', n) \<Longrightarrow> num_elements ix' = num_elements ix"
proof (induction k arbitrary: i ix)
  case 0
  then show ?case by simp
next
  case (Suc k)
  obtain r1 ix1 where one: "native_erase f ms (busy i) node m ix = (r1, ix1)" by fastforce
  then have "num_elements ix1 = num_elements ix" by (rule native_erase_rows)
  then show ?case using Suc one by (auto split: sum.splits exn.splits if_splits)
qed

lemma erase_step_rows: "erase_step v node m e = (r, e') \<Longrightarrow> num_elements (pe_mem e') = num_elements (pe_mem e)"
  using retry_rows by (fastforce simp: erase_step_def with_lock_retry_def split: prod.splits)

definition out_of_range :: "hnsw_index \<Rightarrow> int \<Rightarrow> bool" where
  "out_of_range ix node \<longleftrightarrow> node < 0 \<or> int (num_elements ix) \<le> node"

lemma native_erase_refused:
  assumes "is_loaded ix" "out_of_range ix node"
  shows "\<exists>x. native_erase f ms busy node m ix = (Inl x, ix) \<and> (\<forall>msg. x \<noteq> LockContentionError msg)"
  using assms
  by (auto simp: native_erase_def erase_node_def overwrite_vector_def ensure_node_def out_of_range_def node_error_def
      split: option.splits contention.splits)

lemma erase_step_refused:
  assumes "is_loaded (pe_mem e)" "out_of_range (pe_mem e) node"
  shows "\<exists>x. erase_step v node m e = (Inl x, e\<lparr>pe_tick := Suc (pe_tick e)\<rparr>)"
proof -
  let ?k = "nat (if pv_attempts v < 1 then 1 else pv_attempts v)"
  have "?k \<noteq> 0" by auto
  then obtain j where k: "?k = Suc j" using not0_implies_Suc by blast
  obtain x where "native_erase (pv_fp v) (pv_ms v (pe_tick e)) (pv_busy v (pe_tick e) 0) node m (pe_mem e) = (Inl x, pe_mem e)"
    "\<forall>msg. x \<noteq> LockContentionError msg"
    using native_erase_refused [OF assms] by blast
  then show ?thesis
    by (cases x) (simp_all add: erase_step_def with_lock_retry_def k del: One_nat_def)
qed

text \<open>A log in which every uncommitted delete names a row that the stored index does not have.\<close>

definition stuck :: "nat \<Rightarrow> disk \<Rightarrow> bool" where
  "stuck n d \<longleftrightarrow> (\<exists>w b ix. wal_inv w \<and> int n < wal_room w \<and> dk_wal d = wal_file w \<and> dk_bin d = Some b
     \<and> load_from_file b = Inr ix \<and> is_loaded ix \<and> wal_pend w \<noteq> []
     \<and> (\<forall>r\<in>set (wal_pend w). out_of_range ix (bd_target_node_id r)
          \<and> in_range 8 (bd_target_node_id r) \<and> in_range 4 (bd_max_m r) \<and> 1 \<le> bd_max_m r))"

definition restart :: "'d penv \<Rightarrow> disk \<Rightarrow> bool \<times> disk" where
  "restart v d =
    (case engine_init d of
       Inl _ \<Rightarrow> (False, d)
     | Inr e0 \<Rightarrow> (case bootstrap v e0 of (r, e1) \<Rightarrow> (\<not> isl r, disk_of e1)))"

fun restarts :: "'d penv list \<Rightarrow> disk \<Rightarrow> bool list" where
  "restarts [] d = []"
| "restarts (v # vs) d = (case restart v d of (ok, d1) \<Rightarrow> ok # restarts vs d1)"

lemma restart_stuck:
  assumes v: "benign v" and st: "stuck (Suc n) d"
  shows "\<exists>d1. restart v d = (False, d1) \<and> stuck n d1"
proof -
  obtain w b ix where w: "wal_inv w" "int (Suc n) < wal_room w" "dk_wal d = wal_file w" "dk_bin d = Some b"
     "load_from_file b = Inr ix" "is_loaded ix" "wal_pend w \<noteq> []"
     "\<forall>r\<in>set (wal_pend w). out_of_range ix (bd_target_node_id r)
          \<and> in_range 8 (bd_target_node_id r) \<and> in_range 4 (bd_max_m r) \<and> 1 \<le> bd_max_m r"
    using st unfolding stuck_def by blast
  obtain w' where w': "wal_init (wal_file w) = Inr w'" "wal_inv w'" "wal_pend w' = wal_pend w" "wal_room w \<le> wal_room w'"
    using wal_reopen [OF w(1)] by blast
  obtain r rs where rs: "wal_pend w = r # rs" using w(7) by (cases "wal_pend w") auto
  define e0 where "e0 = \<lparr>pe_wal = w', pe_bin = dk_bin d, pe_tmp = dk_tmp d, pe_mem = empty_index, pe_tick = 0\<rparr>"
  define el where "el = e0\<lparr>pe_mem := ix\<rparr>"
  have pend: "uncommitted_deletes (pe_wal el) = Inr (r # rs)"
    using wl.pending_law [of w'] w' rs by (simp add: el_def e0_def)
  have now: "in_range 8 (pv_now v 0)" using v by (simp add: benign_def benign_at_def)
  have rr: "out_of_range ix (bd_target_node_id r)" "in_range 8 (bd_target_node_id r)" "in_range 4 (bd_max_m r)" "1 \<le> bd_max_m r"
    using w(8) rs by auto
  obtain b1 w1 where b1: "append_begin_delete (bd_target_node_id r) (bd_max_m r) None None (pv_now v 0) w' = (Inr b1, w1)"
    "wal_inv w1" "wal_pend w1 = wal_pend w' @ [b1]" "wal_room w1 = wal_room w' - 1"
    "bd_target_node_id b1 = bd_target_node_id r" "bd_max_m b1 = bd_max_m r"
    using wl.begin_law [OF w'(2) now rr(2,3,4)] w(2) w'(4) by auto
  define e1 where "e1 = el\<lparr>pe_wal := w1, pe_tick := 1\<rparr>"
  have bs: "begin_step v (bd_target_node_id r) (bd_max_m r) el = (Inr b1, e1)"
    using b1(1) by (simp add: begin_step_def el_def e0_def e1_def)
  obtain x where x: "erase_step v (bd_target_node_id r) (bd_max_m r) e1 = (Inl x, e1\<lparr>pe_tick := Suc (pe_tick e1)\<rparr>)"
    using erase_step_refused [of e1 "bd_target_node_id r" v "bd_max_m r"] w(6) rr(1) by (auto simp: e1_def el_def)
  have "recover_uncommitted v el = (Inl x, e1\<lparr>pe_tick := Suc (pe_tick e1)\<rparr>)"
    using pend w(6) bs x by (simp add: recover_uncommitted_def replay_one_def el_def)
  then have "bootstrap v e0 = (Inl x, e1\<lparr>pe_tick := Suc (pe_tick e1)\<rparr>)"
    using w(4,5) by (simp add: bootstrap_def load_index_if_present_def e0_def el_def)
  then have run: "restart v d = (False, disk_of (e1\<lparr>pe_tick := Suc (pe_tick e1)\<rparr>))"
    using w' w(3) by (simp add: restart_def engine_init_def e0_def)
  have "int n < wal_room w1" using b1(4) w(2) w'(4) by simp
  moreover have "\<forall>y\<in>set (wal_pend w1). out_of_range ix (bd_target_node_id y)
          \<and> in_range 8 (bd_target_node_id y) \<and> in_range 4 (bd_max_m y) \<and> 1 \<le> bd_max_m y"
    using b1(3,5,6) w'(3) w(8) rr by auto
  ultimately have "stuck n (disk_of (e1\<lparr>pe_tick := Suc (pe_tick e1)\<rparr>))"
    using b1(2,3) w(4,5,6)
    unfolding stuck_def by (intro exI [of _ w1] exI [of _ b] exI [of _ ix]) (auto simp: disk_of_def e1_def el_def e0_def)
  then show ?thesis using run by blast
qed

lemma restarts_stuck:
  "list_all benign vs \<Longrightarrow> stuck (length vs) d \<Longrightarrow> restarts vs d = replicate (length vs) False"
proof (induction vs arbitrary: d)
  case Nil
  then show ?case by simp
next
  case (Cons v vs)
  then show ?case using restart_stuck [of v "length vs" d] by auto
qed


section \<open>Properties\<close>

definition demo_env :: "nat penv" where
  "demo_env = \<lparr>pv_fp = demo_fp, pv_ms = (\<lambda>_. ''0.1''), pv_now = (\<lambda>t. 1000 + int t mod 1000),
     pv_busy = (\<lambda>_ i. if i = 0 then Some AtHeal else None), pv_attempts = 5, pv_fault = (\<lambda>_. None)\<rparr>"

lemma demo_benign: "benign demo_env"
proof -
  have "in_range 8 (1000 + int t mod 1000)" for t
  proof -
    have "int t mod 1000 < 1000" "0 \<le> int t mod 1000" by simp_all
    then show ?thesis by (simp add: in_range_def)
  qed
  moreover have "\<exists>i < (5::nat). i \<noteq> 0" by (rule exI [of _ 1]) simp
  ultimately show ?thesis by (auto simp: benign_def benign_at_def demo_env_def)
qed

definition demo_engine :: "bytes \<Rightarrow> engine" where
  "demo_engine b = \<lparr>pe_wal = \<lparr>wal_file = None, tx_counter = 0\<rparr>, pe_bin = Some b, pe_tmp = None,
     pe_mem = demo_index, pe_tick = 0\<rparr>"

lemma demo_ready: "ready demo_index"
  by (simp add: ready_def demo_index_ok index_fits_def) (simp add: demo_index_def)

lemma demo_wal: "wal_inv \<lparr>wal_file = None, tx_counter = 0\<rparr>" "wal_pend \<lparr>wal_file = None, tx_counter = 0\<rparr> = []"
  "wal_room \<lparr>wal_file = None, tx_counter = 0\<rparr> = 256 ^ 8 - 1"
proof -
  have "wal_ok \<lparr>wal_file = None, tx_counter = 0\<rparr> []" by (simp add: wal_ok_def log_image_def)
  from wal_okI [OF this] show "wal_inv \<lparr>wal_file = None, tx_counter = 0\<rparr>" "wal_pend \<lparr>wal_file = None, tx_counter = 0\<rparr> = []"
    by simp_all
  show "wal_room \<lparr>wal_file = None, tx_counter = 0\<rparr> = 256 ^ 8 - 1" by (simp add: wal_room_def)
qed

lemma demo_engine_ok:
  "\<exists>b. save_to_file demo_index = Inr b \<and> load_from_file b = Inr demo_index
     \<and> engine_ok (demo_engine b) \<and> published (demo_engine b)"
  using ni.save_law [OF demo_ready] demo_wal demo_ready
  by (auto simp: engine_ok_def published_def demo_engine_def)

lemma demo_reach: "in_reach demo_index 1 16"
  by (simp add: in_reach_def demo_index_ok)

text \<open>
  C6: on a sound engine with a loaded index, a delete of a row of the index with
  \<open>1 \<le> max_m < 2\<^sup>3\<^sup>1\<close> returns success whenever lock contention ends before the attempts do
  and no file operation fails: the row is zero and every other row unchanged, \<open>index.bin\<close> holds
  exactly the index in memory, no temp file is left, and no delete became or stayed pending because of it.
\<close>

theorem hard_delete_durable:
  assumes "benign v" and "engine_ok e" and "in_reach (pe_mem e) node m" and "0 < ids_left e"
  shows "\<exists>r e'. hard_delete_and_heal v node m rc e = (Inr r, e') \<and> hd_success r \<and> hd_node_id r = node
    \<and> hx_rows (pe_mem e') = (hx_rows (pe_mem e))[nat node := zero_row (hx_dim (pe_mem e))]
    \<and> published e' \<and> pe_tmp e' = None \<and> pending e' = pending e \<and> engine_ok e'"
  using hard_delete_ok [OF assms, of rc] by (auto simp: wiped_def)

theorem hard_delete_durable_witness:
  "\<exists>b r e'. hard_delete_and_heal demo_env 1 16 False (demo_engine b) = (Inr r, e') \<and> hd_success r
    \<and> hx_rows (pe_mem e') = [[1, 2], [0, 0], [5, 6]] \<and> published e' \<and> pending e' = []"
proof -
  obtain b where b: "engine_ok (demo_engine b)" using demo_engine_ok by blast
  have "in_reach (pe_mem (demo_engine b)) 1 16" "0 < ids_left (demo_engine b)"
    using demo_reach demo_wal by (simp_all add: demo_engine_def)
  from hard_delete_durable [OF demo_benign b this, of False] demo_wal show ?thesis
    by (auto simp: demo_engine_def demo_index_def zero_row_def numeral_2_eq_2)
qed

text \<open>
  C2: success is reported only after the publish and the COMMIT, whatever the environment does and
  whatever state the engine was in: when \<open>hard_delete_and_heal\<close> returns a result, \<open>index.bin\<close> is the
  full snapshot of the index in memory and the log file ends with the COMMIT of the returned transaction.
\<close>

theorem hard_delete_ack_after_commit:
  assumes "hard_delete_and_heal v node m rc e = (Inr r, e')"
  shows "(\<exists>b. pe_bin e' = Some b \<and> save_to_file (pe_mem e') = Inr b) \<and>
    (\<exists>c f. wal_file (pe_wal e') = Some (f @ encode_commit c) \<and> cm_transaction_id c = hd_transaction_id r)"
proof -
  obtain b e1 x e2 e3 c where s: "begin_step v node m e = (Inr b, e1)" "erase_step v node m e1 = (Inr x, e2)"
    "atomic_flush_index v e2 = (Inr (), e3)" "commit_step v (bd_transaction_id b) e3 = (Inr c, e')"
    "hd_transaction_id r = bd_transaction_id b"
    using assms by (auto simp: hard_delete_and_heal_def split: prod.splits sum.splits if_splits)
  have fl: "\<exists>g. pe_bin e3 = Some g \<and> save_to_file (pe_mem e3) = Inr g"
    using s(3) by (auto simp: atomic_flush_index_def Let_def split: sum.splits option.splits io_fault.splits)
  have "pe_bin e' = pe_bin e3" "pe_mem e' = pe_mem e3"
    "\<exists>f. wal_file (pe_wal e') = Some (f @ encode_commit c) \<and> cm_transaction_id c = bd_transaction_id b"
    using s(4) by (auto simp: commit_step_def append_commit_def append_bytes_def Let_def split: sum.splits prod.splits)
  then show ?thesis using fl s(5) by auto
qed

theorem hard_delete_ack_after_commit_witness:
  "\<exists>b r e' g c f. hard_delete_and_heal demo_env 1 16 False (demo_engine b) = (Inr r, e')
    \<and> pe_bin e' = Some g \<and> save_to_file (pe_mem e') = Inr g
    \<and> wal_file (pe_wal e') = Some (f @ encode_commit c) \<and> cm_transaction_id c = hd_transaction_id r"
proof -
  obtain b where b: "engine_ok (demo_engine b)" using demo_engine_ok by blast
  have "in_reach (pe_mem (demo_engine b)) 1 16" "0 < ids_left (demo_engine b)"
    using demo_reach demo_wal by (simp_all add: demo_engine_def)
  from hard_delete_ok [OF demo_benign b this, of False] obtain r e' where
    "hard_delete_and_heal demo_env 1 16 False (demo_engine b) = (Inr r, e')" by blast
  with hard_delete_ack_after_commit [OF this] show ?thesis by blast
qed


definition dead_lock_env :: "nat penv" where
  "dead_lock_env = demo_env\<lparr>pv_busy := \<lambda>_ _. Some AtWipe\<rparr>"





text \<open>
  C8: recovery converges for any number of unfinished deletes: from a disk whose log has uncommitted
  deletes of rows of the stored index, a start replays each of them once; afterwards exactly their rows
  are zero, the index in memory is the published one, and nothing is uncommitted.
\<close>

theorem recovery_applies_every_pending_delete:
  assumes "benign v" and "wal_inv w" and "dk_wal d = wal_file w" and "dk_bin d = Some b"
    and "load_from_file b = Inr ix" and "ready ix"
    and "\<forall>r\<in>set (wal_pend w). in_reach ix (bd_target_node_id r) (bd_max_m r)"
    and "int (length (wal_pend w)) < wal_room w"
  shows "\<exists>e0 out e1. engine_init d = Inr e0 \<and> bootstrap v e0 = (Inr (True, out), e1)
    \<and> length out = length (wal_pend w) \<and> published e1 \<and> pending e1 = []
    \<and> wiped_all ((\<lambda>r. nat (bd_target_node_id r)) ` set (wal_pend w)) ix (pe_mem e1)"
  using restart_ok [OF assms] by blast

definition demo_wal2 :: wal where
  "demo_wal2 = snd (append_begin_delete 2 16 None None 9 (snd (append_begin_delete 0 16 None None 8
     \<lparr>wal_file = None, tx_counter = 0\<rparr>)))"

lemma demo_wal2:
  "wal_inv demo_wal2" "wal_room demo_wal2 = 256 ^ 8 - 3"
  "map (\<lambda>r. (bd_target_node_id r, bd_max_m r)) (wal_pend demo_wal2) = [(0, 16), (2, 16)]"
proof -
  have rg: "in_range 8 8" "in_range 8 9" "in_range 8 0" "in_range 8 2" "in_range 4 16" by (simp_all add: in_range_def)
  obtain r1 l1 where a: "append_begin_delete 0 16 None None 8 \<lparr>wal_file = None, tx_counter = 0\<rparr> = (Inr r1, l1)"
    "wal_inv l1" "wal_pend l1 = [r1]" "wal_room l1 = 256 ^ 8 - 2" "bd_target_node_id r1 = 0" "bd_max_m r1 = 16"
    using wl.begin_law [OF demo_wal(1) rg(1,3,5)] demo_wal by auto
  have "0 < wal_room l1" using a by simp
  from wl.begin_law [OF a(2) rg(2,4,5) _ this] a(3,4,5,6) a(1)
  show "wal_inv demo_wal2" "wal_room demo_wal2 = 256 ^ 8 - 3"
    "map (\<lambda>r. (bd_target_node_id r, bd_max_m r)) (wal_pend demo_wal2) = [(0, 16), (2, 16)]"
    by (auto simp: demo_wal2_def)
qed

theorem recovery_applies_every_pending_delete_witness:
  "\<exists>b e0 out e1. engine_init \<lparr>dk_wal = wal_file demo_wal2, dk_bin = Some b, dk_tmp = None\<rparr> = Inr e0
    \<and> bootstrap demo_env e0 = (Inr (True, out), e1) \<and> length out = 2
    \<and> wiped_all {0, 2} demo_index (pe_mem e1) \<and> pending e1 = []"
proof -
  obtain b where b: "load_from_file b = Inr demo_index" using demo_engine_ok by blast
  have len: "length (wal_pend demo_wal2) = 2" using arg_cong [OF demo_wal2(3), of length] by simp
  have mem: "(bd_target_node_id r, bd_max_m r) \<in> {(0, 16), (2, 16)}" if "r \<in> set (wal_pend demo_wal2)" for r
    using arg_cong [OF demo_wal2(3), of set] that by auto
  have "\<forall>r\<in>set (wal_pend demo_wal2). in_reach demo_index (bd_target_node_id r) (bd_max_m r)"
    using mem by (fastforce simp: in_reach_def demo_index_ok)
  moreover have "(\<lambda>r. nat (bd_target_node_id r)) ` set (wal_pend demo_wal2) = {0, 2}"
  proof -
    have "(\<lambda>r. nat (bd_target_node_id r)) ` set (wal_pend demo_wal2)
        = (\<lambda>x. nat (fst x)) ` set (map (\<lambda>r. (bd_target_node_id r, bd_max_m r)) (wal_pend demo_wal2))"
      by (simp add: image_image)
    also have "\<dots> = {0, 2}" unfolding demo_wal2(3) by simp
    finally show ?thesis .
  qed
  moreover have "int (length (wal_pend demo_wal2)) < wal_room demo_wal2" using len demo_wal2(2) by simp
  ultimately show ?thesis
    using recovery_applies_every_pending_delete [OF demo_benign demo_wal2(1), of
        "\<lparr>dk_wal = wal_file demo_wal2, dk_bin = Some b, dk_tmp = None\<rparr>" b demo_index] b demo_ready len
    by auto
qed

text \<open>
  C9: a delete of a row beyond the index blocks every later start: \<open>hard_delete_and_heal\<close> writes the
  BEGIN before the range check of the native call, so it raises with the BEGIN pending, and from the disk
  it leaves each of any number of restarts fails, under any benign environments.
\<close>

theorem out_of_range_delete_blocks_restart:
  assumes "list_all benign vs" and "benign v" and "engine_ok e" and "published e" and "pending e = []"
    and "int (num_elements (pe_mem e)) \<le> node" and "in_range 8 node" and "1 \<le> m" and "in_range 4 m"
    and "int (length vs) + 1 < ids_left e"
  shows "\<exists>x e'. hard_delete_and_heal v node m rc e = (Inl x, e')
    \<and> restarts vs (disk_of e') = replicate (length vs) False"
proof -
  have inv: "wal_inv (pe_wal e)" and ld: "is_loaded (pe_mem e)" using assms(3) by (auto simp: engine_ok_def ready_def)
  have now: "in_range 8 (pv_now v (pe_tick e))" using assms(2) by (simp add: benign_def benign_at_def)
  obtain b where pb: "pe_bin e = Some b" "load_from_file b = Inr (pe_mem e)" using assms(4) by (auto simp: published_def)
  obtain r w where w: "append_begin_delete node m None None (pv_now v (pe_tick e)) (pe_wal e) = (Inr r, w)"
    "wal_inv w" "wal_pend w = [r]" "wal_room w = ids_left e - 1" "bd_target_node_id r = node" "bd_max_m r = m"
    using wl.begin_law [OF inv now assms(7,9,8)] assms(5,10) by auto
  let ?e1 = "e\<lparr>pe_wal := w, pe_tick := Suc (pe_tick e)\<rparr>"
  have oor: "out_of_range (pe_mem e) node" using assms(6) by (simp add: out_of_range_def)
  obtain x where x: "erase_step v node m ?e1 = (Inl x, ?e1\<lparr>pe_tick := Suc (pe_tick ?e1)\<rparr>)"
    using erase_step_refused [of ?e1 node v m] ld oor by auto
  have run: "hard_delete_and_heal v node m rc e = (Inl x, ?e1\<lparr>pe_tick := Suc (pe_tick ?e1)\<rparr>)"
    using w(1) x by (simp add: hard_delete_and_heal_def begin_step_def)
  have "stuck (length vs) (disk_of (?e1\<lparr>pe_tick := Suc (pe_tick ?e1)\<rparr>))"
    unfolding stuck_def
    by (rule exI [of _ w], rule exI [of _ b], rule exI [of _ "pe_mem e"])
      (use w pb ld oor assms(7,8,9,10) in \<open>simp add: disk_of_def\<close>)
  then show ?thesis using run restarts_stuck [OF assms(1)] by blast
qed

theorem out_of_range_delete_blocks_restart_witness:
  "\<exists>b x e'. hard_delete_and_heal demo_env 3 16 False (demo_engine b) = (Inl x, e')
    \<and> restarts [demo_env, demo_env] (disk_of e') = [False, False]"
proof -
  obtain b where b: "engine_ok (demo_engine b)" "published (demo_engine b)" using demo_engine_ok by blast
  have "pending (demo_engine b) = []" "int (num_elements (pe_mem (demo_engine b))) \<le> 3"
    "int (length [demo_env, demo_env]) + 1 < ids_left (demo_engine b)"
    using demo_wal demo_index_ok by (simp_all add: demo_engine_def)
  from out_of_range_delete_blocks_restart [OF _ demo_benign b this(1,2) _ _ _ this(3), of 16 False] demo_benign
  show ?thesis by (auto simp: in_range_def numeral_2_eq_2)
qed

text \<open>
  \<open>atomic_flush_index\<close> is all or nothing: in every environment, when it raises \<open>index.bin\<close> is as
  it was, and when it returns \<open>index.bin\<close> is the complete snapshot, which loads back as the index in
  memory; memory and log are never touched.
\<close>

theorem flush_all_or_nothing:
  assumes "ready (pe_mem e)" and "atomic_flush_index v e = (r, e')"
  shows "pe_mem e' = pe_mem e \<and> pe_wal e' = pe_wal e \<and> (if isl r then pe_bin e' = pe_bin e else published e')"
  using assms ni.save_law [OF assms(1)]
  by (auto simp: atomic_flush_index_def Let_def published_def split: option.splits io_fault.splits)

theorem flush_all_or_nothing_witness:
  "pe_bin (snd (atomic_flush_index (demo_env\<lparr>pv_fault := \<lambda>_. Some (SaveFails 3)\<rparr>) (demo_engine [7]))) = Some [7]"
proof -
  let ?v = "demo_env\<lparr>pv_fault := \<lambda>_. Some (SaveFails 3)\<rparr>"
  obtain r e' where f: "atomic_flush_index ?v (demo_engine [7]) = (r, e')" by fastforce
  have "isl r"
    using f ni.save_law [OF demo_ready] by (auto simp: atomic_flush_index_def Let_def demo_engine_def)
  moreover have "ready (pe_mem (demo_engine [7]))" using demo_ready by (simp add: demo_engine_def)
  ultimately show ?thesis using flush_all_or_nothing [OF _ f] f by (simp add: demo_engine_def)
qed

end
