(* ===== verification/IdRegistry.thy ===== *)
theory IdRegistry
  imports Prelude
begin

text \<open>
  \<open>integrations/id_registry.py\<close>: the map between business ids and index labels, per collection. The three
  dicts are association lists, so the saved JSON and the sorted listings compute. Every method takes the
  lock for its whole effect, so methods are atomic steps.
\<close>

record resolved_id =
  ri_collection :: string
  ri_external_id :: string
  ri_label :: int

record id_registry =
  rg_forward :: "(string, (string, int) dict) dict"
  rg_reverse :: "(string, (int, string) dict) dict"
  rg_next_label :: "(string, int) dict"

definition empty_registry :: id_registry where
  "empty_registry = \<lparr>rg_forward = [], rg_reverse = [], rg_next_label = []\<rparr>"

section \<open>Operations\<close>

definition norm_collection :: "string \<Rightarrow> string res" where
  "norm_collection collection =
    (let coll = py_strip collection
     in if coll = [] then Inl (ValueError ''collection must be a non-empty string'') else Inr coll)"

definition norm_external :: "string \<Rightarrow> string res" where
  "norm_external external_id =
    (let ext = py_strip external_id
     in if ext = [] then Inl (ValueError ''external_id must be a non-empty string'') else Inr ext)"

definition ensure_norm :: "string \<Rightarrow> id_registry \<Rightarrow> id_registry" where
  "ensure_norm coll r = r\<lparr>rg_forward := dsetdefault coll [] (rg_forward r),
     rg_reverse := dsetdefault coll [] (rg_reverse r), rg_next_label := dsetdefault coll 0 (rg_next_label r)\<rparr>"

definition ensure_collection :: "string \<Rightarrow> id_registry \<Rightarrow> unit res \<times> id_registry" where
  "ensure_collection collection r =
    (case norm_collection collection of Inl e \<Rightarrow> (Inl e, r) | Inr coll \<Rightarrow> (Inr (), ensure_norm coll r))"

text \<open>The inner dicts of a collection; \<open>[]\<close> stands for a missing collection.\<close>

definition fwd_of :: "id_registry \<Rightarrow> string \<Rightarrow> (string, int) dict" where
  "fwd_of r c = (case dget (rg_forward r) c of None \<Rightarrow> [] | Some m \<Rightarrow> m)"

definition rev_of :: "id_registry \<Rightarrow> string \<Rightarrow> (int, string) dict" where
  "rev_of r c = (case dget (rg_reverse r) c of None \<Rightarrow> [] | Some m \<Rightarrow> m)"

definition next_of :: "id_registry \<Rightarrow> string \<Rightarrow> int" where
  "next_of r c = (case dget (rg_next_label r) c of None \<Rightarrow> 0 | Some n \<Rightarrow> n)"

definition put_mapping :: "string \<Rightarrow> string \<Rightarrow> int \<Rightarrow> int \<Rightarrow> id_registry \<Rightarrow> id_registry" where
  "put_mapping c ext label n r = r\<lparr>
     rg_forward := dset c (dset ext label (fwd_of r c)) (rg_forward r),
     rg_reverse := dset c (dset label ext (rev_of r c)) (rg_reverse r),
     rg_next_label := dset c n (rg_next_label r)\<rparr>"

definition register :: "string \<Rightarrow> string \<Rightarrow> int option \<Rightarrow> id_registry \<Rightarrow> int res \<times> id_registry" where
  "register collection external_id label r =
    (case norm_collection collection of
       Inl e \<Rightarrow> (Inl e, r)
     | Inr coll \<Rightarrow>
    (case norm_external external_id of
       Inl e \<Rightarrow> (Inl e, r)
     | Inr ext \<Rightarrow>
        let r1 = ensure_norm coll r in
        case dget (fwd_of r1 coll) ext of
          Some existing \<Rightarrow>
            (case label of
               Some l \<Rightarrow>
                 if l \<noteq> existing
                 then (Inl (IdMappingError (''id '' @ py_repr ext @ '' already mapped to '' @ int_str existing
                              @ '', not '' @ int_str l)), r1)
                 else (Inr existing, r1)
             | None \<Rightarrow> (Inr existing, r1))
        | None \<Rightarrow>
            (case label of
               None \<Rightarrow> let l = next_of r1 coll in (Inr l, put_mapping coll ext l (l + 1) r1)
             | Some l \<Rightarrow>
                 (case dget (rev_of r1 coll) l of
                    Some other \<Rightarrow> (Inl (IdMappingError (''label '' @ int_str l @ '' already used in ''
                                     @ py_repr coll @ '' by '' @ py_repr other)), r1)
                  | None \<Rightarrow> (Inr l, put_mapping coll ext l (max (next_of r1 coll) (l + 1)) r1)))))"

fun register_many :: "string \<Rightarrow> string list \<Rightarrow> id_registry \<Rightarrow> int list res \<times> id_registry" where
  "register_many c [] r = (Inr [], r)"
| "register_many c (x # xs) r =
    (case register c x None r of
       (Inl e, r1) \<Rightarrow> (Inl e, r1)
     | (Inr l, r1) \<Rightarrow> (case register_many c xs r1 of (Inl e, r2) \<Rightarrow> (Inl e, r2) | (Inr ls, r2) \<Rightarrow> (Inr (l # ls), r2)))"

definition resolve :: "string \<Rightarrow> string \<Rightarrow> id_registry \<Rightarrow> resolved_id res" where
  "resolve collection external_id r =
    bind_res (norm_collection collection) (\<lambda>coll. bind_res (norm_external external_id) (\<lambda>ext.
      case dget (fwd_of r coll) ext of
        None \<Rightarrow> Inl (IdMappingError (''unknown id '' @ py_repr ext @ '' in collection '' @ py_repr coll))
      | Some label \<Rightarrow> Inr \<lparr>ri_collection = coll, ri_external_id = ext, ri_label = label\<rparr>))"

definition resolve_many :: "string \<Rightarrow> string list \<Rightarrow> id_registry \<Rightarrow> resolved_id list res" where
  "resolve_many c xs r = map_res (\<lambda>x. resolve c x r) xs"

definition external_of :: "string \<Rightarrow> int \<Rightarrow> id_registry \<Rightarrow> string res" where
  "external_of collection label r = bind_res (norm_collection collection) (\<lambda>coll.
     case dget (rev_of r coll) label of
       None \<Rightarrow> Inl (IdMappingError (''unknown label '' @ int_str label @ '' in collection '' @ py_repr coll))
     | Some ext \<Rightarrow> Inr ext)"

definition drop_id :: "string \<Rightarrow> string \<Rightarrow> id_registry \<Rightarrow> int res \<times> id_registry" where
  "drop_id collection external_id r =
    (case resolve collection external_id r of
       Inl e \<Rightarrow> (Inl e, r)
     | Inr x \<Rightarrow>
         let c = ri_collection x;
             r1 = r\<lparr>rg_forward := dset c (ddel (ri_external_id x) (fwd_of r c)) (rg_forward r)\<rparr>
         in if dget (rev_of r c) (ri_label x) = None then (Inl (KeyError (int_str (ri_label x))), r1)
            else (Inr (ri_label x), r1\<lparr>rg_reverse := dset c (ddel (ri_label x) (rev_of r c)) (rg_reverse r)\<rparr>))"

definition contains_id :: "string \<Rightarrow> string \<Rightarrow> id_registry \<Rightarrow> bool res" where
  "contains_id collection external_id r =
    bind_res (norm_collection collection) (\<lambda>coll. bind_res (norm_external external_id) (\<lambda>ext.
      Inr (dget (fwd_of r coll) ext \<noteq> None)))"

definition labels_of :: "string \<Rightarrow> id_registry \<Rightarrow> int list res" where
  "labels_of collection r = bind_res (norm_collection collection) (\<lambda>coll. Inr (sort (dkeys (rev_of r coll))))"

definition external_ids :: "string \<Rightarrow> id_registry \<Rightarrow> string list res" where
  "external_ids collection r = bind_res (norm_collection collection) (\<lambda>coll. Inr (sort (dkeys (fwd_of r coll))))"

text \<open>\<open>save\<close> gives the JSON value it writes (\<open>sort_keys\<close> orders every object by key); \<open>load\<close> takes the
  JSON value it reads. An error in the second half of \<open>load\<close> comes after the maps were replaced.\<close>

definition json_obj :: "(string \<times> json) list \<Rightarrow> json" where
  "json_obj kvs = JObj (sort_key fst kvs)"

definition save_registry :: "id_registry \<Rightarrow> json" where
  "save_registry r = json_obj [
     (''collections'', json_obj (map (\<lambda>(c, m). (c, json_obj (map (\<lambda>(x, l). (x, JInt l)) m))) (rg_forward r))),
     (''next_label'', json_obj (map (\<lambda>(c, n). (c, JInt n)) (rg_next_label r)))]"

fun items_of :: "json \<Rightarrow> (string \<times> json) list res" where
  "items_of (JObj kvs) = Inr kvs"
| "items_of _ = Inl (OtherError ''object has no attribute items'')"

definition get_items :: "string \<Rightarrow> (string \<times> json) list \<Rightarrow> (string \<times> json) list res" where
  "get_items k kvs = (case dget kvs k of None \<Rightarrow> Inr [] | Some j \<Rightarrow> items_of j)"

definition int_items :: "(string \<times> json) list \<Rightarrow> (string, int) dict res" where
  "int_items kvs = map_res (\<lambda>(k, j). bind_res (coerce_int j) (\<lambda>i. Inr (k, i))) kvs"

definition invert_dict :: "(string, int) dict \<Rightarrow> (int, string) dict" where
  "invert_dict m = foldl (\<lambda>d (x, l). dset l x d) [] m"

definition dict_max :: "(string, int) dict \<Rightarrow> int" where
  "dict_max m = (case m of [] \<Rightarrow> 0 | (_, l) # rest \<Rightarrow> foldl (\<lambda>a (_, b). max a b) l rest + 1)"

definition load_registry :: "json \<Rightarrow> id_registry \<Rightarrow> unit res \<times> id_registry" where
  "load_registry payload r =
    (case bind_res (items_of payload) (\<lambda>kvs. bind_res (get_items ''collections'' kvs)
            (\<lambda>cs. map_res (\<lambda>(c, j). bind_res (items_of j) (\<lambda>m. bind_res (int_items m) (\<lambda>d. Inr (c, d)))) cs)) of
       Inl e \<Rightarrow> (Inl e, r)
     | Inr fw \<Rightarrow>
         let r1 = r\<lparr>rg_forward := fw, rg_reverse := map (\<lambda>(c, m). (c, invert_dict m)) fw\<rparr> in
         case bind_res (items_of payload) (\<lambda>kvs. bind_res (get_items ''next_label'' kvs) int_items) of
           Inl e \<Rightarrow> (Inl e, r1)
         | Inr nl \<Rightarrow> (Inr (), r1\<lparr>rg_next_label := foldl (\<lambda>d (c, m). dsetdefault c (dict_max m) d) nl fw\<rparr>))"


section \<open>Views and the invariant\<close>

text \<open>Both directions agree, labels are below the next free one, and the dicts are dicts. The registry keys
  are normalised, and each collection has a next label.\<close>

definition reg_ok :: "id_registry \<Rightarrow> bool" where
  "reg_ok r \<longleftrightarrow>
     dict_ok (rg_forward r) \<and> dict_ok (rg_reverse r) \<and> dict_ok (rg_next_label r)
     \<and> (\<forall>c. dict_ok (fwd_of r c) \<and> dict_ok (rev_of r c))
     \<and> (\<forall>c x l. dget (fwd_of r c) x = Some l \<longleftrightarrow> dget (rev_of r c) l = Some x)
     \<and> (\<forall>c x l. dget (fwd_of r c) x = Some l \<longrightarrow> l < next_of r c \<and> py_strip x = x \<and> x \<noteq> [])
     \<and> (\<forall>c. dget (rg_forward r) c \<noteq> None \<longrightarrow> dget (rg_next_label r) c \<noteq> None)"

lemma norm_collection_Inr [simp]: "norm_collection s = Inr c \<longleftrightarrow> c = py_strip s \<and> c \<noteq> []"
  by (auto simp: norm_collection_def Let_def)

lemma norm_external_Inr [simp]: "norm_external s = Inr c \<longleftrightarrow> c = py_strip s \<and> c \<noteq> []"
  by (auto simp: norm_external_def Let_def)

lemma ensure_views [simp]:
  "fwd_of (ensure_norm c r) d = fwd_of r d" "rev_of (ensure_norm c r) d = rev_of r d" "next_of (ensure_norm c r) d = next_of r d"
  by (auto simp: fwd_of_def rev_of_def next_of_def ensure_norm_def split: option.splits)

lemma put_views [simp]:
  "fwd_of (put_mapping c x l n r) d = (if d = c then dset x l (fwd_of r c) else fwd_of r d)"
  "rev_of (put_mapping c x l n r) d = (if d = c then dset l x (rev_of r c) else rev_of r d)"
  "next_of (put_mapping c x l n r) d = (if d = c then n else next_of r d)"
  by (auto simp: fwd_of_def rev_of_def next_of_def put_mapping_def split: option.splits)

lemma reg_okD:
  assumes "reg_ok r"
  shows "dget (fwd_of r c) x = Some l \<longleftrightarrow> dget (rev_of r c) l = Some x"
    and "dget (fwd_of r c) x = Some l \<Longrightarrow> l < next_of r c"
  using assms unfolding reg_ok_def by blast+

lemma reg_ok_empty [simp]: "reg_ok empty_registry"
  by (simp add: reg_ok_def empty_registry_def fwd_of_def rev_of_def)

lemma reg_ok_ensure: "reg_ok r \<Longrightarrow> reg_ok (ensure_norm c r)"
  unfolding reg_ok_def ensure_views by (auto simp: ensure_norm_def split: option.splits)

lemma reg_ok_put:
  assumes "reg_ok r" "dget (fwd_of r c) x = None" "dget (rev_of r c) l = None" "l < n" "next_of r c \<le> n"
    "py_strip x = x" "x \<noteq> []"
  shows "reg_ok (put_mapping c x l n r)"
  unfolding reg_ok_def put_views
proof (intro conjI allI impI)
  show "dict_ok (rg_forward (put_mapping c x l n r))" "dict_ok (rg_reverse (put_mapping c x l n r))"
    "dict_ok (rg_next_label (put_mapping c x l n r))"
    using assms(1) by (simp_all add: put_mapping_def reg_ok_def)
  fix d y k
  show "dict_ok (if d = c then dset x l (fwd_of r c) else fwd_of r d)"
    "dict_ok (if d = c then dset l x (rev_of r c) else rev_of r d)"
    using assms(1) by (simp_all add: reg_ok_def)
  show "(dget (if d = c then dset x l (fwd_of r c) else fwd_of r d) y = Some k)
      = (dget (if d = c then dset l x (rev_of r c) else rev_of r d) k = Some y)"
    using reg_okD(1) [OF assms(1), of d y k] reg_okD(1) [OF assms(1), of c x k] reg_okD(1) [OF assms(1), of c y l] assms(2,3)
    by auto
  {
    assume h: "dget (if d = c then dset x l (fwd_of r c) else fwd_of r d) y = Some k"
    show "k < (if d = c then n else next_of r d)"
      using h assms(4,5) reg_okD(2) [OF assms(1), of d y k] by (auto split: if_splits)
    have "py_strip y = y \<and> y \<noteq> []"
      using h assms(1,6,7) unfolding reg_ok_def by (auto split: if_splits)
    then show "py_strip y = y" "y \<noteq> []" by auto
  }
  show "dget (rg_next_label (put_mapping c x l n r)) d \<noteq> None" if "dget (rg_forward (put_mapping c x l n r)) d \<noteq> None"
    using that assms(1) by (auto simp: put_mapping_def reg_ok_def split: if_splits)
qed

lemma no_label_free: "reg_ok r \<Longrightarrow> next_of r c \<le> l \<Longrightarrow> dget (rev_of r c) l = None"
  using reg_okD by (metis not_le option.exhaust)

text \<open>What \<open>register\<close> does, by cases: an existing mapping is returned, a new one is put, or an error
  leaves all mappings alone.\<close>

lemma register_cases:
  assumes "reg_ok r" "register c x lab r = (res, r')"
  obtains (err) e where "res = Inl e" "reg_ok r'" "\<And>d. fwd_of r' d = fwd_of r d" "\<And>d. rev_of r' d = rev_of r d"
      "\<And>d. next_of r' d = next_of r d"
  | (old) l where "res = Inr l" "reg_ok r'" "dget (fwd_of r (py_strip c)) (py_strip x) = Some l" "lab = None \<or> lab = Some l"
      "py_strip c \<noteq> []" "py_strip x \<noteq> []"
      "\<And>d. fwd_of r' d = fwd_of r d" "\<And>d. rev_of r' d = rev_of r d" "\<And>d. next_of r' d = next_of r d"
  | (new) l n where "res = Inr l" "reg_ok r'" "dget (fwd_of r (py_strip c)) (py_strip x) = None"
      "dget (rev_of r (py_strip c)) l = None" "lab = None \<and> l = next_of r (py_strip c) \<or> lab = Some l"
      "py_strip c \<noteq> []" "py_strip x \<noteq> []" "r' = put_mapping (py_strip c) (py_strip x) l n (ensure_norm (py_strip c) r)"
      "next_of r (py_strip c) \<le> n" "l < n"
proof (cases "py_strip c = [] \<or> py_strip x = []")
  case True
  then have "\<exists>e. res = Inl e \<and> r' = r"
    using assms(2) by (auto simp: register_def norm_collection_def norm_external_def Let_def split: if_splits)
  then show ?thesis using err assms(1) by auto
next
  case False
  let ?c = "py_strip c" and ?x = "py_strip x" and ?r = "ensure_norm (py_strip c) r"
  have ok: "reg_ok ?r" using assms(1) by (rule reg_ok_ensure)
  have put: "reg_ok (put_mapping ?c ?x l n ?r)"
    if "dget (fwd_of r ?c) ?x = None" "dget (rev_of r ?c) l = None" "l < n" "next_of r ?c \<le> n" for l n
    using that False by (intro reg_ok_put [OF ok]) auto
  have nc: "norm_collection c = Inr ?c" "norm_external x = Inr ?x" using False by auto
  have run: "register c x lab r = (case dget (fwd_of r ?c) ?x of
      Some k \<Rightarrow> (case lab of
           Some l \<Rightarrow> if l \<noteq> k then (Inl (IdMappingError (''id '' @ py_repr ?x @ '' already mapped to '' @ int_str k
                              @ '', not '' @ int_str l)), ?r) else (Inr k, ?r)
         | None \<Rightarrow> (Inr k, ?r))
    | None \<Rightarrow> (case lab of
           None \<Rightarrow> (Inr (next_of r ?c), put_mapping ?c ?x (next_of r ?c) (next_of r ?c + 1) ?r)
         | Some l \<Rightarrow> (case dget (rev_of r ?c) l of
              Some other \<Rightarrow> (Inl (IdMappingError (''label '' @ int_str l @ '' already used in ''
                                     @ py_repr ?c @ '' by '' @ py_repr other)), ?r)
            | None \<Rightarrow> (Inr l, put_mapping ?c ?x l (max (next_of r ?c) (l + 1)) ?r))))"
    unfolding register_def nc sum.case Let_def ensure_views by (rule refl)
  show ?thesis
  proof (cases "dget (fwd_of r ?c) ?x")
    case (Some k)
    then show ?thesis
      using assms(2) run ok err [of _] old [of k] False by (auto split: option.splits if_splits)
  next
    case None
    show ?thesis
    proof (cases lab)
      case no_label: None
      then show ?thesis
        using assms(2) run None False put [of "next_of r ?c" "next_of r ?c + 1"] no_label_free [OF assms(1), of ?c]
          new [of "next_of r ?c" "next_of r ?c + 1"] by auto
    next
      case (Some l)
      then show ?thesis
        using assms(2) run None False put [of l "max (next_of r ?c) (l + 1)"] ok
          new [of l "max (next_of r ?c) (l + 1)"] err by (auto split: option.splits)
    qed
  qed
qed

lemma resolve_Inr:
  "resolve c x r = Inr i \<longleftrightarrow> py_strip c \<noteq> [] \<and> py_strip x \<noteq> []
     \<and> (\<exists>l. dget (fwd_of r (py_strip c)) (py_strip x) = Some l
          \<and> i = \<lparr>ri_collection = py_strip c, ri_external_id = py_strip x, ri_label = l\<rparr>)"
  by (auto simp: resolve_def split: option.splits)

lemma drop_views:
  assumes "reg_ok r" "resolve c x r = Inr i"
  shows "\<exists>r'. drop_id c x r = (Inr (ri_label i), r')
    \<and> (\<forall>d. fwd_of r' d = (if d = py_strip c then ddel (py_strip x) (fwd_of r d) else fwd_of r d))
    \<and> (\<forall>d. rev_of r' d = (if d = py_strip c then ddel (ri_label i) (rev_of r d) else rev_of r d))
    \<and> rg_next_label r' = rg_next_label r \<and> reg_ok r'"
proof -
  let ?c = "py_strip c" and ?x = "py_strip x" and ?l = "ri_label i"
  have i: "dget (fwd_of r ?c) ?x = Some ?l" "ri_collection i = ?c" "ri_external_id i = ?x"
    using assms(2) by (auto simp: resolve_Inr)
  then have rv: "dget (rev_of r ?c) ?l = Some ?x" using reg_okD(1) [OF assms(1)] by simp
  define r' where "r' = r\<lparr>rg_forward := dset ?c (ddel ?x (fwd_of r ?c)) (rg_forward r),
      rg_reverse := dset ?c (ddel ?l (rev_of r ?c)) (rg_reverse r)\<rparr>"
  have run: "drop_id c x r = (Inr ?l, r')" using assms(2) i rv by (simp add: drop_id_def r'_def Let_def)
  have fw: "fwd_of r' d = (if d = ?c then ddel ?x (fwd_of r d) else fwd_of r d)" for d
    by (auto simp: fwd_of_def r'_def split: option.splits)
  have rw: "rev_of r' d = (if d = ?c then ddel ?l (rev_of r d) else rev_of r d)" for d
    by (auto simp: rev_of_def r'_def split: option.splits)
  have nx: "rg_next_label r' = rg_next_label r" by (simp add: r'_def)
  then have nx2: "next_of r' d = next_of r d" for d by (simp add: next_of_def)
  have fwc: "dget (rg_forward r) ?c \<noteq> None"
    using i(1) by (auto simp: fwd_of_def split: option.splits)
  have "reg_ok r'"
    unfolding reg_ok_def fw rw nx2
  proof (intro conjI allI impI)
    show "dict_ok (rg_forward r')" "dict_ok (rg_reverse r')" "dict_ok (rg_next_label r')"
      using assms(1) by (simp_all add: r'_def reg_ok_def)
    fix d y k
    show "dict_ok (if d = ?c then ddel ?x (fwd_of r d) else fwd_of r d)"
      "dict_ok (if d = ?c then ddel ?l (rev_of r d) else rev_of r d)"
      using assms(1) by (simp_all add: reg_ok_def)
    show "(dget (if d = ?c then ddel ?x (fwd_of r d) else fwd_of r d) y = Some k)
        = (dget (if d = ?c then ddel ?l (rev_of r d) else rev_of r d) k = Some y)"
      using reg_okD(1) [OF assms(1), of d y k] reg_okD(1) [OF assms(1), of ?c ?x k] reg_okD(1) [OF assms(1), of ?c y ?l] i(1) rv
      by auto
    show "dget (rg_next_label r') d \<noteq> None" if "dget (rg_forward r') d \<noteq> None"
      using that assms(1) fwc by (auto simp: r'_def reg_ok_def split: if_splits)
    {
      assume "dget (if d = ?c then ddel ?x (fwd_of r d) else fwd_of r d) y = Some k"
      then have "dget (fwd_of r d) y = Some k" by (auto split: if_splits)
      then have "k < next_of r d \<and> py_strip y = y \<and> y \<noteq> []" using assms(1) unfolding reg_ok_def by blast
      then show "k < next_of r d" "py_strip y = y" "y \<noteq> []" by auto
    }
  qed
  then show ?thesis using run fw rw nx by blast
qed


section \<open>The registry as an interface\<close>

text \<open>What the erasure service relies on: \<open>view r c x\<close> is the label of the id as given (before
  normalisation), \<open>same\<close> says that two ids denote the same entry, resolving reads the view and dropping
  removes exactly one entry.\<close>

locale id_map =
  fixes resolve_op :: "string \<Rightarrow> string \<Rightarrow> 'r \<Rightarrow> resolved_id res"
    and drop_op :: "string \<Rightarrow> string \<Rightarrow> 'r \<Rightarrow> int res \<times> 'r"
    and inv :: "'r \<Rightarrow> bool"
    and view :: "'r \<Rightarrow> string \<Rightarrow> string \<Rightarrow> int option"
    and same :: "string \<Rightarrow> string \<Rightarrow> string \<Rightarrow> string \<Rightarrow> bool"
  assumes resolve_some: "inv r \<Longrightarrow> view r c x = Some l \<Longrightarrow> \<exists>i. resolve_op c x r = Inr i \<and> ri_label i = l"
    and resolve_none: "inv r \<Longrightarrow> view r c x = None \<Longrightarrow> \<exists>e. resolve_op c x r = Inl e"
    and drop_some: "inv r \<Longrightarrow> view r c x = Some l \<Longrightarrow>
      \<exists>r'. drop_op c x r = (Inr l, r') \<and> inv r' \<and> (\<forall>d y. view r' d y = (if same c x d y then None else view r d y))"
    and drop_none: "inv r \<Longrightarrow> view r c x = None \<Longrightarrow> \<exists>e. drop_op c x r = (Inl e, r)"
    and same_view: "same c x d y \<Longrightarrow> view r c x = view r d y"
begin

text \<open>Dropping a list of ids, known or not, removes exactly their entries.\<close>

lemma drop_list:
  "inv r \<Longrightarrow> inv (foldl (\<lambda>r x. snd (drop_op c x r)) r xs)
    \<and> (\<forall>d y. view (foldl (\<lambda>r x. snd (drop_op c x r)) r xs) d y
          = (if \<exists>x\<in>set xs. same c x d y then None else view r d y))"
proof (induction xs arbitrary: r)
  case Nil
  then show ?case by simp
next
  case (Cons x xs)
  have step: "inv (snd (drop_op c x r)) \<and> (\<forall>d y. view (snd (drop_op c x r)) d y = (if same c x d y then None else view r d y))"
  proof (cases "view r c x")
    case None
    then show ?thesis using drop_none [OF Cons.prems None] same_view [of c x] Cons.prems by (metis snd_conv)
  next
    case (Some l)
    then show ?thesis using drop_some [OF Cons.prems Some] by auto
  qed
  then show ?case using Cons.IH [of "snd (drop_op c x r)"] by auto
qed

end

definition id_view :: "id_registry \<Rightarrow> string \<Rightarrow> string \<Rightarrow> int option" where
  "id_view r c x = (if py_strip c = [] \<or> py_strip x = [] then None else dget (fwd_of r (py_strip c)) (py_strip x))"

lemma id_view_strip: "id_view r c (py_strip x) = id_view r c x"
  by (simp add: id_view_def)

definition same_id :: "string \<Rightarrow> string \<Rightarrow> string \<Rightarrow> string \<Rightarrow> bool" where
  "same_id c x d y \<longleftrightarrow> py_strip c = py_strip d \<and> py_strip x = py_strip y"

lemma resolve_view:
  "resolve c x r = Inr i \<longleftrightarrow> (\<exists>l. id_view r c x = Some l
     \<and> i = \<lparr>ri_collection = py_strip c, ri_external_id = py_strip x, ri_label = l\<rparr>)"
  by (auto simp: resolve_Inr id_view_def)

lemma drop_unknown: "id_view r c x = None \<Longrightarrow> \<exists>e. resolve c x r = Inl e \<and> drop_id c x r = (Inl e, r)"
proof -
  assume n: "id_view r c x = None"
  then obtain e where "resolve c x r = Inl e"
    using resolve_view [of c x r] by (cases "resolve c x r") auto
  then show ?thesis by (simp add: drop_id_def)
qed

interpretation reg: id_map resolve drop_id reg_ok id_view same_id
proof unfold_locales
  fix r c x l
  assume ok: "reg_ok r" and v: "id_view r c x = Some l"
  then show "\<exists>i. resolve c x r = Inr i \<and> ri_label i = l" by (auto simp: resolve_view)
  then obtain i where i: "resolve c x r = Inr i" "ri_label i = l" by blast
  from drop_views [OF ok i(1)] obtain r' where
    d: "drop_id c x r = (Inr l, r')" "reg_ok r'"
      "\<forall>d. fwd_of r' d = (if d = py_strip c then ddel (py_strip x) (fwd_of r d) else fwd_of r d)"
    using i(2) by blast
  then show "\<exists>r'. drop_id c x r = (Inr l, r') \<and> reg_ok r'
      \<and> (\<forall>d y. id_view r' d y = (if same_id c x d y then None else id_view r d y))"
    by (intro exI [of _ r']) (auto simp: id_view_def same_id_def)
next
  fix r c x assume "reg_ok r" "id_view r c x = None"
  then show "\<exists>e. resolve c x r = Inl e" "\<exists>e. drop_id c x r = (Inl e, r)" using drop_unknown by blast+
next
  fix c x d y and r :: id_registry assume "same_id c x d y"
  then show "id_view r c x = id_view r d y" by (simp add: same_id_def id_view_def)
qed

section \<open>Sequences of operations\<close>

datatype reg_op = EnsureOp string | RegisterOp string string "int option" | DropOp string string

fun reg_step :: "reg_op \<Rightarrow> id_registry \<Rightarrow> id_registry" where
  "reg_step (EnsureOp c) r = snd (ensure_collection c r)"
| "reg_step (RegisterOp c x l) r = snd (register c x l r)"
| "reg_step (DropOp c x) r = snd (drop_id c x r)"

definition reg_run :: "reg_op list \<Rightarrow> id_registry \<Rightarrow> id_registry" where
  "reg_run ops r = foldl (\<lambda>r op. reg_step op r) r ops"

lemma reg_step_ok:
  assumes "reg_ok r"
  shows "reg_ok (reg_step op r) \<and> next_of r c \<le> next_of (reg_step op r) c"
proof (cases op)
  case (EnsureOp d)
  then show ?thesis using assms reg_ok_ensure
    by (auto simp: ensure_collection_def norm_collection_def Let_def)
next
  case (RegisterOp d x l)
  obtain res r' where run: "register d x l r = (res, r')" by fastforce
  from assms run show ?thesis
  proof (cases rule: register_cases)
    case (err e)
    then show ?thesis using RegisterOp run by simp
  next
    case (old l')
    then show ?thesis using RegisterOp run by simp
  next
    case (new l' n)
    then show ?thesis using RegisterOp run by auto
  qed
next
  case (DropOp d x)
  show ?thesis
  proof (cases "resolve d x r")
    case (Inl e)
    then show ?thesis using DropOp assms by (simp add: drop_id_def)
  next
    case (Inr i)
    from drop_views [OF assms Inr] show ?thesis using DropOp by (auto simp: next_of_def)
  qed
qed

lemma reg_run_ok:
  "reg_ok r \<Longrightarrow> reg_ok (reg_run ops r) \<and> next_of r c \<le> next_of (reg_run ops r) c"
proof (induction ops arbitrary: r)
  case Nil
  then show ?case by (simp add: reg_run_def)
next
  case (Cons op ops)
  from reg_step_ok [OF Cons.prems, of op c] Cons.IH [of "reg_step op r"] show ?case
    by (simp add: reg_run_def)
qed

lemma reg_run_append: "reg_run (a @ b) r = reg_run b (reg_run a r)"
  by (simp add: reg_run_def)

section \<open>The saved file\<close>

lemma map_res_map: "(\<And>x. x \<in> set xs \<Longrightarrow> f (g x) = Inr (h x)) \<Longrightarrow> map_res f (map g xs) = Inr (map h xs)"
  by (induction xs) auto

lemma map_res_Inr: "(\<And>x. x \<in> set xs \<Longrightarrow> f x = Inr (h x)) \<Longrightarrow> map_res f xs = Inr (map h xs)"
  by (induction xs) auto

lemma dget_sort_key:
  "dict_ok d \<Longrightarrow> dget (sort_key fst d) k = dget (d :: ('k :: linorder \<times> 'v) list) k"
proof -
  assume d: "dict_ok d"
  have "mset (map fst (sort_key fst d)) = mset (map fst d)" by simp
  then have "distinct (map fst (sort_key fst d)) = distinct (map fst d)"
    by (metis mset_eq_imp_distinct_iff)
  then have "dict_ok (sort_key fst d)" using d by (simp add: dict_ok_def dkeys_def)
  then have "dget (sort_key fst d) k = Some v \<longleftrightarrow> dget d k = Some v" for v
    using dget_in d by (metis set_sort)
  then show ?thesis by (metis option.exhaust)
qed

lemma sort_key_map_fst: "sort_key fst (map (\<lambda>(k, v). (k, f k v)) d) = map (\<lambda>(k, v). (k, f k v)) (sort_key fst d)"
proof -
  have ins: "insort_key fst (k, f k v) (map (\<lambda>(k, v). (k, f k v)) xs)
      = map (\<lambda>(k, v). (k, f k v)) (insort_key fst (k, v) xs)" for k v xs
    by (induction xs) auto
  show ?thesis
  proof (induction d)
    case Nil
    then show ?case by simp
  next
    case (Cons a d)
    then show ?case by (cases a) (simp add: ins)
  qed
qed

lemma int_items_saved: "int_items (sort_key fst (map (\<lambda>(x, l). (x, JInt l)) m)) = Inr (sort_key fst m)"
  unfolding int_items_def sort_key_map_fst by (subst map_res_map [where h = "\<lambda>x. x"]) auto

text \<open>Inverting an injective dict gives its inverse.\<close>

lemma invert_dget:
  assumes "dict_ok m" "\<And>x y l. dget m x = Some l \<Longrightarrow> dget m y = Some l \<Longrightarrow> x = y"
  shows "dget (invert_dict m) l = Some x \<longleftrightarrow> dget m x = Some l"
proof -
  have fold: "dget (foldl (\<lambda>d (x, l). dset l x d) d0 xs) l
      = (case map_of (rev (map (\<lambda>(x, l). (l, x)) xs)) l of Some x \<Rightarrow> Some x | None \<Rightarrow> dget d0 l)" for d0 xs l
    by (induction xs arbitrary: d0) (auto simp: map_add_def split: option.splits)
  have inj: "distinct (map fst (rev (map (\<lambda>(x, l). (l, x)) m)))"
  proof -
    have "distinct (map snd m)"
      unfolding distinct_map
    proof
      show "distinct m" using assms(1) by (simp add: dict_ok_def dkeys_def distinct_map)
      show "inj_on snd (set m)"
        using assms dget_in [OF assms(1)] by (auto simp: inj_on_def)
    qed
    then show ?thesis by (simp add: rev_map [symmetric] comp_def case_prod_unfold)
  qed
  have "dget (invert_dict m) l = map_of (rev (map (\<lambda>(x, l). (l, x)) m)) l"
    by (simp add: invert_dict_def fold split: option.splits)
  also have "\<dots> = Some x \<longleftrightarrow> (l, x) \<in> set (rev (map (\<lambda>(x, l). (l, x)) m))"
    using inj by simp
  also have "\<dots> \<longleftrightarrow> (x, l) \<in> set m" by auto
  finally show ?thesis using dget_in [OF assms(1)] by simp
qed

lemma dget_map_snd: "dget (map (\<lambda>(k, v). (k, f v)) d) k = map_option f (dget d k)"
  by (induction d) (auto simp: dget_def)

lemma dict_ok_sort: "dict_ok d \<Longrightarrow> dict_ok (sort_key fst (d :: ('k :: linorder \<times> 'v) list))"
  unfolding dict_ok_def dkeys_def
  by (metis mset_eq_imp_distinct_iff mset_map mset_sort)

lemma dsetdefault_fold_id:
  "(\<forall>(c, m) \<in> set fw. dget d c \<noteq> None) \<Longrightarrow> foldl (\<lambda>d (c, m). dsetdefault c (g m) d) d fw = d"
  by (induction fw) (auto simp: dsetdefault_def)


definition saved_forward :: "id_registry \<Rightarrow> (string, (string, int) dict) dict" where
  "saved_forward r = map (\<lambda>(c, m). (c, sort_key fst m)) (sort_key fst (rg_forward r))"

lemma load_save_registry:
  assumes "reg_ok r"
  shows "load_registry (save_registry r) r0 = (Inr (), \<lparr>rg_forward = saved_forward r,
     rg_reverse = map (\<lambda>(c, m). (c, invert_dict m)) (saved_forward r),
     rg_next_label = sort_key fst (rg_next_label r)\<rparr>)"
proof -
  let ?cs = "json_obj (map (\<lambda>(c, m). (c, json_obj (map (\<lambda>(x, l). (x, JInt l)) m))) (rg_forward r))"
  let ?nl = "json_obj (map (\<lambda>(c, n). (c, JInt n)) (rg_next_label r))"
  let ?kvs = "sort_key fst [(''collections'', ?cs), (''next_label'', ?nl)]"
  have two: "dict_ok [(''collections'', ?cs), (''next_label'', ?nl)]" by (simp add: dict_ok_def dkeys_def)
  have gets: "dget ?kvs ''collections'' = Some ?cs" "dget ?kvs ''next_label'' = Some ?nl"
    unfolding dget_sort_key [OF two] by (simp_all add: dget_def)
  have cs: "get_items ''collections'' ?kvs
      = Inr (map (\<lambda>(c, m). (c, json_obj (map (\<lambda>(x, l). (x, JInt l)) m))) (sort_key fst (rg_forward r)))"
    unfolding get_items_def gets option.case by (simp only: json_obj_def items_of.simps sort_key_map_fst)
  have nl: "bind_res (get_items ''next_label'' ?kvs) int_items = Inr (sort_key fst (rg_next_label r))"
    unfolding get_items_def gets option.case
    by (simp only: json_obj_def items_of.simps bind_res.simps int_items_saved)
  have fw: "map_res (\<lambda>(c, j). bind_res (items_of j) (\<lambda>m. bind_res (int_items m) (\<lambda>d. Inr (c, d))))
      (map (\<lambda>(c, m). (c, json_obj (map (\<lambda>(x, l). (x, JInt l)) m))) (sort_key fst (rg_forward r))) = Inr (saved_forward r)"
    unfolding saved_forward_def
    by (rule map_res_map) (auto simp: json_obj_def int_items_saved simp del: bind_res_Inr)
  have sv: "save_registry r = JObj ?kvs" by (simp only: save_registry_def json_obj_def)
  have al: "\<forall>(c, m) \<in> set (saved_forward r). dget (sort_key fst (rg_next_label r)) c \<noteq> None"
  proof -
    have "dget (sort_key fst (rg_next_label r)) c \<noteq> None" if "(c, m) \<in> set (rg_forward r)" for c m
    proof -
      have "dget (rg_forward r) c \<noteq> None" using that assms dget_in [of "rg_forward r" c m] by (simp add: reg_ok_def)
      then show ?thesis using assms dget_sort_key [of "rg_next_label r" c] by (simp add: reg_ok_def)
    qed
    then show ?thesis by (auto simp: saved_forward_def)
  qed
  show ?thesis
    unfolding load_registry_def sv items_of.simps bind_res.simps cs fw nl sum.case Let_def
      dsetdefault_fold_id [OF al] by simp
qed

lemma fwd_of_loaded:
  assumes "reg_ok r" and "r' = \<lparr>rg_forward = saved_forward r,
     rg_reverse = map (\<lambda>(c, m). (c, invert_dict m)) (saved_forward r), rg_next_label = sort_key fst (rg_next_label r)\<rparr>"
  shows "dget (fwd_of r' c) x = dget (fwd_of r c) x" "dget (rev_of r' c) l = dget (rev_of r c) l" "next_of r' c = next_of r c"
proof -
  have fw: "dget (saved_forward r) c = map_option (sort_key fst) (dget (rg_forward r) c)"
    using assms(1) by (simp add: saved_forward_def dget_map_snd dget_sort_key reg_ok_def)
  have dok: "dict_ok (fwd_of r c)" using assms(1) by (simp add: reg_ok_def)
  have f: "fwd_of r' c = sort_key fst (fwd_of r c)"
    by (auto simp: fwd_of_def assms(2) fw split: option.splits)
  show g: "dget (fwd_of r' c) x = dget (fwd_of r c) x" for x using f dok by (simp add: dget_sort_key)
  have "rev_of r' c = invert_dict (fwd_of r' c)"
    by (auto simp: rev_of_def fwd_of_def assms(2) fw dget_map_snd invert_dict_def split: option.splits)
  moreover have "dict_ok (fwd_of r' c)" using f dok by (simp add: dict_ok_sort)
  moreover have "x = y" if "dget (fwd_of r' c) x = Some k" "dget (fwd_of r' c) y = Some k" for x y k
    using that reg_okD(1) [OF assms(1)] unfolding g by (metis option.inject)
  ultimately have "dget (rev_of r' c) l = Some y \<longleftrightarrow> dget (fwd_of r c) y = Some l" for y
    using invert_dget [of "fwd_of r' c"] g by auto
  then have "dget (rev_of r' c) l = Some y \<longleftrightarrow> dget (rev_of r c) l = Some y" for y
    using reg_okD(1) [OF assms(1)] by blast
  then show "dget (rev_of r' c) l = dget (rev_of r c) l" by (metis option.exhaust)
  show "next_of r' c = next_of r c"
    using assms(1) by (simp add: next_of_def assms(2) dget_sort_key reg_ok_def)
qed

section \<open>Properties\<close>

text \<open>
  C16: in every state that any sequence of \<open>ensure_collection\<close>, \<open>register\<close> and \<open>drop\<close> calls
  reaches from a new registry, the two directions are inverse to each other in every collection, and every
  label in use is below the next label to be allocated.
\<close>

theorem registry_stays_bijective:
  fixes ops :: "reg_op list"
  defines "r \<equiv> reg_run ops empty_registry"
  shows "reg_ok r \<and> (\<forall>c x l. dget (fwd_of r c) x = Some l \<longleftrightarrow> dget (rev_of r c) l = Some x)
    \<and> (\<forall>c x y l. dget (fwd_of r c) x = Some l \<and> dget (fwd_of r c) y = Some l \<longrightarrow> x = y)"
proof -
  have ok: "reg_ok r" unfolding r_def using reg_run_ok [OF reg_ok_empty] by blast
  then show ?thesis using reg_okD(1) [OF ok] by (metis option.inject)
qed

lemma registry_stays_bijective_witness:
  "dget (fwd_of (reg_run [RegisterOp ''users'' ''alice'' None, RegisterOp ''users'' '' bob '' (Some 5),
      DropOp ''users'' ''alice''] empty_registry) ''users'') ''bob'' = Some 5
   \<and> reg_ok (reg_run [RegisterOp ''users'' ''alice'' None, RegisterOp ''users'' '' bob '' (Some 5),
      DropOp ''users'' ''alice''] empty_registry)"
proof -
  have "reg_ok (reg_run [RegisterOp ''users'' ''alice'' None, RegisterOp ''users'' '' bob '' (Some 5),
      DropOp ''users'' ''alice''] empty_registry)"
    using registry_stays_bijective by blast
  moreover have "dget (fwd_of (reg_run [RegisterOp ''users'' ''alice'' None, RegisterOp ''users'' '' bob '' (Some 5),
      DropOp ''users'' ''alice''] empty_registry) ''users'') ''bob'' = Some 5"
    by code_simp
  ultimately show ?thesis by blast
qed

text \<open>
  C17: a label is never handed out twice: once an id holds label \<open>l\<close> in a collection, then after any
  further operations, dropping that id included, a new id registered without an explicit label gets a label
  above \<open>l\<close>.
\<close>

theorem labels_never_reused:
  assumes "dget (fwd_of (reg_run ops1 empty_registry) (py_strip c)) x = Some l"
    and "register c y None (reg_run (ops1 @ ops2) empty_registry) = (Inr l', r')"
    and "dget (fwd_of (reg_run (ops1 @ ops2) empty_registry) (py_strip c)) (py_strip y) = None"
  shows "l < l'"
proof -
  let ?r1 = "reg_run ops1 empty_registry" and ?r2 = "reg_run (ops1 @ ops2) empty_registry"
  have ok1: "reg_ok ?r1" and ok2: "reg_ok ?r2" using reg_run_ok [OF reg_ok_empty] by blast+
  have "l < next_of ?r1 (py_strip c)" using reg_okD(2) [OF ok1 assms(1)] .
  also have "\<dots> \<le> next_of ?r2 (py_strip c)" unfolding reg_run_append using reg_run_ok [OF ok1] by blast
  also have "\<dots> \<le> l'"
    using ok2 assms(2) by (cases rule: register_cases) (use assms(3) in auto)
  finally show ?thesis .
qed

lemma labels_never_reused_witness:
  "\<exists>l' r'. register ''u'' ''bob'' None (reg_run ([RegisterOp ''u'' ''alice'' (Some 4)] @ [DropOp ''u'' ''alice'']) empty_registry)
     = (Inr l', r') \<and> 4 < l'"
proof -
  obtain l' r' where r: "register ''u'' ''bob'' None
      (reg_run ([RegisterOp ''u'' ''alice'' (Some 4)] @ [DropOp ''u'' ''alice'']) empty_registry) = (Inr l', r')"
  proof -
    have "\<not> isl (fst (register ''u'' ''bob'' None
        (reg_run ([RegisterOp ''u'' ''alice'' (Some 4)] @ [DropOp ''u'' ''alice'']) empty_registry)))"
      by code_simp
    then show ?thesis using that by (metis isl_def prod.collapse sum.collapse(2))
  qed
  have "dget (fwd_of (reg_run [RegisterOp ''u'' ''alice'' (Some 4)] empty_registry) (py_strip ''u'')) ''alice'' = Some 4"
    "dget (fwd_of (reg_run ([RegisterOp ''u'' ''alice'' (Some 4)] @ [DropOp ''u'' ''alice'']) empty_registry) (py_strip ''u''))
       (py_strip ''bob'') = None"
    by code_simp+
  from labels_never_reused [OF this(1) r this(2)] r show ?thesis by blast
qed

text \<open>
  After a successful \<open>register\<close>, \<open>resolve\<close> and \<open>external_of\<close> give back the returned label and
  the normalised id; an explicit label is the one returned; every other mapping is as before. A refused
  call changes no mapping at all.
\<close>

theorem register_then_resolve:
  assumes "reg_ok r" and "register c x lab r = (res, r')"
  shows "case res of
      Inl e \<Rightarrow> (\<forall>d y. id_view r' d y = id_view r d y)
    | Inr l \<Rightarrow> resolve c x r' = Inr \<lparr>ri_collection = py_strip c, ri_external_id = py_strip x, ri_label = l\<rparr>
        \<and> external_of c l r' = Inr (py_strip x) \<and> (lab = None \<or> lab = Some l) \<and> reg_ok r'
        \<and> (\<forall>d y. \<not> same_id c x d y \<longrightarrow> id_view r' d y = id_view r d y)"
  using assms
proof (cases rule: register_cases)
  case (err e)
  then show ?thesis by (simp add: id_view_def)
next
  case (old l)
  then have "dget (rev_of r (py_strip c)) l = Some (py_strip x)" using reg_okD(1) [OF assms(1)] by blast
  then show ?thesis using old by (simp add: id_view_def resolve_def external_of_def norm_collection_def norm_external_def Let_def)
next
  case (new l n)
  have "norm_collection c = Inr (py_strip c)" "norm_external x = Inr (py_strip x)" using new(6,7) by simp_all
  then show ?thesis using new(1-5,8) by (auto simp: id_view_def same_id_def resolve_def external_of_def)
qed

lemma register_then_resolve_witness:
  "\<exists>l r'. register ''u'' '' alice '' None empty_registry = (Inr l, r')
     \<and> resolve ''u'' ''alice'' r' = Inr \<lparr>ri_collection = ''u'', ri_external_id = ''alice'', ri_label = l\<rparr>"
proof -
  obtain l r' where r: "register ''u'' '' alice '' None empty_registry = (Inr l, r')"
  proof -
    have "\<not> isl (fst (register ''u'' '' alice '' None empty_registry))" by code_simp
    then show ?thesis using that by (metis isl_def prod.collapse sum.collapse(2))
  qed
  have s: "py_strip '' alice '' = ''alice''" "py_strip ''alice'' = ''alice''" "py_strip ''u'' = ''u''" by code_simp+
  from register_then_resolve [OF reg_ok_empty r]
  have "resolve ''u'' '' alice '' r' = Inr \<lparr>ri_collection = ''u'', ri_external_id = ''alice'', ri_label = l\<rparr>"
    by (simp add: s)
  then show ?thesis using r by (simp add: resolve_Inr s)
qed

text \<open>
  \<open>load\<close> of what \<open>save\<close> wrote restores the registry into any registry object: every id, every label
  and the next label of every collection are as they were, and the invariant holds.
\<close>

theorem registry_save_load:
  assumes "reg_ok r"
  shows "\<exists>r'. load_registry (save_registry r) r0 = (Inr (), r')
    \<and> (\<forall>c x. dget (fwd_of r' c) x = dget (fwd_of r c) x) \<and> (\<forall>c l. dget (rev_of r' c) l = dget (rev_of r c) l)
    \<and> (\<forall>c. next_of r' c = next_of r c)"
  using load_save_registry [OF assms, of r0] fwd_of_loaded [OF assms refl] by blast

lemma registry_save_load_witness:
  "\<exists>r'. load_registry (save_registry (reg_run [RegisterOp ''u'' ''alice'' (Some 4)] empty_registry)) empty_registry = (Inr (), r')
    \<and> next_of r' ''u'' = 5"
proof -
  let ?r = "reg_run [RegisterOp ''u'' ''alice'' (Some 4)] empty_registry"
  have "reg_ok ?r" using reg_run_ok [OF reg_ok_empty] by blast
  from registry_save_load [OF this, of empty_registry] obtain r' where
    "load_registry (save_registry ?r) empty_registry = (Inr (), r')" "next_of r' ''u'' = next_of ?r ''u''" by blast
  moreover have "next_of ?r ''u'' = 5" by code_simp
  ultimately show ?thesis by auto
qed

end
