(* ===== verification/CompactPolicy.thy ===== *)
theory CompactPolicy
  imports Complex_Main Prelude
begin

text \<open>
  \<open>integrations/compact_policy.py\<close> (when to rebuild the index structure after deletes) and
  \<open>integrations/delete_strategy.py\<close> (which action a batch of deletes calls for). Times and fractions are
  rational numbers: for counts below \<open>2\<^sup>5\<^sup>0\<close> the comparisons of the code's doubles have the same
  outcome. Reasons and details that format a float are constructors instead of text, and a dash of the text
  beyond Latin-1 is a hyphen.
\<close>

section \<open>Reading environment variables\<close>

text \<open>\<open>int(s)\<close> and \<open>float(s)\<close> for an optional sign and decimal digits, with a fraction for the latter;
  digits are those of ASCII, and exponents, \<open>inf\<close>, \<open>nan\<close> and underscores are outside the model.\<close>

definition is_digit :: "char \<Rightarrow> bool" where
  "is_digit c = (let n = of_char c :: nat in 48 \<le> n \<and> n \<le> 57)"

definition digits_val :: "string \<Rightarrow> nat" where
  "digits_val ds = foldl (\<lambda>a c. 10 * a + (of_char c - 48)) 0 ds"

fun split_sign :: "string \<Rightarrow> int \<times> string" where
  "split_sign [] = (1, [])"
| "split_sign (c # s) = (if c = CHR ''-'' then (-1, s) else if c = CHR ''+'' then (1, s) else (1, c # s))"

definition py_int :: "string \<Rightarrow> int res" where
  "py_int s = (case split_sign (py_strip s) of (sg, ds) \<Rightarrow>
     if ds \<noteq> [] \<and> list_all is_digit ds then Inr (sg * int (digits_val ds))
     else if CHR ''_'' \<in> set ds then Inl Unmodelled
     else Inl (ValueError (''invalid literal for int() with base 10: '' @ py_repr s)))"

definition py_float :: "string \<Rightarrow> rat res" where
  "py_float s = (case split_sign (py_strip s) of (sg, ds) \<Rightarrow>
     let a = takeWhile is_digit ds; rest = dropWhile is_digit ds in
     if rest = [] \<and> a \<noteq> [] then Inr (of_int sg * of_nat (digits_val a))
     else case rest of
       c # b \<Rightarrow> if c = CHR ''.'' \<and> list_all is_digit b \<and> a @ b \<noteq> []
                then Inr (of_int sg * of_nat (digits_val (a @ b)) / 10 ^ length b)
                else Inl Unmodelled
     | [] \<Rightarrow> Inl (ValueError (''could not convert string to float: '' @ py_repr s)))"

section \<open>Coalesced compaction\<close>

datatype policy_mode = PAlways | PNever | PCoalesce

datatype compact_reason =
    RAlways | RForce | RNever | RNoPending | REveryN int | RMaxAge rat | RWaiting int rat

record compact_decision =
  cd_should_compact :: bool
  cd_reason :: compact_reason
  cd_pending_deletes :: int

record compact_policy =
  cp_mode :: policy_mode
  cp_every_n :: int
  cp_max_age_s :: rat
  cp_pending :: int
  cp_first_pending :: "rat option"

definition policy_init :: "policy_mode \<Rightarrow> int \<Rightarrow> rat \<Rightarrow> compact_policy res" where
  "policy_init mode every_n max_age_s =
    (if every_n < 1 then Inl (ValueError ''every_n must be >= 1'')
     else if max_age_s < 0 then Inl (ValueError ''max_age_s must be >= 0'')
     else Inr \<lparr>cp_mode = mode, cp_every_n = every_n, cp_max_age_s = max_age_s, cp_pending = 0, cp_first_pending = None\<rparr>)"

definition policy_from_env :: "environ \<Rightarrow> compact_policy res" where
  "policy_from_env env =
    (let name = py_lower (py_strip (env_get env ''HEALER_COMPACT_POLICY'' ''always''))
     in bind_res (py_int (env_get env ''HEALER_COMPACT_EVERY_N'' ''32'')) (\<lambda>every_n.
        bind_res (py_float (env_get env ''HEALER_COMPACT_MAX_AGE_S'' ''60'')) (\<lambda>max_age_s.
          if name \<in> {''never'', ''off'', ''0''} then policy_init PNever 32 60
          else if name \<in> {''coalesce'', ''batch'', ''deferred''} then policy_init PCoalesce every_n max_age_s
          else policy_init PAlways 32 60)))"

definition note_deletes :: "int \<Rightarrow> rat \<Rightarrow> compact_policy \<Rightarrow> compact_policy" where
  "note_deletes n now p =
    (if n \<le> 0 then p
     else let p1 = (if cp_pending p = 0 then p\<lparr>cp_first_pending := Some now\<rparr> else p)
          in p1\<lparr>cp_pending := cp_pending p1 + n\<rparr>)"

definition decide :: "bool \<Rightarrow> rat \<Rightarrow> compact_policy \<Rightarrow> compact_decision" where
  "decide force now p =
    (let pending = cp_pending p in
     if force \<or> cp_mode p = PAlways
     then \<lparr>cd_should_compact = True, cd_reason = (if force then RForce else RAlways), cd_pending_deletes = pending\<rparr>
     else if cp_mode p = PNever
     then \<lparr>cd_should_compact = False, cd_reason = RNever, cd_pending_deletes = pending\<rparr>
     else if pending \<le> 0
     then \<lparr>cd_should_compact = False, cd_reason = RNoPending, cd_pending_deletes = 0\<rparr>
     else if cp_every_n p \<le> pending
     then \<lparr>cd_should_compact = True, cd_reason = REveryN (cp_every_n p), cd_pending_deletes = pending\<rparr>
     else
       let age = (case cp_first_pending p of None \<Rightarrow> 0 | Some t \<Rightarrow> now - t) in
       if 0 < cp_max_age_s p \<and> cp_max_age_s p \<le> age
       then \<lparr>cd_should_compact = True, cd_reason = RMaxAge (cp_max_age_s p), cd_pending_deletes = pending\<rparr>
       else \<lparr>cd_should_compact = False, cd_reason = RWaiting pending age, cd_pending_deletes = pending\<rparr>)"

definition mark_compacted :: "compact_policy \<Rightarrow> compact_policy" where
  "mark_compacted p = p\<lparr>cp_pending := 0, cp_first_pending := None\<rparr>"

definition pending_count :: "compact_policy \<Rightarrow> int" where
  "pending_count p = cp_pending p"

section \<open>Delete strategy\<close>

datatype strategy_action =
    wipe_only | wipe_and_heal | wipe_and_compact | wipe_heal_and_compact | full_rebuild_recommended

datatype strategy_details = DText string | DFraction rat rat string

record strategy_recommendation =
  sr_action :: strategy_action
  sr_reason :: string
  sr_delete_fraction :: rat
  sr_prefer_compact :: bool
  sr_prefer_heal :: bool
  sr_prefer_full_rebuild :: bool
  sr_details :: strategy_details

datatype compact_arg = CBool bool | CStr string

definition env_on :: "string \<Rightarrow> bool" where
  "env_on s \<longleftrightarrow> py_lower (py_strip s) \<in> {''1'', ''true'', ''yes'', ''on''}"

definition heal_allowed_by_env :: "environ \<Rightarrow> bool" where
  "heal_allowed_by_env env = env_on (env_get env ''HEALER_ALLOW_HEAL'' [])"

definition recommend_delete_strategy ::
  "environ \<Rightarrow> int \<Rightarrow> int \<Rightarrow> bool \<Rightarrow> bool \<Rightarrow> rat \<Rightarrow> rat \<Rightarrow> rat \<Rightarrow> bool option \<Rightarrow> strategy_recommendation" where
  "recommend_delete_strategy env delete_count index_size supports_compact supports_heal low_frac high_frac critical_frac allow =
    (let allow_heal = (case allow of None \<Rightarrow> heal_allowed_by_env env | Some b \<Rightarrow> b);
         frac = (if index_size \<le> 0 then (if 0 < delete_count then 1 else 0)
                 else of_int delete_count / of_int index_size);
         rec = (\<lambda>a why c h f d. \<lparr>sr_action = a, sr_reason = why, sr_delete_fraction = frac, sr_prefer_compact = c,
                  sr_prefer_heal = h, sr_prefer_full_rebuild = f, sr_details = d\<rparr>)
     in if delete_count \<le> 0 then rec wipe_only ''empty_batch'' False False False (DText ''no deletes'')
     else if \<not> supports_compact then
       (if allow_heal \<and> supports_heal
        then rec wipe_and_heal ''no_compact_backend_heal_opt_in'' False True False
               (DText ''no compact(); heal is experimental - measure recall'')
        else rec wipe_only ''no_compact_backend'' False False False
               (DText ''wipe only; schedule offline rebuild when possible''))
     else if critical_frac \<le> frac
     then rec full_rebuild_recommended ''critical_delete_fraction'' True False True
            (DFraction frac critical_frac ''wipe + full compact/rebuild (do not rely on MN-RU)'')
     else if high_frac \<le> frac
     then rec wipe_and_compact ''elevated_delete_fraction'' True False True
            (DFraction frac high_frac ''wipe + always compact (recommended product path)'')
     else if allow_heal \<and> supports_heal \<and> frac < low_frac
     then rec wipe_heal_and_compact ''tiny_batch_heal_opt_in'' True True False
            (DText ''tiny batch: wipe + experimental heal + compact; set HEALER_ALLOW_HEAL=0 to disable heal'')
     else rec wipe_and_compact ''default_product_path'' True False False
            (DText ''default: wipe + compact (residual-safe usable search). MN-RU heal is experimental (HEALER_ALLOW_HEAL=1).''))"

text \<open>The call with the default thresholds.\<close>

definition recommend_default :: "environ \<Rightarrow> int \<Rightarrow> int \<Rightarrow> bool \<Rightarrow> bool \<Rightarrow> strategy_recommendation" where
  "recommend_default env n sz sc sh = recommend_delete_strategy env n sz sc sh (1 / 100) (5 / 100) (10 / 100) None"

definition compact_mode_for_recommendation :: "strategy_recommendation \<Rightarrow> bool \<Rightarrow> string" where
  "compact_mode_for_recommendation rec coalesce_ok =
    (if sr_prefer_full_rebuild rec then ''always''
     else if sr_prefer_compact rec then
       (if 5 / 100 \<le> sr_delete_fraction rec \<or> \<not> coalesce_ok then ''always'' else ''auto'')
     else ''never'')"

definition apply_strategy_to_delete_kwargs ::
  "environ \<Rightarrow> int \<Rightarrow> int \<Rightarrow> bool \<Rightarrow> bool \<Rightarrow> compact_arg option \<Rightarrow> strategy_recommendation \<times> compact_arg" where
  "apply_strategy_to_delete_kwargs env delete_count index_size supports_compact supports_heal carg =
    (let flag = env_get env ''HEALER_ADAPTIVE_COMPACT'' ''1'';
         adaptive = (env_on flag \<or> py_lower (py_strip flag) = []);
         rec = recommend_default env delete_count index_size supports_compact supports_heal
     in case carg of
          Some c \<Rightarrow>
            if c \<noteq> CStr ''auto'' \<and> c \<noteq> CBool True then (rec, c)
            else if \<not> adaptive then (rec, c)
            else (rec, CStr (compact_mode_for_recommendation rec True))
        | None \<Rightarrow>
            if \<not> adaptive then (rec, CStr ''auto'')
            else (rec, CStr (compact_mode_for_recommendation rec True)))"


section \<open>The policy's invariant\<close>

definition policy_ok :: "compact_policy \<Rightarrow> bool" where
  "policy_ok p \<longleftrightarrow> 1 \<le> cp_every_n p \<and> 0 \<le> cp_max_age_s p \<and> 0 \<le> cp_pending p
     \<and> (cp_pending p = 0 \<longleftrightarrow> cp_first_pending p = None)"

lemma policy_init_ok: "policy_init m n a = Inr p \<Longrightarrow> policy_ok p \<and> cp_pending p = 0 \<and> cp_mode p = m
    \<and> cp_every_n p = n \<and> cp_max_age_s p = a"
  by (auto simp: policy_init_def policy_ok_def split: if_splits)

lemma note_ok: "policy_ok p \<Longrightarrow> policy_ok (note_deletes n t p)"
  by (auto simp: note_deletes_def policy_ok_def Let_def)

lemma mark_ok: "policy_ok p \<Longrightarrow> policy_ok (mark_compacted p)"
  by (simp add: policy_ok_def mark_compacted_def)

lemma note_fields [simp]:
  "cp_mode (note_deletes n t p) = cp_mode p" "cp_every_n (note_deletes n t p) = cp_every_n p"
  "cp_max_age_s (note_deletes n t p) = cp_max_age_s p" "cp_pending (note_deletes n t p) = cp_pending p + max 0 n"
  by (auto simp: note_deletes_def Let_def)

lemma mark_fields [simp]:
  "cp_mode (mark_compacted p) = cp_mode p" "cp_every_n (mark_compacted p) = cp_every_n p"
  "cp_max_age_s (mark_compacted p) = cp_max_age_s p" "cp_pending (mark_compacted p) = 0" "cp_first_pending (mark_compacted p) = None"
  by (simp_all add: mark_compacted_def)

text \<open>A batch as the erasure service runs it in coalesce mode: note the deletes, ask, compact when told to.\<close>

definition policy_batch :: "compact_policy \<Rightarrow> int \<times> rat \<Rightarrow> compact_policy" where
  "policy_batch p b =
    (let p1 = note_deletes (fst b) (snd b) p
     in if cd_should_compact (decide False (snd b) p1) then mark_compacted p1 else p1)"

definition bounded_at :: "rat \<Rightarrow> compact_policy \<Rightarrow> bool" where
  "bounded_at t p \<longleftrightarrow> cp_pending p < cp_every_n p
     \<and> (\<forall>t0. cp_first_pending p = Some t0 \<longrightarrow> 0 < cp_max_age_s p \<longrightarrow> t - t0 < cp_max_age_s p)"

lemma decide_coalesce:
  "policy_ok p \<Longrightarrow> cp_mode p = PCoalesce \<Longrightarrow>
     cd_should_compact (decide False t p) \<longleftrightarrow> 0 < cp_pending p \<and> \<not> bounded_at t p"
  by (auto simp: decide_def bounded_at_def policy_ok_def Let_def split: option.splits)

lemma batch_ok:
  assumes "policy_ok p" "cp_mode p = PCoalesce"
  shows "policy_ok (policy_batch p b) \<and> cp_mode (policy_batch p b) = PCoalesce
    \<and> cp_every_n (policy_batch p b) = cp_every_n p \<and> cp_max_age_s (policy_batch p b) = cp_max_age_s p
    \<and> bounded_at (snd b) (policy_batch p b)"
proof -
  let ?p = "note_deletes (fst b) (snd b) p"
  have ok: "policy_ok ?p" using assms(1) by (rule note_ok)
  show ?thesis
  proof (cases "cd_should_compact (decide False (snd b) ?p)")
    case True
    then have "policy_batch p b = mark_compacted ?p" by (simp add: policy_batch_def Let_def)
    then show ?thesis using mark_ok [OF ok] assms by (simp add: bounded_at_def policy_ok_def)
  next
    case False
    then have eq: "policy_batch p b = ?p" by (simp add: policy_batch_def Let_def)
    have "bounded_at (snd b) ?p"
    proof (cases "cp_pending ?p = 0")
      case True
      then have "cp_first_pending ?p = None" using ok unfolding policy_ok_def by blast
      then show ?thesis using True ok by (simp add: bounded_at_def policy_ok_def)
    next
      case nz: False
      then show ?thesis using False decide_coalesce [OF ok, of "snd b"] assms(2) ok by (auto simp: policy_ok_def)
    qed
    then show ?thesis using eq ok assms(2) by simp
  qed
qed

section \<open>Properties\<close>



text \<open>
  the strategy table: for a non-empty batch on an index with rows, a full rebuild is preferred exactly
  from 5 percent on when the backend can compact (recommended outright from 10 percent on), compaction
  exactly when the backend can compact, and healing only when the backend can heal, the environment
  opted in, and either compaction is impossible or the batch is below 1 percent.
\<close>

theorem strategy_table:
  fixes env :: environ and n sz :: int and sc sh :: bool
  assumes "0 < n" and "0 < sz"
  defines "rec \<equiv> recommend_default env n sz sc sh"
  shows "(sr_prefer_full_rebuild rec \<longleftrightarrow> sc \<and> sz \<le> 20 * n)
    \<and> (sr_action rec = full_rebuild_recommended \<longleftrightarrow> sc \<and> sz \<le> 10 * n)
    \<and> (sr_prefer_compact rec \<longleftrightarrow> sc)
    \<and> (sr_prefer_heal rec \<longleftrightarrow> sh \<and> heal_allowed_by_env env \<and> (\<not> sc \<or> 100 * n < sz))"
proof -
  have frac: "(of_int k / 100 \<le> (of_int n / of_int sz :: rat)) \<longleftrightarrow> k * sz \<le> 100 * n"
    "((of_int n / of_int sz :: rat) < of_int k / 100) \<longleftrightarrow> 100 * n < k * sz" for k
  proof -
    have pos: "(0::rat) < of_int sz" "(0::rat) < 100" using assms(2) by simp_all
    have "(of_int k / 100 \<le> (of_int n / of_int sz :: rat)) \<longleftrightarrow> (of_int k * of_int sz \<le> (of_int n * 100 :: rat))"
      using pos by (simp add: field_simps)
    also have "\<dots> \<longleftrightarrow> (of_int (k * sz) \<le> (of_int (n * 100) :: rat))" by simp
    also have "\<dots> \<longleftrightarrow> k * sz \<le> n * 100" by (rule of_int_le_iff)
    finally show "(of_int k / 100 \<le> (of_int n / of_int sz :: rat)) \<longleftrightarrow> k * sz \<le> 100 * n" by (simp add: mult.commute)
    then show "((of_int n / of_int sz :: rat) < of_int k / 100) \<longleftrightarrow> 100 * n < k * sz" by linarith
  qed
  show ?thesis
    using assms(1,2) frac(1) [of 10] frac(1) [of 5] frac(2) [of 1]
    unfolding rec_def recommend_default_def recommend_delete_strategy_def Let_def
    by auto
qed

lemma strategy_table_witness:
  "sr_prefer_full_rebuild (recommend_default Map.empty 5 100 True False)
   \<and> \<not> sr_prefer_full_rebuild (recommend_default Map.empty 4 100 True False)"
  using strategy_table [of 5 100 Map.empty True False] strategy_table [of 4 100 Map.empty True False] by simp

text \<open>
  under the adaptive strategy (the default), \<open>compact=True\<close> is not an override: it is treated exactly
  like \<open>"auto"\<close>, while \<open>False\<close> and every other string are passed through unchanged.
\<close>

theorem compact_true_is_auto:
  assumes "env ''HEALER_ADAPTIVE_COMPACT'' = None"
  shows "apply_strategy_to_delete_kwargs env n sz sc sh (Some (CBool True))
      = apply_strategy_to_delete_kwargs env n sz sc sh (Some (CStr ''auto''))
    \<and> apply_strategy_to_delete_kwargs env n sz sc sh (Some (CStr ''auto'')) = apply_strategy_to_delete_kwargs env n sz sc sh None
    \<and> (\<forall>c. c \<noteq> CStr ''auto'' \<longrightarrow> c \<noteq> CBool True \<longrightarrow> snd (apply_strategy_to_delete_kwargs env n sz sc sh (Some c)) = c)
    \<and> (0 < n \<longrightarrow> \<not> sc \<longrightarrow> snd (apply_strategy_to_delete_kwargs env n sz sc sh (Some (CBool True))) = CStr ''never'')"
proof -
  have "env_on ''1''" by code_simp
  then show ?thesis using assms
    by (auto simp: apply_strategy_to_delete_kwargs_def env_get_def Let_def compact_mode_for_recommendation_def
        recommend_default_def recommend_delete_strategy_def)
qed

lemma compact_true_is_auto_witness:
  "snd (apply_strategy_to_delete_kwargs Map.empty 1 10 False True (Some (CBool True))) = CStr ''never''"
  using compact_true_is_auto [of Map.empty 1 10 False True] by auto

end
