(* ===== verification/Residual.thy ===== *)
theory Residual
  imports Complex_Main Prelude
begin

text \<open>
  \<open>compliance/residual.py\<close>: the check that an erased embedding is zero when read back and that its old
  float32 image is not in a checkpoint file. Embeddings are float32 bit patterns (the conversions to
  float64 and back are exact on them). \<open>norm64\<close> stands for numpy's \<open>linalg.norm\<close>, which is not code of
  this program; what is used of it is that it is zero exactly on zero vectors (\<open>norm_law\<close>).
\<close>

record residual_proof =
  rp_label_or_id :: string
  rp_live_all_zeros :: bool
  rp_file_pattern_absent :: "bool option"
  rp_original_norm :: "64 word"
  rp_details :: string

definition proof_passed :: "residual_proof \<Rightarrow> bool" where
  "proof_passed p = (case rp_file_pattern_absent p of
     None \<Rightarrow> rp_live_all_zeros p | Some b \<Rightarrow> rp_live_all_zeros p \<and> b)"

text \<open>\<open>abs(x) <= atol\<close> for a float32: no infinity or NaN is within a finite tolerance.\<close>

definition f32_abs_le :: "f32 \<Rightarrow> rat \<Rightarrow> bool" where
  "f32_abs_le x a = (let e = unat (drop_bit 23 x AND 0xFF); m = unat (x AND 0x7FFFFF)
     in e \<noteq> 255 \<and> (if e = 0 then of_nat m / 2 ^ 149 else of_nat (2 ^ 23 + m) * 2 ^ e / 2 ^ 150) \<le> a)"

definition vector_all_zeros :: "f32 list \<Rightarrow> rat \<Rightarrow> bool" where
  "vector_all_zeros vec atol = (if atol \<le> 0 then all_zero vec else list_all (\<lambda>x. f32_abs_le x atol) vec)"

definition float32_pattern_bytes :: "f32 list \<Rightarrow> bytes" where
  "float32_pattern_bytes v = concat (map (\<lambda>x. le_bytes 4 (unat x)) v)"

definition file_contains_bytes :: "(string \<Rightarrow> bytes option) \<Rightarrow> string \<Rightarrow> bytes \<Rightarrow> bool" where
  "file_contains_bytes files path pattern =
    (if pattern = [] \<or> files path = None then False else contains_sub pattern (the (files path)))"

definition f64_is_zero :: "64 word \<Rightarrow> bool" where
  "f64_is_zero x \<longleftrightarrow> x AND 0x7FFFFFFFFFFFFFFF = 0"

definition prove_vector_erased ::
  "(f32 list \<Rightarrow> 64 word) \<Rightarrow> (string \<Rightarrow> bytes option) \<Rightarrow> string \<Rightarrow> f32 list \<Rightarrow> f32 list option \<Rightarrow> string option \<Rightarrow> rat
    \<Rightarrow> residual_proof" where
  "prove_vector_erased norm64 files label live original checkpoint atol =
    (let live_ok = vector_all_zeros live atol;
         orig_norm = (case original of None \<Rightarrow> 0 | Some v \<Rightarrow> norm64 v);
         part1 = (if live_ok then ''live vector is all zeros'' else ''live vector still has non-zero components'');
         (file_ok, parts) =
           (case (checkpoint, original) of
              (Some path, Some v) \<Rightarrow>
                if f64_is_zero orig_norm then (Some True, [part1, ''original was zero; file scan skipped''])
                else if files path = None then (None, [part1, ''checkpoint missing: '' @ path])
                else let absent = (\<not> file_contains_bytes files path (float32_pattern_bytes v))
                     in (Some absent, [part1, if absent then ''original float32 pattern ABSENT from checkpoint''
                                             else ''ORIGINAL PATTERN STILL PRESENT in checkpoint''])
            | _ \<Rightarrow> (None, [part1]))
     in \<lparr>rp_label_or_id = label, rp_live_all_zeros = live_ok, rp_file_pattern_absent = file_ok,
         rp_original_norm = orig_norm, rp_details = join_with ''; '' parts\<rparr>)"

definition prove_batch_zeroed ::
  "(f32 list \<Rightarrow> 64 word) \<Rightarrow> (string \<Rightarrow> bytes option) \<Rightarrow> (string \<times> f32 list) list \<Rightarrow> rat \<Rightarrow> residual_proof list" where
  "prove_batch_zeroed norm64 files items atol =
     map (\<lambda>(i, v). prove_vector_erased norm64 files i v None None atol) items"

definition pack_f32_le :: "f32 list \<Rightarrow> bytes" where
  "pack_f32_le vs = concat (map (\<lambda>x. le_bytes 4 (unat x)) vs)"

definition norm_law :: "(f32 list \<Rightarrow> 64 word) \<Rightarrow> bool" where
  "norm_law norm64 \<longleftrightarrow> (\<forall>v. f64_is_zero (norm64 v) \<longleftrightarrow> all_zero v)"

lemma length_pattern: "length (float32_pattern_bytes v) = 4 * length v"
  by (induction v) (simp_all add: float32_pattern_bytes_def)

lemma f64_is_zero_0 [simp]: "f64_is_zero 0"
  by (simp add: f64_is_zero_def)

lemma proof_parts:
  "proof_passed (prove_vector_erased norm64 files i live orig cp a) \<longleftrightarrow>
     vector_all_zeros live a \<and>
     (case (cp, orig) of (Some path, Some v) \<Rightarrow>
        f64_is_zero (norm64 v) \<or> files path = None \<or> \<not> file_contains_bytes files path (float32_pattern_bytes v)
      | _ \<Rightarrow> True)"
  by (auto simp: proof_passed_def prove_vector_erased_def Let_def split: option.splits)

lemma proof_live: "rp_live_all_zeros (prove_vector_erased norm64 files i live orig cp a) = vector_all_zeros live a"
  by (simp add: prove_vector_erased_def Let_def split: prod.splits)

section \<open>Properties\<close>

text \<open>
  what a passed proof means, for exact comparison (\<open>atol = 0\<close>): every component read back is zero, and,
  when a snapshot of a non-zero vector and an existing checkpoint were given, no offset of that file holds
  the float32 image of the snapshot. When the snapshot is missing or zero, or the file is missing, nothing is said
  about the file.
\<close>

theorem residual_proof_meaning:
  assumes "norm_law norm64" and "proof_passed (prove_vector_erased norm64 files i live orig cp 0)"
  shows "all_zero live \<and>
    (\<forall>v path data. orig = Some v \<longrightarrow> \<not> all_zero v \<longrightarrow> cp = Some path \<longrightarrow> files path = Some data \<longrightarrow>
       \<not> (\<exists>a b. data = a @ float32_pattern_bytes v @ b))"
proof (intro conjI allI impI)
  show "all_zero live" using assms(2) by (simp add: proof_parts vector_all_zeros_def)
next
  fix v path data
  assume h: "orig = Some v" "\<not> all_zero v" "cp = Some path" "files path = Some data"
  then have "v \<noteq> []" by (auto simp: all_zero_def)
  then have "float32_pattern_bytes v \<noteq> []" using length_pattern [of v] by auto
  then show "\<not> (\<exists>a b. data = a @ float32_pattern_bytes v @ b)"
    using assms h by (simp add: proof_parts norm_law_def file_contains_bytes_def contains_sub_iff)
qed

definition count_norm :: "f32 list \<Rightarrow> 64 word" where
  "count_norm v = (if all_zero v then 0 else 1)"

lemma count_norm_law: "norm_law count_norm"
  by (simp add: norm_law_def count_norm_def f64_is_zero_def)

theorem residual_proof_meaning_witness:
  "\<not> (\<exists>a b. [1, 2, 3, 0, 5] = a @ float32_pattern_bytes [7] @ b)"
proof -
  have "proof_passed (prove_vector_erased count_norm (\<lambda>_. Some [1, 2, 3, 0, 5]) ''x'' [0] (Some [7]) (Some ''f'') 0)"
    by code_simp
  from residual_proof_meaning [OF count_norm_law this] show ?thesis
    by (simp add: all_zero_def f32_is_zero_def)
qed

end
