(* ===== verification/EraseService.thy ===== *)
theory EraseService
  imports Digest Persistence IdRegistry CompactPolicy Residual
begin

text \<open>
  \<open>integrations/erase_service.py\<close> with the backend protocol of \<open>integrations/backends.py\<close>: the batch
  delete by business id. A backend is the record of its methods over a world \<open>'w\<close> (an optional method is
  an option), together with the durable path of an attached persistence engine and the files a
  checkpoint scan reads. \<open>delete\<close> is split along its blocks: planning the compaction, the loop over the ids,
  the compaction, the residual proofs, the status, the hint, and the receipt.
\<close>

section \<open>Backends\<close>

record backend_erase_result =
  br_success :: bool
  br_label :: int
  br_bytes_wiped :: int
  br_message :: "string option"
  br_compacted :: bool

record 'w backend =
  bk_hard_delete :: "string \<Rightarrow> int \<Rightarrow> int \<Rightarrow> 'w \<Rightarrow> backend_erase_result res \<times> 'w"
  bk_verify_zeroed :: "string \<Rightarrow> int \<Rightarrow> 'w \<Rightarrow> bool res"
  bk_get_vector :: "(int \<Rightarrow> 'w \<Rightarrow> f32 list res) option"
  bk_compact :: "('w \<Rightarrow> int res \<times> 'w) option"
  bk_num_vectors :: "('w \<Rightarrow> int) option"
  bk_heal_mirror :: bool
  bk_persistence :: "(int \<Rightarrow> int \<Rightarrow> 'w \<Rightarrow> hard_delete_result res \<times> 'w) option"
  bk_files :: "'w \<Rightarrow> string \<Rightarrow> bytes option"

definition backend_supports_compact :: "'w backend \<Rightarrow> bool" where
  "backend_supports_compact b \<longleftrightarrow> bk_compact b \<noteq> None"

definition backend_supports_heal :: "'w backend \<Rightarrow> bool" where
  "backend_supports_heal b \<longleftrightarrow> bk_heal_mirror b \<or> bk_persistence b \<noteq> None"

section \<open>Receipts\<close>

datatype receipt_status = complete | partial | failed

datatype message =
    MStrategy strategy_action string
  | MBackend string
  | MDeferred compact_reason
  | MCompact int string
  | MCompactPolicy int compact_reason
  | MHint strategy_action string

record residual_summary =
  rs_mode :: string
  rs_passed :: "bool option"
  rs_checked :: nat
  rs_failed :: nat
  rs_proofs :: "residual_proof list"
  rs_details :: string

record erasure_receipt =
  rc_request_id :: string
  rc_collection :: string
  rc_external_ids :: "string list"
  rc_labels :: "int list"
  rc_success :: bool
  rc_reason :: "string option"
  rc_timestamp_unix_ns :: int
  rc_bytes_wiped_total :: int
  rc_backend_messages :: "message list"
  rc_transaction_ids :: "int list"
  rc_signature :: string
  rc_errors :: "string list"
  rc_receipt_version :: int
  rc_status :: receipt_status
  rc_compacted :: bool
  rc_residual_proof :: residual_summary

definition RECEIPT_VERSION :: int where "RECEIPT_VERSION = 2"

fun status_str :: "receipt_status \<Rightarrow> string" where
  "status_str complete = ''complete''"
| "status_str partial = ''partial''"
| "status_str failed = ''failed''"

definition bool_str :: "bool \<Rightarrow> string" where
  "bool_str b = (if b then ''True'' else ''False'')"

definition sign_payload :: "erasure_receipt \<Rightarrow> string" where
  "sign_payload r =
     int_str (rc_receipt_version r) @ ''|'' @ rc_request_id r @ ''|'' @ rc_collection r @ ''|''
     @ join_with '','' (rc_external_ids r) @ ''|'' @ int_str (rc_timestamp_unix_ns r) @ ''|''
     @ int_str (rc_bytes_wiped_total r) @ ''|'' @ bool_str (rc_success r) @ ''|'' @ status_str (rc_status r)
     @ ''|'' @ int_str (if rc_compacted r then 1 else 0)"

definition sign_receipt :: "bytes \<Rightarrow> erasure_receipt \<Rightarrow> string" where
  "sign_receipt key r = hexdigest (hmac_sha256 key (utf8 (sign_payload r)))"

section \<open>The service\<close>

record service_config =
  sv_signing_key :: bytes
  sv_drop_mappings :: bool
  sv_default_compact :: string
  sv_default_residual_proof :: "string option"
  sv_receipt_log :: bool

text \<open>The state: registry, compaction policy, backend world, the receipts appended to the log, and the
  counters and gauges of the metrics object (its timings depend on the clock only and are left out).\<close>

record 'w service =
  sv_registry :: id_registry
  sv_policy :: compact_policy
  sv_world :: 'w
  sv_log :: "erasure_receipt list"
  sv_counters :: "(string, int) dict"
  sv_gauges :: "(string, int) dict"

text \<open>What the process gets from outside: the environment variables, a fresh uuid, the wall clock, the
  monotonic clock, numpy's norm, and whether the append to the receipt log raises \<open>OSError\<close>.\<close>

record service_env =
  se_environ :: environ
  se_uuid :: string
  se_time_ns :: int
  se_monotonic :: rat
  se_norm64 :: "f32 list \<Rightarrow> 64 word"
  se_log_fails :: bool

definition metric_inc :: "string \<Rightarrow> int \<Rightarrow> 'w service \<Rightarrow> 'w service" where
  "metric_inc k n s = s\<lparr>sv_counters := dset k ((case dget (sv_counters s) k of None \<Rightarrow> 0 | Some v \<Rightarrow> v) + n) (sv_counters s)\<rparr>"

definition env_residual_proof_mode :: "environ \<Rightarrow> string" where
  "env_residual_proof_mode env =
    (let raw = py_lower (py_strip (env_get env ''HEALER_RESIDUAL_PROOF'' ''sample''))
     in if raw \<in> {''off'', ''0'', ''false'', ''no''} then ''off''
        else if raw \<in> {''full'', ''all''} then ''full'' else ''sample'')"

fun normalize_compact :: "compact_arg \<Rightarrow> string res" where
  "normalize_compact (CBool True) = Inr ''always''"
| "normalize_compact (CBool False) = Inr ''never''"
| "normalize_compact (CStr s) =
    (if s \<in> {''auto'', ''always'', ''never''} then Inr s
     else Inl (ValueError (''compact must be auto|always|never|bool, got '' @ py_repr s)))"

subsection \<open>Planning the compaction\<close>

definition clean_ids :: "string list \<Rightarrow> string list" where
  "clean_ids ids = filter (\<lambda>x. x \<noteq> []) (map py_strip ids)"

definition index_size :: "'w backend \<Rightarrow> string \<Rightarrow> nat \<Rightarrow> id_registry \<Rightarrow> 'w \<Rightarrow> int" where
  "index_size b collection n r w =
    (let s0 = int (max n 1);
         s1 = (case labels_of collection r of Inl _ \<Rightarrow> s0 | Inr ls \<Rightarrow> max s0 (int (length ls + n)))
     in case bk_num_vectors b of None \<Rightarrow> s1 | Some f \<Rightarrow> max s1 (f w))"

definition plan_compact ::
  "'w backend \<Rightarrow> service_config \<Rightarrow> environ \<Rightarrow> string \<Rightarrow> string list \<Rightarrow> compact_arg option \<Rightarrow> 'w service
    \<Rightarrow> compact_arg \<times> message list" where
  "plan_compact b cfg env collection ext_ids carg s =
    (let (rec, adapted) = apply_strategy_to_delete_kwargs env (int (length ext_ids))
           (index_size b collection (length ext_ids) (sv_registry s) (sv_world s))
           (backend_supports_compact b) (backend_supports_heal b) carg
     in if carg = None \<or> carg = Some (CStr ''auto'') \<or> carg = Some (CBool True)
        then (adapted, [MStrategy (sr_action rec) (sr_reason rec)])
        else (case carg of None \<Rightarrow> CStr (sv_default_compact cfg) | Some c \<Rightarrow> c, []))"

definition proof_mode_of :: "service_config \<Rightarrow> environ \<Rightarrow> string option \<Rightarrow> string" where
  "proof_mode_of cfg env residual_proof =
    (case residual_proof of Some m \<Rightarrow> m
     | None \<Rightarrow> (case sv_default_residual_proof cfg of Some m \<Rightarrow> m | None \<Rightarrow> env_residual_proof_mode env))"

subsection \<open>The loop over the ids\<close>

record batch =
  bt_labels :: "int list"
  bt_messages :: "message list"
  bt_errors :: "string list"
  bt_tx_ids :: "int list"
  bt_bytes :: int
  bt_erased :: "string list"
  bt_originals :: "(int, f32 list) dict"

text \<open>The erase of one label: through the persistence engine when there is one, else by the backend. The
  second component of the result is the transaction id.\<close>

definition backend_erase ::
  "'w backend \<Rightarrow> string \<Rightarrow> int \<Rightarrow> int \<Rightarrow> 'w \<Rightarrow> (backend_erase_result \<times> int option) res \<times> 'w" where
  "backend_erase b collection label max_m w =
    (case bk_persistence b of
       Some hard_delete \<Rightarrow>
         (case hard_delete label max_m w of
            (Inl e, w1) \<Rightarrow> (Inl e, w1)
          | (Inr r, w1) \<Rightarrow>
              (Inr (\<lparr>br_success = hd_success r, br_label = label, br_bytes_wiped = hd_bytes_wiped r,
                     br_message = hd_message r, br_compacted = False\<rparr>, Some (hd_transaction_id r)), w1))
     | None \<Rightarrow>
         (case bk_hard_delete b collection label max_m w of
            (Inl e, w1) \<Rightarrow> (Inl e, w1)
          | (Inr r, w1) \<Rightarrow> (Inr (r, None), w1)))"

definition snapshot :: "'w backend \<Rightarrow> bool \<Rightarrow> int \<Rightarrow> 'w \<Rightarrow> (int, f32 list) dict \<Rightarrow> (int, f32 list) dict" where
  "snapshot b need label w os =
    (case bk_get_vector b of
       Some get \<Rightarrow> if need then (case get label w of Inr v \<Rightarrow> dset label v os | Inl _ \<Rightarrow> os) else os
     | None \<Rightarrow> os)"

definition msg_str :: "string option \<Rightarrow> string" where
  "msg_str m = (case m of None \<Rightarrow> ''None'' | Some t \<Rightarrow> t)"

text \<open>After a successful erase and check: record the id and drop its mapping. A raise of \<open>drop\<close> is
  turned into an error with the id already recorded, as the enclosing \<open>except\<close> does.\<close>

definition record_erased ::
  "service_config \<Rightarrow> string \<Rightarrow> string \<Rightarrow> int \<Rightarrow> backend_erase_result \<Rightarrow> 'w service \<times> batch \<Rightarrow> 'w service \<times> batch" where
  "record_erased cfg collection ext label br sb =
    (case sb of (s, bt) \<Rightarrow>
      let bt1 = bt\<lparr>bt_bytes := bt_bytes bt + br_bytes_wiped br, bt_labels := bt_labels bt @ [label],
                   bt_erased := bt_erased bt @ [ext],
                   bt_messages := (case br_message br of
                       None \<Rightarrow> bt_messages bt
                     | Some m \<Rightarrow> if m = [] then bt_messages bt else bt_messages bt @ [MBackend m])\<rparr>
      in if sv_drop_mappings cfg
         then (case drop_id collection ext (sv_registry s) of
                 (Inr _, r1) \<Rightarrow> (s\<lparr>sv_registry := r1\<rparr>, bt1)
               | (Inl e, r1) \<Rightarrow> (s\<lparr>sv_registry := r1\<rparr>, bt1\<lparr>bt_errors := bt_errors bt1 @ [ext @ '': '' @ exn_str e]\<rparr>))
         else (s, bt1))"

definition erase_resolved ::
  "'w backend \<Rightarrow> service_config \<Rightarrow> bool \<Rightarrow> string \<Rightarrow> int \<Rightarrow> string \<Rightarrow> int \<Rightarrow> 'w service \<times> batch \<Rightarrow> 'w service \<times> batch" where
  "erase_resolved b cfg need collection max_m ext label sb =
    (case sb of (s, bt0) \<Rightarrow>
      let bt = bt0\<lparr>bt_originals := snapshot b need label (sv_world s) (bt_originals bt0)\<rparr> in
      case backend_erase b collection label max_m (sv_world s) of
        (Inl e, w1) \<Rightarrow> (s\<lparr>sv_world := w1\<rparr>, bt\<lparr>bt_errors := bt_errors bt @ [ext @ '': '' @ exn_str e]\<rparr>)
      | (Inr (br, tx), w1) \<Rightarrow>
          let s1 = s\<lparr>sv_world := w1\<rparr>;
              bt1 = bt\<lparr>bt_tx_ids := bt_tx_ids bt @ (case tx of None \<Rightarrow> [] | Some t \<Rightarrow> [t])\<rparr>
          in if \<not> br_success br
             then (s1, bt1\<lparr>bt_errors := bt_errors bt1 @ [''erase failed for '' @ ext @ '' (label='' @ int_str label @ ''): ''
                      @ msg_str (br_message br)]\<rparr>)
             else case bk_verify_zeroed b collection label w1 of
               Inl e \<Rightarrow> (s1, bt1\<lparr>bt_errors := bt_errors bt1 @ [ext @ '': '' @ exn_str e]\<rparr>)
             | Inr False \<Rightarrow> (s1, bt1\<lparr>bt_errors := bt_errors bt1 @ [''post-condition failed: label '' @ int_str label
                      @ '' not fully zeroed'']\<rparr>)
             | Inr True \<Rightarrow> record_erased cfg collection ext label br (s1, bt1))"

text \<open>Only \<open>IdMappingError\<close> of \<open>resolve\<close> is a skip; a blank collection raises \<open>ValueError\<close> through.\<close>

fun erase_loop ::
  "'w backend \<Rightarrow> service_config \<Rightarrow> bool \<Rightarrow> bool \<Rightarrow> string \<Rightarrow> int \<Rightarrow> string list \<Rightarrow> 'w service \<times> batch
    \<Rightarrow> exn option \<times> 'w service \<times> batch" where
  "erase_loop b cfg idem need collection max_m [] sb = (None, sb)"
| "erase_loop b cfg idem need collection max_m (ext # rest) sb =
    (case resolve collection ext (sv_registry (fst sb)) of
       Inr i \<Rightarrow> erase_loop b cfg idem need collection max_m rest
                 (erase_resolved b cfg need collection max_m ext (ri_label i) sb)
     | Inl (IdMappingError m) \<Rightarrow>
         if idem
         then erase_loop b cfg idem need collection max_m rest
                (fst sb, (snd sb)\<lparr>bt_errors := bt_errors (snd sb) @ [''skip '' @ ext @ '': '' @ exn_str (IdMappingError m)]\<rparr>)
         else (Some (IdMappingError m), sb)
     | Inl e \<Rightarrow> (Some e, sb))"

subsection \<open>Compaction\<close>

text \<open>The decision: whether to compact, the reason, and the message of a deferral.\<close>

definition compact_decision_of ::
  "'w backend \<Rightarrow> string \<Rightarrow> rat \<Rightarrow> compact_policy \<Rightarrow> bool \<times> (int \<Rightarrow> message) \<times> message list \<times> bool" where
  "compact_decision_of b mode now p =
    (if mode = ''never'' then (False, (\<lambda>n. MCompact n ''never''), [], False)
     else if mode = ''always'' then (True, (\<lambda>n. MCompact n ''always''), [], False)
     else if mode = ''auto'' \<and> backend_supports_compact b then
       (if cp_mode p = PNever then (False, (\<lambda>n. MCompact n ''policy_never''), [], False)
        else if cp_mode p = PCoalesce then
          (let d = decide False now p
           in (cd_should_compact d, (\<lambda>n. MCompactPolicy n (cd_reason d)),
               if cd_should_compact d then [] else [MDeferred (cd_reason d)], \<not> cd_should_compact d))
        else (True, (\<lambda>n. MCompact n ''auto_always''), [], False))
     else if mode = ''auto'' then (False, (\<lambda>n. MCompact n ''no_compact_backend''), [], False)
     else (False, (\<lambda>n. MCompact n []), [], False))"

definition compact_block ::
  "'w backend \<Rightarrow> string \<Rightarrow> rat \<Rightarrow> 'w service \<times> batch \<Rightarrow> bool \<times> bool \<times> 'w service \<times> batch" where
  "compact_block b mode now sb =
    (case sb of (s0, bt0) \<Rightarrow>
      let n = length (bt_labels bt0);
          s = (if n \<noteq> 0 \<and> backend_supports_compact b
               then s0\<lparr>sv_policy := note_deletes (int n) now (sv_policy s0)\<rparr> else s0);
          (should, note, deferral, deferred) =
            (if n = 0 then (False, (\<lambda>n. MCompact n []), [], False) else compact_decision_of b mode now (sv_policy s));
          bt = bt0\<lparr>bt_messages := bt_messages bt0 @ deferral\<rparr>
      in if \<not> should then (False, deferred, s, bt)
         else case bk_compact b of
           None \<Rightarrow> (False, deferred, s, bt\<lparr>bt_errors := bt_errors bt @ [''compact requested but backend has no compact() method'']\<rparr>)
         | Some f \<Rightarrow>
             (case f (sv_world s) of
                (Inr live, w1) \<Rightarrow>
                  (True, deferred,
                   metric_inc ''compacts'' 1 (s\<lparr>sv_world := w1, sv_policy := mark_compacted (sv_policy s)\<rparr>),
                   bt\<lparr>bt_messages := bt_messages bt @ [note live]\<rparr>)
              | (Inl e, w1) \<Rightarrow>
                  (False, deferred, metric_inc ''compact_failures'' 1 (s\<lparr>sv_world := w1\<rparr>),
                   bt\<lparr>bt_errors := bt_errors bt @ [''compact failed: '' @ exn_str e]\<rparr>)))"

subsection \<open>Residual proofs\<close>

definition sample_indices :: "nat \<Rightarrow> nat list" where
  "sample_indices n = sort (remdups [0, n div 2, n - 1])"

definition proof_items :: "string \<Rightarrow> int list \<Rightarrow> string list \<Rightarrow> (int \<times> string) list" where
  "proof_items mode labels erased =
    (if mode = ''sample'' \<and> 3 < length labels
     then map (\<lambda>i. (labels ! i, erased ! i)) (sample_indices (length labels))
     else zip labels erased)"

text \<open>Reading back a label; without \<open>get_vector\<close>, or when it raises, \<open>verify_zeroed\<close> stands in, and
  its exception is not caught.\<close>

definition live_vector :: "'w backend \<Rightarrow> string \<Rightarrow> int \<Rightarrow> 'w \<Rightarrow> f32 list res" where
  "live_vector b collection label w =
    (case (case bk_get_vector b of None \<Rightarrow> Inl (OtherError ''no attribute get_vector'') | Some get \<Rightarrow> get label w) of
       Inr v \<Rightarrow> Inr v
     | Inl _ \<Rightarrow> bind_res (bk_verify_zeroed b collection label w) (\<lambda>ok. Inr [if ok then 0 else 0x3F800000]))"

definition run_residual_proofs ::
  "'w backend \<Rightarrow> (f32 list \<Rightarrow> 64 word) \<Rightarrow> string \<Rightarrow> string \<Rightarrow> string option \<Rightarrow> batch \<Rightarrow> 'w \<Rightarrow> residual_summary res" where
  "run_residual_proofs b norm64 collection mode checkpoint bt w =
    (if mode = ''off'' \<or> bt_labels bt = []
     then Inr \<lparr>rs_mode = mode, rs_passed = None, rs_checked = 0, rs_failed = 0, rs_proofs = [],
               rs_details = (if mode = ''off'' then ''skipped'' else ''no labels erased'')\<rparr>
     else bind_res (map_res (\<lambda>(lab, ext). bind_res (live_vector b collection lab w) (\<lambda>live.
              Inr (prove_vector_erased norm64 (bk_files b w) ext live (dget (bt_originals bt) lab) checkpoint 0)))
            (proof_items mode (bt_labels bt) (bt_erased bt))) (\<lambda>proofs.
       let bad = length (filter (\<lambda>p. \<not> proof_passed p) proofs)
       in Inr \<lparr>rs_mode = mode, rs_passed = Some (bad = 0), rs_checked = length proofs, rs_failed = bad,
               rs_proofs = proofs,
               rs_details = (if proofs \<noteq> [] then ''checked='' @ nat_str (length proofs) @ '' failed='' @ nat_str bad
                             else ''no proofs run'')\<rparr>))"

subsection \<open>Status and receipt\<close>

definition compact_no_method :: "string \<Rightarrow> bool" where
  "compact_no_method e = contains_sub ''compact requested but backend'' e"

definition derive_status ::
  "int \<Rightarrow> int \<Rightarrow> string list \<Rightarrow> string \<Rightarrow> bool option \<Rightarrow> bool \<Rightarrow> receipt_status" where
  "derive_status requested erased errors proof_mode passed deferred_compact =
    (let compact_failed = (\<exists>e\<in>set errors. starts_with e ''compact failed'' \<or> compact_no_method e);
         proof_failed = (proof_mode \<noteq> ''off'' \<and> 0 < erased \<and> passed \<noteq> Some True);
         erase_failed = (\<exists>e\<in>set errors. \<not> starts_with e ''skip '' \<and> \<not> starts_with e ''residual_proof''
                            \<and> \<not> starts_with e ''compact'' \<and> \<not> compact_no_method e);
         only_skips = (errors \<noteq> [] \<and> (\<forall>e\<in>set errors. starts_with e ''skip ''));
         all_requested_erased = (erased = requested \<and> \<not> erase_failed)
     in if requested = 0 then complete
        else if erased = 0 then (if only_skips then partial else failed)
        else if all_requested_erased \<and> \<not> compact_failed \<and> \<not> proof_failed \<and> errors = [] then complete
        else if all_requested_erased \<and> \<not> compact_failed \<and> \<not> proof_failed \<and> deferred_compact \<and> \<not> only_skips
                \<and> \<not> (\<exists>e\<in>set errors. \<not> starts_with e ''skip '') then complete
        else partial)"

definition strategy_hint :: "'w backend \<Rightarrow> environ \<Rightarrow> string \<Rightarrow> bool \<Rightarrow> 'w service \<Rightarrow> batch \<Rightarrow> message list" where
  "strategy_hint b env collection compacted s bt =
    (if bt_labels bt = [] then []
     else let n = length (bt_labels bt);
              sz = index_size b collection n (sv_registry s) (sv_world s);
              rec = recommend_default env (int n) (max sz (int n)) (backend_supports_compact b) (backend_supports_heal b)
          in if sr_prefer_full_rebuild rec \<and> \<not> compacted then [MHint (sr_action rec) (sr_reason rec)] else [])"

definition finish_metrics :: "nat \<Rightarrow> bool \<Rightarrow> 'w service \<Rightarrow> 'w service" where
  "finish_metrics n ok s =
    (let s1 = metric_inc ''deletes_ids'' (int n) (metric_inc ''deletes_batches'' 1 s);
         s2 = metric_inc (if ok then ''deletes_complete'' else ''deletes_incomplete'') 1 s1
     in s2\<lparr>sv_gauges := dset ''compact_pending'' (pending_count (sv_policy s2)) (sv_gauges s2)\<rparr>)"

definition empty_batch :: "message list \<Rightarrow> batch" where
  "empty_batch ms = \<lparr>bt_labels = [], bt_messages = ms, bt_errors = [], bt_tx_ids = [], bt_bytes = 0, bt_erased = [], bt_originals = []\<rparr>"

text \<open>From the proofs on: errors, status, hint, receipt, log and metrics.\<close>

definition finish_delete ::
  "'w backend \<Rightarrow> service_config \<Rightarrow> service_env \<Rightarrow> string \<Rightarrow> string list \<Rightarrow> string option \<Rightarrow> string option \<Rightarrow> string
    \<Rightarrow> bool \<Rightarrow> bool \<Rightarrow> residual_summary \<Rightarrow> 'w service \<times> batch \<Rightarrow> erasure_receipt \<times> 'w service" where
  "finish_delete b cfg env collection ext_ids reason request_id proof_mode compacted deferred summary sb =
    (case sb of (s0, bt0) \<Rightarrow>
      let proof_bad = (proof_mode \<noteq> ''off'' \<and> rs_passed summary = Some False);
          s = (if proof_bad then metric_inc ''residual_proof_failures'' 1 s0 else s0);
          bt = (if proof_bad then bt0\<lparr>bt_errors := bt_errors bt0 @ [''residual_proof failed: '' @ rs_details summary]\<rparr> else bt0);
          status = derive_status (int (length ext_ids)) (int (length (bt_labels bt))) (bt_errors bt) proof_mode
                     (rs_passed summary) deferred;
          r0 = \<lparr>rc_request_id = (case request_id of None \<Rightarrow> se_uuid env | Some q \<Rightarrow> if q = [] then se_uuid env else q),
                rc_collection = collection, rc_external_ids = ext_ids, rc_labels = bt_labels bt,
                rc_success = (status = complete), rc_reason = reason, rc_timestamp_unix_ns = se_time_ns env,
                rc_bytes_wiped_total = bt_bytes bt,
                rc_backend_messages = bt_messages bt @ strategy_hint b (se_environ env) collection compacted s bt,
                rc_transaction_ids = bt_tx_ids bt, rc_signature = [], rc_errors = bt_errors bt,
                rc_receipt_version = RECEIPT_VERSION, rc_status = status, rc_compacted = compacted,
                rc_residual_proof = summary\<rparr>;
          r = r0\<lparr>rc_signature := sign_receipt (sv_signing_key cfg) r0\<rparr>;
          s1 = (if sv_receipt_log cfg \<and> \<not> se_log_fails env then s\<lparr>sv_log := sv_log s @ [r]\<rparr> else s)
      in (r, finish_metrics (length (bt_labels bt)) (rc_success r) s1))"

definition delete ::
  "'w backend \<Rightarrow> service_config \<Rightarrow> service_env \<Rightarrow> string \<Rightarrow> string list \<Rightarrow> string option \<Rightarrow> string option \<Rightarrow> int \<Rightarrow> bool
    \<Rightarrow> compact_arg option \<Rightarrow> string option \<Rightarrow> string option \<Rightarrow> 'w service \<Rightarrow> erasure_receipt res \<times> 'w service" where
  "delete b cfg env collection ids reason request_id max_m idem carg residual_proof checkpoint s =
    (let ext_ids = clean_ids ids;
         (carg1, ms) = plan_compact b cfg (se_environ env) collection ext_ids carg s
     in case normalize_compact carg1 of
          Inl e \<Rightarrow> (Inl e, s)
        | Inr mode \<Rightarrow>
            let proof_mode = proof_mode_of cfg (se_environ env) residual_proof;
                need = (proof_mode \<noteq> ''off'' \<and> bk_get_vector b \<noteq> None)
            in case erase_loop b cfg idem need collection max_m ext_ids (s, empty_batch ms) of
                 (Some e, s1, bt1) \<Rightarrow> (Inl e, s1)
               | (None, s1, bt1) \<Rightarrow>
                   (case compact_block b mode (se_monotonic env) (s1, bt1) of
                      (compacted, deferred, s2, bt2) \<Rightarrow>
                        (case run_residual_proofs b (se_norm64 env) collection proof_mode checkpoint bt2 (sv_world s2) of
                           Inl e \<Rightarrow> (Inl e, s2)
                         | Inr summary \<Rightarrow>
                             (case finish_delete b cfg env collection ext_ids reason request_id proof_mode compacted deferred
                                     summary (s2, bt2) of
                                (r, s3) \<Rightarrow> (Inr r, s3)))))"

definition force_compact :: "'w backend \<Rightarrow> 'w service \<Rightarrow> int option res \<times> 'w service" where
  "force_compact b s =
    (case bk_compact b of
       None \<Rightarrow> (Inr None, s)
     | Some f \<Rightarrow>
         (case f (sv_world s) of
            (Inl e, w1) \<Rightarrow> (Inl e, s\<lparr>sv_world := w1\<rparr>)
          | (Inr live, w1) \<Rightarrow>
              (Inr (Some live), metric_inc ''compacts'' 1 (s\<lparr>sv_world := w1, sv_policy := mark_compacted (sv_policy s)\<rparr>))))"


section \<open>Status\<close>

lemma derive_status_complete_iff:
  "derive_status q n es pm passed dc = complete \<longleftrightarrow>
     q = 0 \<or> (n \<noteq> 0 \<and> n = q \<and> es = [] \<and> (pm = ''off'' \<or> n \<le> 0 \<or> passed = Some True))"
  unfolding derive_status_def Let_def by auto

section \<open>What the blocks keep\<close>

lemma metric_inc_simps [simp]:
  "sv_registry (metric_inc k n s) = sv_registry s" "sv_world (metric_inc k n s) = sv_world s"
  "sv_policy (metric_inc k n s) = sv_policy s" "sv_log (metric_inc k n s) = sv_log s"
  by (simp_all add: metric_inc_def)

lemma finish_metrics_simps [simp]:
  "sv_registry (finish_metrics n ok s) = sv_registry s" "sv_world (finish_metrics n ok s) = sv_world s"
  "sv_policy (finish_metrics n ok s) = sv_policy s" "sv_log (finish_metrics n ok s) = sv_log s"
  by (simp_all add: finish_metrics_def Let_def)

lemma compact_block_keeps:
  assumes "compact_block b mode now (s, bt) = (c, d, s', bt')"
  shows "sv_registry s' = sv_registry s" "sv_log s' = sv_log s" "bt_labels bt' = bt_labels bt" "bt_erased bt' = bt_erased bt"
    "bt_originals bt' = bt_originals bt" "bt_tx_ids bt' = bt_tx_ids bt" "bt_bytes bt' = bt_bytes bt"
    "\<exists>es. bt_errors bt' = bt_errors bt @ es"
    "sv_world s' = sv_world s \<or> (\<exists>f r. bk_compact b = Some f \<and> f (sv_world s) = (r, sv_world s'))"
  using assms by (auto simp: compact_block_def Let_def split: prod.splits if_splits option.splits sum.splits)

lemma compact_block_nothing: "bt_labels bt = [] \<Longrightarrow> compact_block b mode now (s, bt) = (False, False, s, bt)"
  by (simp add: compact_block_def)

lemma finish_delete_simps:
  assumes "finish_delete b cfg env c ids reason rid pm cp df sm (s, bt) = (r, s')"
  shows "rc_labels r = bt_labels bt" "rc_external_ids r = ids" "rc_success r = (rc_status r = complete)"
    "rc_residual_proof r = sm" "sv_world s' = sv_world s" "sv_registry s' = sv_registry s" "rc_transaction_ids r = bt_tx_ids bt"
    "rc_errors r = bt_errors bt @ (if pm \<noteq> ''off'' \<and> rs_passed sm = Some False then [''residual_proof failed: '' @ rs_details sm] else [])"
    "rc_status r = derive_status (int (length ids)) (int (length (bt_labels bt))) (rc_errors r) pm (rs_passed sm) df"
  using assms by (auto simp: finish_delete_def Let_def)

text \<open>One id through \<open>erase_resolved\<close>: it is recorded with its label, or exactly one error is added.\<close>

lemma erase_resolved_cases:
  assumes "reg_ok (sv_registry s)" "id_view (sv_registry s) c x = Some l"
    and "erase_resolved b cfg need c m x l (s, bt) = (s', bt')"
  obtains (erased) w where "bt_labels bt' = bt_labels bt @ [l]" "bt_erased bt' = bt_erased bt @ [x]" "bt_errors bt' = bt_errors bt"
      "\<exists>br tx. backend_erase b c l m (sv_world s) = (Inr (br, tx), w) \<and> br_success br" "sv_world s' = w"
      "bk_verify_zeroed b c l w = Inr True"
      "reg_ok (sv_registry s')"
      "\<And>d y. id_view (sv_registry s') d y = (if sv_drop_mappings cfg \<and> same_id c x d y then None else id_view (sv_registry s) d y)"
  | (refused) e r where "bt_labels bt' = bt_labels bt" "bt_erased bt' = bt_erased bt" "bt_errors bt' = bt_errors bt @ [e]"
      "backend_erase b c l m (sv_world s) = (r, sv_world s')" "sv_registry s' = sv_registry s"
proof -
  obtain res w where e: "backend_erase b c l m (sv_world s) = (res, w)" by fastforce
  show ?thesis
  proof (cases "\<exists>br tx. res = Inr (br, tx) \<and> br_success br \<and> bk_verify_zeroed b c l w = Inr True")
    case False
    then have "sv_world s' = w \<and> sv_registry s' = sv_registry s \<and> bt_labels bt' = bt_labels bt \<and> bt_erased bt' = bt_erased bt
        \<and> (\<exists>e. bt_errors bt' = bt_errors bt @ [e])"
      using assms(3) e unfolding erase_resolved_def
      by (auto simp: Let_def split: sum.splits prod.splits if_splits bool.splits)
    then show ?thesis using e refused by blast
  next
    case True
    then obtain br tx where br: "res = Inr (br, tx)" "br_success br" "bk_verify_zeroed b c l w = Inr True" by blast
    define s1 where "s1 = s\<lparr>sv_world := w\<rparr>"
    have r1: "sv_registry s1 = sv_registry s" "sv_world s1 = w" by (simp_all add: s1_def)
    obtain r' where d: "drop_id c x (sv_registry s) = (Inr l, r')" "reg_ok r'"
      "\<forall>d y. id_view r' d y = (if same_id c x d y then None else id_view (sv_registry s) d y)"
      using reg.drop_some [OF assms(1,2)] by blast
    obtain bt1 where rec: "record_erased cfg c x l br (s1, bt1) = (s', bt')" "bt_labels bt1 = bt_labels bt"
      "bt_erased bt1 = bt_erased bt" "bt_errors bt1 = bt_errors bt"
      using assms(3) e br unfolding erase_resolved_def by (auto simp: Let_def s1_def)
    have "bt_labels bt' = bt_labels bt @ [l]" "bt_erased bt' = bt_erased bt @ [x]" "bt_errors bt' = bt_errors bt"
      "sv_world s' = w" "sv_registry s' = (if sv_drop_mappings cfg then r' else sv_registry s)"
      using rec d(1) r1 by (auto simp: record_erased_def Let_def split: if_splits)
    then show ?thesis using erased [of w] e br d(2,3) assms(1) by auto
  qed
qed

text \<open>The state of the loop relative to the registry \<open>r0\<close> it started from: mappings are only removed, and
  the recorded labels are those the recorded ids had in \<open>r0\<close>.\<close>

definition loop_inv :: "id_registry \<Rightarrow> service_config \<Rightarrow> string \<Rightarrow> 'w service \<times> batch \<Rightarrow> bool" where
  "loop_inv r0 cfg c sb \<longleftrightarrow>
     reg_ok (sv_registry (fst sb))
     \<and> (\<forall>d y l. id_view (sv_registry (fst sb)) d y = Some l \<longrightarrow> id_view r0 d y = Some l)
     \<and> list_all2 (\<lambda>l x. id_view r0 c x = Some l) (bt_labels (snd sb)) (bt_erased (snd sb))
     \<and> (sv_drop_mappings cfg \<longrightarrow> (\<forall>x\<in>set (bt_erased (snd sb)). id_view (sv_registry (fst sb)) c x = None))"

lemma loop_inv_erase:
  assumes "loop_inv r0 cfg c (s, bt)" "id_view (sv_registry s) c x = Some l"
  shows "loop_inv r0 cfg c (erase_resolved b cfg need c m x l (s, bt))
    \<and> (\<exists>es. bt_errors (snd (erase_resolved b cfg need c m x l (s, bt))) = bt_errors bt @ es
         \<and> length es + length (bt_erased (snd (erase_resolved b cfg need c m x l (s, bt)))) = Suc (length (bt_erased bt))
         \<and> (es = [] \<longrightarrow> bt_erased (snd (erase_resolved b cfg need c m x l (s, bt))) = bt_erased bt @ [x]))"
proof -
  obtain s' bt' where run: "erase_resolved b cfg need c m x l (s, bt) = (s', bt')" by fastforce
  have ok: "reg_ok (sv_registry s)" using assms(1) by (simp add: loop_inv_def)
  from ok assms(2) run show ?thesis
  proof (cases rule: erase_resolved_cases)
    case (erased w)
    have "same_id c x c x" by (simp add: same_id_def)
    then show ?thesis using assms erased run by (auto simp: loop_inv_def list_all2_appendI)
  next
    case (refused e r)
    then show ?thesis using assms run by (auto simp: loop_inv_def)
  qed
qed

lemma resolve_Inl_cases:
  "resolve c x r = Inl e \<Longrightarrow> py_strip c \<noteq> [] \<Longrightarrow> py_strip x \<noteq> [] \<Longrightarrow> \<exists>m. e = IdMappingError m"
  by (auto simp: resolve_def norm_collection_def norm_external_def Let_def split: option.splits)

lemma loop_facts:
  assumes "loop_inv r0 cfg c sb" "erase_loop b cfg idem need c m xs sb = (x, sb')"
  shows "loop_inv r0 cfg c sb' \<and> (\<exists>es. bt_errors (snd sb') = bt_errors (snd sb) @ es
    \<and> (x = None \<longrightarrow> length es + length (bt_erased (snd sb')) = length xs + length (bt_erased (snd sb))
         \<and> (es = [] \<longrightarrow> bt_erased (snd sb') = bt_erased (snd sb) @ xs)))"
  using assms
proof (induction xs arbitrary: sb)
  case Nil
  then show ?case by auto
next
  case (Cons y xs)
  obtain s bt where sb: "sb = (s, bt)" by fastforce
  show ?case
  proof (cases "resolve c y (sv_registry s)")
    case (Inr i)
    then have v: "id_view (sv_registry s) c y = Some (ri_label i)" by (auto simp: resolve_view)
    let ?n = "erase_resolved b cfg need c m y (ri_label i) (s, bt)"
    obtain es1 where st: "loop_inv r0 cfg c ?n" "bt_errors (snd ?n) = bt_errors bt @ es1"
      "length es1 + length (bt_erased (snd ?n)) = Suc (length (bt_erased bt))"
      "es1 = [] \<longrightarrow> bt_erased (snd ?n) = bt_erased bt @ [y]"
      using loop_inv_erase [OF _ v] Cons.prems(1) sb by blast
    have "erase_loop b cfg idem need c m xs ?n = (x, sb')" using Cons.prems(2) sb Inr by simp
    from Cons.IH [OF st(1) this] obtain es2 where "loop_inv r0 cfg c sb'" "bt_errors (snd sb') = bt_errors (snd ?n) @ es2"
      "x = None \<longrightarrow> length es2 + length (bt_erased (snd sb')) = length xs + length (bt_erased (snd ?n))
         \<and> (es2 = [] \<longrightarrow> bt_erased (snd sb') = bt_erased (snd ?n) @ xs)" by blast
    then show ?thesis using st sb by (intro conjI exI [of _ "es1 @ es2"]) auto
  next
    case (Inl e)
    show ?thesis
    proof (cases "idem \<and> (\<exists>t. e = IdMappingError t)")
      case True
      then obtain t where t: "e = IdMappingError t" by blast
      let ?e = "''skip '' @ y @ '': '' @ exn_str (IdMappingError t)"
      let ?n = "(s, bt\<lparr>bt_errors := bt_errors bt @ [?e]\<rparr>)"
      have n: "loop_inv r0 cfg c ?n" using Cons.prems(1) sb by (simp add: loop_inv_def)
      have "erase_loop b cfg idem need c m xs ?n = (x, sb')" using Cons.prems(2) sb Inl t True by simp
      from Cons.IH [OF n this] obtain es2 where "loop_inv r0 cfg c sb'" "bt_errors (snd sb') = bt_errors (snd ?n) @ es2"
        "x = None \<longrightarrow> length es2 + length (bt_erased (snd sb')) = length xs + length (bt_erased (snd ?n))" by blast
      then show ?thesis using sb by (intro conjI exI [of _ "?e # es2"]) auto
    next
      case False
      then have "x \<noteq> None \<and> sb' = sb" using Cons.prems(2) sb Inl by (auto split: exn.splits)
      then show ?thesis using Cons.prems(1) by auto
    qed
  qed
qed


lemma delete_steps:
  assumes "delete b cfg env c ids reason rid m idem carg rp ckpt s = (Inr r, s')"
  obtains ms mode s1 bt1 cp df s2 bt2 sm need where
    "erase_loop b cfg idem need c m (clean_ids ids) (s, empty_batch ms) = (None, s1, bt1)"
    "compact_block b mode (se_monotonic env) (s1, bt1) = (cp, df, s2, bt2)"
    "run_residual_proofs b (se_norm64 env) c (proof_mode_of cfg (se_environ env) rp) ckpt bt2 (sv_world s2) = Inr sm"
    "finish_delete b cfg env c (clean_ids ids) reason rid (proof_mode_of cfg (se_environ env) rp) cp df sm (s2, bt2) = (r, s')"
  using assms unfolding delete_def Let_def
  by (auto split: prod.splits sum.splits option.splits)

lemma loop_inv_start:
  "reg_ok (sv_registry s) \<Longrightarrow> loop_inv (sv_registry s) cfg c (s, empty_batch ms)"
  by (simp add: loop_inv_def empty_batch_def)

text \<open>The registry side of a receipt, for any backend.\<close>

lemma delete_registry:
  assumes ok: "reg_ok (sv_registry s)"
    and del: "delete b cfg env c ids reason rid m idem carg rp ckpt s = (Inr r, s')"
  shows "reg_ok (sv_registry s') \<and> rc_external_ids r = clean_ids ids
    \<and> length (clean_ids ids) \<le> length (rc_labels r) + length (rc_errors r)
    \<and> (rc_status r = complete \<longrightarrow>
         list_all2 (\<lambda>l x. id_view (sv_registry s) c x = Some l) (rc_labels r) (clean_ids ids)
         \<and> (clean_ids ids \<noteq> [] \<longrightarrow> rc_errors r = [])
         \<and> (sv_drop_mappings cfg \<longrightarrow> (\<forall>x\<in>set (clean_ids ids). id_view (sv_registry s') c x = None)))"
  using del
proof (cases rule: delete_steps)
  case (1 ms mode s1 bt1 cp df s2 bt2 sm need)
  from loop_facts [OF loop_inv_start [OF ok] 1(1)] obtain es where
    li: "loop_inv (sv_registry s) cfg c (s1, bt1)" "bt_errors bt1 = es"
      "length es + length (bt_erased bt1) = length (clean_ids ids)"
      "es = [] \<longrightarrow> bt_erased bt1 = clean_ids ids"
    by (auto simp: empty_batch_def)
  note cb = compact_block_keeps [OF 1(2)] and fd = finish_delete_simps [OF 1(4)]
  obtain es2 where errs: "rc_errors r = es @ es2" using cb(8) fd(8) li(2) by auto
  have lab: "rc_labels r = bt_labels bt1" using cb(3) fd(1) by simp
  have len: "length (bt_labels bt1) = length (bt_erased bt1)"
    using li(1) by (auto simp: loop_inv_def dest: list_all2_lengthD)
  have reg: "sv_registry s' = sv_registry s1" using cb(1) fd(6) by simp
  have "list_all2 (\<lambda>l x. id_view (sv_registry s) c x = Some l) (rc_labels r) (clean_ids ids)
         \<and> (clean_ids ids \<noteq> [] \<longrightarrow> rc_errors r = [])
         \<and> (sv_drop_mappings cfg \<longrightarrow> (\<forall>x\<in>set (clean_ids ids). id_view (sv_registry s') c x = None))"
    if st: "rc_status r = complete"
  proof (cases "clean_ids ids = []")
    case True
    then show ?thesis using li(3) len lab by simp
  next
    case False
    then have "rc_errors r = []" using st fd(9) derive_status_complete_iff by simp
    then have "es = []" using errs by simp
    then have "bt_erased bt1 = clean_ids ids" using li(4) by simp
    then show ?thesis using li(1) lab reg \<open>rc_errors r = []\<close> by (simp add: loop_inv_def)
  qed
  then show ?thesis using li errs lab len reg fd(2) by (auto simp: loop_inv_def)
qed

section \<open>The backend as an interface\<close>

text \<open>
  What the receipt's meaning rests on: no method un-erases a row (\<open>zero\<close> is kept by erasing, also when it
  fails, and by compacting), and \<open>verify_zeroed\<close> tells the truth when it says yes.
\<close>

locale hard_delete_backend =
  fixes bk :: "'w backend" and zero :: "'w \<Rightarrow> int \<Rightarrow> bool"
  assumes erase_keeps: "backend_erase bk c l m w = (r, w') \<Longrightarrow> zero w k \<Longrightarrow> zero w' k"
    and verify_sound: "bk_verify_zeroed bk c l w = Inr True \<Longrightarrow> zero w l"
    and compact_keeps: "bk_compact bk = Some f \<Longrightarrow> f w = (r', w') \<Longrightarrow> zero w k \<Longrightarrow> zero w' k"
begin

lemma erase_resolved_zero:
  assumes "reg_ok (sv_registry s)" "id_view (sv_registry s) c x = Some l" "\<forall>k\<in>set (bt_labels bt). zero (sv_world s) k"
    and "erase_resolved bk cfg need c m x l (s, bt) = (s', bt')"
  shows "\<forall>k\<in>set (bt_labels bt'). zero (sv_world s') k"
  using assms(1,2,4)
proof (cases rule: erase_resolved_cases)
  case (erased w)
  then show ?thesis using assms(3) erase_keeps verify_sound by fastforce
next
  case (refused e r)
  then show ?thesis using assms(3) erase_keeps by fastforce
qed

lemma erase_loop_zero:
  assumes "loop_inv r0 cfg c sb" "\<forall>k\<in>set (bt_labels (snd sb)). zero (sv_world (fst sb)) k"
    and "erase_loop bk cfg idem need c m xs sb = (x, sb')"
  shows "\<forall>k\<in>set (bt_labels (snd sb')). zero (sv_world (fst sb')) k"
  using assms
proof (induction xs arbitrary: sb)
  case Nil
  then show ?case by auto
next
  case (Cons y xs)
  obtain s bt where sb: "sb = (s, bt)" by fastforce
  show ?case
  proof (cases "resolve c y (sv_registry s)")
    case (Inr i)
    then have v: "id_view (sv_registry s) c y = Some (ri_label i)" by (auto simp: resolve_view)
    obtain s1 bt1 where st: "erase_resolved bk cfg need c m y (ri_label i) (s, bt) = (s1, bt1)" by fastforce
    have "reg_ok (sv_registry s)" using Cons.prems(1) sb by (simp add: loop_inv_def)
    from erase_resolved_zero [OF this v _ st] Cons.prems(2) sb
    have "\<forall>k\<in>set (bt_labels bt1). zero (sv_world s1) k" by simp
    moreover have "loop_inv r0 cfg c (s1, bt1)" using loop_inv_erase [OF _ v, of r0 cfg bt bk need m] Cons.prems(1) sb st by simp
    ultimately show ?thesis using Cons.IH [of "(s1, bt1)"] Cons.prems(3) sb Inr st by simp
  next
    case (Inl e)
    have "loop_inv r0 cfg c (s, bt\<lparr>bt_errors := es\<rparr>)" for es using Cons.prems(1) sb by (simp add: loop_inv_def)
    then show ?thesis
      using Cons.IH [of "(s, bt\<lparr>bt_errors := _\<rparr>)"] Cons.prems sb Inl by (auto split: exn.splits if_splits)
  qed
qed

text \<open>Every label on a receipt is zero in the world the call leaves behind.\<close>

lemma delete_labels_zero:
  assumes ok: "reg_ok (sv_registry s)"
    and del: "delete bk cfg env c ids reason rid m idem carg rp ckpt s = (Inr r, s')"
  shows "\<forall>l\<in>set (rc_labels r). zero (sv_world s') l"
  using del
proof (cases rule: delete_steps)
  case (1 ms mode s1 bt1 cp df s2 bt2 sm need)
  have "\<forall>k\<in>set (bt_labels bt1). zero (sv_world s1) k"
    using erase_loop_zero [OF loop_inv_start [OF ok] _ 1(1)] by (simp add: empty_batch_def)
  moreover have "zero (sv_world s1) k \<Longrightarrow> zero (sv_world s2) k" for k
    using compact_block_keeps(9) [OF 1(2)] compact_keeps by metis
  ultimately show ?thesis
    using finish_delete_simps(1,5) [OF 1(4)] compact_block_keeps(3) [OF 1(2)] by simp
qed

end


section \<open>Calls that always return\<close>

lemma map_res_total: "(\<And>x. x \<in> set xs \<Longrightarrow> \<exists>y. f x = Inr y) \<Longrightarrow> \<exists>ys. map_res f xs = Inr ys"
proof (induction xs)
  case Nil
  then show ?case by simp
next
  case (Cons x xs)
  obtain y where "f x = Inr y" using Cons.prems by auto
  moreover obtain ys where "map_res f xs = Inr ys" using Cons by auto
  ultimately show ?case by simp
qed

lemma map_res_elem: "map_res f xs = Inr ys \<Longrightarrow> x \<in> set xs \<Longrightarrow> \<exists>y\<in>set ys. f x = Inr y"
  by (induction xs arbitrary: ys) auto

lemma clean_ids_strip: "x \<in> set (clean_ids ids) \<Longrightarrow> py_strip x = x \<and> x \<noteq> []"
  by (auto simp: clean_ids_def)

lemma loop_returns:
  assumes "py_strip c \<noteq> []" "\<forall>x\<in>set xs. py_strip x \<noteq> []"
  shows "fst (erase_loop b cfg True need c m xs sb) = None"
  using assms(2)
proof (induction xs arbitrary: sb)
  case Nil
  then show ?case by simp
next
  case (Cons x xs)
  show ?case
  proof (cases "resolve c x (sv_registry (fst sb))")
    case (Inl e)
    then obtain t where "e = IdMappingError t" using resolve_Inl_cases assms(1) Cons.prems by fastforce
    then show ?thesis using Cons Inl by simp
  next
    case (Inr i)
    then show ?thesis using Cons by simp
  qed
qed

definition compact_arg_ok :: "compact_arg option \<Rightarrow> bool" where
  "compact_arg_ok carg = (case carg of None \<Rightarrow> True | Some (CBool _) \<Rightarrow> True
     | Some (CStr t) \<Rightarrow> t \<in> {''auto'', ''always'', ''never''})"

lemma mode_range: "compact_mode_for_recommendation rec ok \<in> {''auto'', ''always'', ''never''}"
  by (simp add: compact_mode_for_recommendation_def)

lemma plan_compact_ok:
  "compact_arg_ok carg \<Longrightarrow> plan_compact b cfg env c xs carg s = (k, ms) \<Longrightarrow> \<exists>mode. normalize_compact k = Inr mode"
proof -
  assume ok: "compact_arg_ok carg" and p: "plan_compact b cfg env c xs carg s = (k, ms)"
  have md: "\<exists>mode. normalize_compact (CStr (compact_mode_for_recommendation rec True)) = Inr mode" for rec
    using mode_range [of rec True] by auto
  have ad: "\<exists>mode. normalize_compact (snd (apply_strategy_to_delete_kwargs env n sz sc sh carg)) = Inr mode"
    if "carg = None \<or> carg = Some (CStr ''auto'') \<or> carg = Some (CBool True)" for n sz sc sh
    using that md by (auto simp: apply_strategy_to_delete_kwargs_def Let_def)
  have ot: "\<exists>mode. normalize_compact a = Inr mode" if "carg = Some a" for a
    using ok that by (cases a) (auto simp: compact_arg_ok_def split: bool.splits, metis (full_types) normalize_compact.simps(1,2))
  show ?thesis
    using p ad ot by (auto simp: plan_compact_def Let_def split: prod.splits if_splits option.splits) (metis snd_conv)+
qed

lemma run_proofs_total:
  assumes "\<And>l w. \<exists>z. bk_verify_zeroed b c l w = Inr z"
  shows "\<exists>sm. run_residual_proofs b norm64 c mode ckpt bt w = Inr sm"
proof -
  have live: "\<exists>v. live_vector b c l w = Inr v" for l
  proof -
    obtain z where "bk_verify_zeroed b c l w = Inr z" using assms by blast
    then show ?thesis by (auto simp: live_vector_def split: sum.splits)
  qed
  have "\<exists>ps. map_res (\<lambda>(lab, ext). bind_res (live_vector b c lab w) (\<lambda>live.
        Inr (prove_vector_erased norm64 (bk_files b w) ext live (dget (bt_originals bt) lab) ckpt 0)))
      (proof_items mode (bt_labels bt) (bt_erased bt)) = Inr ps"
    using live by (intro map_res_total) auto
  then show ?thesis by (auto simp: run_residual_proofs_def Let_def)
qed

lemma delete_returns:
  assumes "py_strip c \<noteq> []" "compact_arg_ok carg" "\<And>l w. \<exists>z. bk_verify_zeroed b c l w = Inr z"
  shows "\<exists>r s'. delete b cfg env c ids reason rid m True carg rp ckpt s = (Inr r, s')"
proof -
  obtain k ms where k: "plan_compact b cfg (se_environ env) c (clean_ids ids) carg s = (k, ms)" by fastforce
  obtain mode where mode: "normalize_compact k = Inr mode" using plan_compact_ok [OF assms(2) k] by blast
  let ?pm = "proof_mode_of cfg (se_environ env) rp"
  let ?need = "?pm \<noteq> ''off'' \<and> bk_get_vector b \<noteq> None"
  have "\<forall>x\<in>set (clean_ids ids). py_strip x \<noteq> []" using clean_ids_strip by fastforce
  then obtain s1 bt1 where l: "erase_loop b cfg True ?need c m (clean_ids ids) (s, empty_batch ms) = (None, s1, bt1)"
    using loop_returns [OF assms(1)] by (metis prod.collapse)
  obtain cp df s2 bt2 where cb: "compact_block b mode (se_monotonic env) (s1, bt1) = (cp, df, s2, bt2)"
    by (metis prod.collapse)
  obtain sm where rp: "run_residual_proofs b (se_norm64 env) c ?pm ckpt bt2 (sv_world s2) = Inr sm"
    using run_proofs_total [OF assms(3)] by blast
  obtain r s3 where "finish_delete b cfg env c (clean_ids ids) reason rid ?pm cp df sm (s2, bt2) = (r, s3)" by fastforce
  then show ?thesis using k mode l cb rp by (auto simp: delete_def Let_def)
qed

text \<open>A batch of unknown ids: one skip each, nothing else happens.\<close>

lemma loop_unknown:
  assumes "py_strip c \<noteq> []" "\<forall>x\<in>set xs. py_strip x \<noteq> [] \<and> id_view (sv_registry s) c x = None"
  shows "\<exists>es. erase_loop b cfg True need c m xs (s, bt) = (None, s, bt\<lparr>bt_errors := bt_errors bt @ es\<rparr>)
    \<and> length es = length xs \<and> (\<forall>e\<in>set es. starts_with e ''skip '')"
  using assms(2)
proof (induction xs arbitrary: bt)
  case Nil
  then show ?case by simp
next
  case (Cons x xs)
  obtain e where r: "resolve c x (sv_registry s) = Inl e" using drop_unknown Cons.prems by (metis list.set_intros(1))
  then obtain t where t: "e = IdMappingError t" using resolve_Inl_cases assms(1) Cons.prems by fastforce
  let ?e = "''skip '' @ x @ '': '' @ exn_str (IdMappingError t)"
  obtain es where "erase_loop b cfg True need c m xs (s, bt\<lparr>bt_errors := bt_errors bt @ [?e]\<rparr>)
      = (None, s, bt\<lparr>bt_errors := (bt_errors bt @ [?e]) @ es\<rparr>)" "length es = length xs" "\<forall>e\<in>set es. starts_with e ''skip ''"
    using Cons.IH [of "bt\<lparr>bt_errors := bt_errors bt @ [?e]\<rparr>"] Cons.prems by auto
  then show ?case using r t by (intro exI [of _ "?e # es"]) (simp add: starts_with_def)
qed

lemma delete_unknown:
  assumes "py_strip c \<noteq> []" "clean_ids ids \<noteq> []" "\<forall>x\<in>set (clean_ids ids). id_view (sv_registry s) c x = None"
    and del: "delete b cfg env c ids reason rid m True carg rp ckpt s = (Inr r, s')"
  shows "rc_status r = partial \<and> \<not> rc_success r \<and> rc_labels r = [] \<and> sv_world s' = sv_world s \<and> sv_registry s' = sv_registry s"
  using del
proof (cases rule: delete_steps)
  case (1 ms mode s1 bt1 cp df s2 bt2 sm need)
  have "\<forall>x\<in>set (clean_ids ids). py_strip x \<noteq> [] \<and> id_view (sv_registry s) c x = None"
    using assms(3) clean_ids_strip by fastforce
  from loop_unknown [OF assms(1) this, of b cfg need m "empty_batch ms"] 1(1) obtain es where
    es: "s1 = s" "bt_errors bt1 = es" "length es = length (clean_ids ids)" "\<forall>e\<in>set es. starts_with e ''skip ''"
      "bt_labels bt1 = []"
    by (auto simp: empty_batch_def)
  then have cb: "s2 = s" "bt2 = bt1" using 1(2) compact_block_nothing [of bt1 b mode "se_monotonic env" s1] by auto
  have sm: "rs_passed sm = None" using 1(3) es(5) cb by (auto simp: run_residual_proofs_def)
  note fd = finish_delete_simps [OF 1(4)]
  have errs: "rc_errors r = es" using fd(8) cb es sm by simp
  have ne: "es \<noteq> []" using es(3) assms(2) by auto
  have "rc_status r = partial"
    using fd(9) errs es(3,4,5) ne assms(2) cb by (simp add: derive_status_def Let_def)
  then show ?thesis using fd es cb by simp
qed


section \<open>Properties\<close>

text \<open>A small in-memory backend for concrete runs.\<close>

definition row_backend :: "(int, f32 list) dict backend" where
  "row_backend = \<lparr>
     bk_hard_delete = (\<lambda>_ l _ w. case dget w l of
         None \<Rightarrow> (Inl (KeyError ''label''), w)
       | Some v \<Rightarrow> (Inr \<lparr>br_success = True, br_label = l, br_bytes_wiped = 4 * int (length v), br_message = None,
                        br_compacted = False\<rparr>, dset l (zero_row (length v)) w)),
     bk_verify_zeroed = (\<lambda>_ l w. case dget w l of None \<Rightarrow> Inr False | Some v \<Rightarrow> Inr (all_zero v)),
     bk_get_vector = Some (\<lambda>l w. case dget w l of None \<Rightarrow> Inl (KeyError ''label'') | Some v \<Rightarrow> Inr v),
     bk_compact = None, bk_num_vectors = None, bk_heal_mirror = False, bk_persistence = None, bk_files = (\<lambda>_ _. None)\<rparr>"

definition demo_config :: service_config where
  "demo_config = \<lparr>sv_signing_key = [1, 2, 3], sv_drop_mappings = True, sv_default_compact = ''auto'',
     sv_default_residual_proof = None, sv_receipt_log = True\<rparr>"

definition demo_senv :: service_env where
  "demo_senv = \<lparr>se_environ = Map.empty, se_uuid = ''u-1'', se_time_ns = 5, se_monotonic = 1, se_norm64 = count_norm,
     se_log_fails = False\<rparr>"

definition demo_service :: "(int, f32 list) dict service" where
  "demo_service = \<lparr>
     sv_registry = reg_run [RegisterOp ''users'' ''alice'' None, RegisterOp ''users'' ''bob'' None] empty_registry,
     sv_policy = \<lparr>cp_mode = PAlways, cp_every_n = 32, cp_max_age_s = 60, cp_pending = 0, cp_first_pending = None\<rparr>,
     sv_world = [(0, [1, 2]), (1, [3, 4])], sv_log = [], sv_counters = [], sv_gauges = []\<rparr>"

lemma demo_service_ok: "reg_ok (sv_registry demo_service)"
  using reg_run_ok [OF reg_ok_empty] by (simp add: demo_service_def)

lemma demo_verify: "\<exists>z. bk_verify_zeroed row_backend c l w = Inr z"
  by (cases "dget w l") (auto simp: row_backend_def)

lemma delete_run:
  assumes "plan_compact b cfg (se_environ env) c (clean_ids ids) carg s = (k, ms)" "normalize_compact k = Inr mode"
    and "erase_loop b cfg idem (proof_mode_of cfg (se_environ env) rp \<noteq> ''off'' \<and> bk_get_vector b \<noteq> None) c m (clean_ids ids)
           (s, empty_batch ms) = (None, s1, bt1)"
    and "compact_block b mode (se_monotonic env) (s1, bt1) = (cp, df, s2, bt2)"
    and "run_residual_proofs b (se_norm64 env) c (proof_mode_of cfg (se_environ env) rp) ckpt bt2 (sv_world s2) = Inr sm"
  shows "\<exists>r s'. delete b cfg env c ids reason rid m idem carg rp ckpt s = (Inr r, s')
    \<and> finish_delete b cfg env c (clean_ids ids) reason rid (proof_mode_of cfg (se_environ env) rp) cp df sm (s2, bt2) = (r, s')"
  using assms by (auto simp: delete_def Let_def split: prod.splits)

definition demo_loop :: "exn option \<times> (int, f32 list) dict service \<times> batch" where
  "demo_loop = erase_loop row_backend demo_config True True ''users'' 16 [''alice'', ''bob'']
     (demo_service, empty_batch (snd (plan_compact row_backend demo_config Map.empty ''users'' [''alice'', ''bob''] None demo_service)))"

definition demo_compact :: "bool \<times> bool \<times> (int, f32 list) dict service \<times> batch" where
  "demo_compact = compact_block row_backend ''never'' 1 (snd demo_loop)"

lemma demo_facts:
  "fst demo_loop = None" "bt_errors (snd (snd (snd demo_compact))) = []" "bt_labels (snd (snd (snd demo_compact))) = [0, 1]"
  "fst (plan_compact row_backend demo_config Map.empty ''users'' [''alice'', ''bob''] None demo_service) = CStr ''never''"
  "clean_ids ['' alice '', ''bob''] = [''alice'', ''bob'']"
  by code_simp+

abbreviation demo_delete :: "erasure_receipt res \<times> (int, f32 list) dict service" where
  "demo_delete \<equiv> delete row_backend demo_config demo_senv ''users'' ['' alice '', ''bob''] None None 16 True None (Some ''full'') None demo_service"

abbreviation demo_proved :: "string \<Rightarrow> bool" where
  "demo_proved pm \<equiv> (case run_residual_proofs row_backend count_norm ''users'' pm None (snd (snd (snd demo_compact)))
     (sv_world (fst (snd (snd demo_compact)))) of Inr sm \<Rightarrow> rs_passed sm = Some True | Inl _ \<Rightarrow> False)"

lemma demo_complete_any:
  assumes pm: "proof_mode_of demo_config Map.empty rp = pm" "pm \<noteq> ''off''" "demo_proved pm"
  shows "\<exists>r s'. delete row_backend demo_config demo_senv ''users'' ['' alice '', ''bob''] None rid 16 True None rp None demo_service = (Inr r, s')
    \<and> rc_status r = complete"
proof -
  obtain ms where ms: "plan_compact row_backend demo_config Map.empty ''users'' [''alice'', ''bob''] None demo_service = (CStr ''never'', ms)"
    using demo_facts(4) by (metis prod.collapse)
  obtain s1 bt1 where l: "demo_loop = (None, s1, bt1)" using demo_facts(1) by (metis prod.collapse)
  obtain cp df s2 bt2 where c: "demo_compact = (cp, df, s2, bt2)" by (metis prod.collapse)
  obtain sm where sm: "run_residual_proofs row_backend count_norm ''users'' pm None bt2 (sv_world s2) = Inr sm" "rs_passed sm = Some True"
    using pm(3) [unfolded c] by (auto split: sum.splits)
  have gv: "bk_get_vector row_backend \<noteq> None" by (simp add: row_backend_def)
  have env: "se_environ demo_senv = Map.empty" "se_monotonic demo_senv = 1" "se_norm64 demo_senv = count_norm"
    by (simp_all add: demo_senv_def)
  have "erase_loop row_backend demo_config True True ''users'' 16 [''alice'', ''bob''] (demo_service, empty_batch ms) = (None, s1, bt1)"
    using l ms by (simp add: demo_loop_def)
  moreover have "compact_block row_backend ''never'' 1 (s1, bt1) = (cp, df, s2, bt2)" using c unfolding demo_compact_def l by simp
  ultimately obtain r s' where d: "delete row_backend demo_config demo_senv ''users'' ['' alice '', ''bob''] None rid 16 True None rp None demo_service = (Inr r, s')"
    "finish_delete row_backend demo_config demo_senv ''users'' [''alice'', ''bob''] None rid pm cp df sm (s2, bt2) = (r, s')"
    using delete_run [of row_backend demo_config demo_senv "''users''" "['' alice '', ''bob'']" None demo_service "CStr ''never''" ms
        "''never''" True rp 16 s1 bt1 cp df s2 bt2 None sm None rid] ms sm(1) gv pm
    by (auto simp: demo_facts(5) env)
  have "bt_errors bt2 = []" "bt_labels bt2 = [0, 1]" using demo_facts(2,3) unfolding c by simp_all
  then have "rc_status r = complete"
    using finish_delete_simps(8,9) [OF d(2)] sm(2) by (simp add: derive_status_complete_iff)
  then show ?thesis using d(1) by blast
qed

lemma demo_modes: "demo_proved ''full''" "demo_proved ''sample''" "proof_mode_of demo_config Map.empty None = ''sample''"
  by code_simp+

lemma demo_complete: "\<exists>r s'. demo_delete = (Inr r, s') \<and> rc_status r = complete"
  by (rule demo_complete_any [OF _ _ demo_modes(1)]) (simp_all add: proof_mode_of_def)

lemma demo_complete_default:
  "\<exists>r s'. delete row_backend demo_config demo_senv ''users'' ['' alice '', ''bob''] None rid 16 True None None None demo_service = (Inr r, s')
    \<and> rc_status r = complete"
  by (rule demo_complete_any [OF demo_modes(3) _ demo_modes(2)]) simp

text \<open>
  when a receipt says complete: exactly when nothing was requested, or every requested id was erased,
  no error of any kind was recorded, and the residual proof passed or was off. A deferred compaction neither
  helps nor hurts: the last branch of \<open>_derive_status\<close> adds nothing.
\<close>

theorem complete_status_exact:
  "derive_status (int q) (int n) es pm passed dc = complete \<longleftrightarrow>
     q = 0 \<or> (0 < n \<and> n = q \<and> es = [] \<and> (pm = ''off'' \<or> passed = Some True))"
  by (auto simp: derive_status_complete_iff)

text \<open>
  C14: a complete receipt accounts for every id, for any backend: its labels are, one per requested id and in
  order, the labels those ids had before the call; no error is recorded; with \<open>drop_mappings\<close> none of the
  ids resolves any more; and the registry stays sound. In general no id gets lost: labels plus errors
  are at least as many as the requested ids.
\<close>

theorem complete_receipt_accounts_for_ids:
  assumes "reg_ok (sv_registry s)"
    and "delete b cfg env c ids reason rid m idem carg rp ckpt s = (Inr r, s')"
  shows "reg_ok (sv_registry s') \<and> length (clean_ids ids) \<le> length (rc_labels r) + length (rc_errors r)
    \<and> (rc_status r = complete \<longrightarrow>
         list_all2 (\<lambda>l x. id_view (sv_registry s) c x = Some l) (rc_labels r) (clean_ids ids)
         \<and> (sv_drop_mappings cfg \<longrightarrow> (\<forall>x\<in>set (clean_ids ids). id_view (sv_registry s') c x = None)))"
  using delete_registry [OF assms] by blast

lemma complete_receipt_accounts_for_ids_witness:
  "\<exists>r s'. demo_delete = (Inr r, s') \<and> length (rc_labels r) = 2 \<and> id_view (sv_registry s') ''users'' ''bob'' = None"
proof -
  obtain r s' where d: "demo_delete = (Inr r, s')" "rc_status r = complete" using demo_complete by blast
  have dm: "sv_drop_mappings demo_config" by (simp add: demo_config_def)
  from complete_receipt_accounts_for_ids [OF demo_service_ok d(1)] d(2) dm
  have "list_all2 (\<lambda>l x. id_view (sv_registry demo_service) ''users'' x = Some l) (rc_labels r) [''alice'', ''bob'']"
    "id_view (sv_registry s') ''users'' ''bob'' = None"
    by (simp_all add: demo_facts(5))
  then show ?thesis using d(1) list_all2_lengthD by fastforce
qed



text \<open>
  A completed delete cannot be repeated successfully: with \<open>drop_mappings\<close> (the default), calling \<open>delete\<close>
  again with the same ids, in whatever environment and with whatever options, returns a receipt with status partial and
  \<open>success\<close> false and changes neither the backend nor the registry, because the dropped ids count as skip errors.
\<close>

theorem repeated_delete_is_never_complete:
  assumes "reg_ok (sv_registry s)" and "sv_drop_mappings cfg" and "clean_ids ids \<noteq> []"
    and "delete b cfg env c ids reason rid m idem carg rp ckpt s = (Inr r, s1)" and "rc_status r = complete"
    and "sv_registry s2 = sv_registry s1"
    and "delete b cfg' env' c ids reason' rid' m' True carg' rp' ckpt' s2 = (Inr r', s3)"
  shows "rc_status r' = partial \<and> \<not> rc_success r' \<and> rc_labels r' = [] \<and> sv_world s3 = sv_world s2"
proof -
  have d: "list_all2 (\<lambda>l x. id_view (sv_registry s) c x = Some l) (rc_labels r) (clean_ids ids)"
    "\<forall>x\<in>set (clean_ids ids). id_view (sv_registry s1) c x = None"
    using delete_registry [OF assms(1,4)] assms(2,5) by auto
  obtain x xs where "clean_ids ids = x # xs" using assms(3) by (cases "clean_ids ids") auto
  then obtain l where "id_view (sv_registry s) c x = Some l" using d(1) by (auto simp: list_all2_Cons2)
  then have "py_strip c \<noteq> []" by (auto simp: id_view_def split: if_splits)
  from delete_unknown [OF this assms(3) _ assms(7)] d(2) assms(6) show ?thesis by simp
qed

lemma repeated_delete_is_never_complete_witness:
  "\<exists>r s1 r' s3. demo_delete = (Inr r, s1) \<and> rc_status r = complete
     \<and> delete row_backend demo_config demo_senv ''users'' ['' alice '', ''bob''] None None 16 True None None None s1 = (Inr r', s3)
     \<and> rc_status r' = partial"
proof -
  obtain r s1 where d: "demo_delete = (Inr r, s1)" "rc_status r = complete" using demo_complete by blast
  have "py_strip ''users'' \<noteq> []" by code_simp
  then obtain r' s3 where e: "delete row_backend demo_config demo_senv ''users'' ['' alice '', ''bob''] None None 16 True None None None s1 = (Inr r', s3)"
    using delete_returns [of "''users''" None row_backend demo_config demo_senv "['' alice '', ''bob'']" None None 16 None None s1]
      demo_verify by (auto simp: compact_arg_ok_def)
  have "clean_ids ['' alice '', ''bob''] \<noteq> []" "sv_drop_mappings demo_config" by (simp_all add: demo_facts(5) demo_config_def)
  from repeated_delete_is_never_complete [OF demo_service_ok this(2,1) d refl e] d e show ?thesis by blast
qed


text \<open>
  the receipt fails closed on the residual proof: a complete receipt of a non-empty request with proof mode
  other than \<open>off\<close> carries a passed proof, and in mode \<open>full\<close> every erased label reads back as zero
  in the final state. In mode \<open>sample\<close> this is checked for the first, the middle and the last label.
\<close>

theorem complete_receipt_proved:
  assumes "reg_ok (sv_registry s)"
    and del: "delete b cfg env c ids reason rid m idem carg rp ckpt s = (Inr r, s')"
    and "rc_status r = complete" and "clean_ids ids \<noteq> []"
    and pm: "proof_mode_of cfg (se_environ env) rp \<noteq> ''off''"
  shows "rs_passed (rc_residual_proof r) = Some True
    \<and> (\<forall>(l, x) \<in> set (proof_items (proof_mode_of cfg (se_environ env) rp) (rc_labels r) (clean_ids ids)).
         \<exists>v. live_vector b c l (sv_world s') = Inr v \<and> all_zero v)"
  using del
proof (cases rule: delete_steps)
  case (1 ms mode s1 bt1 cp df s2 bt2 sm need)
  let ?pm = "proof_mode_of cfg (se_environ env) rp"
  note fd = finish_delete_simps [OF 1(4)] and cb = compact_block_keeps [OF 1(2)]
  have st: "0 < length (bt_labels bt2)" "rc_errors r = []" "rs_passed sm = Some True"
    using fd(9) [symmetric] assms(4) pm unfolding assms(3) derive_status_complete_iff by auto
  from loop_facts [OF loop_inv_start [OF assms(1)] 1(1)] cb(8) fd(8) st(2,3)
  have er: "bt_erased bt2 = clean_ids ids" using cb(4) by (auto simp: empty_batch_def)
  obtain ps where ps: "map_res (\<lambda>(lab, ext). bind_res (live_vector b c lab (sv_world s2)) (\<lambda>live.
        Inr (prove_vector_erased (se_norm64 env) (bk_files b (sv_world s2)) ext live (dget (bt_originals bt2) lab) ckpt 0)))
      (proof_items ?pm (bt_labels bt2) (bt_erased bt2)) = Inr ps"
    "rs_passed sm = Some (filter (\<lambda>p. \<not> proof_passed p) ps = [])"
    using 1(3) pm st(1) by (auto simp: run_residual_proofs_def Let_def)
  have all: "\<forall>p\<in>set ps. proof_passed p" using ps(2) st(3) by (simp add: filter_empty_conv)
  have "\<exists>v. live_vector b c l (sv_world s2) = Inr v \<and> all_zero v"
    if it: "(l, x) \<in> set (proof_items ?pm (bt_labels bt2) (bt_erased bt2))" for l x
  proof -
    obtain p where p: "p \<in> set ps" "bind_res (live_vector b c l (sv_world s2)) (\<lambda>live.
        Inr (prove_vector_erased (se_norm64 env) (bk_files b (sv_world s2)) x live (dget (bt_originals bt2) l) ckpt 0)) = Inr p"
      using map_res_elem [OF ps(1) it] by (auto simp del: bind_res_Inr)
    then obtain v where "live_vector b c l (sv_world s2) = Inr v"
      "p = prove_vector_erased (se_norm64 env) (bk_files b (sv_world s2)) x v (dget (bt_originals bt2) l) ckpt 0" by auto
    then show ?thesis using all p(1) by (auto simp: proof_parts vector_all_zeros_def)
  qed
  then show ?thesis using fd(1,4,5) er st(3) by auto
qed

lemma complete_receipt_proved_witness:
  "\<exists>r s'. demo_delete = (Inr r, s') \<and> rs_passed (rc_residual_proof r) = Some True"
proof -
  obtain r s' where d: "demo_delete = (Inr r, s')" "rc_status r = complete" using demo_complete by blast
  have "clean_ids ['' alice '', ''bob''] \<noteq> []" "proof_mode_of demo_config (se_environ demo_senv) (Some ''full'') \<noteq> ''off''"
    by (simp_all add: demo_facts(5) proof_mode_of_def)
  from complete_receipt_proved [OF demo_service_ok d this] d(1) show ?thesis by blast
qed

text \<open>
  what the signature does not protect: two receipts that agree on version, request id, collection, the
  comma-joined ids, timestamp, byte count, success, status and the compacted flag have the same signature
  under every key, whatever their labels, transaction ids, errors, reason, messages and residual proof are; in
  particular the ids \<open>a,b\<close> (one id) and \<open>a\<close>, \<open>b\<close> (two ids) are not told apart.
\<close>

theorem signature_coverage:
  "sign_receipt key (r\<lparr>rc_labels := ls, rc_errors := es, rc_transaction_ids := ts, rc_reason := why,
       rc_backend_messages := ms, rc_residual_proof := sm\<rparr>) = sign_receipt key r
   \<and> sign_receipt key (r\<lparr>rc_external_ids := [''a,b'']\<rparr>) = sign_receipt key (r\<lparr>rc_external_ids := [''a'', ''b'']\<rparr>)"
  by (simp add: sign_receipt_def sign_payload_def)

text \<open>
  the service's \<open>default_compact\<close> has no effect: \<open>delete\<close> with any two default compaction modes
  behaves the same, because the strategy's mode replaces the default whenever the caller passes none.
\<close>

theorem default_compact_has_no_effect:
  "delete b (cfg\<lparr>sv_default_compact := d1\<rparr>) env c ids reason rid m idem carg rp ckpt s
     = delete b (cfg\<lparr>sv_default_compact := d2\<rparr>) env c ids reason rid m idem carg rp ckpt s"
proof -
  have pl: "plan_compact b (cfg\<lparr>sv_default_compact := d1\<rparr>) e c xs carg s = plan_compact b (cfg\<lparr>sv_default_compact := d2\<rparr>) e c xs carg s" for e xs
    by (simp add: plan_compact_def split: option.splits)
  have rec: "record_erased (cfg\<lparr>sv_default_compact := d1\<rparr>) = record_erased (cfg\<lparr>sv_default_compact := d2\<rparr>)"
    by (intro ext) (simp add: record_erased_def)
  have res: "erase_resolved b (cfg\<lparr>sv_default_compact := d1\<rparr>) = erase_resolved b (cfg\<lparr>sv_default_compact := d2\<rparr>)"
    by (intro ext) (simp only: erase_resolved_def rec)
  have lp: "erase_loop b (cfg\<lparr>sv_default_compact := d1\<rparr>) idem need c m xs sb = erase_loop b (cfg\<lparr>sv_default_compact := d2\<rparr>) idem need c m xs sb"
    for need xs sb
  proof (induction xs arbitrary: sb)
    case Nil
    then show ?case by simp
  next
    case (Cons x xs)
    show ?case unfolding erase_loop.simps res Cons.IH ..
  qed
  have fin: "finish_delete b (cfg\<lparr>sv_default_compact := d1\<rparr>) = finish_delete b (cfg\<lparr>sv_default_compact := d2\<rparr>)"
    by (intro ext) (simp add: finish_delete_def)
  have pm: "proof_mode_of (cfg\<lparr>sv_default_compact := d1\<rparr>) = proof_mode_of (cfg\<lparr>sv_default_compact := d2\<rparr>)"
    by (intro ext) (simp add: proof_mode_of_def split: option.splits)
  show ?thesis unfolding delete_def pl lp fin pm ..
qed

end
