(* ===== verification/NativeBackend.thy ===== *)
theory NativeBackend
  imports EraseService
begin

text \<open>
  \<open>integrations/native_backend.py\<close>: the backend over the process-local native index, with the persistence
  engine of the API attached the way \<open>api/main.py\<close> builds its service. The world of the service is the
  engine state. The theory interprets the backend interface on it and states what a receipt means for the
  rows in memory and for \<open>index.bin\<close>.
\<close>

section \<open>The backend\<close>

definition nb_hard_delete_label ::
  "'d penv \<Rightarrow> string \<Rightarrow> int \<Rightarrow> int \<Rightarrow> engine \<Rightarrow> backend_erase_result res \<times> engine" where
  "nb_hard_delete_label v collection label max_m w =
    (case native_erase (pv_fp v) (pv_ms v (pe_tick w)) (pv_busy v (pe_tick w) 0) label max_m (pe_mem w) of
       (Inl e, ix) \<Rightarrow> (Inl e, w\<lparr>pe_mem := ix, pe_tick := Suc (pe_tick w)\<rparr>)
     | (Inr r, ix) \<Rightarrow>
         (Inr \<lparr>br_success = er_success r, br_label = label, br_bytes_wiped = er_bytes_wiped r,
               br_message = Some (er_message r), br_compacted = False\<rparr>, w\<lparr>pe_mem := ix, pe_tick := Suc (pe_tick w)\<rparr>))"

definition nb_get_vector :: "int \<Rightarrow> engine \<Rightarrow> f32 list res" where
  "nb_get_vector label w =
    (if label < - (2 ^ 63) \<or> 2 ^ 63 \<le> label then Inl (TypeError ''incompatible function arguments'')
     else hx_get_vector (pe_mem w) label)"

definition nb_verify_zeroed :: "string \<Rightarrow> int \<Rightarrow> engine \<Rightarrow> bool res" where
  "nb_verify_zeroed collection label w = bind_res (nb_get_vector label w) (\<lambda>vec. Inr (list_all f32_is_zero vec))"

text \<open>The files of the data directory \<open>dir\<close>; \<open>persist\<close> says whether the engine is attached.\<close>

definition native_backend :: "'d penv \<Rightarrow> string \<Rightarrow> bool \<Rightarrow> engine backend" where
  "native_backend v dir persist = \<lparr>
     bk_hard_delete = nb_hard_delete_label v,
     bk_verify_zeroed = nb_verify_zeroed,
     bk_get_vector = Some nb_get_vector,
     bk_compact = None, bk_num_vectors = None, bk_heal_mirror = False,
     bk_persistence = (if persist then Some (\<lambda>l m. hard_delete_and_heal v l m False) else None),
     bk_files = (\<lambda>w p. if p = dir @ ''/index.bin'' then pe_bin w
                       else if p = dir @ ''/index.bin.tmp'' then pe_tmp w
                       else if p = dir @ ''/index.wal'' then wal_file (pe_wal w) else None)\<rparr>"

section \<open>No call un-erases a row\<close>

definition keeps_zeros :: "hnsw_index \<Rightarrow> hnsw_index \<Rightarrow> bool" where
  "keeps_zeros ix ix' \<longleftrightarrow> length (hx_rows ix') = length (hx_rows ix)
     \<and> (\<forall>k < length (hx_rows ix). all_zero (hx_rows ix ! k) \<longrightarrow> all_zero (hx_rows ix' ! k))"

lemma keeps_zeros_refl [simp]: "keeps_zeros ix ix"
  by (simp add: keeps_zeros_def)

lemma keeps_zeros_trans: "keeps_zeros a b \<Longrightarrow> keeps_zeros b c \<Longrightarrow> keeps_zeros a c"
  by (simp add: keeps_zeros_def)

lemma keeps_zeros_rows: "hx_rows ix' = hx_rows ix \<Longrightarrow> keeps_zeros ix ix'"
  by (simp add: keeps_zeros_def)

lemma overwrite_keeps: "overwrite_vector ix node = Inr ix' \<Longrightarrow> keeps_zeros ix ix'"
  by (auto simp: overwrite_vector_def keeps_zeros_def) (metis all_zero_zero_row nth_list_update_eq nth_list_update_neq)

lemma heal_keeps: "heal_graph_structure f ix node m = Inr (r, a, ix') \<Longrightarrow> keeps_zeros ix ix'"
  by (rule keeps_zeros_rows) (auto simp: heal_graph_structure_def Let_def split: if_splits)

lemma erase_node_keeps: "erase_node f ms node m ix = (r, ix') \<Longrightarrow> keeps_zeros ix ix'"
  by (auto simp: erase_node_def intro: keeps_zeros_trans dest: overwrite_keeps heal_keeps split: if_splits sum.splits)

lemma native_erase_keeps: "native_erase f ms busy node m ix = (r, ix') \<Longrightarrow> keeps_zeros ix ix'"
  by (auto simp: native_erase_def dest: erase_node_keeps overwrite_keeps
      split: option.splits if_splits sum.splits contention.splits)

lemma retry_keeps:
  "retry_from (\<lambda>i. native_erase f ms (busy i) node m) i k ix = (r, ix', n) \<Longrightarrow> keeps_zeros ix ix'"
proof (induction k arbitrary: i ix)
  case 0
  then show ?case by simp
next
  case (Suc k)
  obtain r1 ix1 where one: "native_erase f ms (busy i) node m ix = (r1, ix1)" by fastforce
  then have "keeps_zeros ix ix1" by (rule native_erase_keeps)
  then show ?case
    using Suc one by (auto intro: keeps_zeros_trans split: sum.splits exn.splits if_splits)
qed

lemma step_mems:
  "begin_step v node m e = (r1, e') \<Longrightarrow> pe_mem e' = pe_mem e"
  "commit_step v tx e = (r2, e') \<Longrightarrow> pe_mem e' = pe_mem e"
  "atomic_flush_index v e = (r3, e') \<Longrightarrow> pe_mem e' = pe_mem e"
  by (auto simp: begin_step_def commit_step_def atomic_flush_index_def Let_def
      split: prod.splits sum.splits option.splits io_fault.splits)

lemma erase_step_keeps: "erase_step v node m e = (r, e') \<Longrightarrow> keeps_zeros (pe_mem e) (pe_mem e')"
  by (auto simp: erase_step_def with_lock_retry_def dest: retry_keeps split: prod.splits)

lemma hard_delete_keeps: "hard_delete_and_heal v node m rc e = (r, e') \<Longrightarrow> keeps_zeros (pe_mem e) (pe_mem e')"
  unfolding hard_delete_and_heal_def
  by (auto dest!: step_mems erase_step_keeps split: prod.splits sum.splits if_splits)

definition native_zero :: "engine \<Rightarrow> int \<Rightarrow> bool" where
  "native_zero w l \<longleftrightarrow> 0 \<le> l \<and> l < int (num_elements (pe_mem w)) \<and> all_zero (hx_rows (pe_mem w) ! nat l)"

lemma native_zero_keeps: "keeps_zeros (pe_mem w) (pe_mem w') \<Longrightarrow> native_zero w k \<Longrightarrow> native_zero w' k"
  by (auto simp: native_zero_def keeps_zeros_def num_elements_def)

lemma verify_zeroed_sound: "nb_verify_zeroed c l w = Inr True \<Longrightarrow> native_zero w l"
  by (auto simp: nb_verify_zeroed_def nb_get_vector_def hx_get_vector_def ensure_node_def native_zero_def all_zero_def
      split: if_splits)

lemma verify_zeroed_complete:
  assumes "is_loaded (pe_mem w)" "native_zero w l" "l < 2 ^ 63"
  shows "nb_verify_zeroed c l w = Inr True"
  using assms
  by (simp add: nb_verify_zeroed_def nb_get_vector_def hx_get_vector_def ensure_node_def native_zero_def all_zero_def)

interpretation nb: hard_delete_backend "native_backend v dir persist" native_zero
  for v :: "'d penv" and dir persist
proof unfold_locales
  fix c l m w k w' and r :: "(backend_erase_result \<times> int option) res"
  assume e: "backend_erase (native_backend v dir persist) c l m w = (r, w')" and z: "native_zero w k"
  have "keeps_zeros (pe_mem w) (pe_mem w')"
    using e by (auto simp: backend_erase_def native_backend_def nb_hard_delete_label_def
        dest: hard_delete_keeps native_erase_keeps split: if_splits prod.splits sum.splits)
  then show "native_zero w' k" using z by (rule native_zero_keeps)
next
  fix c l w assume "bk_verify_zeroed (native_backend v dir persist) c l w = Inr True"
  then show "native_zero w l" using verify_zeroed_sound by (simp add: native_backend_def)
next
  fix f w k w' and r' :: "int res"
  assume "bk_compact (native_backend v dir persist) = Some f"
  then show "native_zero w' k" by (simp add: native_backend_def)
qed


section \<open>Durable deletes\<close>

definition snapshot_published :: "engine \<Rightarrow> bool" where
  "snapshot_published w \<longleftrightarrow> (\<exists>b. pe_bin w = Some b \<and> save_to_file (pe_mem w) = Inr b)"

lemma hard_delete_publishes:
  assumes "hard_delete_and_heal v node m rc e = (Inr r, e')"
  shows "snapshot_published e'"
proof -
  obtain tx e2 e3 c where s: "atomic_flush_index v e2 = (Inr (), e3)" "commit_step v tx e3 = (Inr c, e')"
    using assms by (auto simp: hard_delete_and_heal_def split: prod.splits sum.splits if_splits)
  have "\<exists>g. pe_bin e3 = Some g \<and> save_to_file (pe_mem e3) = Inr g"
    using s(1) by (auto simp: atomic_flush_index_def Let_def split: sum.splits option.splits io_fault.splits)
  moreover have "pe_bin e' = pe_bin e3" "pe_mem e' = pe_mem e3"
    using s(2) by (auto simp: commit_step_def split: prod.splits)
  ultimately show ?thesis by (simp add: snapshot_published_def)
qed

lemma native_simps [simp]:
  "bk_compact (native_backend v dir p) = None" "bk_verify_zeroed (native_backend v dir p) = nb_verify_zeroed"
  "bk_get_vector (native_backend v dir p) = Some nb_get_vector"
  "bk_persistence (native_backend v dir True) = Some (\<lambda>l m. hard_delete_and_heal v l m False)"
  by (simp_all add: native_backend_def)

lemma loop_publishes:
  assumes "loop_inv r0 cfg c sb" "erase_loop (native_backend v dir True) cfg idem need c m xs sb = (None, sb')"
    and "bt_errors (snd sb') = bt_errors (snd sb)" "xs \<noteq> []"
  shows "snapshot_published (sv_world (fst sb'))"
  using assms
proof (induction xs arbitrary: sb)
  case Nil
  then show ?case by simp
next
  case (Cons y xs)
  let ?b = "native_backend v dir True"
  obtain s bt where sb: "sb = (s, bt)" by fastforce
  have more: "\<exists>es. bt_errors (snd sb') = bt_errors (snd sb1) @ es"
    if "loop_inv r0 cfg c sb1" "erase_loop ?b cfg idem need c m xs sb1 = (None, sb')" for sb1
    using loop_facts [OF that] by blast
  show ?case
  proof (cases "resolve c y (sv_registry s)")
    case (Inr i)
    then have v: "id_view (sv_registry s) c y = Some (ri_label i)" by (auto simp: resolve_view)
    obtain s1 bt1 where st: "erase_resolved ?b cfg need c m y (ri_label i) (s, bt) = (s1, bt1)" by fastforce
    have li: "loop_inv r0 cfg c (s1, bt1)" using loop_inv_erase [OF _ v, of r0 cfg bt ?b need m] Cons.prems(1) sb st by simp
    have rest: "erase_loop ?b cfg idem need c m xs (s1, bt1) = (None, sb')" using Cons.prems(2) sb Inr st by simp
    obtain es where es: "bt_errors (snd sb') = bt_errors bt1 @ es" using more [OF li rest] by auto
    have ok: "reg_ok (sv_registry s)" using Cons.prems(1) sb by (simp add: loop_inv_def)
    from ok v st have "bt_errors bt1 = bt_errors bt \<and> snapshot_published (sv_world s1)"
    proof (cases rule: erase_resolved_cases)
      case (erased w)
      then show ?thesis using hard_delete_publishes by (auto simp: backend_erase_def split: prod.splits sum.splits)
    next
      case (refused e r)
      then show ?thesis using es Cons.prems(3) sb by simp
    qed
    then show ?thesis
    proof (cases "xs = []")
      case True
      then show ?thesis using rest \<open>bt_errors bt1 = bt_errors bt \<and> snapshot_published (sv_world s1)\<close> by auto
    next
      case False
      then show ?thesis using Cons.IH [OF li rest] Cons.prems(3) sb
          \<open>bt_errors bt1 = bt_errors bt \<and> snapshot_published (sv_world s1)\<close> by simp
    qed
  next
    case (Inl e)
    have li: "loop_inv r0 cfg c (s, bt\<lparr>bt_errors := es\<rparr>)" for es using Cons.prems(1) sb by (simp add: loop_inv_def)
    obtain t where t: "e = IdMappingError t" "idem" using Cons.prems(2) sb Inl by (auto split: exn.splits if_splits)
    let ?e = "''skip '' @ y @ '': '' @ exn_str (IdMappingError t)"
    have "erase_loop ?b cfg idem need c m xs (s, bt\<lparr>bt_errors := bt_errors bt @ [?e]\<rparr>) = (None, sb')"
      using Cons.prems(2) sb Inl t by simp
    from more [OF li this] Cons.prems(3) sb show ?thesis by simp
  qed
qed

lemma native_compact_block: "compact_block (native_backend v dir p) mode now (s, bt) = (cp, df, s', bt') \<Longrightarrow> sv_world s' = sv_world s"
  using compact_block_keeps(9) by fastforce

section \<open>A clean batch is complete\<close>

text \<open>What the loop needs of the next ids: distinct, mapped, and their rows in the index.\<close>

definition batch_ready :: "string \<Rightarrow> string list \<Rightarrow> int \<Rightarrow> engine service \<Rightarrow> bool" where
  "batch_ready c xs m s \<longleftrightarrow> distinct (map py_strip xs) \<and> reg_ok (sv_registry s) \<and> engine_ok (sv_world s)
     \<and> int (length xs) \<le> ids_left (sv_world s)
     \<and> (\<forall>x\<in>set xs. \<exists>l. id_view (sv_registry s) c x = Some l \<and> in_reach (pe_mem (sv_world s)) l m)"

text \<open>What a batch does to the service: exactly the rows of its ids are zero and published, the log has nothing new pending,
  and exactly its mappings are gone.\<close>

definition batch_effect :: "service_config \<Rightarrow> string \<Rightarrow> string list \<Rightarrow> engine service \<Rightarrow> engine service \<Rightarrow> bool" where
  "batch_effect cfg c xs s s' \<longleftrightarrow> engine_ok (sv_world s') \<and> pending (sv_world s') = pending (sv_world s)
     \<and> ids_left (sv_world s') = ids_left (sv_world s) - int (length xs)
     \<and> wiped_all ((\<lambda>x. nat (the (id_view (sv_registry s) c x))) ` set xs) (pe_mem (sv_world s)) (pe_mem (sv_world s'))
     \<and> (xs \<noteq> [] \<or> published (sv_world s) \<longrightarrow> published (sv_world s'))
     \<and> (\<forall>d y. id_view (sv_registry s') d y
          = (if sv_drop_mappings cfg \<and> (\<exists>x\<in>set xs. same_id c x d y) then None else id_view (sv_registry s) d y))"

text \<open>The deletes of the engine that a batch consists of.\<close>

fun delete_chain :: "'d penv \<Rightarrow> int \<Rightarrow> int list \<Rightarrow> engine \<Rightarrow> engine \<Rightarrow> bool" where
  "delete_chain v m [] e e' \<longleftrightarrow> e' = e"
| "delete_chain v m (l # ls) e e' \<longleftrightarrow>
    (case hard_delete_and_heal v l m False e of (Inl _, _) \<Rightarrow> False | (Inr _, e1) \<Rightarrow> delete_chain v m ls e1 e')"

lemma batch_effect_Nil: "engine_ok (sv_world s) \<Longrightarrow> batch_effect cfg c [] s s"
  by (simp add: batch_effect_def)

lemma batch_effect_Cons:
  assumes "batch_effect cfg c [x] s s1" "batch_effect cfg c xs s1 s2"
    and "\<forall>y\<in>set xs. id_view (sv_registry s1) c y = id_view (sv_registry s) c y"
  shows "batch_effect cfg c (x # xs) s s2"
proof -
  let ?f = "\<lambda>s x. nat (the (id_view (sv_registry s) c x))"
  have f: "?f s1 ` set xs = ?f s ` set xs" using assms(3) by (intro image_cong) simp_all
  have "wiped_all (?f s ` set (x # xs)) (pe_mem (sv_world s)) (pe_mem (sv_world s2))"
  proof -
    have "wiped_all {?f s x} (pe_mem (sv_world s)) (pe_mem (sv_world s1))"
      "wiped_all (?f s ` set xs) (pe_mem (sv_world s1)) (pe_mem (sv_world s2))"
      using assms(1,2) f by (simp_all add: batch_effect_def)
    then show ?thesis by (auto simp: wiped_all_def)
  qed
  moreover have "(x # xs \<noteq> [] \<or> published (sv_world s)) \<longrightarrow> published (sv_world s2)"
    using assms(1,2) by (auto simp: batch_effect_def)
  moreover have "\<forall>d y. id_view (sv_registry s2) d y
      = (if sv_drop_mappings cfg \<and> (\<exists>z\<in>set (x # xs). same_id c z d y) then None else id_view (sv_registry s) d y)"
    using assms(1,2) by (auto simp: batch_effect_def)
  ultimately show ?thesis using assms(1,2) by (auto simp: batch_effect_def)
qed

lemma erase_one_ok:
  assumes v: "benign v" and rd: "batch_ready c (x # xs) m s"
  shows "\<exists>l s1 bt1. id_view (sv_registry s) c x = Some l
    \<and> erase_resolved (native_backend v dir True) cfg need c m x l (s, bt) = (s1, bt1)
    \<and> bt_errors bt1 = bt_errors bt \<and> batch_ready c xs m s1 \<and> batch_effect cfg c [x] s s1
    \<and> (\<forall>y\<in>set xs. id_view (sv_registry s1) c y = id_view (sv_registry s) c y) \<and> delete_chain v m [l] (sv_world s) (sv_world s1)"
proof -
  let ?b = "native_backend v dir True"
  obtain l where l: "id_view (sv_registry s) c x = Some l" "in_reach (pe_mem (sv_world s)) l m"
    using rd by (auto simp: batch_ready_def)
  have ok: "reg_ok (sv_registry s)" and eok: "engine_ok (sv_world s)" using rd by (auto simp: batch_ready_def)
  have room: "0 < ids_left (sv_world s)" using rd by (simp add: batch_ready_def)
  obtain r w where hd: "hard_delete_and_heal v l m False (sv_world s) = (Inr r, w)" "engine_ok w" "hd_success r"
    "wiped (nat l) (pe_mem (sv_world s)) (pe_mem w)" "ids_left w = ids_left (sv_world s) - 1"
    "published w" "pending w = pending (sv_world s)"
    using hard_delete_ok [OF v eok l(2) room, of False] by blast
  have rdy: "ready (pe_mem (sv_world s))" using eok by (simp add: engine_ok_def)
  note reach = in_reachD [OF rdy l(2)]
  have num: "num_elements (pe_mem w) = num_elements (pe_mem (sv_world s))" using wiped_ready [OF hd(4)] .
  have "native_zero w l"
    using hd(4) reach(7) l(2) num by (simp add: native_zero_def wiped_def in_reach_def num_elements_def)
  moreover have "is_loaded (pe_mem w)" using hd(2) by (simp add: engine_ok_def ready_def)
  ultimately have vz: "nb_verify_zeroed c l w = Inr True" using verify_zeroed_complete reach(2) by blast
  obtain s1 bt1 where st: "erase_resolved ?b cfg need c m x l (s, bt) = (s1, bt1)" by fastforce
  have be: "backend_erase ?b c l m (sv_world s) = (Inr (\<lparr>br_success = hd_success r, br_label = l,
      br_bytes_wiped = hd_bytes_wiped r, br_message = hd_message r, br_compacted = False\<rparr>, Some (hd_transaction_id r)), w)"
    using hd(1) by (simp add: backend_erase_def)
  from ok l(1) st have "bt_errors bt1 = bt_errors bt \<and> batch_ready c xs m s1 \<and> batch_effect cfg c [x] s s1
    \<and> (\<forall>y\<in>set xs. id_view (sv_registry s1) c y = id_view (sv_registry s) c y) \<and> delete_chain v m [l] (sv_world s) (sv_world s1)"
  proof (cases rule: erase_resolved_cases)
    case (erased w')
    have w: "sv_world s1 = w" using erased(4,5) be by auto
    have same: "id_view (sv_registry s1) c y = id_view (sv_registry s) c y" if y: "y \<in> set xs" for y
    proof -
      have "py_strip x \<notin> py_strip ` set xs" using rd by (simp add: batch_ready_def)
      then have "py_strip y \<noteq> py_strip x" using y by (metis imageI)
      then show ?thesis using erased(8) by (auto simp: same_id_def)
    qed
    have "\<exists>k. id_view (sv_registry s1) c y = Some k \<and> in_reach (pe_mem w) k m" if y: "y \<in> set xs" for y
      using same [OF y] rd y num by (simp add: batch_ready_def in_reach_def)
    then have "batch_ready c xs m s1" using erased(7) w rd hd(2,5) by (simp add: batch_ready_def)
    moreover have "batch_effect cfg c [x] s s1"
      using erased(8) w hd wiped_all_insert [OF hd(4) wiped_all_refl] l(1) by (simp add: batch_effect_def)
    moreover have "delete_chain v m [l] (sv_world s) (sv_world s1)" using hd(1) w by simp
    ultimately show ?thesis using erased(3) same by simp
  next
    case (refused e r')
    have "bt_errors bt1 = bt_errors bt"
    proof -
      obtain r' where "drop_id c x (sv_registry s) = (Inr l, r')" using reg.drop_some [OF ok l(1)] by blast
      then show ?thesis
        using st be hd(3) vz
        by (auto simp: erase_resolved_def record_erased_def Let_def split: if_splits option.splits)
    qed
    then show ?thesis using refused(3) by simp
  qed
  then show ?thesis using l(1) st by blast
qed

lemma loop_ok:
  assumes "benign v" "batch_ready c xs m s"
  shows "\<exists>s' bt'. erase_loop (native_backend v dir True) cfg idem need c m xs (s, bt) = (None, s', bt')
    \<and> bt_errors bt' = bt_errors bt \<and> batch_effect cfg c xs s s'
    \<and> delete_chain v m (map (\<lambda>x. the (id_view (sv_registry s) c x)) xs) (sv_world s) (sv_world s')"
  using assms(2)
proof (induction xs arbitrary: s bt)
  case Nil
  then show ?case using batch_effect_Nil by (simp add: batch_ready_def)
next
  case (Cons x xs)
  obtain l s1 bt1 where st: "id_view (sv_registry s) c x = Some l"
    "erase_resolved (native_backend v dir True) cfg need c m x l (s, bt) = (s1, bt1)" "bt_errors bt1 = bt_errors bt"
    "batch_ready c xs m s1" "batch_effect cfg c [x] s s1"
    "\<forall>y\<in>set xs. id_view (sv_registry s1) c y = id_view (sv_registry s) c y" "delete_chain v m [l] (sv_world s) (sv_world s1)"
    using erase_one_ok [OF assms(1) Cons.prems, of dir cfg need bt] by blast
  obtain i where "resolve c x (sv_registry s) = Inr i" "ri_label i = l"
    using st(1) by (auto simp: resolve_view)
  moreover obtain s' bt' where "erase_loop (native_backend v dir True) cfg idem need c m xs (s1, bt1) = (None, s', bt')"
    "bt_errors bt' = bt_errors bt1" "batch_effect cfg c xs s1 s'"
    and ch: "delete_chain v m (map (\<lambda>x. the (id_view (sv_registry s1) c x)) xs) (sv_world s1) (sv_world s')"
    using Cons.IH [OF st(4), of bt1] by blast
  moreover have "map (\<lambda>x. the (id_view (sv_registry s1) c x)) xs = map (\<lambda>x. the (id_view (sv_registry s) c x)) xs" using st(6) by simp
  with ch st(1,7) have "delete_chain v m (map (\<lambda>x. the (id_view (sv_registry s) c x)) (x # xs)) (sv_world s) (sv_world s')"
    by (auto split: prod.splits sum.splits)
  ultimately show ?case using st(2,3) batch_effect_Cons [OF st(5) _ st(6)] by simp
qed

lemma native_supports: "\<not> backend_supports_compact (native_backend v dir p)"
  by (simp add: backend_supports_compact_def)

lemma no_compact_mode: "compact_mode_for_recommendation (recommend_default env n sz False sh) True = ''never''"
  by (simp add: recommend_default_def recommend_delete_strategy_def compact_mode_for_recommendation_def Let_def)

lemma native_plan:
  "\<exists>t ms. plan_compact (native_backend v dir p) cfg env c xs None s = (CStr t, ms) \<and> normalize_compact (CStr t) = Inr t
     \<and> (t = ''never'' \<or> t = ''auto'')"
proof -
  let ?b = "native_backend v dir p"
  obtain rec k where ap: "apply_strategy_to_delete_kwargs env (int (length xs)) (index_size ?b c (length xs) (sv_registry s) (sv_world s))
      False (backend_supports_heal ?b) None = (rec, k)" by fastforce
  then have k: "k = CStr ''never'' \<or> k = CStr ''auto''"
    unfolding apply_strategy_to_delete_kwargs_def Let_def option.case no_compact_mode
    by (metis (no_types) prod.inject)
  have "plan_compact ?b cfg env c xs None s = (k, [MStrategy (sr_action rec) (sr_reason rec)])"
    using ap native_supports [of v dir p] by (simp add: plan_compact_def)
  moreover obtain t where t: "k = CStr t" "t = ''never'' \<or> t = ''auto''" using k by blast
  moreover have "normalize_compact (CStr t) = Inr t" using t(2) by auto
  ultimately show ?thesis by blast
qed

lemma native_no_compact:
  assumes "mode = ''never'' \<or> mode = ''auto''"
  shows "\<exists>cp df. compact_block (native_backend v dir p) mode now (s, bt) = (cp, df, s, bt)"
  using assms by (auto simp: compact_block_def compact_decision_of_def native_supports Let_def)

lemma native_live:
  assumes "native_zero w l" "is_loaded (pe_mem w)" "l < 2 ^ 63"
  shows "live_vector (native_backend v dir p) c l w = Inr (hx_rows (pe_mem w) ! nat l)"
  using assms by (simp add: live_vector_def nb_get_vector_def hx_get_vector_def ensure_node_def native_zero_def)

lemma proof_items_labels: "length ls = length xs \<Longrightarrow> (l, x) \<in> set (proof_items mode ls xs) \<Longrightarrow> l \<in> set ls"
proof -
  assume len: "length ls = length xs" and m: "(l, x) \<in> set (proof_items mode ls xs)"
  have "ls ! i \<in> set ls" if "3 < length ls" "i \<in> set (sample_indices (length ls))" for i
    using that by (intro nth_mem) (auto simp: sample_indices_def simp del: remdups.simps)
  then show ?thesis using m len by (auto simp: proof_items_def dest: set_zip_leftD split: if_splits)
qed

lemma native_proofs_pass:
  assumes "\<forall>l\<in>set (bt_labels bt). native_zero w l" "engine_ok w" "length (bt_labels bt) = length (bt_erased bt)"
  shows "\<exists>sm. run_residual_proofs (native_backend v dir p) norm64 c pm None bt w = Inr sm
    \<and> (pm = ''off'' \<or> bt_labels bt = [] \<or> rs_passed sm = Some True) \<and> rs_passed sm \<noteq> Some False"
proof -
  let ?f = "\<lambda>(lab, ext). bind_res (live_vector (native_backend v dir p) c lab w) (\<lambda>live.
      Inr (prove_vector_erased norm64 (bk_files (native_backend v dir p) w) ext live (dget (bt_originals bt) lab) None 0))"
  let ?h = "\<lambda>(lab, ext). prove_vector_erased norm64 (bk_files (native_backend v dir p) w) ext (hx_rows (pe_mem w) ! nat lab)
      (dget (bt_originals bt) lab) None 0"
  have rd: "is_loaded (pe_mem w)" "length (hx_rows (pe_mem w)) < 2 ^ 63"
    using assms(2) by (auto simp: engine_ok_def ready_def index_fits_def)
  then have len: "int (num_elements (pe_mem w)) < 2 ^ 63"
    by (simp add: num_elements_def)
  have item: "?f y = Inr (?h y) \<and> proof_passed (?h y)" if y: "y \<in> set (proof_items pm (bt_labels bt) (bt_erased bt))" for y
  proof -
    obtain l x where lx: "y = (l, x)" by fastforce
    have z: "native_zero w l" using assms(1) proof_items_labels [OF assms(3), of l x pm] y lx by blast
    then have "l < 2 ^ 63" using len by (simp add: native_zero_def)
    then have "live_vector (native_backend v dir p) c l w = Inr (hx_rows (pe_mem w) ! nat l)" using z rd(1) by (intro native_live)
    moreover have "all_zero (hx_rows (pe_mem w) ! nat l)" using z by (simp add: native_zero_def)
    ultimately show ?thesis using lx by (simp add: proof_parts vector_all_zeros_def)
  qed
  have mr: "map_res ?f (proof_items pm (bt_labels bt) (bt_erased bt)) = Inr (map ?h (proof_items pm (bt_labels bt) (bt_erased bt)))"
    using item by (intro map_res_Inr) blast
  have nf: "filter (\<lambda>q. \<not> proof_passed q) (map ?h (proof_items pm (bt_labels bt) (bt_erased bt))) = []"
    using item by (auto simp: filter_empty_conv)
  show ?thesis
    unfolding run_residual_proofs_def mr bind_res.simps Let_def nf by simp
qed

lemma complete_run:
  assumes "benign v" and "batch_ready c (clean_ids ids) m s"
  shows "\<exists>r s'. delete (native_backend v dir True) cfg env c ids reason rid m idem None rp None s = (Inr r, s')
    \<and> rc_status r = complete \<and> rc_success r \<and> batch_effect cfg c (clean_ids ids) s s'
    \<and> delete_chain v m (map (\<lambda>x. the (id_view (sv_registry s) c x)) (clean_ids ids)) (sv_world s) (sv_world s')"
proof -
  let ?b = "native_backend v dir True" and ?pm = "proof_mode_of cfg (se_environ env) rp"
  have reg: "reg_ok (sv_registry s)" using assms(2) by (simp add: batch_ready_def)
  obtain t ms where pl: "plan_compact ?b cfg (se_environ env) c (clean_ids ids) None s = (CStr t, ms)"
    "normalize_compact (CStr t) = Inr t" "t = ''never'' \<or> t = ''auto''"
    using native_plan by blast
  obtain s1 bt1 where lp: "erase_loop ?b cfg idem (?pm \<noteq> ''off'' \<and> bk_get_vector ?b \<noteq> None) c m (clean_ids ids) (s, empty_batch ms)
      = (None, s1, bt1)" "bt_errors bt1 = []" "batch_effect cfg c (clean_ids ids) s s1"
    "delete_chain v m (map (\<lambda>x. the (id_view (sv_registry s) c x)) (clean_ids ids)) (sv_world s) (sv_world s1)"
    using loop_ok [OF assms] by (fastforce simp: empty_batch_def)
  have eok: "engine_ok (sv_world s1)" using lp(3) by (simp add: batch_effect_def)
  have li: "loop_inv (sv_registry s) cfg c (s1, bt1)" "bt_erased bt1 = clean_ids ids"
    using loop_facts [OF loop_inv_start [OF reg] lp(1)] lp(2) by (auto simp: empty_batch_def)
  then have len: "length (bt_labels bt1) = length (bt_erased bt1)" by (auto simp: loop_inv_def dest: list_all2_lengthD)
  obtain cp df where cb: "compact_block ?b t (se_monotonic env) (s1, bt1) = (cp, df, s1, bt1)"
    using native_no_compact [OF pl(3)] by blast
  have z: "\<forall>l\<in>set (bt_labels bt1). native_zero (sv_world s1) l"
    using nb.erase_loop_zero [OF loop_inv_start [OF reg] _ lp(1)] by (simp add: empty_batch_def)
  obtain sm where sm: "run_residual_proofs ?b (se_norm64 env) c ?pm None bt1 (sv_world s1) = Inr sm"
    "?pm = ''off'' \<or> bt_labels bt1 = [] \<or> rs_passed sm = Some True" "rs_passed sm \<noteq> Some False"
    using native_proofs_pass [OF z eok len] by blast
  obtain r s' where d: "delete ?b cfg env c ids reason rid m idem None rp None s = (Inr r, s')"
    "finish_delete ?b cfg env c (clean_ids ids) reason rid ?pm cp df sm (s1, bt1) = (r, s')"
    using delete_run [OF pl(1,2) lp(1) cb sm(1)] by blast
  note fd = finish_delete_simps [OF d(2)]
  have "rc_status r = complete"
    using fd(8,9) lp(2) sm(2,3) len li(2) by (auto simp: derive_status_complete_iff)
  moreover have "batch_effect cfg c (clean_ids ids) s s'" using lp(3) fd(5,6) by (simp add: batch_effect_def)
  moreover have "sv_world s' = sv_world s1" using fd(5) by simp
  ultimately show ?thesis using d(1) fd(3) lp(4) by metis
qed

section \<open>Properties\<close>

definition demo_native :: "bytes \<Rightarrow> engine service" where
  "demo_native b = \<lparr>sv_registry = sv_registry demo_service, sv_policy = sv_policy demo_service, sv_world = demo_engine b,
     sv_log = [], sv_counters = [], sv_gauges = []\<rparr>"

lemma demo_native_reg: "reg_ok (sv_registry (demo_native b))"
  using demo_service_ok by (simp add: demo_native_def)

lemma demo_batch_ready:
  assumes "engine_ok (demo_engine b)"
  shows "batch_ready ''users'' (clean_ids ['' alice '', ''bob'']) 16 (demo_native b)"
proof -
  have v: "id_view (sv_registry demo_service) ''users'' ''alice'' = Some 0" "id_view (sv_registry demo_service) ''users'' ''bob'' = Some 1"
    "distinct (map py_strip [''alice'', ''bob''])"
    by code_simp+
  have "in_reach demo_index 0 16" "in_reach demo_index 1 16" by (simp_all add: in_reach_def demo_index_ok)
  moreover have "pe_mem (demo_engine b) = demo_index" "ids_left (demo_engine b) = 256 ^ 8 - 1"
    using demo_wal by (simp_all add: demo_engine_def)
  ultimately show ?thesis
    using assms demo_service_ok v unfolding batch_ready_def demo_facts(5) by (simp add: demo_native_def)
qed

abbreviation demo_native_delete :: "bytes \<Rightarrow> erasure_receipt res \<times> engine service" where
  "demo_native_delete b \<equiv> delete (native_backend demo_env ''d'' True) demo_config demo_senv ''users'' ['' alice '', ''bob''] None None 16
     True None None None (demo_native b)"

lemma demo_native_complete: "\<exists>b r s'. demo_native_delete b = (Inr r, s') \<and> rc_status r = complete"
proof -
  obtain b where "engine_ok (demo_engine b)" using demo_engine_ok by blast
  then have br: "batch_ready ''users'' (clean_ids ['' alice '', ''bob'']) 16 (demo_native b)" by (rule demo_batch_ready)
  show ?thesis using complete_run [OF demo_benign br] by blast
qed

text \<open>
  every label on a receipt of the native service is really erased, complete or not, with or without the
  persistence engine, in every environment: its row is in the index and zero in the state the call leaves.
\<close>

theorem receipt_labels_are_zero:
  assumes "reg_ok (sv_registry s)"
    and "delete (native_backend v dir persist) cfg env c ids reason rid m idem carg rp ckpt s = (Inr r, s')"
  shows "\<forall>l\<in>set (rc_labels r). native_zero (sv_world s') l"
  by (rule nb.delete_labels_zero [OF assms])

lemma receipt_labels_are_zero_witness:
  "\<exists>b r s'. demo_native_delete b = (Inr r, s') \<and> (\<forall>l\<in>set (rc_labels r). native_zero (sv_world s') l)"
proof -
  obtain b r s' where d: "demo_native_delete b = (Inr r, s')" using demo_native_complete by blast
  from receipt_labels_are_zero [OF demo_native_reg d] d show ?thesis by blast
qed

text \<open>
  C4: a complete receipt of the API's service (persistence attached) is durable: the labels are those of the
  requested ids, their rows are zero in memory, and \<open>index.bin\<close> is exactly the snapshot of that memory.
\<close>

theorem complete_receipt_is_durable:
  assumes "reg_ok (sv_registry s)"
    and "delete (native_backend v dir True) cfg env c ids reason rid m idem carg rp ckpt s = (Inr r, s')"
    and "rc_status r = complete" and "clean_ids ids \<noteq> []"
  shows "list_all2 (\<lambda>l x. id_view (sv_registry s) c x = Some l \<and> native_zero (sv_world s') l) (rc_labels r) (clean_ids ids)
    \<and> snapshot_published (sv_world s')"
proof
  have "list_all2 (\<lambda>l x. id_view (sv_registry s) c x = Some l) (rc_labels r) (clean_ids ids)" "rc_errors r = []"
    using delete_registry [OF assms(1,2)] assms(3,4) by auto
  moreover have "\<forall>l\<in>set (rc_labels r). native_zero (sv_world s') l" by (rule nb.delete_labels_zero [OF assms(1,2)])
  ultimately show "list_all2 (\<lambda>l x. id_view (sv_registry s) c x = Some l \<and> native_zero (sv_world s') l) (rc_labels r) (clean_ids ids)"
    by (auto simp: list_all2_conv_all_nth)
  from assms(2) show "snapshot_published (sv_world s')"
  proof (cases rule: delete_steps)
    case (1 ms mode s1 bt1 cp df s2 bt2 sm need)
    have "bt_errors bt1 = []"
      using finish_delete_simps(8) [OF 1(4)] compact_block_keeps(8) [OF 1(2)] \<open>rc_errors r = []\<close> by auto
    then have "snapshot_published (sv_world s1)"
      using loop_publishes [OF loop_inv_start [OF assms(1)] 1(1)] assms(4) by (simp add: empty_batch_def)
    then show ?thesis using native_compact_block [OF 1(2)] finish_delete_simps(5) [OF 1(4)] by simp
  qed
qed

lemma complete_receipt_is_durable_witness:
  "\<exists>b r s'. demo_native_delete b = (Inr r, s') \<and> snapshot_published (sv_world s')"
proof -
  obtain b r s' where d: "demo_native_delete b = (Inr r, s')" "rc_status r = complete" using demo_native_complete by blast
  have "clean_ids ['' alice '', ''bob''] \<noteq> []" by (simp add: demo_facts(5))
  from complete_receipt_is_durable [OF demo_native_reg d this] d(1) show ?thesis by blast
qed

text \<open>
  a clean request completes: with distinct known ids whose rows are in the index, a sound engine with
  enough transaction ids left, contention that ends in time and working files, \<open>delete\<close> with its default
  options returns a complete, successful receipt. Exactly the rows of the ids are then zero, in memory and in the published
  file, no delete is left pending, and exactly their mappings are gone.
\<close>

theorem clean_batch_completes:
  assumes "benign v" and "batch_ready c (clean_ids ids) m s"
  shows "\<exists>r s'. delete (native_backend v dir True) cfg env c ids reason rid m idem None rp None s = (Inr r, s')
    \<and> rc_status r = complete \<and> rc_success r \<and> batch_effect cfg c (clean_ids ids) s s'"
  using complete_run [OF assms] by blast

lemma clean_batch_completes_witness:
  "\<exists>b r s'. demo_native_delete b = (Inr r, s') \<and> rc_success r"
proof -
  obtain b where b: "engine_ok (demo_engine b)" using demo_engine_ok by blast
  from clean_batch_completes [OF demo_benign demo_batch_ready [OF b]] show ?thesis by blast
qed

end
