(* ===== verification/Workflow.thy ===== *)
theory Workflow
  imports EraseService
begin

text \<open>
  \<open>integrations/workflow.py\<close>: an erasure ticket as a list of steps, its JSON file, and the runner that
  advances it through the live delete (the erasure service), the mirrored residual proof and the four
  optional hooks. All clock readings of one call give the same time. A JSON object is its list of items; the key order of the written text (\<open>sort_keys\<close>) plays no
  role in reading it back. Hooks are functions over a world \<open>'h\<close> of their own.
\<close>

section \<open>Tickets\<close>

record erasure_step =
  st_name :: string
  st_status :: string
  st_detail :: string
  st_artifact :: "json option"
  st_updated_unix_ns :: int

record erasure_workflow =
  wf_request_id :: string
  wf_collection :: string
  wf_external_ids :: "string list"
  wf_reason :: "string option"
  wf_status :: string
  wf_created_unix_ns :: int
  wf_updated_unix_ns :: int
  wf_steps :: "erasure_step list"
  wf_receipt :: "json option"
  wf_errors :: "string list"
  wf_require_replica :: bool
  wf_require_crypto_shred :: bool
  wf_require_document_store :: bool
  wf_require_backup_ack :: bool

definition STEP_ORDER :: "string list" where
  "STEP_ORDER = [''live_hard_delete'', ''residual_proof'', ''replica_fanout'', ''crypto_shred'', ''document_store'',
     ''backup_policy'']"

definition new_step :: "string \<Rightarrow> erasure_step" where
  "new_step n = \<lparr>st_name = n, st_status = ''pending'', st_detail = [], st_artifact = None, st_updated_unix_ns = 0\<rparr>"

text \<open>\<open>step(name)\<close>: the first step of that name; \<open>upd_step\<close> mutates it in place.\<close>

fun find_step :: "string \<Rightarrow> erasure_step list \<Rightarrow> erasure_step res" where
  "find_step n [] = Inl (KeyError n)"
| "find_step n (s # ss) = (if st_name s = n then Inr s else find_step n ss)"

definition wf_step :: "erasure_workflow \<Rightarrow> string \<Rightarrow> erasure_step res" where
  "wf_step tk n = find_step n (wf_steps tk)"

fun upd_first :: "string \<Rightarrow> (erasure_step \<Rightarrow> erasure_step) \<Rightarrow> erasure_step list \<Rightarrow> erasure_step list" where
  "upd_first n g [] = []"
| "upd_first n g (s # ss) = (if st_name s = n then g s # ss else s # upd_first n g ss)"

definition upd_step :: "string \<Rightarrow> (erasure_step \<Rightarrow> erasure_step) \<Rightarrow> erasure_workflow \<Rightarrow> erasure_workflow" where
  "upd_step n g tk = tk\<lparr>wf_steps := upd_first n g (wf_steps tk)\<rparr>"

section \<open>JSON\<close>

definition step_to_dict :: "erasure_step \<Rightarrow> json" where
  "step_to_dict s = JObj [(''name'', JStr (st_name s)), (''status'', JStr (st_status s)), (''detail'', JStr (st_detail s)),
     (''artifact'', jopt id (st_artifact s)), (''updated_unix_ns'', JInt (st_updated_unix_ns s))]"

definition get_or :: "(string \<times> json) list \<Rightarrow> string \<Rightarrow> json \<Rightarrow> json" where
  "get_or kvs k d = (case dget kvs k of None \<Rightarrow> d | Some j \<Rightarrow> j)"

definition req :: "(string \<times> json) list \<Rightarrow> string \<Rightarrow> json res" where
  "req kvs k = (case dget kvs k of None \<Rightarrow> Inl (KeyError k) | Some j \<Rightarrow> Inr j)"

text \<open>Fields that the code keeps without a conversion are in the model only when they have the annotated
  type.\<close>

fun as_str :: "json \<Rightarrow> string res" where
  "as_str (JStr s) = Inr s"
| "as_str _ = Inl Unmodelled"

fun as_opt_str :: "json \<Rightarrow> string option res" where
  "as_opt_str JNull = Inr None"
| "as_opt_str (JStr s) = Inr (Some s)"
| "as_opt_str _ = Inl Unmodelled"

fun as_list :: "json \<Rightarrow> json list res" where
  "as_list (JList xs) = Inr xs"
| "as_list _ = Inl Unmodelled"

definition as_opt :: "json \<Rightarrow> json option" where
  "as_opt j = (if j = JNull then None else Some j)"

definition step_from_dict :: "json \<Rightarrow> erasure_step res" where
  "step_from_dict j = bind_res (items_of j) (\<lambda>d.
     bind_res (bind_res (req d ''name'') coerce_str) (\<lambda>name.
     bind_res (as_str (get_or d ''status'' (JStr ''pending''))) (\<lambda>status.
     bind_res (coerce_str (get_or d ''detail'' (JStr []))) (\<lambda>detail.
     bind_res (coerce_int (get_or d ''updated_unix_ns'' (JInt 0))) (\<lambda>t.
       Inr \<lparr>st_name = name, st_status = status, st_detail = detail, st_artifact = as_opt (get_or d ''artifact'' JNull),
            st_updated_unix_ns = t\<rparr>)))))"

definition wf_to_dict :: "erasure_workflow \<Rightarrow> json" where
  "wf_to_dict w = JObj [(''request_id'', JStr (wf_request_id w)), (''collection'', JStr (wf_collection w)),
     (''external_ids'', JList (map JStr (wf_external_ids w))), (''reason'', jopt JStr (wf_reason w)),
     (''status'', JStr (wf_status w)), (''created_unix_ns'', JInt (wf_created_unix_ns w)),
     (''updated_unix_ns'', JInt (wf_updated_unix_ns w)), (''steps'', JList (map step_to_dict (wf_steps w))),
     (''receipt'', jopt id (wf_receipt w)), (''errors'', JList (map JStr (wf_errors w))),
     (''require_replica'', JBool (wf_require_replica w)), (''require_crypto_shred'', JBool (wf_require_crypto_shred w)),
     (''require_document_store'', JBool (wf_require_document_store w)), (''require_backup_ack'', JBool (wf_require_backup_ack w))]"

definition wf_from_dict :: "json \<Rightarrow> erasure_workflow res" where
  "wf_from_dict j = bind_res (items_of j) (\<lambda>d.
     bind_res (bind_res (req d ''request_id'') coerce_str) (\<lambda>rid.
     bind_res (bind_res (req d ''collection'') coerce_str) (\<lambda>coll.
     bind_res (bind_res (as_list (get_or d ''external_ids'' (JList []))) (map_res as_str)) (\<lambda>ids.
     bind_res (as_opt_str (get_or d ''reason'' JNull)) (\<lambda>reason.
     bind_res (as_str (get_or d ''status'' (JStr ''open''))) (\<lambda>status.
     bind_res (coerce_int (get_or d ''created_unix_ns'' (JInt 0))) (\<lambda>created.
     bind_res (coerce_int (get_or d ''updated_unix_ns'' (JInt 0))) (\<lambda>updated.
     bind_res (bind_res (as_list (get_or d ''steps'' (JList []))) (map_res step_from_dict)) (\<lambda>steps.
     bind_res (bind_res (as_list (get_or d ''errors'' (JList []))) (map_res as_str)) (\<lambda>errors.
       Inr \<lparr>wf_request_id = rid, wf_collection = coll, wf_external_ids = ids, wf_reason = reason, wf_status = status,
            wf_created_unix_ns = created, wf_updated_unix_ns = updated,
            wf_steps = (if steps = [] then map new_step STEP_ORDER else steps),
            wf_receipt = as_opt (get_or d ''receipt'' JNull), wf_errors = errors,
            wf_require_replica = truthy (get_or d ''require_replica'' (JBool False)),
            wf_require_crypto_shred = truthy (get_or d ''require_crypto_shred'' (JBool False)),
            wf_require_document_store = truthy (get_or d ''require_document_store'' (JBool False)),
            wf_require_backup_ack = truthy (get_or d ''require_backup_ack'' (JBool False))\<rparr>))))))))))"

definition export_package :: "erasure_workflow \<Rightarrow> json" where
  "export_package w = JObj [(''kind'', JStr ''hnsw_healer.erasure_export''), (''version'', JInt 1), (''workflow'', wf_to_dict w),
     (''closeable'', JBool (wf_status w = ''complete'')),
     (''summary'', JObj [(''request_id'', JStr (wf_request_id w)), (''collection'', JStr (wf_collection w)),
        (''ids'', JList (map JStr (wf_external_ids w))), (''status'', JStr (wf_status w)),
        (''steps'', JObj (foldl (\<lambda>d s. dset (st_name s) (JStr (st_status s)) d) [] (wf_steps w)))])]"

section \<open>The store\<close>

text \<open>The files of \<open>workflows/\<close> by name without extension.\<close>

type_synonym wf_files = "(string, json) dict"

definition path_for :: "string \<Rightarrow> string" where
  "path_for request_id = map (\<lambda>c. if py_isalnum c \<or> c = CHR ''-'' \<or> c = CHR ''_'' then c else CHR ''_'') request_id"

definition store_save :: "int \<Rightarrow> erasure_workflow \<Rightarrow> wf_files \<Rightarrow> erasure_workflow \<times> wf_files" where
  "store_save now tk files =
    (let wf1 = tk\<lparr>wf_updated_unix_ns := now\<rparr> in (wf1, dset (path_for (wf_request_id wf1)) (wf_to_dict wf1) files))"

definition store_load :: "string \<Rightarrow> wf_files \<Rightarrow> erasure_workflow res" where
  "store_load request_id files =
    (case dget files (path_for request_id) of
       None \<Rightarrow> Inl (FileNotFoundError (''workflow not found: '' @ request_id))
     | Some j \<Rightarrow> wf_from_dict j)"

definition store_list_ids :: "wf_files \<Rightarrow> string list" where
  "store_list_ids files = sort (dkeys files)"

section \<open>The runner\<close>

record 'h wf_hooks =
  hk_replica_fanout :: "(string \<Rightarrow> string list \<Rightarrow> string \<Rightarrow> 'h \<Rightarrow> json res \<times> 'h) option"
  hk_crypto_shred :: "(string list \<Rightarrow> 'h \<Rightarrow> json res \<times> 'h) option"
  hk_document_store :: "(string \<Rightarrow> string list \<Rightarrow> 'h \<Rightarrow> json res \<times> 'h) option"
  hk_backup_ack :: "(string \<Rightarrow> string list \<Rightarrow> 'h \<Rightarrow> json res \<times> 'h) option"

record ('w, 'h) runner =
  wr_service :: "'w service"
  wr_files :: wf_files
  wr_world :: 'h

text \<open>The JSON of a receipt; the text of a message with a formatted float is given by \<open>render\<close>.\<close>

definition proof_json :: "residual_proof \<Rightarrow> json" where
  "proof_json p = JObj [(''label_or_id'', JStr (rp_label_or_id p)), (''live_all_zeros'', JBool (rp_live_all_zeros p)),
     (''file_pattern_absent'', jopt JBool (rp_file_pattern_absent p)), (''original_norm'', JFloat (rp_original_norm p)),
     (''details'', JStr (rp_details p)), (''passed'', JBool (proof_passed p))]"

definition summary_json :: "residual_summary \<Rightarrow> json" where
  "summary_json r = JObj [(''mode'', JStr (rs_mode r)), (''passed'', jopt JBool (rs_passed r)), (''checked'', JInt (int (rs_checked r))),
     (''failed'', JInt (int (rs_failed r))), (''proofs'', JList (map proof_json (rs_proofs r))), (''details'', JStr (rs_details r))]"

definition receipt_json :: "(message \<Rightarrow> string) \<Rightarrow> erasure_receipt \<Rightarrow> json" where
  "receipt_json render r = JObj [(''request_id'', JStr (rc_request_id r)), (''collection'', JStr (rc_collection r)),
     (''external_ids'', JList (map JStr (rc_external_ids r))), (''labels'', JList (map JInt (rc_labels r))),
     (''success'', JBool (rc_success r)), (''reason'', jopt JStr (rc_reason r)), (''timestamp_unix_ns'', JInt (rc_timestamp_unix_ns r)),
     (''bytes_wiped_total'', JInt (rc_bytes_wiped_total r)), (''backend_messages'', JList (map (JStr \<circ> render) (rc_backend_messages r))),
     (''transaction_ids'', JList (map JInt (rc_transaction_ids r))), (''signature'', JStr (rc_signature r)),
     (''errors'', JList (map JStr (rc_errors r))), (''receipt_version'', JInt (rc_receipt_version r)),
     (''status'', JStr (status_str (rc_status r))), (''compacted'', JBool (rc_compacted r)),
     (''residual_proof'', summary_json (rc_residual_proof r))]"

definition run_live_delete ::
  "'w backend \<Rightarrow> service_config \<Rightarrow> service_env \<Rightarrow> (message \<Rightarrow> string) \<Rightarrow> int \<Rightarrow> erasure_workflow \<times> 'w service
    \<Rightarrow> erasure_workflow res \<times> 'w service" where
  "run_live_delete b cfg env render max_m ws =
    (case ws of (tk, s) \<Rightarrow>
      case wf_step tk ''live_hard_delete'' of
        Inl e \<Rightarrow> (Inl e, s)
      | Inr st \<Rightarrow>
          if st_status st = ''done'' then (Inr tk, s)
          else
            let now = se_time_ns env in
            case delete b cfg env (wf_collection tk) (wf_external_ids tk) (wf_reason tk) (Some (wf_request_id tk)) max_m True
                   None None None s of
              (Inl e, s1) \<Rightarrow>
                (Inr ((upd_step ''live_hard_delete'' (\<lambda>st. st\<lparr>st_status := ''failed'', st_detail := exn_str e, st_updated_unix_ns := now\<rparr>) tk)
                      \<lparr>wf_errors := wf_errors tk @ [''live_hard_delete: '' @ exn_str e]\<rparr>), s1)
            | (Inr r, s1) \<Rightarrow>
                let wf1 = tk\<lparr>wf_receipt := Some (receipt_json render r)\<rparr> in
                if rc_success r
                then (Inr (upd_step ''live_hard_delete'' (\<lambda>st. st\<lparr>st_status := ''done'',
                         st_detail := ''status='' @ status_str (rc_status r) @ '' compacted='' @ bool_str (rc_compacted r),
                         st_artifact := Some (JObj [(''success'', JBool (rc_success r)), (''labels'', JList (map JInt (rc_labels r))),
                            (''bytes_wiped_total'', JInt (rc_bytes_wiped_total r))]), st_updated_unix_ns := now\<rparr>) wf1), s1)
                else
                  let det = (if join_with ''; '' (rc_errors r) = [] then status_str (rc_status r) else join_with ''; '' (rc_errors r))
                  in (Inr ((upd_step ''live_hard_delete'' (\<lambda>st. st\<lparr>st_status := ''failed'', st_detail := det, st_updated_unix_ns := now\<rparr>) wf1)
                        \<lparr>wf_errors := wf_errors tk @ [''live_hard_delete: '' @ det]\<rparr>), s1))"

text \<open>\<open>(tk.receipt or {}).get("residual_proof") or {}\<close>, and the details text of it.\<close>

definition receipt_proof :: "erasure_workflow \<Rightarrow> (string \<times> json) list" where
  "receipt_proof tk = (case wf_receipt tk of Some (JObj kvs) \<Rightarrow>
       (case get_or kvs ''residual_proof'' JNull of JObj p \<Rightarrow> p | _ \<Rightarrow> []) | _ \<Rightarrow> [])"

definition text_of :: "json \<Rightarrow> string" where
  "text_of j = (case j of JStr s \<Rightarrow> s | _ \<Rightarrow> [])"

definition mirror_residual_from_receipt :: "int \<Rightarrow> erasure_workflow \<Rightarrow> erasure_workflow res" where
  "mirror_residual_from_receipt now tk =
    bind_res (wf_step tk ''residual_proof'') (\<lambda>st.
      if st_status st = ''done'' then Inr tk
      else
        let p = receipt_proof tk; put = (\<lambda>g. upd_step ''residual_proof'' (\<lambda>st. (g st)\<lparr>st_updated_unix_ns := now\<rparr>)) in
        if get_or p ''mode'' (JStr ''off'') = JStr ''off''
        then Inr (put (\<lambda>st. st\<lparr>st_status := ''skipped'', st_detail := ''residual proof disabled''\<rparr>) tk)
        else if dget p ''passed'' = Some (JBool True)
        then Inr (put (\<lambda>st. st\<lparr>st_status := ''done'', st_detail := text_of (get_or p ''details'' (JStr ''passed'')),
                               st_artifact := Some (JObj p)\<rparr>) tk)
        else if dget p ''passed'' = Some (JBool False)
        then let det = text_of (get_or p ''details'' (JStr ''failed'')) in
             Inr ((put (\<lambda>st. st\<lparr>st_status := ''failed'', st_detail := det, st_artifact := Some (JObj p)\<rparr>) tk)
                  \<lparr>wf_errors := wf_errors tk @ [''residual_proof: '' @ det]\<rparr>)
        else Inr (put (\<lambda>st. st\<lparr>st_status := ''skipped'', st_detail := ''no residual proof data''\<rparr>) tk))"

definition run_optional ::
  "int \<Rightarrow> string \<Rightarrow> bool \<Rightarrow> ('h \<Rightarrow> json res \<times> 'h) option \<Rightarrow> bool \<Rightarrow> erasure_workflow \<Rightarrow> 'h \<Rightarrow> erasure_workflow res \<times> 'h" where
  "run_optional now name required hook skip_optional tk h =
    (case wf_step tk name of
       Inl e \<Rightarrow> (Inl e, h)
     | Inr st \<Rightarrow>
         let put = (\<lambda>g. upd_step name (\<lambda>st. (g st)\<lparr>st_updated_unix_ns := now\<rparr>)) in
         if st_status st = ''done'' then (Inr tk, h)
         else if \<not> required
         then (Inr (put (\<lambda>st. st\<lparr>st_status := ''skipped'', st_detail := ''not required by policy''\<rparr>) tk), h)
         else case hook of
           None \<Rightarrow>
             let wf1 = put (\<lambda>st. st\<lparr>st_status := (if skip_optional then ''pending'' else ''failed''),
                                    st_detail := ''required but no hook configured''\<rparr>) tk
             in (Inr (if skip_optional then wf1 else wf1\<lparr>wf_errors := wf_errors tk @ [name @ '': no hook configured'']\<rparr>), h)
         | Some f \<Rightarrow>
             (case f h of
                (Inr art, h1) \<Rightarrow>
                  (Inr (put (\<lambda>st. st\<lparr>st_artifact := as_opt art, st_status := ''done'', st_detail := ''ok''\<rparr>) tk), h1)
              | (Inl e, h1) \<Rightarrow>
                  (Inr ((put (\<lambda>st. st\<lparr>st_status := ''failed'', st_detail := exn_str e\<rparr>) tk)
                        \<lparr>wf_errors := wf_errors tk @ [name @ '': '' @ exn_str e]\<rparr>), h1)))"

definition step_required :: "erasure_workflow \<Rightarrow> string \<Rightarrow> bool" where
  "step_required tk n =
    (if n = ''replica_fanout'' then wf_require_replica tk else if n = ''crypto_shred'' then wf_require_crypto_shred tk
     else if n = ''document_store'' then wf_require_document_store tk
     else if n = ''backup_policy'' then wf_require_backup_ack tk else n = ''residual_proof'')"

fun status_of_steps :: "erasure_workflow \<Rightarrow> erasure_step list \<Rightarrow> string" where
  "status_of_steps tk [] = ''complete''"
| "status_of_steps tk (s # ss) =
    (if st_name s = ''live_hard_delete'' then status_of_steps tk ss
     else if st_name s = ''residual_proof'' then (if st_status s = ''failed'' then ''blocked'' else status_of_steps tk ss)
     else if step_required tk (st_name s) \<and> st_status s \<noteq> ''done'' \<and> st_status s \<noteq> ''skipped''
     then (if st_status s = ''failed'' then ''blocked'' else ''in_progress'')
     else if step_required tk (st_name s) \<and> st_status s = ''failed'' then ''blocked''
     else status_of_steps tk ss)"

definition compute_status :: "erasure_workflow \<Rightarrow> string res" where
  "compute_status tk = bind_res (wf_step tk ''live_hard_delete'') (\<lambda>live.
     if st_status live \<noteq> ''done'' then Inr (if st_status live = ''failed'' then ''blocked'' else ''in_progress'')
     else Inr (status_of_steps tk (wf_steps tk)))"

definition wf_create ::
  "service_env \<Rightarrow> string \<Rightarrow> string list \<Rightarrow> string option \<Rightarrow> string option \<Rightarrow> bool \<Rightarrow> bool \<Rightarrow> bool \<Rightarrow> bool \<Rightarrow> ('w, 'h) runner
    \<Rightarrow> erasure_workflow \<times> ('w, 'h) runner" where
  "wf_create env collection ids reason request_id rr rs rd rb st =
    (let rid = (case request_id of None \<Rightarrow> se_uuid env | Some q \<Rightarrow> if q = [] then se_uuid env else q);
         tk = \<lparr>wf_request_id = rid, wf_collection = collection, wf_external_ids = ids, wf_reason = reason, wf_status = ''open'',
               wf_created_unix_ns = se_time_ns env, wf_updated_unix_ns = se_time_ns env, wf_steps = map new_step STEP_ORDER,
               wf_receipt = None, wf_errors = [], wf_require_replica = rr, wf_require_crypto_shred = rs,
               wf_require_document_store = rd, wf_require_backup_ack = rb\<rparr>;
         (wf1, files) = store_save (se_time_ns env) tk (wr_files st)
     in (wf1, st\<lparr>wr_files := files\<rparr>))"

text \<open>The four optional steps in the order of the code.\<close>

definition run_all_optional ::
  "'h wf_hooks \<Rightarrow> int \<Rightarrow> bool \<Rightarrow> erasure_workflow \<Rightarrow> 'h \<Rightarrow> erasure_workflow res \<times> 'h" where
  "run_all_optional hk now skip tk h =
    (case run_optional now ''replica_fanout'' (wf_require_replica tk)
            (map_option (\<lambda>f. f (wf_collection tk) (wf_external_ids tk) (wf_request_id tk)) (hk_replica_fanout hk)) skip tk h of
       (Inl e, h1) \<Rightarrow> (Inl e, h1)
     | (Inr wf1, h1) \<Rightarrow>
    (case run_optional now ''crypto_shred'' (wf_require_crypto_shred wf1)
            (map_option (\<lambda>f. f (wf_external_ids wf1)) (hk_crypto_shred hk)) skip wf1 h1 of
       (Inl e, h2) \<Rightarrow> (Inl e, h2)
     | (Inr wf2, h2) \<Rightarrow>
    (case run_optional now ''document_store'' (wf_require_document_store wf2)
            (map_option (\<lambda>f. f (wf_collection wf2) (wf_external_ids wf2)) (hk_document_store hk)) skip wf2 h2 of
       (Inl e, h3) \<Rightarrow> (Inl e, h3)
     | (Inr wf3, h3) \<Rightarrow>
         run_optional now ''backup_policy'' (wf_require_backup_ack wf3)
            (map_option (\<lambda>f. f (wf_collection wf3) (wf_external_ids wf3)) (hk_backup_ack hk)) skip wf3 h3)))"

definition wf_metrics :: "string \<Rightarrow> 'w service \<Rightarrow> 'w service" where
  "wf_metrics status s =
    (let s1 = metric_inc ''workflow_advances'' 1 s; g = ''workflow_status_'' @ status;
         s2 = s1\<lparr>sv_gauges := dset g ((case dget (sv_gauges s1) g of None \<Rightarrow> 0 | Some n \<Rightarrow> n) + 1) (sv_gauges s1)\<rparr>
     in if status = ''complete'' then metric_inc ''workflow_complete'' 1 s2
        else if status = ''blocked'' then metric_inc ''workflow_blocked'' 1 s2 else s2)"

definition advance ::
  "'w backend \<Rightarrow> service_config \<Rightarrow> service_env \<Rightarrow> (message \<Rightarrow> string) \<Rightarrow> 'h wf_hooks \<Rightarrow> string \<Rightarrow> int \<Rightarrow> bool \<Rightarrow> ('w, 'h) runner
    \<Rightarrow> erasure_workflow res \<times> ('w, 'h) runner" where
  "advance b cfg env render hk request_id max_m skip st =
    (case store_load request_id (wr_files st) of
       Inl e \<Rightarrow> (Inl e, st)
     | Inr wf0 \<Rightarrow>
         if wf_status wf0 = ''complete'' then (Inr wf0, st)
         else
    (case run_live_delete b cfg env render max_m (wf0\<lparr>wf_status := ''in_progress''\<rparr>, wr_service st) of
       (Inl e, s1) \<Rightarrow> (Inl e, st\<lparr>wr_service := s1\<rparr>)
     | (Inr wf1, s1) \<Rightarrow>
    (case mirror_residual_from_receipt (se_time_ns env) wf1 of
       Inl e \<Rightarrow> (Inl e, st\<lparr>wr_service := s1\<rparr>)
     | Inr wf2 \<Rightarrow>
    (case run_all_optional hk (se_time_ns env) skip wf2 (wr_world st) of
       (Inl e, h) \<Rightarrow> (Inl e, st\<lparr>wr_service := s1, wr_world := h\<rparr>)
     | (Inr wf3, h) \<Rightarrow>
    (case compute_status wf3 of
       Inl e \<Rightarrow> (Inl e, st\<lparr>wr_service := s1, wr_world := h\<rparr>)
     | Inr status \<Rightarrow>
         let (wf4, files) = store_save (se_time_ns env) (wf3\<lparr>wf_status := status\<rparr>) (wr_files st)
         in (Inr wf4, st\<lparr>wr_service := wf_metrics status s1, wr_files := files, wr_world := h\<rparr>))))))"


section \<open>Steps\<close>

lemma step_required_simps [simp]:
  "step_required (w\<lparr>wf_steps := x\<rparr>) = step_required w" "step_required (w\<lparr>wf_errors := es\<rparr>) = step_required w"
  "step_required (w\<lparr>wf_receipt := r\<rparr>) = step_required w" "step_required (w\<lparr>wf_status := t\<rparr>) = step_required w"
  "step_required (w\<lparr>wf_updated_unix_ns := u\<rparr>) = step_required w"
  by (rule ext, simp add: step_required_def)+

lemma upd_first_names: "(\<And>s. st_name (g s) = st_name s) \<Longrightarrow> map st_name (upd_first n g ss) = map st_name ss"
  by (induction ss) auto

lemma upd_first_mem: "s' \<in> set (upd_first n g ss) \<Longrightarrow> s' \<in> set ss \<or> (\<exists>s\<in>set ss. st_name s = n \<and> s' = g s)"
  by (induction ss) (auto split: if_splits)

lemma find_upd_first:
  "(\<And>s. st_name (g s) = st_name s) \<Longrightarrow>
     find_step m (upd_first n g ss) = (if m = n then map_sum id g (find_step m ss) else find_step m ss)"
  by (induction ss) auto

lemma find_step_mem: "find_step n ss = Inr s \<Longrightarrow> s \<in> set ss \<and> st_name s = n"
  by (induction ss) (auto split: if_splits)

lemma find_step_total: "n \<in> set (map st_name ss) \<Longrightarrow> \<exists>s. find_step n ss = Inr s"
  by (induction ss) auto

lemma find_step_unique: "distinct (map st_name ss) \<Longrightarrow> s \<in> set ss \<Longrightarrow> find_step (st_name s) ss = Inr s"
  by (induction ss) (auto simp: image_iff)

lemma STEP_ORDER_distinct: "distinct STEP_ORDER"
  by (simp add: STEP_ORDER_def)

text \<open>What a run of the steps keeps: the six steps in order, JSON-proper artifacts, and only steps that the
  ticket does not require are skipped.\<close>

definition steps_inv :: "erasure_workflow \<Rightarrow> bool" where
  "steps_inv w \<longleftrightarrow> map st_name (wf_steps w) = STEP_ORDER
     \<and> (\<forall>s\<in>set (wf_steps w). st_artifact s \<noteq> Some JNull
          \<and> (st_status s = ''skipped'' \<longrightarrow> st_name s \<noteq> ''residual_proof'' \<longrightarrow> \<not> step_required w (st_name s)))"

definition good_upd :: "erasure_workflow \<Rightarrow> string \<Rightarrow> (erasure_step \<Rightarrow> erasure_step) \<Rightarrow> bool" where
  "good_upd w n g \<longleftrightarrow> (\<forall>s. st_name (g s) = st_name s \<and> (st_artifact (g s) = Some JNull \<longrightarrow> st_artifact s = Some JNull)
     \<and> (st_status (g s) = ''skipped'' \<longrightarrow> st_status s = ''skipped'' \<or> n = ''residual_proof'' \<or> \<not> step_required w n))"

lemma steps_inv_upd:
  assumes "steps_inv w" "good_upd w n g"
  shows "steps_inv (upd_step n g w)"
proof -
  have "map st_name (upd_first n g (wf_steps w)) = STEP_ORDER"
    using assms upd_first_names [of g n] by (simp add: good_upd_def steps_inv_def)
  then show ?thesis using assms by (auto simp: steps_inv_def upd_step_def good_upd_def dest!: upd_first_mem)
qed

lemma steps_inv_cong: "wf_steps w' = wf_steps w \<Longrightarrow> step_required w' = step_required w \<Longrightarrow> steps_inv w' = steps_inv w"
  by (simp add: steps_inv_def)

lemma wf_step_upd:
  "good_upd w n g \<Longrightarrow> wf_step (upd_step n g w) m = (if m = n then map_sum id g (wf_step w m) else wf_step w m)"
  by (simp add: wf_step_def upd_step_def good_upd_def find_upd_first)

lemma steps_found: "steps_inv w \<Longrightarrow> n \<in> set STEP_ORDER \<Longrightarrow> \<exists>s. wf_step w n = Inr s"
  unfolding steps_inv_def wf_step_def by (metis find_step_total)

text \<open>The identity of a ticket: everything but progress.\<close>

definition same_ticket :: "erasure_workflow \<Rightarrow> erasure_workflow \<Rightarrow> bool" where
  "same_ticket w w' \<longleftrightarrow> wf_request_id w' = wf_request_id w \<and> wf_collection w' = wf_collection w
     \<and> wf_external_ids w' = wf_external_ids w \<and> wf_reason w' = wf_reason w \<and> step_required w' = step_required w"

lemma same_ticket_refl [simp]: "same_ticket w w"
  by (simp add: same_ticket_def)

lemma same_ticket_trans: "same_ticket u v \<Longrightarrow> same_ticket v w \<Longrightarrow> same_ticket u w"
  by (simp add: same_ticket_def)

lemma same_ticket_upd [simp]:
  "same_ticket w (upd_step n g w)" "same_ticket w (w\<lparr>wf_errors := es\<rparr>)" "same_ticket w (w\<lparr>wf_receipt := rc\<rparr>)"
  "same_ticket w ((upd_step n g w)\<lparr>wf_errors := es\<rparr>)" "same_ticket w (w\<lparr>wf_status := t\<rparr>)"
  by (simp_all add: same_ticket_def upd_step_def)

section \<open>One advance\<close>

text \<open>An optional step and the mirrored proof touch their own step only.\<close>

definition touches :: "string \<Rightarrow> erasure_workflow \<Rightarrow> erasure_workflow \<Rightarrow> bool" where
  "touches n w w' \<longleftrightarrow> (\<exists>g es. good_upd w n g \<and> w' = (upd_step n g w)\<lparr>wf_errors := es\<rparr>)"

lemma upd_first_id [simp]: "upd_first n (\<lambda>s. s) ss = ss"
  by (induction ss) auto

lemma touches_refl: "touches n w w"
  unfolding touches_def
  by (intro exI [of _ "\<lambda>s. s"] exI [of _ "wf_errors w"]) (simp add: good_upd_def upd_step_def)

lemma touches_upd: "good_upd w n g \<Longrightarrow> touches n w (upd_step n g w)"
  unfolding touches_def by (intro exI [of _ g] exI [of _ "wf_errors w"]) (simp add: upd_step_def)

lemma touches_upd_err: "good_upd w n g \<Longrightarrow> touches n w ((upd_step n g w)\<lparr>wf_errors := es\<rparr>)"
  unfolding touches_def by blast

lemma as_opt_not_null [simp]: "as_opt j \<noteq> Some JNull"
  by (simp add: as_opt_def)

lemma run_optional_touches:
  assumes "run_optional now n rq hook skip w h = (Inr w', h')" "rq = step_required w n"
  shows "touches n w w'"
proof -
  have ne: "''failed'' \<noteq> ''skipped''" "''pending'' \<noteq> ''skipped''" "''done'' \<noteq> ''skipped''" by simp_all
  show ?thesis using assms unfolding run_optional_def Let_def
    by (auto split: sum.splits if_splits option.splits prod.splits
        intro!: touches_refl touches_upd touches_upd_err simp: good_upd_def)
qed

lemma mirror_touches:
  "mirror_residual_from_receipt now w = Inr w' \<Longrightarrow> touches ''residual_proof'' w w'"
  unfolding mirror_residual_from_receipt_def Let_def
  by (auto split: if_splits intro!: touches_refl touches_upd touches_upd_err simp: good_upd_def)

lemma mirror_total: "steps_inv w \<Longrightarrow> \<exists>w'. mirror_residual_from_receipt now w = Inr w'"
proof -
  assume "steps_inv w"
  then obtain st where "wf_step w ''residual_proof'' = Inr st" using steps_found by (force simp: STEP_ORDER_def)
  then show ?thesis unfolding mirror_residual_from_receipt_def Let_def
    by (cases "st_status st = ''done''"; cases "get_or (receipt_proof w) ''mode'' (JStr ''off'') = JStr ''off''";
        cases "dget (receipt_proof w) ''passed'' = Some (JBool True)";
        cases "dget (receipt_proof w) ''passed'' = Some (JBool False)") simp_all
qed

lemma touches_keeps:
  assumes "touches n w w'"
  shows "same_ticket w w'" "wf_receipt w' = wf_receipt w" "wf_status w' = wf_status w" "steps_inv w \<Longrightarrow> steps_inv w'"
    "m \<noteq> n \<Longrightarrow> wf_step w' m = wf_step w m"
proof -
  obtain g es where g: "good_upd w n g" "w' = (upd_step n g w)\<lparr>wf_errors := es\<rparr>" using assms by (auto simp: touches_def)
  show "same_ticket w w'" "wf_receipt w' = wf_receipt w" "wf_status w' = wf_status w"
    using g(2) by (simp_all add: upd_step_def same_ticket_def)
  have "wf_step w' m = wf_step (upd_step n g w) m" using g(2) by (simp add: wf_step_def)
  then show "m \<noteq> n \<Longrightarrow> wf_step w' m = wf_step w m" using wf_step_upd [OF g(1)] by simp
  show "steps_inv w \<Longrightarrow> steps_inv w'"
    using steps_inv_upd [OF _ g(1)] g(2) steps_inv_cong [of w' "upd_step n g w"] by simp
qed


text \<open>The part of an advance behind the live delete: it leaves the live step, the receipt and the identity of
  the ticket alone.\<close>

definition behind :: "erasure_workflow \<Rightarrow> erasure_workflow \<Rightarrow> bool" where
  "behind w w' \<longleftrightarrow> same_ticket w w' \<and> wf_receipt w' = wf_receipt w \<and> wf_status w' = wf_status w
     \<and> (steps_inv w \<longrightarrow> steps_inv w') \<and> wf_step w' ''live_hard_delete'' = wf_step w ''live_hard_delete''"

lemma behind_trans: "behind u v \<Longrightarrow> behind v w \<Longrightarrow> behind u w"
  unfolding behind_def using same_ticket_trans by metis

lemma behind_touches: "touches n w w' \<Longrightarrow> n \<noteq> ''live_hard_delete'' \<Longrightarrow> behind w w'"
  unfolding behind_def
  using touches_keeps(1,2,3) [of n w w'] touches_keeps(4) [of n w w'] touches_keeps(5) [of n w w' "''live_hard_delete''"] by simp

lemma step_required_flags:
  "step_required w ''replica_fanout'' = wf_require_replica w" "step_required w ''crypto_shred'' = wf_require_crypto_shred w"
  "step_required w ''document_store'' = wf_require_document_store w" "step_required w ''backup_policy'' = wf_require_backup_ack w"
  by (simp_all add: step_required_def)

lemma run_optional_behind:
  assumes "run_optional now n rq hook skip w h = (Inr w', h')" "rq = step_required w n" "n \<noteq> ''live_hard_delete''"
  shows "behind w w'"
  using behind_touches [OF run_optional_touches [OF assms(1,2)] assms(3)] .

lemma run_all_optional_behind:
  assumes "run_all_optional hk now skip w h = (Inr w', h')"
  shows "behind w w'"
proof -
  obtain w1 h1 w2 h2 w3 h3 where
    r: "run_optional now ''replica_fanout'' (wf_require_replica w)
          (map_option (\<lambda>f. f (wf_collection w) (wf_external_ids w) (wf_request_id w)) (hk_replica_fanout hk)) skip w h = (Inr w1, h1)"
    "run_optional now ''crypto_shred'' (wf_require_crypto_shred w1)
       (map_option (\<lambda>f. f (wf_external_ids w1)) (hk_crypto_shred hk)) skip w1 h1 = (Inr w2, h2)"
    "run_optional now ''document_store'' (wf_require_document_store w2)
       (map_option (\<lambda>f. f (wf_collection w2) (wf_external_ids w2)) (hk_document_store hk)) skip w2 h2 = (Inr w3, h3)"
    "run_optional now ''backup_policy'' (wf_require_backup_ack w3)
       (map_option (\<lambda>f. f (wf_collection w3) (wf_external_ids w3)) (hk_backup_ack hk)) skip w3 h3 = (Inr w', h')"
    using assms unfolding run_all_optional_def by (auto split: prod.splits sum.splits)
  have "behind w w1" by (rule run_optional_behind [OF r(1)]) (simp_all add: step_required_flags)
  moreover have "behind w1 w2" by (rule run_optional_behind [OF r(2)]) (simp_all add: step_required_flags)
  moreover have "behind w2 w3" by (rule run_optional_behind [OF r(3)]) (simp_all add: step_required_flags)
  moreover have "behind w3 w'" by (rule run_optional_behind [OF r(4)]) (simp_all add: step_required_flags)
  ultimately show ?thesis using behind_trans by metis
qed

lemma run_optional_total: "steps_inv w \<Longrightarrow> n \<in> set STEP_ORDER \<Longrightarrow> \<exists>w' h'. run_optional now n rq hook skip w h = (Inr w', h')"
proof -
  assume "steps_inv w" "n \<in> set STEP_ORDER"
  then obtain s where "wf_step w n = Inr s" using steps_found by blast
  then show ?thesis
    by (cases hook) (auto simp: run_optional_def Let_def split: prod.splits sum.splits)
qed

lemma run_all_optional_total:
  assumes "steps_inv w"
  shows "\<exists>w' h'. run_all_optional hk now skip w h = (Inr w', h')"
proof -
  note tot = run_optional_total [where now = now and skip = skip]
  obtain w1 h1 where 1: "run_optional now ''replica_fanout'' (wf_require_replica w)
          (map_option (\<lambda>f. f (wf_collection w) (wf_external_ids w) (wf_request_id w)) (hk_replica_fanout hk)) skip w h = (Inr w1, h1)"
    using tot [OF assms, of "''replica_fanout''"] by (force simp: STEP_ORDER_def)
  have i1: "steps_inv w1" using run_optional_behind [OF 1] assms by (simp add: behind_def step_required_flags)
  obtain w2 h2 where 2: "run_optional now ''crypto_shred'' (wf_require_crypto_shred w1)
       (map_option (\<lambda>f. f (wf_external_ids w1)) (hk_crypto_shred hk)) skip w1 h1 = (Inr w2, h2)"
    using tot [OF i1, of "''crypto_shred''"] by (force simp: STEP_ORDER_def)
  have i2: "steps_inv w2" using run_optional_behind [OF 2] i1 by (simp add: behind_def step_required_flags)
  obtain w3 h3 where 3: "run_optional now ''document_store'' (wf_require_document_store w2)
       (map_option (\<lambda>f. f (wf_collection w2) (wf_external_ids w2)) (hk_document_store hk)) skip w2 h2 = (Inr w3, h3)"
    using tot [OF i2, of "''document_store''"] by (force simp: STEP_ORDER_def)
  have i3: "steps_inv w3" using run_optional_behind [OF 3] i2 by (simp add: behind_def step_required_flags)
  show ?thesis using 1 2 3 tot [OF i3, of "''backup_policy''"] by (simp add: run_all_optional_def STEP_ORDER_def)
qed

text \<open>The receipt on a ticket whose live step is done.\<close>

definition carries_receipt :: "'w backend \<Rightarrow> service_config \<Rightarrow> (message \<Rightarrow> string) \<Rightarrow> erasure_workflow \<Rightarrow> bool" where
  "carries_receipt b cfg render w \<longleftrightarrow> (\<exists>r env m s s'. wf_receipt w = Some (receipt_json render r) \<and> rc_status r = complete
     \<and> delete b cfg env (wf_collection w) (wf_external_ids w) (wf_reason w) (Some (wf_request_id w)) m True None None None s = (Inr r, s'))"

definition live_inv :: "'w backend \<Rightarrow> service_config \<Rightarrow> (message \<Rightarrow> string) \<Rightarrow> erasure_workflow \<Rightarrow> bool" where
  "live_inv b cfg render w \<longleftrightarrow> wf_receipt w \<noteq> Some JNull
     \<and> (\<forall>st. wf_step w ''live_hard_delete'' = Inr st \<longrightarrow> st_status st = ''done'' \<longrightarrow> carries_receipt b cfg render w)"

lemma carries_receipt_cong:
  "same_ticket w w' \<Longrightarrow> wf_receipt w' = wf_receipt w \<Longrightarrow> carries_receipt b cfg render w' = carries_receipt b cfg render w"
  by (simp add: carries_receipt_def same_ticket_def)

lemma behind_live: "behind w w' \<Longrightarrow> live_inv b cfg render w \<Longrightarrow> live_inv b cfg render w'"
  unfolding behind_def live_inv_def using carries_receipt_cong by metis

lemma receipt_json_not_null [simp]: "receipt_json render r \<noteq> JNull"
  by (simp add: receipt_json_def)

lemma rc_success_complete:
  "delete b cfg env c ids reason rid m idem carg rp ckpt s = (Inr r, s') \<Longrightarrow> rc_success r = (rc_status r = complete)"
  by (cases rule: delete_steps, assumption) (auto dest: finish_delete_simps(3))

lemma run_live_delete_keeps:
  assumes run: "run_live_delete b cfg env render m (w, s) = (Inr w', s')"
    and inv: "steps_inv w" "live_inv b cfg render w"
  shows "same_ticket w w' \<and> wf_status w' = wf_status w \<and> steps_inv w' \<and> live_inv b cfg render w'"
proof -
  obtain st where st: "wf_step w ''live_hard_delete'' = Inr st" using steps_found [OF inv(1)] by (force simp: STEP_ORDER_def)
  show ?thesis
  proof (cases "st_status st = ''done''")
    case True
    then show ?thesis using run inv st by (simp add: run_live_delete_def)
  next
    case False
    obtain x s1 where d: "delete b cfg env (wf_collection w) (wf_external_ids w) (wf_reason w) (Some (wf_request_id w)) m True
        None None None s = (x, s1)" by fastforce
    obtain g es rc where w': "w' = (upd_step ''live_hard_delete'' g w)\<lparr>wf_errors := es, wf_receipt := rc\<rparr>" "good_upd w ''live_hard_delete'' g"
      and rc: "rc \<noteq> Some JNull" "\<And>t. st_status (g t) = ''done'' \<Longrightarrow> \<exists>r. x = Inr r \<and> rc_success r \<and> rc = Some (receipt_json render r)"
    proof (cases x)
      case (Inl e)
      then show ?thesis using run st False d inv(2)
        by (intro that [of "wf_receipt w" "wf_errors w @ [''live_hard_delete: '' @ exn_str e]"
              "\<lambda>st. st\<lparr>st_status := ''failed'', st_detail := exn_str e, st_updated_unix_ns := se_time_ns env\<rparr>"])
          (auto simp: run_live_delete_def Let_def good_upd_def live_inv_def upd_step_def)
    next
      case (Inr r)
      show ?thesis
      proof (cases "rc_success r")
        case True
        have "w' = (upd_step ''live_hard_delete'' (\<lambda>st. st\<lparr>st_status := ''done'',
                         st_detail := ''status='' @ status_str (rc_status r) @ '' compacted='' @ bool_str (rc_compacted r),
                         st_artifact := Some (JObj [(''success'', JBool (rc_success r)), (''labels'', JList (map JInt (rc_labels r))),
                            (''bytes_wiped_total'', JInt (rc_bytes_wiped_total r))]), st_updated_unix_ns := se_time_ns env\<rparr>) w)
            \<lparr>wf_errors := wf_errors w, wf_receipt := Some (receipt_json render r)\<rparr>"
          using run st False d Inr True by (auto simp: run_live_delete_def Let_def upd_step_def)
        then show ?thesis by (rule that) (use Inr True in \<open>auto simp: good_upd_def\<close>)
      next
        case f: False
        let ?det = "if join_with ''; '' (rc_errors r) = [] then status_str (rc_status r) else join_with ''; '' (rc_errors r)"
        have "w' = (upd_step ''live_hard_delete'' (\<lambda>st. st\<lparr>st_status := ''failed'', st_detail := ?det, st_updated_unix_ns := se_time_ns env\<rparr>) w)
            \<lparr>wf_errors := wf_errors w @ [''live_hard_delete: '' @ ?det], wf_receipt := Some (receipt_json render r)\<rparr>"
          using run st False d Inr f by (auto simp: run_live_delete_def Let_def upd_step_def)
        then show ?thesis by (rule that) (use Inr f in \<open>auto simp: good_upd_def\<close>)
      qed
    qed
    have same: "same_ticket w w'" using w'(1) by (simp add: same_ticket_def upd_step_def)
    have "steps_inv w'" using steps_inv_upd [OF inv(1) w'(2)] w'(1) by (subst steps_inv_cong [of _ "upd_step ''live_hard_delete'' g w"]) auto
    moreover have "carries_receipt b cfg render w'" if fin: "wf_step w' ''live_hard_delete'' = Inr t" "st_status t = ''done''" for t
    proof -
      have "wf_step w' ''live_hard_delete'' = wf_step (upd_step ''live_hard_delete'' g w) ''live_hard_delete''"
        using w'(1) by (simp add: wf_step_def)
      then obtain r where r: "x = Inr r" "rc_success r" "rc = Some (receipt_json render r)"
        using fin rc(2) [of st] st wf_step_upd [OF w'(2)] by auto
      then have "rc_status r = complete" using rc_success_complete d by metis
      moreover have "wf_receipt w' = Some (receipt_json render r)" using r(3) w'(1) by simp
      ultimately show ?thesis using d r(1) same unfolding carries_receipt_def same_ticket_def by metis
    qed
    ultimately show ?thesis using same w'(1) rc(1) by (auto simp: live_inv_def upd_step_def)
  qed
qed


lemma compute_status_live:
  "wf_step w ''live_hard_delete'' = Inr st \<Longrightarrow> compute_status w = Inr (if st_status st = ''done'' then status_of_steps w (wf_steps w)
     else if st_status st = ''failed'' then ''blocked'' else ''in_progress'')"
  by (simp add: compute_status_def)

lemma compute_status_total: "steps_inv w \<Longrightarrow> \<exists>t. compute_status w = Inr t"
proof -
  assume "steps_inv w"
  then obtain st where "wf_step w ''live_hard_delete'' = Inr st" using steps_found by (force simp: STEP_ORDER_def)
  from compute_status_live [OF this] show ?thesis by blast
qed

lemma compute_status_cong: "compute_status (w\<lparr>wf_updated_unix_ns := t\<rparr>) = compute_status w" "compute_status (w\<lparr>wf_status := u\<rparr>) = compute_status w"
proof -
  have "status_of_steps (w\<lparr>wf_updated_unix_ns := t\<rparr>) ss = status_of_steps w ss"
    "status_of_steps (w\<lparr>wf_status := u\<rparr>) ss = status_of_steps w ss" for ss
    by (induction ss) simp_all
  then show "compute_status (w\<lparr>wf_updated_unix_ns := t\<rparr>) = compute_status w" "compute_status (w\<lparr>wf_status := u\<rparr>) = compute_status w"
    by (cases "wf_step w ''live_hard_delete''"; auto simp: compute_status_def wf_step_def)+
qed

lemma status_of_steps_complete:
  "status_of_steps w ss = ''complete'' \<Longrightarrow> s \<in> set ss \<Longrightarrow>
     (st_name s = ''residual_proof'' \<longrightarrow> st_status s \<noteq> ''failed'')
     \<and> (st_name s \<noteq> ''residual_proof'' \<longrightarrow> st_name s \<noteq> ''live_hard_delete'' \<longrightarrow> step_required w (st_name s) \<longrightarrow>
          st_status s = ''done'' \<or> st_status s = ''skipped'')"
  by (induction ss) (auto split: if_splits)

definition step_done :: "erasure_workflow \<Rightarrow> string \<Rightarrow> bool" where
  "step_done w n \<longleftrightarrow> (\<exists>s. wf_step w n = Inr s \<and> st_status s = ''done'')"

lemma run_live_delete_done:
  assumes "run_live_delete b cfg env render m (w, s) = (Inr w', s')"
    and "delete b cfg env (wf_collection w) (wf_external_ids w) (wf_reason w) (Some (wf_request_id w)) m True None None None s = (Inr r, s1)"
    and "\<not> step_done w ''live_hard_delete''"
  shows "rc_success r \<Longrightarrow> step_done w' ''live_hard_delete''" "wf_receipt w' = Some (receipt_json render r)"
proof -
  obtain st where st: "wf_step w ''live_hard_delete'' = Inr st"
    using assms(1) by (auto simp: run_live_delete_def split: sum.splits)
  then have nd: "st_status st \<noteq> ''done''" using assms(3) by (simp add: step_done_def)
  let ?n = "''live_hard_delete''"
  obtain g es where w': "w' = (upd_step ?n g w)\<lparr>wf_receipt := Some (receipt_json render r), wf_errors := es\<rparr>" "good_upd w ?n g"
    "st_status (g st) = (if rc_success r then ''done'' else ''failed'')"
  proof (cases "rc_success r")
    case True
    let ?g = "\<lambda>st. st\<lparr>st_status := ''done'',
                         st_detail := ''status='' @ status_str (rc_status r) @ '' compacted='' @ bool_str (rc_compacted r),
                         st_artifact := Some (JObj [(''success'', JBool (rc_success r)), (''labels'', JList (map JInt (rc_labels r))),
                            (''bytes_wiped_total'', JInt (rc_bytes_wiped_total r))]), st_updated_unix_ns := se_time_ns env\<rparr>"
    show ?thesis using assms(1,2) st nd True
      by (intro that [of "wf_errors w" ?g]) (auto simp: run_live_delete_def Let_def good_upd_def upd_step_def)
  next
    case False
    let ?d = "if join_with ''; '' (rc_errors r) = [] then status_str (rc_status r) else join_with ''; '' (rc_errors r)"
    let ?g = "\<lambda>st. st\<lparr>st_status := ''failed'', st_detail := ?d, st_updated_unix_ns := se_time_ns env\<rparr>"
    show ?thesis using assms(1,2) st nd False
      by (intro that [of "wf_errors w @ [''live_hard_delete: '' @ ?d]" ?g]) (auto simp: run_live_delete_def Let_def good_upd_def upd_step_def)
  qed
  have "wf_step w' ?n = wf_step (upd_step ?n g w) ?n" using w'(1) by (simp add: wf_step_def)
  then have f: "wf_step w' ?n = Inr (g st)" using wf_step_upd [OF w'(2)] st by simp
  then show "rc_success r \<Longrightarrow> step_done w' ?n" using w'(3) by (simp add: step_done_def)
  show "wf_receipt w' = Some (receipt_json render r)" using w'(1) by simp
qed

definition step_failed :: "erasure_workflow \<Rightarrow> string \<Rightarrow> bool" where
  "step_failed w n \<longleftrightarrow> (\<exists>s. wf_step w n = Inr s \<and> st_status s = ''failed'')"

lemma failed_not_done: "step_failed w n \<Longrightarrow> \<not> step_done w n"
  by (auto simp: step_failed_def step_done_def)

lemma failed_blocks: "step_failed w ''live_hard_delete'' \<Longrightarrow> compute_status w = Inr ''blocked''"
  unfolding step_failed_def using compute_status_live by fastforce

lemma run_live_delete_fails:
  assumes run: "run_live_delete b cfg env render m (w, s) = (Inr w', s')"
    and del: "delete b cfg env (wf_collection w) (wf_external_ids w) (wf_reason w) (Some (wf_request_id w)) m True None None None s = (x, s1)"
    and "\<not> step_done w ''live_hard_delete''" and "\<And>r. x = Inr r \<Longrightarrow> \<not> rc_success r"
  shows "step_failed w' ''live_hard_delete''" "s' = s1"
proof -
  obtain st where st: "wf_step w ''live_hard_delete'' = Inr st"
    using run by (auto simp: run_live_delete_def split: sum.splits)
  then have nd: "st_status st \<noteq> ''done''" using assms(3) by (simp add: step_done_def)
  let ?n = "''live_hard_delete''"
  obtain g es rc where w': "w' = (upd_step ?n g w)\<lparr>wf_receipt := rc, wf_errors := es\<rparr>" "good_upd w ?n g" "st_status (g st) = ''failed''"
  proof (cases x)
    case (Inl e)
    then show ?thesis using run del st nd
      by (intro that [of "wf_errors w @ [''live_hard_delete: '' @ exn_str e]" "wf_receipt w"
            "\<lambda>st. st\<lparr>st_status := ''failed'', st_detail := exn_str e, st_updated_unix_ns := se_time_ns env\<rparr>"])
        (auto simp: run_live_delete_def Let_def good_upd_def upd_step_def)
  next
    case (Inr r)
    let ?d = "if join_with ''; '' (rc_errors r) = [] then status_str (rc_status r) else join_with ''; '' (rc_errors r)"
    show ?thesis using run del st nd Inr assms(4) [OF Inr]
      by (intro that [of "wf_errors w @ [''live_hard_delete: '' @ ?d]" "Some (receipt_json render r)"
            "\<lambda>st. st\<lparr>st_status := ''failed'', st_detail := ?d, st_updated_unix_ns := se_time_ns env\<rparr>"])
        (auto simp: run_live_delete_def Let_def good_upd_def upd_step_def)
  qed
  have "wf_step w' ?n = wf_step (upd_step ?n g w) ?n" using w'(1) by (simp add: wf_step_def)
  then show "step_failed w' ?n" using wf_step_upd [OF w'(2)] st w'(3) by (simp add: step_failed_def)
  show "s' = s1" using run del st nd by (auto simp: run_live_delete_def Let_def split: if_splits sum.splits)
qed

lemma run_live_delete_service:
  "run_live_delete b cfg env render m (w, s) = (y, s') \<Longrightarrow>
     s' = s \<or> (\<exists>x. delete b cfg env (wf_collection w) (wf_external_ids w) (wf_reason w) (Some (wf_request_id w)) m True None None None s = (x, s'))"
  by (auto simp: run_live_delete_def Let_def split: sum.splits prod.splits if_splits)

section \<open>Reading a ticket back\<close>

definition json_proper :: "erasure_workflow \<Rightarrow> bool" where
  "json_proper w \<longleftrightarrow> wf_steps w \<noteq> [] \<and> wf_receipt w \<noteq> Some JNull \<and> (\<forall>s\<in>set (wf_steps w). st_artifact s \<noteq> Some JNull)"

lemma as_opt_jopt [simp]: "x \<noteq> Some JNull \<Longrightarrow> as_opt (jopt id x) = x"
  by (cases x) (auto simp: as_opt_def jopt_def)

lemma dget_Cons: "dget ((k, v) # d) j = (if j = k then Some v else dget d j)"
  by (simp add: dget_def)

lemma step_roundtrip: "st_artifact s \<noteq> Some JNull \<Longrightarrow> step_from_dict (step_to_dict s) = Inr s"
  by (simp add: step_from_dict_def step_to_dict_def req_def get_or_def dget_Cons)

lemma as_opt_str_jopt [simp]: "as_opt_str (jopt JStr r) = Inr r"
  by (cases r) (simp_all add: jopt_def)

lemma wf_roundtrip: "json_proper w \<Longrightarrow> wf_from_dict (wf_to_dict w) = Inr w"
proof -
  assume ok: "json_proper w"
  have st: "map_res step_from_dict (map step_to_dict (wf_steps w)) = Inr (wf_steps w)"
    using ok by (intro map_res_id) (simp add: step_roundtrip json_proper_def)
  have str: "map_res as_str (map JStr xs) = Inr xs" for xs by (rule map_res_id) simp
  show ?thesis using ok st str
    by (simp add: wf_from_dict_def wf_to_dict_def req_def get_or_def dget_Cons json_proper_def)
qed

lemma steps_inv_proper: "steps_inv w \<Longrightarrow> live_inv b cfg render w \<Longrightarrow> json_proper w"
  by (auto simp: steps_inv_def live_inv_def json_proper_def STEP_ORDER_def)

section \<open>Sequences of operations\<close>

text \<open>The tickets in the directory: each file holds the JSON of a ticket in order, at its own path.\<close>

definition ticket_inv :: "'w backend \<Rightarrow> service_config \<Rightarrow> (message \<Rightarrow> string) \<Rightarrow> erasure_workflow \<Rightarrow> bool" where
  "ticket_inv b cfg render w \<longleftrightarrow> steps_inv w \<and> live_inv b cfg render w
     \<and> (wf_status w = ''complete'' \<longrightarrow> compute_status w = Inr ''complete'')"

definition files_inv :: "'w backend \<Rightarrow> service_config \<Rightarrow> (message \<Rightarrow> string) \<Rightarrow> wf_files \<Rightarrow> bool" where
  "files_inv b cfg render files \<longleftrightarrow>
     (\<forall>k j. dget files k = Some j \<longrightarrow> (\<exists>w. j = wf_to_dict w \<and> path_for (wf_request_id w) = k \<and> ticket_inv b cfg render w))"

text \<open>Creating and advancing tickets, in any environment and with any hooks, and any other use of the service
  in between.\<close>

inductive runner_step :: "'w backend \<Rightarrow> service_config \<Rightarrow> (message \<Rightarrow> string) \<Rightarrow> ('w, 'h) runner \<Rightarrow> ('w, 'h) runner \<Rightarrow> bool"
  for b cfg render where
  create: "wf_create env c ids reason rid rr rs rd rb st = (w, st') \<Longrightarrow> runner_step b cfg render st st'"
| advance: "advance b cfg env render hk rid m skip st = (x, st') \<Longrightarrow> runner_step b cfg render st st'"
| other: "wr_files st' = wr_files st \<Longrightarrow> runner_step b cfg render st st'"

lemma load_inv:
  assumes "files_inv b cfg render files" "store_load rid files = Inr w"
  shows "ticket_inv b cfg render w \<and> path_for (wf_request_id w) = path_for rid"
proof -
  obtain j where j: "dget files (path_for rid) = Some j" "wf_from_dict j = Inr w"
    using assms(2) by (auto simp: store_load_def split: option.splits)
  then obtain w0 where w0: "j = wf_to_dict w0" "path_for (wf_request_id w0) = path_for rid" "ticket_inv b cfg render w0"
    using assms(1) unfolding files_inv_def by blast
  then have "wf_from_dict j = Inr w0" using wf_roundtrip steps_inv_proper unfolding ticket_inv_def by blast
  then show ?thesis using j w0 by simp
qed

lemma save_inv:
  assumes "files_inv b cfg render files" "ticket_inv b cfg render w" "store_save now w files = (w', files')"
  shows "files_inv b cfg render files' \<and> ticket_inv b cfg render w'"
proof -
  have w': "w' = w\<lparr>wf_updated_unix_ns := now\<rparr>" "files' = dset (path_for (wf_request_id w')) (wf_to_dict w') files"
    using assms(3) by (auto simp: store_save_def Let_def)
  have "steps_inv w' = steps_inv w" using w'(1) by (intro steps_inv_cong) simp_all
  moreover have "compute_status w' = compute_status w" using w'(1) compute_status_cong by simp
  moreover have "live_inv b cfg render w' = live_inv b cfg render w"
    using w'(1) by (simp add: live_inv_def carries_receipt_def wf_step_def)
  ultimately have "ticket_inv b cfg render w'" using assms(2) w'(1) by (simp add: ticket_inv_def)
  then show ?thesis using assms(1) w'(2) by (auto simp: files_inv_def)
qed


text \<open>The shape of an advance that gets past loading.\<close>

lemma advance_cases:
  assumes "advance b cfg env render hk rid m skip st = (x, st')"
    and "\<forall>w. store_load rid (wr_files st) = Inr w \<longrightarrow> ticket_inv b cfg render w"
  obtains (stuck) "wr_files st' = wr_files st" "wr_service st' = wr_service st" "\<forall>w. store_load rid (wr_files st) = Inr w \<longrightarrow> wf_status w = ''complete'' \<and> x = Inr w"
  | (ran) w0 w1 s1 w2 w3 h t where "store_load rid (wr_files st) = Inr w0" "wf_status w0 \<noteq> ''complete''"
      "run_live_delete b cfg env render m (w0\<lparr>wf_status := ''in_progress''\<rparr>, wr_service st) = (Inr w1, s1)"
      "mirror_residual_from_receipt (se_time_ns env) w1 = Inr w2"
      "run_all_optional hk (se_time_ns env) skip w2 (wr_world st) = (Inr w3, h)"
      "behind w1 w2" "behind w2 w3" "compute_status w3 = Inr t" "steps_inv w3" "live_inv b cfg render w3" "same_ticket w0 w3"
      "ticket_inv b cfg render w0"
      "x = Inr (fst (store_save (se_time_ns env) (w3\<lparr>wf_status := t\<rparr>) (wr_files st)))"
      "wr_files st' = snd (store_save (se_time_ns env) (w3\<lparr>wf_status := t\<rparr>) (wr_files st))"
      "wr_service st' = wf_metrics t s1"
proof (cases "store_load rid (wr_files st)")
  case (Inl e)
  then have "x = Inl e" "st' = st" using assms(1) by (auto simp: advance_def)
  then show ?thesis using stuck Inl by simp
next
  case (Inr w0)
  have inv0: "ticket_inv b cfg render w0" using assms(2) Inr by blast
  show ?thesis
  proof (cases "wf_status w0 = ''complete''")
    case True
    then have "x = Inr w0" "st' = st" using assms(1) Inr by (auto simp: advance_def)
    then show ?thesis using stuck Inr True by simp
  next
    case False
    let ?w = "w0\<lparr>wf_status := ''in_progress''\<rparr>"
    have i: "steps_inv ?w" "live_inv b cfg render ?w"
      using inv0 steps_inv_cong [of ?w w0] by (simp_all add: ticket_inv_def live_inv_def carries_receipt_def wf_step_def)
    obtain y s1 where l: "run_live_delete b cfg env render m (?w, wr_service st) = (y, s1)" by fastforce
    obtain lst where "wf_step ?w ''live_hard_delete'' = Inr lst" using steps_found [OF i(1)] by (force simp: STEP_ORDER_def)
    then obtain w1 where w1: "y = Inr w1" using l
      by (auto simp: run_live_delete_def Let_def split: if_splits prod.splits sum.splits)
    note k = run_live_delete_keeps [OF l [unfolded w1] i]
    obtain w2 where w2: "mirror_residual_from_receipt (se_time_ns env) w1 = Inr w2" using mirror_total k by blast
    have b2: "behind w1 w2" using behind_touches [OF mirror_touches [OF w2]] by simp
    then have i2: "steps_inv w2" using k by (simp add: behind_def)
    obtain w3 h where w3: "run_all_optional hk (se_time_ns env) skip w2 (wr_world st) = (Inr w3, h)"
      using run_all_optional_total [OF i2, of hk "se_time_ns env" skip "wr_world st"] by blast
    have b23: "behind w2 w3" using run_all_optional_behind [OF w3] .
    have b3: "behind w1 w3" using behind_trans [OF b2 b23] .
    then have i3: "steps_inv w3" "live_inv b cfg render w3" using k behind_live [OF b3, of b cfg render] by (simp_all add: behind_def)
    obtain t where t: "compute_status w3 = Inr t" using compute_status_total [OF i3(1)] by blast
    have same: "same_ticket w0 w3"
      using k b3 by (simp add: behind_def same_ticket_def)
    show ?thesis
      using assms(1) Inr False l w1 w2 w3 t by (intro ran [OF Inr False _ w2 w3 b2 b23 t i3 same inv0]) (auto simp: advance_def Let_def split: prod.splits)
  qed
qed


lemma runner_step_inv:
  assumes "runner_step b cfg render st st'" "files_inv b cfg render (wr_files st)"
  shows "files_inv b cfg render (wr_files st')"
  using assms(1)
proof cases
  case (create env c ids reason rid rr rs rd rb w)
  let ?rid = "case rid of None \<Rightarrow> se_uuid env | Some q \<Rightarrow> if q = [] then se_uuid env else q"
  let ?w = "\<lparr>wf_request_id = ?rid, wf_collection = c, wf_external_ids = ids, wf_reason = reason, wf_status = ''open'',
               wf_created_unix_ns = se_time_ns env, wf_updated_unix_ns = se_time_ns env, wf_steps = map new_step STEP_ORDER,
               wf_receipt = None, wf_errors = [], wf_require_replica = rr, wf_require_crypto_shred = rs,
               wf_require_document_store = rd, wf_require_backup_ack = rb\<rparr>"
  have "ticket_inv b cfg render ?w"
    by (simp add: ticket_inv_def steps_inv_def live_inv_def wf_step_def STEP_ORDER_def new_step_def)
  then show ?thesis using save_inv [OF assms(2)] create by (auto simp: wf_create_def Let_def split: prod.splits)
next
  case (advance env hk rid m skip x)
  have "\<forall>w. store_load rid (wr_files st) = Inr w \<longrightarrow> ticket_inv b cfg render w" using load_inv [OF assms(2)] by blast
  with advance show ?thesis
  proof (cases rule: advance_cases)
    case stuck
    then show ?thesis using assms(2) by simp
  next
    case (ran w0 w1 s1 w2 w3 h t)
    have "ticket_inv b cfg render (w3\<lparr>wf_status := t\<rparr>)"
      using ran(8,9,10) steps_inv_cong [of "w3\<lparr>wf_status := t\<rparr>" w3] compute_status_cong
      by (simp add: ticket_inv_def live_inv_def carries_receipt_def wf_step_def)
    from save_inv [OF assms(2) this] ran(14) show ?thesis by (metis prod.collapse)
  qed
next
  case other
  then show ?thesis using assms(2) by simp
qed

lemma runner_reach_inv:
  "(runner_step b cfg render)\<^sup>*\<^sup>* st st' \<Longrightarrow> wr_files st = [] \<Longrightarrow> files_inv b cfg render (wr_files st')"
  by (induction rule: rtranclp_induct) (auto simp: files_inv_def dest: runner_step_inv)

text \<open>A delete only ever removes mappings, also when it raises.\<close>

lemma delete_only_removes:
  assumes "reg_ok (sv_registry s)" "delete b cfg env c ids reason rid m idem carg rp ckpt s = (x, s')"
  shows "reg_ok (sv_registry s') \<and> (\<forall>d y l. id_view (sv_registry s') d y = Some l \<longrightarrow> id_view (sv_registry s) d y = Some l)"
proof -
  obtain k ms where p: "plan_compact b cfg (se_environ env) c (clean_ids ids) carg s = (k, ms)" by fastforce
  let ?need = "proof_mode_of cfg (se_environ env) rp \<noteq> ''off'' \<and> bk_get_vector b \<noteq> None"
  obtain e s1 bt1 where l: "erase_loop b cfg idem ?need c m (clean_ids ids) (s, empty_batch ms) = (e, s1, bt1)"
    by (metis prod.collapse)
  have s': "sv_registry s' = sv_registry s \<or> sv_registry s' = sv_registry s1"
    using assms(2) p l unfolding delete_def Let_def
    by (auto split: sum.splits option.splits prod.splits dest!: compact_block_keeps(1) finish_delete_simps(6))
  have "loop_inv (sv_registry s) cfg c (s1, bt1)" using loop_facts [OF loop_inv_start [OF assms(1)] l] by blast
  then show ?thesis using s' assms(1) by (auto simp: loop_inv_def)
qed


section \<open>Completion\<close>

lemma complete_proof_not_failed:
  assumes "delete b cfg env c ids reason rid m idem carg rp ckpt s = (Inr r, s')" "rc_status r = complete" "reg_ok (sv_registry s)"
  shows "rs_passed (rc_residual_proof r) \<noteq> Some False"
proof -
  have errs: "clean_ids ids \<noteq> [] \<longrightarrow> rc_errors r = []" and lab: "length (rc_labels r) = length (clean_ids ids)"
    using delete_registry [OF assms(3,1)] assms(2) by (auto dest: list_all2_lengthD)
  from assms(1) show ?thesis
  proof (cases rule: delete_steps)
    case (1 ms mode s1 bt1 cp df s2 bt2 sm need)
    note fd = finish_delete_simps [OF 1(4)]
    have "clean_ids ids = [] \<or> proof_mode_of cfg (se_environ env) rp = ''off'' \<or> rs_passed sm \<noteq> Some False"
      using errs fd(8) by auto
    then have "rs_passed sm \<noteq> Some False" using 1(3) lab fd(1) by (auto simp: run_residual_proofs_def)
    then show ?thesis using fd(4) by simp
  qed
qed

lemma status_of_steps_completeI:
  "\<forall>s\<in>set ss. (st_name s = ''residual_proof'' \<longrightarrow> st_status s \<noteq> ''failed'')
      \<and> (st_name s \<noteq> ''residual_proof'' \<longrightarrow> step_required w (st_name s) \<longrightarrow> st_status s = ''done'')
   \<Longrightarrow> status_of_steps w ss = ''complete''"
  by (induction ss) auto

text \<open>A hook that is required exists and does not raise.\<close>

definition hook_ok :: "('h \<Rightarrow> json res \<times> 'h) option \<Rightarrow> bool" where
  "hook_ok hook \<longleftrightarrow> (\<exists>f. hook = Some f \<and> (\<forall>h. \<exists>a h'. f h = (Inr a, h')))"

lemma run_optional_done:
  assumes "run_optional now n rq hook skip w h = (Inr w', h')" "rq \<Longrightarrow> hook_ok hook" "rq"
  shows "step_done w' n"
proof -
  obtain f where f: "hook = Some f" "\<forall>h. \<exists>a h'. f h = (Inr a, h')" using assms(2,3) by (auto simp: hook_ok_def)
  then obtain a h1 where fh: "f h = (Inr a, h1)" by blast
  obtain st where st: "wf_step w n = Inr st" using assms(1) by (auto simp: run_optional_def split: sum.splits)
  show ?thesis
  proof (cases "st_status st = ''done''")
    case True
    then show ?thesis using assms(1) st by (simp add: run_optional_def step_done_def)
  next
    case False
    let ?g = "\<lambda>st. st\<lparr>st_artifact := as_opt a, st_status := ''done'', st_detail := ''ok'', st_updated_unix_ns := now\<rparr>"
    have w': "w' = upd_step n ?g w" using assms(1,3) st False f fh by (simp add: run_optional_def Let_def)
    have "good_upd w n ?g" by (simp add: good_upd_def)
    then show ?thesis using wf_step_upd w' st by (simp add: step_done_def)
  qed
qed

lemma step_done_touches: "touches n w w' \<Longrightarrow> m \<noteq> n \<Longrightarrow> step_done w' m = step_done w m"
  using touches_keeps(5) [of n w w' m] by (simp add: step_done_def)

lemma run_all_optional_done:
  assumes "run_all_optional hk now skip w h = (Inr w', h')"
    and "wf_require_replica w \<Longrightarrow> hook_ok (map_option (\<lambda>f. f (wf_collection w) (wf_external_ids w) (wf_request_id w)) (hk_replica_fanout hk))"
    and "wf_require_crypto_shred w \<Longrightarrow> hook_ok (map_option (\<lambda>f. f (wf_external_ids w)) (hk_crypto_shred hk))"
    and "wf_require_document_store w \<Longrightarrow> hook_ok (map_option (\<lambda>f. f (wf_collection w) (wf_external_ids w)) (hk_document_store hk))"
    and "wf_require_backup_ack w \<Longrightarrow> hook_ok (map_option (\<lambda>f. f (wf_collection w) (wf_external_ids w)) (hk_backup_ack hk))"
  shows "\<forall>n\<in>{''replica_fanout'', ''crypto_shred'', ''document_store'', ''backup_policy''}. step_required w n \<longrightarrow> step_done w' n"
    and "wf_step w' ''residual_proof'' = wf_step w ''residual_proof''"
proof -
  obtain w1 h1 w2 h2 w3 h3 where
    r: "run_optional now ''replica_fanout'' (wf_require_replica w)
          (map_option (\<lambda>f. f (wf_collection w) (wf_external_ids w) (wf_request_id w)) (hk_replica_fanout hk)) skip w h = (Inr w1, h1)"
    "run_optional now ''crypto_shred'' (wf_require_crypto_shred w1)
       (map_option (\<lambda>f. f (wf_external_ids w1)) (hk_crypto_shred hk)) skip w1 h1 = (Inr w2, h2)"
    "run_optional now ''document_store'' (wf_require_document_store w2)
       (map_option (\<lambda>f. f (wf_collection w2) (wf_external_ids w2)) (hk_document_store hk)) skip w2 h2 = (Inr w3, h3)"
    "run_optional now ''backup_policy'' (wf_require_backup_ack w3)
       (map_option (\<lambda>f. f (wf_collection w3) (wf_external_ids w3)) (hk_backup_ack hk)) skip w3 h3 = (Inr w', h')"
    using assms(1) unfolding run_all_optional_def by (auto split: prod.splits sum.splits)
  note fl = step_required_flags [symmetric]
  have t: "touches ''replica_fanout'' w w1" "touches ''crypto_shred'' w1 w2" "touches ''document_store'' w2 w3"
    "touches ''backup_policy'' w3 w'"
    using r [THEN run_optional_touches] by (simp_all add: fl)
  note same = t [THEN touches_keeps(1)]
  have sq: "step_required w1 = step_required w" "step_required w2 = step_required w" "step_required w3 = step_required w"
    and ids: "wf_external_ids w1 = wf_external_ids w" "wf_external_ids w2 = wf_external_ids w" "wf_external_ids w3 = wf_external_ids w"
      "wf_collection w2 = wf_collection w" "wf_collection w3 = wf_collection w"
    using same by (simp_all add: same_ticket_def)
  note keep = step_done_touches
  have "step_required w ''replica_fanout'' \<Longrightarrow> step_done w1 ''replica_fanout''"
    using run_optional_done [OF r(1)] assms(2) by (simp add: fl)
  then have 1: "step_required w ''replica_fanout'' \<Longrightarrow> step_done w' ''replica_fanout''" using t keep by simp
  have "step_required w ''crypto_shred'' \<Longrightarrow> step_done w2 ''crypto_shred''"
    using run_optional_done [OF r(2)] assms(3) by (simp add: fl sq ids)
  then have 2: "step_required w ''crypto_shred'' \<Longrightarrow> step_done w' ''crypto_shred''" using t keep by simp
  have "step_required w ''document_store'' \<Longrightarrow> step_done w3 ''document_store''"
    using run_optional_done [OF r(3)] assms(4) by (simp add: fl sq ids)
  then have 3: "step_required w ''document_store'' \<Longrightarrow> step_done w' ''document_store''" using t keep by simp
  have "step_required w ''backup_policy'' \<Longrightarrow> step_done w' ''backup_policy''"
    using run_optional_done [OF r(4)] assms(5) by (simp add: fl sq ids)
  with 1 2 3 show "\<forall>n\<in>{''replica_fanout'', ''crypto_shred'', ''document_store'', ''backup_policy''}. step_required w n \<longrightarrow> step_done w' n"
    by blast
  show "wf_step w' ''residual_proof'' = wf_step w ''residual_proof''" using t [THEN touches_keeps(5)] by simp
qed


lemma mirror_not_failed:
  assumes "mirror_residual_from_receipt now w = Inr w'" "wf_receipt w = Some (receipt_json render r)"
    and "rs_passed (rc_residual_proof r) \<noteq> Some False" "wf_step w' ''residual_proof'' = Inr t"
  shows "st_status t \<noteq> ''failed''"
proof -
  obtain st where st: "wf_step w ''residual_proof'' = Inr st"
    using assms(1) by (auto simp: mirror_residual_from_receipt_def)
  have p: "receipt_proof w = [(''mode'', JStr (rs_mode (rc_residual_proof r))), (''passed'', jopt JBool (rs_passed (rc_residual_proof r))),
      (''checked'', JInt (int (rs_checked (rc_residual_proof r)))), (''failed'', JInt (int (rs_failed (rc_residual_proof r)))),
      (''proofs'', JList (map proof_json (rs_proofs (rc_residual_proof r)))), (''details'', JStr (rs_details (rc_residual_proof r)))]"
    using assms(2) by (simp add: receipt_proof_def receipt_json_def summary_json_def get_or_def dget_Cons)
  have f: "dget (receipt_proof w) ''passed'' \<noteq> Some (JBool False)"
    using assms(3) by (auto simp: p dget_Cons jopt_def split: option.splits)
  consider (same) "st_status st = ''done''" "w' = w"
    | (upd) g where "w' = upd_step ''residual_proof'' g w" "good_upd w ''residual_proof'' g" "st_status (g st) \<noteq> ''failed''"
    using assms(1) st f unfolding mirror_residual_from_receipt_def Let_def
    by (cases "st_status st = ''done''"; cases "get_or (receipt_proof w) ''mode'' (JStr ''off'') = JStr ''off''";
        cases "dget (receipt_proof w) ''passed'' = Some (JBool True)") (auto simp: good_upd_def)
  then show ?thesis
  proof cases
    case same
    then show ?thesis using assms(4) st by simp
  next
    case upd
    then show ?thesis using assms(4) st wf_step_upd [OF upd(2)] by simp
  qed
qed

lemma compute_status_completeI:
  assumes "steps_inv w" "step_done w ''live_hard_delete''"
    and "\<And>t. wf_step w ''residual_proof'' = Inr t \<Longrightarrow> st_status t \<noteq> ''failed''"
    and "\<forall>n\<in>{''replica_fanout'', ''crypto_shred'', ''document_store'', ''backup_policy''}. step_required w n \<longrightarrow> step_done w n"
  shows "compute_status w = Inr ''complete''"
proof -
  have uniq: "wf_step w (st_name s) = Inr s" if "s \<in> set (wf_steps w)" for s
    using assms(1) that STEP_ORDER_distinct find_step_unique by (metis steps_inv_def wf_step_def)
  have names: "st_name s \<in> set STEP_ORDER" if "s \<in> set (wf_steps w)" for s
    using assms(1) that by (metis steps_inv_def image_eqI set_map)
  have "status_of_steps w (wf_steps w) = ''complete''"
  proof (rule status_of_steps_completeI, intro ballI conjI impI)
    fix s assume s: "s \<in> set (wf_steps w)"
    show "st_name s = ''residual_proof'' \<Longrightarrow> st_status s \<noteq> ''failed''" using uniq [OF s] assms(3) by simp
    assume n: "st_name s \<noteq> ''residual_proof''" "step_required w (st_name s)"
    then have "st_name s \<in> {''live_hard_delete'', ''replica_fanout'', ''crypto_shred'', ''document_store'', ''backup_policy''}"
      using names [OF s] by (auto simp: STEP_ORDER_def)
    then have "step_done w (st_name s)" using assms(2,4) n(2) by auto
    then show "st_status s = ''done''" using uniq [OF s] by (simp add: step_done_def)
  qed
  moreover obtain s where "wf_step w ''live_hard_delete'' = Inr s" "st_status s = ''done''" using assms(2) by (auto simp: step_done_def)
  ultimately show ?thesis using compute_status_live by simp
qed


section \<open>Retrying a ticket\<close>

text \<open>A ticket with an id that the registry does not know, and whose live step is not done.\<close>

definition hopeless :: "string \<Rightarrow> string \<Rightarrow> ('w, 'h) runner \<Rightarrow> bool" where
  "hopeless rid x st \<longleftrightarrow> reg_ok (sv_registry (wr_service st))
     \<and> (\<exists>w. store_load rid (wr_files st) = Inr w \<and> \<not> step_done w ''live_hard_delete'' \<and> x \<in> set (clean_ids (wf_external_ids w))
          \<and> id_view (sv_registry (wr_service st)) (wf_collection w) x = None)"

lemma unknown_id_never_complete:
  assumes "reg_ok (sv_registry s)" "x \<in> set (clean_ids ids)" "id_view (sv_registry s) c x = None"
    and "delete b cfg env c ids reason rid m idem carg rp ckpt s = (Inr r, s')"
  shows "\<not> rc_success r"
proof
  assume "rc_success r"
  then have "list_all2 (\<lambda>l x. id_view (sv_registry s) c x = Some l) (rc_labels r) (clean_ids ids)"
    using delete_registry [OF assms(1,4)] rc_success_complete [OF assms(4)] by simp
  then show False using assms(2,3) by (auto simp: list_all2_conv_all_nth in_set_conv_nth)
qed

lemma wf_metrics_simps [simp]: "sv_registry (wf_metrics t s) = sv_registry s"
  by (simp add: wf_metrics_def Let_def)

lemma store_load_path: "path_for r = path_for q \<Longrightarrow> store_load r files = Inr w \<Longrightarrow> store_load q files = Inr w"
  by (auto simp: store_load_def split: option.splits)

lemma store_load_save:
  assumes "json_proper w" "store_save now w files = (w', files')"
  shows "w' = w\<lparr>wf_updated_unix_ns := now\<rparr>"
    "store_load q files' = (if path_for q = path_for (wf_request_id w) then Inr w' else store_load q files)"
proof -
  show w': "w' = w\<lparr>wf_updated_unix_ns := now\<rparr>" using assms(2) by (simp add: store_save_def Let_def)
  have "wf_from_dict (wf_to_dict w') = Inr w'" using assms(1) w' by (intro wf_roundtrip) (simp add: json_proper_def)
  then show "store_load q files' = (if path_for q = path_for (wf_request_id w) then Inr w' else store_load q files)"
    using assms(2) w' by (auto simp: store_save_def Let_def store_load_def)
qed

lemma advance_hopeless:
  assumes adv: "advance b cfg env render hk q m skip st = (y, st')"
    and fi: "files_inv b cfg render (wr_files st)" and h: "hopeless rid x st"
  shows "hopeless rid x st' \<and> (path_for q = path_for rid \<longrightarrow> (\<exists>w'. y = Inr w' \<and> wf_status w' = ''blocked''))"
proof -
  obtain w where w: "reg_ok (sv_registry (wr_service st))" "store_load rid (wr_files st) = Inr w" "\<not> step_done w ''live_hard_delete''"
    "x \<in> set (clean_ids (wf_external_ids w))" "id_view (sv_registry (wr_service st)) (wf_collection w) x = None"
    using h by (auto simp: hopeless_def)
  have ti: "ticket_inv b cfg render w" using load_inv [OF fi w(2)] by blast
  then have nc: "wf_status w \<noteq> ''complete''"
    using w(3) by (auto simp: ticket_inv_def compute_status_def step_done_def split: if_splits)
  have "\<forall>w. store_load q (wr_files st) = Inr w \<longrightarrow> ticket_inv b cfg render w" using load_inv [OF fi] by blast
  with adv show ?thesis
  proof (cases rule: advance_cases)
    case stuck
    have "path_for q \<noteq> path_for rid" using stuck(3) nc w(2) store_load_path [of rid q "wr_files st" w] by auto
    then show ?thesis using h stuck(1,2) by (simp add: hopeless_def)
  next
    case (ran w0 w1 s1 w2 w3 h' t)
    let ?w = "w0\<lparr>wf_status := ''in_progress''\<rparr>"
    have "reg_ok (sv_registry s1) \<and> id_view (sv_registry s1) (wf_collection w) x = None"
      using run_live_delete_service [OF ran(3)]
    proof
      assume "s1 = wr_service st"
      then show ?thesis using w(1,5) by simp
    next
      assume "\<exists>z. delete b cfg env (wf_collection ?w) (wf_external_ids ?w) (wf_reason ?w) (Some (wf_request_id ?w)) m True
          None None None (wr_service st) = (z, s1)"
      then obtain z where "delete b cfg env (wf_collection ?w) (wf_external_ids ?w) (wf_reason ?w) (Some (wf_request_id ?w)) m True
          None None None (wr_service st) = (z, s1)" by blast
      from delete_only_removes [OF w(1) this] show ?thesis
        using w(5) by (cases "id_view (sv_registry s1) (wf_collection w) x") auto
    qed
    then have reg: "reg_ok (sv_registry s1)" "id_view (sv_registry s1) (wf_collection w) x = None" by simp_all
    obtain v files' where sv: "store_save (se_time_ns env) (w3\<lparr>wf_status := t\<rparr>) (wr_files st) = (v, files')" by fastforce
    have "json_proper (w3\<lparr>wf_status := t\<rparr>)" using steps_inv_proper [OF ran(9,10)] by (simp add: json_proper_def)
    note ls = store_load_save [OF this sv]
    have f': "wr_files st' = files'" "y = Inr v" "sv_registry (wr_service st') = sv_registry s1" using ran(13,14,15) sv by simp_all
    have pth: "path_for (wf_request_id w3) = path_for q" using ran(11) load_inv [OF fi ran(1)] by (simp add: same_ticket_def)
    show ?thesis
    proof (cases "path_for q = path_for rid")
      case False
      then have "store_load rid (wr_files st') = Inr w" using ls(2) [of rid] f'(1) pth w(2) by simp
      then show ?thesis using reg w(3,4) f'(3) False by (auto simp: hopeless_def)
    next
      case True
      then have w0: "w0 = w" using ran(1) w(2) store_load_path [of rid q] by simp
      obtain z s2 where z: "delete b cfg env (wf_collection ?w) (wf_external_ids ?w) (wf_reason ?w) (Some (wf_request_id ?w)) m True
          None None None (wr_service st) = (z, s2)" by fastforce
      have "\<not> rc_success r" if "z = Inr r" for r using unknown_id_never_complete [OF w(1,4,5)] z that w0 by simp
      moreover have "\<not> step_done ?w ''live_hard_delete''" using w(3) w0 by (simp add: step_done_def wf_step_def)
      ultimately have "step_failed w1 ''live_hard_delete''" using run_live_delete_fails(1) [OF ran(3) z] by blast
      then have f3: "step_failed w3 ''live_hard_delete''" using ran(6,7) by (simp add: step_failed_def behind_def)
      have t: "t = ''blocked''" using failed_blocks [OF f3] ran(8) by simp
      have "step_failed v ''live_hard_delete''" using f3 ls(1) by (simp add: step_failed_def wf_step_def)
      moreover have "store_load rid (wr_files st') = Inr v" using ls(2) [of rid] f'(1) pth True by simp
      moreover have "wf_external_ids v = wf_external_ids w" "wf_collection v = wf_collection w"
        using ls(1) ran(11) w0 by (simp_all add: same_ticket_def)
      ultimately have "hopeless rid x st'" using failed_not_done reg w(4) f'(3) unfolding hopeless_def by auto
      then show ?thesis using f'(2) ls(1) t by simp
    qed
  qed
qed

lemma fresh_advance:
  assumes "wf_create env0 c ids reason rid rr rs rd rb st = (w, st1)"
    and "delete b cfg env c ids reason (Some (wf_request_id w)) m True None None None (wr_service st1) = (Inr r, s')"
    and "rc_status r = complete" and "reg_ok (sv_registry (wr_service st1))"
    and "rr \<Longrightarrow> hook_ok (map_option (\<lambda>f. f c ids (wf_request_id w)) (hk_replica_fanout hk))"
    and "rs \<Longrightarrow> hook_ok (map_option (\<lambda>f. f ids) (hk_crypto_shred hk))"
    and "rd \<Longrightarrow> hook_ok (map_option (\<lambda>f. f c ids) (hk_document_store hk))"
    and "rb \<Longrightarrow> hook_ok (map_option (\<lambda>f. f c ids) (hk_backup_ack hk))"
  shows "\<exists>w' st2. advance b cfg env render hk (wf_request_id w) m skip st1 = (Inr w', st2) \<and> wf_status w' = ''complete''
    \<and> wf_receipt w' = Some (receipt_json render r) \<and> store_load (wf_request_id w) (wr_files st2) = Inr w'"
proof -
  have w: "wf_collection w = c" "wf_external_ids w = ids" "wf_reason w = reason" "wf_status w = ''open''" "wf_receipt w = None"
    "wf_steps w = map new_step STEP_ORDER" "wf_require_replica w = rr" "wf_require_crypto_shred w = rs"
    "wf_require_document_store w = rd" "wf_require_backup_ack w = rb" "dget (wr_files st1) (path_for (wf_request_id w)) = Some (wf_to_dict w)"
    using assms(1) by (auto simp: wf_create_def store_save_def Let_def)
  have "json_proper w" using w by (auto simp: json_proper_def STEP_ORDER_def new_step_def)
  then have ld: "store_load (wf_request_id w) (wr_files st1) = Inr w" using w(11) wf_roundtrip by (simp add: store_load_def)
  have ti: "ticket_inv b cfg render w"
    using w by (simp add: ticket_inv_def steps_inv_def live_inv_def wf_step_def STEP_ORDER_def new_step_def)
  obtain x st2 where adv: "advance b cfg env render hk (wf_request_id w) m skip st1 = (x, st2)" by fastforce
  moreover have "\<forall>w'. store_load (wf_request_id w) (wr_files st1) = Inr w' \<longrightarrow> ticket_inv b cfg render w'" using ld ti by simp
  ultimately show ?thesis
  proof (cases rule: advance_cases)
    case stuck
    then show ?thesis using ld w(4) by simp
  next
    case (ran w0 w1 s1 w2 w3 h t)
    have w0: "w0 = w" using ran(1) ld by simp
    let ?w = "w\<lparr>wf_status := ''in_progress''\<rparr>"
    have d: "delete b cfg env (wf_collection ?w) (wf_external_ids ?w) (wf_reason ?w) (Some (wf_request_id ?w)) m True None None None
        (wr_service st1) = (Inr r, s')" using assms(2) w by simp
    have "rc_success r" using rc_success_complete [OF assms(2)] assms(3) by simp
    moreover have "\<not> step_done ?w ''live_hard_delete''" using w(6) by (simp add: step_done_def wf_step_def STEP_ORDER_def new_step_def)
    ultimately have w1: "wf_receipt w1 = Some (receipt_json render r)" "step_done w1 ''live_hard_delete''"
      using run_live_delete_done [OF ran(3) [unfolded w0] d] by simp_all
    have same: "same_ticket w w2" using same_ticket_trans ran(6,7,11) w0
      by (simp add: same_ticket_def behind_def)
    then have fl: "wf_require_replica w2 = rr" "wf_require_crypto_shred w2 = rs" "wf_require_document_store w2 = rd"
      "wf_require_backup_ack w2 = rb" "wf_collection w2 = c" "wf_external_ids w2 = ids" "wf_request_id w2 = wf_request_id w"
      using w by (simp_all add: same_ticket_def step_required_flags [symmetric])
    have fin: "\<forall>n\<in>{''replica_fanout'', ''crypto_shred'', ''document_store'', ''backup_policy''}. step_required w2 n \<longrightarrow> step_done w3 n"
      "wf_step w3 ''residual_proof'' = wf_step w2 ''residual_proof''"
      by (rule run_all_optional_done [OF ran(5)]; simp add: fl assms(5-8))+
    have "compute_status w3 = Inr ''complete''"
    proof (rule compute_status_completeI [OF ran(9)])
      show "step_done w3 ''live_hard_delete''" using w1(2) ran(6,7) by (simp add: step_done_def behind_def)
      show "st_status u \<noteq> ''failed''" if "wf_step w3 ''residual_proof'' = Inr u" for u
        using mirror_not_failed [OF ran(4) w1(1)] complete_proof_not_failed [OF assms(2,3,4)] that fin(2) by simp
      show "\<forall>n\<in>{''replica_fanout'', ''crypto_shred'', ''document_store'', ''backup_policy''}. step_required w3 n \<longrightarrow> step_done w3 n"
        using fin(1) ran(7) by (simp add: behind_def same_ticket_def)
    qed
    then have t: "t = ''complete''" using ran(8) by simp
    let ?v = "w3\<lparr>wf_status := t, wf_updated_unix_ns := se_time_ns env\<rparr>"
    have sv: "store_save (se_time_ns env) (w3\<lparr>wf_status := t\<rparr>) (wr_files st1) = (?v, dset (path_for (wf_request_id ?v)) (wf_to_dict ?v) (wr_files st1))"
      by (simp add: store_save_def Let_def)
    have "json_proper w3" using steps_inv_proper [OF ran(9,10)] .
    then have pr: "json_proper ?v" by (simp add: json_proper_def)
    have rid: "wf_request_id ?v = wf_request_id w" using ran(11) w0 by (simp add: same_ticket_def)
    have "store_load (wf_request_id w) (wr_files st2) = Inr ?v"
      using ran(14) wf_roundtrip [OF pr] rid unfolding sv by (simp add: store_load_def)
    moreover have "x = Inr ?v" using ran(13) unfolding sv by simp
    moreover have "wf_receipt ?v = Some (receipt_json render r)" using w1(1) ran(6,7) by (simp add: behind_def)
    ultimately show ?thesis using adv t by auto
  qed
qed

section \<open>Properties\<close>

text \<open>A ticket on the small in-memory service.\<close>

definition demo_runner :: "((int, f32 list) dict, unit) runner" where
  "demo_runner = \<lparr>wr_service = demo_service, wr_files = [], wr_world = ()\<rparr>"

definition no_hooks :: "unit wf_hooks" where
  "no_hooks = \<lparr>hk_replica_fanout = None, hk_crypto_shred = None, hk_document_store = None, hk_backup_ack = None\<rparr>"

definition demo_create :: "string list \<Rightarrow> erasure_workflow \<times> ((int, f32 list) dict, unit) runner" where
  "demo_create ids = wf_create demo_senv ''users'' ids None (Some ''t/1'') False False False False demo_runner"

lemma demo_create_simps:
  "wf_request_id (fst (demo_create ids)) = ''t/1''" "wr_service (snd (demo_create ids)) = demo_service"
  "wf_status (fst (demo_create ids)) = ''open''" "wf_external_ids (fst (demo_create ids)) = ids" "wf_collection (fst (demo_create ids)) = ''users''"
  "wf_receipt (fst (demo_create ids)) = None" "wf_steps (fst (demo_create ids)) = map new_step STEP_ORDER"
  "store_load ''t/1'' (wr_files (snd (demo_create ids))) = Inr (fst (demo_create ids))"
proof -
  show 1: "wf_request_id (fst (demo_create ids)) = ''t/1''" "wr_service (snd (demo_create ids)) = demo_service"
    "wf_status (fst (demo_create ids)) = ''open''" "wf_external_ids (fst (demo_create ids)) = ids" "wf_collection (fst (demo_create ids)) = ''users''"
    "wf_receipt (fst (demo_create ids)) = None" "wf_steps (fst (demo_create ids)) = map new_step STEP_ORDER"
    by (simp_all add: demo_create_def wf_create_def store_save_def demo_runner_def Let_def)
  have "json_proper (fst (demo_create ids))" using 1 by (auto simp: json_proper_def STEP_ORDER_def new_step_def)
  from wf_roundtrip [OF this] show "store_load ''t/1'' (wr_files (snd (demo_create ids))) = Inr (fst (demo_create ids))"
    by (simp add: demo_create_def wf_create_def store_save_def demo_runner_def Let_def store_load_def)
qed

lemma demo_create_reach: "(runner_step b cfg render)\<^sup>*\<^sup>* demo_runner (snd (demo_create ids))"
proof (rule r_into_rtranclp)
  have "demo_create ids = (fst (demo_create ids), snd (demo_create ids))" by simp
  then show "runner_step b cfg render demo_runner (snd (demo_create ids))"
    unfolding demo_create_def by (rule runner_step.create)
qed

abbreviation demo_advance :: "((int, f32 list) dict, unit) runner \<Rightarrow> erasure_workflow res \<times> ((int, f32 list) dict, unit) runner" where
  "demo_advance \<equiv> advance row_backend demo_config demo_senv (\<lambda>_. []) no_hooks ''t/1'' 16 False"

text \<open>
  C19: what a closeable ticket means: after any sequence of creations and advances, in any environments and with any hooks and
  any other traffic on the service, a ticket that reads back with status complete has its six steps in order, the
  live step done with the receipt of a delete of exactly its ids whose status was complete, a residual step that did not
  fail, and every step that its policy flags require done (a required step is never passed by as skipped).
\<close>

theorem complete_ticket_meaning:
  assumes "(runner_step b cfg render)\<^sup>*\<^sup>* st st'" and "wr_files st = []"
    and "store_load rid (wr_files st') = Inr w" and "wf_status w = ''complete''"
  shows "(\<exists>r env m s s'. wf_receipt w = Some (receipt_json render r) \<and> rc_status r = complete
       \<and> delete b cfg env (wf_collection w) (wf_external_ids w) (wf_reason w) (Some (wf_request_id w)) m True None None None s = (Inr r, s'))
    \<and> map st_name (wf_steps w) = STEP_ORDER
    \<and> (\<forall>s\<in>set (wf_steps w). if st_name s = ''residual_proof'' then st_status s \<noteq> ''failed''
          else st_name s = ''live_hard_delete'' \<or> step_required w (st_name s) \<longrightarrow> st_status s = ''done'')"
proof -
  have inv: "steps_inv w" "live_inv b cfg render w" "compute_status w = Inr ''complete''"
    using load_inv [OF runner_reach_inv [OF assms(1,2)] assms(3)] assms(4) by (simp_all add: ticket_inv_def)
  obtain live where l: "wf_step w ''live_hard_delete'' = Inr live" using steps_found [OF inv(1)] by (force simp: STEP_ORDER_def)
  then have d: "st_status live = ''done''" "status_of_steps w (wf_steps w) = ''complete''"
    using inv(3) compute_status_live [OF l] by (auto split: if_splits)
  have "carries_receipt b cfg render w" using inv(2) l d by (simp add: live_inv_def)
  moreover have "if st_name s = ''residual_proof'' then st_status s \<noteq> ''failed''
      else st_name s = ''live_hard_delete'' \<or> step_required w (st_name s) \<longrightarrow> st_status s = ''done''" if s: "s \<in> set (wf_steps w)" for s
  proof (cases "st_name s = ''live_hard_delete''")
    case True
    have "wf_step w (st_name s) = Inr s"
      using inv(1) s STEP_ORDER_distinct find_step_unique by (metis steps_inv_def wf_step_def)
    then show ?thesis using True l d(1) by simp
  next
    case False
    then show ?thesis using status_of_steps_complete [OF d(2) s] inv(1) s by (auto simp: steps_inv_def)
  qed
  ultimately show ?thesis using inv(1) unfolding carries_receipt_def steps_inv_def by blast
qed

lemma complete_ticket_meaning_witness:
  "\<exists>w' st2. demo_advance (snd (demo_create ['' alice '', ''bob''])) = (Inr w', st2) \<and> wf_status w' = ''complete''
    \<and> map st_name (wf_steps w') = STEP_ORDER"
proof -
  let ?c = "demo_create ['' alice '', ''bob'']"
  have c: "wf_create demo_senv ''users'' ['' alice '', ''bob''] None (Some ''t/1'') False False False False demo_runner = (fst ?c, snd ?c)"
    by (simp add: demo_create_def)
  obtain r s' where d: "delete row_backend demo_config demo_senv ''users'' ['' alice '', ''bob''] None (Some ''t/1'') 16 True None None None demo_service
      = (Inr r, s')" "rc_status r = complete" using demo_complete_default by blast
  then obtain w' st2 where a: "demo_advance (snd ?c) = (Inr w', st2)" "wf_status w' = ''complete''" "store_load ''t/1'' (wr_files st2) = Inr w'"
    using fresh_advance [OF c, of row_backend demo_config demo_senv 16 r s' no_hooks "\<lambda>_. []" False] demo_service_ok
    by (auto simp: demo_create_simps)
  have "(runner_step row_backend demo_config (\<lambda>_. []))\<^sup>*\<^sup>* demo_runner st2"
    using demo_create_reach runner_step.advance [OF a(1)] by (rule rtranclp.rtrancl_into_rtrancl)
  from complete_ticket_meaning [OF this _ a(3,2)] a show ?thesis by (auto simp: demo_runner_def)
qed

text \<open>
  a clean ticket closes on its first advance: when the live delete of its ids gives a complete receipt and
  each required step has a hook that does not raise, advancing a fresh ticket returns it with status complete and
  stores exactly what it returns.
\<close>

theorem clean_ticket_completes:
  assumes "wf_create env0 c ids reason rid rr rs rd rb st = (w, st1)"
    and "delete b cfg env c ids reason (Some (wf_request_id w)) m True None None None (wr_service st1) = (Inr r, s')"
    and "rc_status r = complete" and "reg_ok (sv_registry (wr_service st1))"
    and "rr \<Longrightarrow> hook_ok (map_option (\<lambda>f. f c ids (wf_request_id w)) (hk_replica_fanout hk))"
    and "rs \<Longrightarrow> hook_ok (map_option (\<lambda>f. f ids) (hk_crypto_shred hk))"
    and "rd \<Longrightarrow> hook_ok (map_option (\<lambda>f. f c ids) (hk_document_store hk))"
    and "rb \<Longrightarrow> hook_ok (map_option (\<lambda>f. f c ids) (hk_backup_ack hk))"
  shows "\<exists>w' st2. advance b cfg env render hk (wf_request_id w) m skip st1 = (Inr w', st2) \<and> wf_status w' = ''complete''
    \<and> wf_receipt w' = Some (receipt_json render r) \<and> store_load (wf_request_id w) (wr_files st2) = Inr w'"
  using assms by (rule fresh_advance)

lemma clean_ticket_completes_witness:
  "\<exists>w' st2. demo_advance (snd (demo_create ['' alice '', ''bob''])) = (Inr w', st2) \<and> wf_status w' = ''complete''"
proof -
  let ?c = "demo_create ['' alice '', ''bob'']"
  have c: "wf_create demo_senv ''users'' ['' alice '', ''bob''] None (Some ''t/1'') False False False False demo_runner = (fst ?c, snd ?c)"
    by (simp add: demo_create_def)
  obtain r s' where "delete row_backend demo_config demo_senv ''users'' ['' alice '', ''bob''] None (Some ''t/1'') 16 True None None None demo_service
      = (Inr r, s')" "rc_status r = complete" using demo_complete_default by blast
  then show ?thesis
    using clean_ticket_completes [OF c, of row_backend demo_config demo_senv 16 r s' no_hooks "\<lambda>_. []" False] demo_service_ok
    by (auto simp: demo_create_simps)
qed


text \<open>
  a ticket cannot be retried past an id that the registry does not know: once an id of the ticket has no mapping (a first
  advance that erased it but failed on another id drops it, as does any earlier delete) and the live step is not
  done, every later advance, in any environment and with any hooks, reports blocked, and the ticket never closes.
\<close>

theorem ticket_with_unknown_id_stays_blocked:
  assumes "(runner_step b cfg render)\<^sup>*\<^sup>* st0 st" and "wr_files st0 = []" and "reg_ok (sv_registry (wr_service st))"
    and "store_load rid (wr_files st) = Inr w" and "wf_status w \<noteq> ''complete''" and "\<not> step_done w ''live_hard_delete''"
    and "x \<in> set (clean_ids (wf_external_ids w))" and "id_view (sv_registry (wr_service st)) (wf_collection w) x = None"
    and "(\<lambda>s s'. \<exists>env hk q m skip y. advance b cfg env render hk q m skip s = (y, s'))\<^sup>*\<^sup>* st st'"
    and "advance b cfg env render hk rid m skip st' = (y, st'')"
  shows "\<exists>w'. y = Inr w' \<and> wf_status w' = ''blocked''"
proof -
  have start: "files_inv b cfg render (wr_files st) \<and> hopeless rid x st"
    using runner_reach_inv [OF assms(1,2)] assms(3-8) by (auto simp: hopeless_def)
  from assms(9) start have "files_inv b cfg render (wr_files st') \<and> hopeless rid x st'"
  proof (induction rule: rtranclp_induct)
    case (step s s')
    then obtain env hk q m skip y where a: "advance b cfg env render hk q m skip s = (y, s')" by blast
    then have "runner_step b cfg render s s'" by (rule runner_step.advance)
    then have "files_inv b cfg render (wr_files s')" using runner_step_inv step.IH step.prems by blast
    then show ?case using advance_hopeless [OF a, of rid x] step.IH step.prems by blast
  qed
  then show ?thesis using advance_hopeless [OF assms(10)] by blast
qed

lemma ticket_with_unknown_id_stays_blocked_witness:
  "\<exists>w' st''. demo_advance (snd (demo_create [''alice'', ''carol''])) = (Inr w', st'') \<and> wf_status w' = ''blocked''"
proof -
  let ?c = "demo_create [''alice'', ''carol'']"
  obtain y st'' where a: "demo_advance (snd ?c) = (y, st'')" by fastforce
  have 1: "\<not> step_done (fst ?c) ''live_hard_delete''"
    by (simp add: step_done_def wf_step_def demo_create_simps STEP_ORDER_def new_step_def)
  have 2: "''carol'' \<in> set (clean_ids (wf_external_ids (fst ?c)))" unfolding demo_create_simps by code_simp
  have 3: "id_view (sv_registry demo_service) ''users'' ''carol'' = None" by code_simp
  have 4: "wr_files demo_runner = []" "reg_ok (sv_registry (wr_service (snd ?c)))" "wf_status (fst ?c) \<noteq> ''complete''"
    "id_view (sv_registry (wr_service (snd ?c))) (wf_collection (fst ?c)) ''carol'' = None"
    using 3 demo_service_ok by (simp_all add: demo_runner_def demo_create_simps)
  from ticket_with_unknown_id_stays_blocked [OF demo_create_reach 4(1,2) demo_create_simps(8) 4(3) 1 2 4(4) rtranclp.rtrancl_refl a] a
  show ?thesis by auto
qed

text \<open>
  saving and loading tickets: a ticket reads back as it was saved under every request id that maps to
  the same file name, and all others are untouched. The file name keeps letters, digits, hyphens and underscores and maps
  everything else to an underscore, so distinct ids such as \<open>a/b\<close> and \<open>a_b\<close> share one file and the later
  ticket replaces the earlier one.
\<close>

theorem workflow_store_roundtrip:
  assumes "wf_steps w \<noteq> []" and "wf_receipt w \<noteq> Some JNull" and "\<forall>s\<in>set (wf_steps w). st_artifact s \<noteq> Some JNull"
    and "store_save now w files = (w', files')"
  shows "w' = w\<lparr>wf_updated_unix_ns := now\<rparr>
    \<and> (\<forall>q. store_load q files' = (if path_for q = path_for (wf_request_id w) then Inr w' else store_load q files))
    \<and> path_for ''a/b'' = path_for ''a_b''"
proof -
  have "json_proper w" using assms by (simp add: json_proper_def)
  moreover have "path_for ''a/b'' = path_for ''a_b''" by code_simp
  ultimately show ?thesis using store_load_save [OF _ assms(4)] by simp
qed

lemma workflow_store_roundtrip_witness:
  "\<exists>w' files'. store_save 9 (fst (demo_create [''alice''])) [] = (w', files') \<and> store_load ''t_1'' files' = Inr w'"
proof -
  let ?w = "fst (demo_create [''alice''])"
  obtain w' files' where s: "store_save 9 ?w [] = (w', files')" by fastforce
  have 1: "wf_steps ?w \<noteq> []" "wf_receipt ?w \<noteq> Some JNull" "\<forall>s\<in>set (wf_steps ?w). st_artifact s \<noteq> Some JNull"
    by (auto simp: demo_create_simps STEP_ORDER_def new_step_def)
  have "path_for ''t_1'' = path_for ''t/1''" by code_simp
  then show ?thesis using workflow_store_roundtrip [OF 1 s] s by (simp add: demo_create_simps)
qed

end
