(* ===== verification/Outbox.thy ===== *)
theory Outbox
  imports Workflow
begin

text \<open>
  \<open>integrations/outbox.py\<close>: the delete-intent outbox as three folders of JSON files (keyed by file name without
  extension), the dispatcher with its bounded retries, and the workflow hook that enqueues an intent. The
  dispatch callback is a function over a state of its own. File operations succeed; the text of a float inside a Python
  \<open>str\<close> of a dict is given by \<open>fl\<close>.
\<close>

section \<open>Python text of a JSON value\<close>

fun json_repr :: "(64 word \<Rightarrow> string) \<Rightarrow> json \<Rightarrow> string" where
  "json_repr fl JNull = ''None''"
| "json_repr fl (JBool b) = bool_str b"
| "json_repr fl (JInt i) = int_str i"
| "json_repr fl (JFloat x) = fl x"
| "json_repr fl (JStr s) = py_repr s"
| "json_repr fl (JList xs) = ''['' @ join_with '', '' (map (json_repr fl) xs) @ '']''"
| "json_repr fl (JObj kvs) = ''{'' @ join_with '', '' (map (\<lambda>kv. py_repr (fst kv) @ '': '' @ json_repr fl (snd kv)) kvs) @ ''}''"

definition json_str :: "(64 word \<Rightarrow> string) \<Rightarrow> json \<Rightarrow> string" where
  "json_str fl j = (case j of JStr s \<Rightarrow> s | _ \<Rightarrow> json_repr fl j)"

section \<open>Envelopes and folders\<close>

record outbox_envelope =
  oe_envelope_id :: string
  oe_request_id :: string
  oe_collection :: string
  oe_external_ids :: "string list"
  oe_reason :: "string option"
  oe_max_m :: int
  oe_attempts :: int
  oe_created_unix_ns :: int
  oe_last_error :: string

definition envelope_to_dict :: "outbox_envelope \<Rightarrow> json" where
  "envelope_to_dict e = JObj [(''envelope_id'', JStr (oe_envelope_id e)), (''request_id'', JStr (oe_request_id e)),
     (''collection'', JStr (oe_collection e)), (''external_ids'', JList (map JStr (oe_external_ids e))),
     (''reason'', jopt JStr (oe_reason e)), (''max_m'', JInt (oe_max_m e)), (''attempts'', JInt (oe_attempts e)),
     (''created_unix_ns'', JInt (oe_created_unix_ns e)), (''last_error'', JStr (oe_last_error e))]"

definition envelope_from_dict :: "json \<Rightarrow> outbox_envelope res" where
  "envelope_from_dict j = bind_res (items_of j) (\<lambda>d.
     bind_res (bind_res (req d ''envelope_id'') coerce_str) (\<lambda>eid.
     bind_res (bind_res (req d ''request_id'') coerce_str) (\<lambda>rid.
     bind_res (bind_res (req d ''collection'') coerce_str) (\<lambda>coll.
     bind_res (bind_res (bind_res (req d ''external_ids'') as_list) (map_res as_str)) (\<lambda>ids.
     bind_res (as_opt_str (get_or d ''reason'' JNull)) (\<lambda>reason.
     bind_res (coerce_int (get_or d ''max_m'' (JInt 16))) (\<lambda>m.
     bind_res (coerce_int (get_or d ''attempts'' (JInt 0))) (\<lambda>a.
     bind_res (coerce_int (get_or d ''created_unix_ns'' (JInt 0))) (\<lambda>t.
     bind_res (coerce_str (get_or d ''last_error'' (JStr []))) (\<lambda>err.
       Inr \<lparr>oe_envelope_id = eid, oe_request_id = rid, oe_collection = coll, oe_external_ids = ids, oe_reason = reason,
            oe_max_m = m, oe_attempts = a, oe_created_unix_ns = t, oe_last_error = err\<rparr>))))))))))"

record file_outbox =
  ob_pending :: "(string, json) dict"
  ob_done :: "(string, json) dict"
  ob_failed :: "(string, json) dict"

definition empty_outbox :: file_outbox where
  "empty_outbox = \<lparr>ob_pending = [], ob_done = [], ob_failed = []\<rparr>"

definition enqueue ::
  "string \<Rightarrow> int \<Rightarrow> string \<Rightarrow> string list \<Rightarrow> string \<Rightarrow> string option \<Rightarrow> int \<Rightarrow> file_outbox \<Rightarrow> outbox_envelope \<times> file_outbox" where
  "enqueue uuid now collection ids request_id reason max_m ob =
    (let e = \<lparr>oe_envelope_id = uuid, oe_request_id = request_id, oe_collection = collection, oe_external_ids = ids,
              oe_reason = reason, oe_max_m = max_m, oe_attempts = 0, oe_created_unix_ns = now, oe_last_error = []\<rparr>
     in (e, ob\<lparr>ob_pending := dset uuid (envelope_to_dict e) (ob_pending ob)\<rparr>))"

text \<open>\<open>sorted(folder.glob("*.json"))\<close> orders by full file name.\<close>

definition sorted_files :: "(string, json) dict \<Rightarrow> (string \<times> json) list" where
  "sorted_files d = sort_key (\<lambda>kv. fst kv @ ''.json'') d"

definition list_pending :: "file_outbox \<Rightarrow> outbox_envelope list res" where
  "list_pending ob = map_res (\<lambda>kv. envelope_from_dict (snd kv)) (sorted_files (ob_pending ob))"

definition mark_done :: "outbox_envelope \<Rightarrow> file_outbox \<Rightarrow> file_outbox" where
  "mark_done e ob =
    (case dget (ob_pending ob) (oe_envelope_id e) of
       None \<Rightarrow> ob
     | Some j \<Rightarrow> ob\<lparr>ob_pending := ddel (oe_envelope_id e) (ob_pending ob), ob_done := dset (oe_envelope_id e) j (ob_done ob)\<rparr>)"

definition bump :: "string \<Rightarrow> outbox_envelope \<Rightarrow> outbox_envelope" where
  "bump err e = e\<lparr>oe_attempts := oe_attempts e + 1, oe_last_error := err\<rparr>"

definition mark_failed :: "outbox_envelope \<Rightarrow> string \<Rightarrow> file_outbox \<Rightarrow> file_outbox" where
  "mark_failed e err ob =
    (let e' = bump err e in
     case dget (ob_pending ob) (oe_envelope_id e') of
       None \<Rightarrow> ob
     | Some _ \<Rightarrow> ob\<lparr>ob_pending := ddel (oe_envelope_id e') (ob_pending ob),
                  ob_failed := dset (oe_envelope_id e') (envelope_to_dict e') (ob_failed ob)\<rparr>)"

definition requeue_failed :: "string \<Rightarrow> file_outbox \<Rightarrow> file_outbox" where
  "requeue_failed eid ob =
    (case dget (ob_failed ob) eid of
       None \<Rightarrow> ob
     | Some j \<Rightarrow> ob\<lparr>ob_failed := ddel eid (ob_failed ob), ob_pending := dset eid j (ob_pending ob)\<rparr>)"

section \<open>The dispatcher\<close>

type_synonym 'h dispatch_fn = "outbox_envelope \<Rightarrow> 'h \<Rightarrow> json res \<times> 'h"

record dispatch_stats =
  ds_done :: nat
  ds_failed :: nat
  ds_errors :: "string list"
  ds_pending_left :: nat

text \<open>What a call of the callback amounts to: \<open>None\<close> for success, otherwise the message. An exception and an
  unsuccessful result are handled alike.\<close>

definition dispatch_msg :: "(64 word \<Rightarrow> string) \<Rightarrow> json res \<Rightarrow> string option" where
  "dispatch_msg fl r =
    (case bind_res r items_of of
       Inl e \<Rightarrow> Some (exn_str e)
     | Inr kvs \<Rightarrow>
         if truthy (get_or kvs ''success'' (get_or kvs ''quorum_met'' (JBool True))) then None
         else Some (json_str fl (get_or kvs ''message'' (JObj kvs))))"

definition rewrite_pending :: "outbox_envelope \<Rightarrow> file_outbox \<Rightarrow> file_outbox" where
  "rewrite_pending e ob = ob\<lparr>ob_pending := dset (oe_envelope_id e) (envelope_to_dict e) (ob_pending ob)\<rparr>"

definition dispatch_one ::
  "(64 word \<Rightarrow> string) \<Rightarrow> int \<Rightarrow> 'h dispatch_fn \<Rightarrow> outbox_envelope \<Rightarrow> 'h \<times> file_outbox \<times> dispatch_stats
    \<Rightarrow> 'h \<times> file_outbox \<times> dispatch_stats" where
  "dispatch_one fl max_attempts fn e hos =
    (case hos of (h, ob, st) \<Rightarrow>
      case fn e h of (r, h1) \<Rightarrow>
        case dispatch_msg fl r of
          None \<Rightarrow> (h1, mark_done e ob, st\<lparr>ds_done := ds_done st + 1\<rparr>)
        | Some msg \<Rightarrow>
            if oe_attempts e + 1 \<ge> max_attempts
            then (h1, mark_failed e msg ob, st\<lparr>ds_failed := ds_failed st + 1\<rparr>)
            else (h1, rewrite_pending (bump msg e) ob, st\<lparr>ds_errors := ds_errors st @ [msg]\<rparr>))"

definition dispatch_pending ::
  "(64 word \<Rightarrow> string) \<Rightarrow> int \<Rightarrow> 'h dispatch_fn \<Rightarrow> int \<Rightarrow> 'h \<times> file_outbox \<Rightarrow> dispatch_stats res \<times> 'h \<times> file_outbox" where
  "dispatch_pending fl max_attempts fn limit ho =
    (case list_pending (snd ho) of
       Inl e \<Rightarrow> (Inl e, ho)
     | Inr envs \<Rightarrow>
         (case foldl (\<lambda>hos e. dispatch_one fl max_attempts fn e hos)
                 (fst ho, snd ho, \<lparr>ds_done = 0, ds_failed = 0, ds_errors = [], ds_pending_left = 0\<rparr>) (py_take limit envs) of
            (h, ob, st) \<Rightarrow>
              (case list_pending ob of
                 Inl e \<Rightarrow> (Inl e, h, ob)
               | Inr left \<Rightarrow> (Inr (st\<lparr>ds_pending_left := length left\<rparr>), h, ob))))"

definition stats_json :: "dispatch_stats \<Rightarrow> json" where
  "stats_json st = JObj [(''done'', JInt (int (ds_done st))), (''failed'', JInt (int (ds_failed st))),
     (''errors'', JList (map JStr (ds_errors st))), (''pending_left'', JInt (int (ds_pending_left st)))]"

text \<open>\<open>make_outbox_replica_hook\<close>; \<open>dispatch_now\<close> is the dispatcher (its attempt bound and callback), if one is given.\<close>

definition outbox_replica_hook ::
  "(64 word \<Rightarrow> string) \<Rightarrow> string \<Rightarrow> int \<Rightarrow> (int \<times> 'h dispatch_fn) option \<Rightarrow> string \<Rightarrow> string list \<Rightarrow> string \<Rightarrow> 'h \<times> file_outbox
    \<Rightarrow> json res \<times> 'h \<times> file_outbox" where
  "outbox_replica_hook fl uuid now dispatch_now collection ids request_id ho =
    (case ho of (h, ob) \<Rightarrow>
      case enqueue uuid now collection ids request_id None 16 ob of (e, ob1) \<Rightarrow>
        let result = [(''enqueued'', JBool True), (''envelope_id'', JStr (oe_envelope_id e)), (''request_id'', JStr request_id)] in
        case dispatch_now of
          None \<Rightarrow> (Inr (JObj result), h, ob1)
        | Some (max_attempts, fn) \<Rightarrow>
            (case dispatch_pending fl max_attempts fn 1 (h, ob1) of
               (Inl x, ho1) \<Rightarrow> (Inl x, ho1)
             | (Inr st, ho1) \<Rightarrow>
                 if ds_failed st > 0
                 then (Inl (RuntimeError (''outbox dispatch failed: '' @ json_repr fl (stats_json st))), ho1)
                 else (Inr (JObj (result @ [(''dispatch'', stats_json st)])), ho1)))"


section \<open>The outbox as a map of letters\<close>

text \<open>The abstract outbox: each envelope is pending, done or failed.\<close>

datatype letter = Pending outbox_envelope | Done outbox_envelope | Failed outbox_envelope

fun spec_dispatch :: "int \<Rightarrow> outbox_envelope \<Rightarrow> string option \<Rightarrow> letter" where
  "spec_dispatch max_attempts e None = Done e"
| "spec_dispatch max_attempts e (Some msg) =
    (if oe_attempts e + 1 \<ge> max_attempts then Failed (bump msg e) else Pending (bump msg e))"

text \<open>The outcomes of calling the callback on a list of envelopes in turn.\<close>

fun outcomes :: "(64 word \<Rightarrow> string) \<Rightarrow> 'h dispatch_fn \<Rightarrow> outbox_envelope list \<Rightarrow> 'h \<Rightarrow> string option list" where
  "outcomes fl fn [] h = []"
| "outcomes fl fn (e # es) h = (case fn e h of (r, h1) \<Rightarrow> dispatch_msg fl r # outcomes fl fn es h1)"

definition decode :: "json \<Rightarrow> outbox_envelope" where
  "decode j = projr (envelope_from_dict j)"

definition ob_view :: "file_outbox \<Rightarrow> string \<Rightarrow> letter option" where
  "ob_view ob k =
    (case dget (ob_pending ob) k of
       Some j \<Rightarrow> Some (Pending (decode j))
     | None \<Rightarrow> (case dget (ob_done ob) k of
         Some j \<Rightarrow> Some (Done (decode j))
       | None \<Rightarrow> (case dget (ob_failed ob) k of Some j \<Rightarrow> Some (Failed (decode j)) | None \<Rightarrow> None)))"

definition folder_ok :: "(string, json) dict \<Rightarrow> bool" where
  "folder_ok d \<longleftrightarrow> dict_ok d \<and> (\<forall>k j. dget d k = Some j \<longrightarrow> (\<exists>e. j = envelope_to_dict e \<and> oe_envelope_id e = k))"

definition outbox_ok :: "file_outbox \<Rightarrow> bool" where
  "outbox_ok ob \<longleftrightarrow> folder_ok (ob_pending ob) \<and> folder_ok (ob_done ob) \<and> folder_ok (ob_failed ob)
     \<and> (\<forall>k. dget (ob_pending ob) k \<noteq> None \<longrightarrow> dget (ob_done ob) k = None \<and> dget (ob_failed ob) k = None)
     \<and> (\<forall>k. dget (ob_done ob) k \<noteq> None \<longrightarrow> dget (ob_failed ob) k = None)"

lemma envelope_roundtrip [simp]: "envelope_from_dict (envelope_to_dict e) = Inr e"
proof -
  have "map_res as_str (map JStr xs) = Inr xs" for xs by (rule map_res_id) simp
  then show ?thesis
    by (simp add: envelope_from_dict_def envelope_to_dict_def req_def get_or_def dget_Cons)
qed

lemma decode_encode [simp]: "decode (envelope_to_dict e) = e"
  by (simp add: decode_def)

lemma folder_ok_Nil [simp]: "folder_ok []"
  by (simp add: folder_ok_def)

lemma folder_ok_dset: "folder_ok d \<Longrightarrow> oe_envelope_id e = k \<Longrightarrow> folder_ok (dset k (envelope_to_dict e) d)"
  by (auto simp: folder_ok_def)

lemma folder_ok_ddel: "folder_ok d \<Longrightarrow> folder_ok (ddel k d)"
  by (auto simp: folder_ok_def split: if_splits)

lemma outbox_ok_empty [simp]: "outbox_ok empty_outbox"
  by (simp add: outbox_ok_def empty_outbox_def)

lemma folder_content: "folder_ok d \<Longrightarrow> dget d k = Some j \<Longrightarrow> envelope_to_dict (decode j) = j \<and> oe_envelope_id (decode j) = k"
  unfolding folder_ok_def by (metis decode_encode)

lemma pending_view:
  assumes "outbox_ok ob"
  shows "ob_view ob k = Some (Pending e) \<longleftrightarrow> dget (ob_pending ob) k = Some (envelope_to_dict e)"
  using folder_content [of "ob_pending ob" k] assms
  by (auto simp: ob_view_def outbox_ok_def split: option.splits)

lemma dict_ok_key_sort: "dict_ok d \<Longrightarrow> distinct (map fst (sort_key f d))"
proof -
  assume "dict_ok d"
  moreover have "mset (map fst (sort_key f d)) = mset (map fst d)" by simp
  ultimately show ?thesis unfolding dict_ok_def dkeys_def by (metis mset_eq_imp_distinct_iff)
qed

lemma list_pending_ok:
  assumes "outbox_ok ob"
  obtains envs where "list_pending ob = Inr envs" "map oe_envelope_id envs = map fst (sorted_files (ob_pending ob))"
    "distinct (map oe_envelope_id envs)" "set envs = {e. ob_view ob (oe_envelope_id e) = Some (Pending e)}"
proof -
  let ?f = "sorted_files (ob_pending ob)" and ?g = "\<lambda>kv. decode (snd kv)"
  have fo: "folder_ok (ob_pending ob)" using assms by (simp add: outbox_ok_def)
  have st: "set ?f = set (ob_pending ob)" "distinct (map fst ?f)"
    using fo dict_ok_key_sort by (auto simp: sorted_files_def folder_ok_def)
  have el: "\<exists>e. snd kv = envelope_to_dict e \<and> oe_envelope_id e = fst kv" if "kv \<in> set ?f" for kv
    using that st(1) fo dget_in by (metis folder_ok_def prod.collapse)
  have 1: "list_pending ob = Inr (map ?g ?f)"
    unfolding list_pending_def by (rule map_res_Inr) (use el in fastforce)
  have 2: "map oe_envelope_id (map ?g ?f) = map fst ?f" using el by (fastforce simp: comp_def)
  have "e \<in> set (map ?g ?f) \<longleftrightarrow> ob_view ob (oe_envelope_id e) = Some (Pending e)" for e
  proof -
    have "e \<in> set (map ?g ?f) \<longleftrightarrow> (oe_envelope_id e, envelope_to_dict e) \<in> set ?f"
    proof
      assume "e \<in> set (map ?g ?f)"
      then obtain kv where kv: "kv \<in> set ?f" "e = decode (snd kv)" by auto
      then show "(oe_envelope_id e, envelope_to_dict e) \<in> set ?f" using el [OF kv(1)] by (metis decode_encode prod.collapse)
    next
      assume "(oe_envelope_id e, envelope_to_dict e) \<in> set ?f"
      then have "?g (oe_envelope_id e, envelope_to_dict e) \<in> set (map ?g ?f)" unfolding set_map by (rule imageI)
      then show "e \<in> set (map ?g ?f)" by simp
    qed
    then show ?thesis using pending_view [OF assms] fo dget_in st(1) by (metis folder_ok_def)
  qed
  then have "set (map ?g ?f) = {e. ob_view ob (oe_envelope_id e) = Some (Pending e)}" by blast
  moreover have "distinct (map oe_envelope_id (map ?g ?f))" unfolding 2 by (rule st(2))
  ultimately show ?thesis using that [OF 1 2] by blast
qed


section \<open>Dispatching refines the letters\<close>

lemma dispatch_one_view:
  assumes ok: "outbox_ok ob" and e: "ob_view ob (oe_envelope_id e) = Some (Pending e)"
    and run: "dispatch_one fl max_attempts fn e (h, ob, st) = (h', ob', st')"
  shows "outbox_ok ob' \<and> ob_view ob' = (ob_view ob)(oe_envelope_id e \<mapsto> spec_dispatch max_attempts e (dispatch_msg fl (fst (fn e h))))
    \<and> h' = snd (fn e h)"
proof -
  have p: "dget (ob_pending ob) (oe_envelope_id e) = Some (envelope_to_dict e)" using pending_view [OF ok] e by blast
  note f = folder_ok_dset folder_ok_ddel
  obtain r h1 where fn: "fn e h = (r, h1)" by fastforce
  have b: "oe_envelope_id (bump m e) = oe_envelope_id e" for m by (simp add: bump_def)
  show ?thesis
  proof (cases "dispatch_msg fl r")
    case None
    then have o': "ob' = ob\<lparr>ob_pending := ddel (oe_envelope_id e) (ob_pending ob), ob_done := dset (oe_envelope_id e) (envelope_to_dict e) (ob_done ob)\<rparr>"
      "h' = h1" using run fn p by (auto simp: dispatch_one_def mark_done_def)
    have "ob_view ob' = (ob_view ob)(oe_envelope_id e \<mapsto> Done e)" by (auto simp: fun_eq_iff o' ob_view_def split: option.splits)
    moreover have "outbox_ok ob'" using ok p by (auto simp: o' outbox_ok_def f)
    ultimately show ?thesis using fn None o'(2) by simp
  next
    case (Some msg)
    show ?thesis
    proof (cases "oe_attempts e + 1 \<ge> max_attempts")
      case True
      then have o': "ob' = ob\<lparr>ob_pending := ddel (oe_envelope_id e) (ob_pending ob), ob_failed := dset (oe_envelope_id e) (envelope_to_dict (bump msg e)) (ob_failed ob)\<rparr>"
        "h' = h1" using run fn p Some by (auto simp: dispatch_one_def mark_failed_def b)
      have "ob_view ob' = (ob_view ob)(oe_envelope_id e \<mapsto> Failed (bump msg e))"
        using ok p by (auto simp: fun_eq_iff o' ob_view_def outbox_ok_def split: option.splits)
      moreover have "outbox_ok ob'" using ok p by (auto simp: o' outbox_ok_def f b)
      ultimately show ?thesis using fn Some True o'(2) by simp
    next
      case False
      then have o': "ob' = ob\<lparr>ob_pending := dset (oe_envelope_id e) (envelope_to_dict (bump msg e)) (ob_pending ob)\<rparr>" "h' = h1"
        using run fn Some by (auto simp: dispatch_one_def rewrite_pending_def b)
      have "ob_view ob' = (ob_view ob)(oe_envelope_id e \<mapsto> Pending (bump msg e))" by (auto simp: fun_eq_iff o' ob_view_def split: option.splits)
      moreover have "outbox_ok ob'" using ok p by (auto simp: o' outbox_ok_def f b)
      ultimately show ?thesis using fn Some False o'(2) by simp
    qed
  qed
qed

lemma length_outcomes [simp]: "length (outcomes fl fn es h) = length es"
  by (induction es arbitrary: h) (auto split: prod.splits)

definition spec_updates :: "int \<Rightarrow> outbox_envelope list \<Rightarrow> string option list \<Rightarrow> (string \<times> letter) list" where
  "spec_updates max_attempts es os = map2 (\<lambda>e o'. (oe_envelope_id e, spec_dispatch max_attempts e o')) es os"

lemma spec_updates_keys: "length es = length os \<Longrightarrow> map fst (spec_updates m es os) = map oe_envelope_id es"
  by (induction es os rule: list_induct2) (auto simp: spec_updates_def)

lemma dispatch_fold_view:
  assumes "outbox_ok ob" "distinct (map oe_envelope_id es)" "\<forall>e\<in>set es. ob_view ob (oe_envelope_id e) = Some (Pending e)"
    and "foldl (\<lambda>hos e. dispatch_one fl m fn e hos) (h, ob, st) es = (h', ob', st')"
  shows "outbox_ok ob' \<and> ob_view ob' = ob_view ob ++ map_of (spec_updates m es (outcomes fl fn es h))"
  using assms
proof (induction es arbitrary: h ob st)
  case Nil
  then show ?case by (simp add: spec_updates_def)
next
  case (Cons e es)
  obtain h1 ob1 st1 where one: "dispatch_one fl m fn e (h, ob, st) = (h1, ob1, st1)" by (metis prod.collapse)
  let ?o = "dispatch_msg fl (fst (fn e h))"
  have v: "outbox_ok ob1" "ob_view ob1 = (ob_view ob)(oe_envelope_id e \<mapsto> spec_dispatch m e ?o)" "h1 = snd (fn e h)"
    using dispatch_one_view [OF Cons.prems(1) _ one] Cons.prems(3) by auto
  have "\<forall>d\<in>set es. ob_view ob1 (oe_envelope_id d) = Some (Pending d)"
  proof
    fix d assume d: "d \<in> set es"
    then have "oe_envelope_id d \<noteq> oe_envelope_id e" using Cons.prems(2) by (metis distinct.simps(2) image_eqI list.simps(9) set_map)
    then show "ob_view ob1 (oe_envelope_id d) = Some (Pending d)" using Cons.prems(3) v(2) d by simp
  qed
  moreover have "foldl (\<lambda>hos e. dispatch_one fl m fn e hos) (h1, ob1, st1) es = (h', ob', st')" using Cons.prems(4) one by simp
  ultimately have IH: "outbox_ok ob'" "ob_view ob' = ob_view ob1 ++ map_of (spec_updates m es (outcomes fl fn es h1))"
    using Cons.IH [OF v(1)] Cons.prems(2) by auto
  have notin: "map_of (spec_updates m es (outcomes fl fn es h1)) (oe_envelope_id e) = None"
    using Cons.prems(2) spec_updates_keys [of es "outcomes fl fn es h1" m] by (simp add: map_of_eq_None_iff flip: set_map)
  have "outcomes fl fn (e # es) h = ?o # outcomes fl fn es h1" using v(3) by (simp add: case_prod_beta)
  then have "map_of (spec_updates m (e # es) (outcomes fl fn (e # es) h))
      = (map_of (spec_updates m es (outcomes fl fn es h1)))(oe_envelope_id e \<mapsto> spec_dispatch m e ?o)"
    by (simp add: spec_updates_def)
  then show ?case using IH v(2) notin by (auto simp: map_add_def fun_eq_iff split: option.splits)
qed


lemma dispatch_pending_view:
  assumes ok: "outbox_ok ob" and l: "list_pending ob = Inr envs"
  obtains st h' ob' where "dispatch_pending fl m fn limit (h, ob) = (Inr st, h', ob')" "outbox_ok ob'"
    "ob_view ob' = ob_view ob ++ map_of (spec_updates m (py_take limit envs) (outcomes fl fn (py_take limit envs) h))"
    "dom (ob_view ob') = dom (ob_view ob)" "ds_pending_left st = card {k. \<exists>e. ob_view ob' k = Some (Pending e)}"
proof -
  let ?es = "py_take limit envs" and ?st0 = "\<lparr>ds_done = 0, ds_failed = 0, ds_errors = [], ds_pending_left = 0\<rparr>"
  obtain envs' where "list_pending ob = Inr envs'" "distinct (map oe_envelope_id envs')"
    "set envs' = {e. ob_view ob (oe_envelope_id e) = Some (Pending e)}" by (rule list_pending_ok [OF ok])
  then have envs: "distinct (map oe_envelope_id envs)" "set envs = {e. ob_view ob (oe_envelope_id e) = Some (Pending e)}"
    using l by simp_all
  have sub: "set ?es \<subseteq> set envs" by (rule set_py_take)
  have dis: "distinct (map oe_envelope_id ?es)" using envs(1) by (auto simp: py_take_def simp flip: take_map intro: distinct_take)
  obtain h' ob' st where f: "foldl (\<lambda>hos e. dispatch_one fl m fn e hos) (h, ob, ?st0) ?es = (h', ob', st)" by (metis prod.collapse)
  have pen: "\<forall>e\<in>set ?es. ob_view ob (oe_envelope_id e) = Some (Pending e)" using sub envs(2) by blast
  note v = dispatch_fold_view [OF ok dis pen f]
  obtain left where left: "list_pending ob' = Inr left" "distinct (map oe_envelope_id left)"
    "set left = {e. ob_view ob' (oe_envelope_id e) = Some (Pending e)}" by (rule list_pending_ok [OF v [THEN conjunct1]])
  have "oe_envelope_id ` set left = {k. \<exists>e. ob_view ob' k = Some (Pending e)}"
  proof (intro equalityI subsetI)
    fix k assume "k \<in> {k. \<exists>e. ob_view ob' k = Some (Pending e)}"
    then obtain e where e: "ob_view ob' k = Some (Pending e)" by blast
    then have "dget (ob_pending ob') k = Some (envelope_to_dict e)" using pending_view v by blast
    then have "oe_envelope_id e = k" using folder_content v by (metis decode_encode outbox_ok_def)
    then show "k \<in> oe_envelope_id ` set left" using e left(3) by auto
  qed (use left(3) in auto)
  then have c: "length left = card {k. \<exists>e. ob_view ob' k = Some (Pending e)}"
    using left(2) by (metis distinct_card length_map set_map)
  have "dom (map_of (spec_updates m ?es (outcomes fl fn ?es h))) = oe_envelope_id ` set ?es"
    using spec_updates_keys [of ?es "outcomes fl fn ?es h" m] by (simp add: dom_map_of_conv_image_fst flip: set_map)
  then have "dom (map_of (spec_updates m ?es (outcomes fl fn ?es h))) \<subseteq> dom (ob_view ob)" using pen by auto
  then have "dom (ob_view ob') = dom (ob_view ob)" using v by auto
  moreover have "dispatch_pending fl m fn limit (h, ob) = (Inr (st\<lparr>ds_pending_left := length left\<rparr>), h', ob')"
    using l f left(1) by (simp add: dispatch_pending_def)
  ultimately show ?thesis using that v c by simp
qed

text \<open>All uses of the outbox: a fresh envelope id is one that names no file yet.\<close>

inductive outbox_step :: "'h \<times> file_outbox \<Rightarrow> 'h \<times> file_outbox \<Rightarrow> bool" where
  enqueued: "ob_view ob uuid = None \<Longrightarrow> enqueue uuid now c ids rid reason m ob = (e, ob') \<Longrightarrow> outbox_step (h, ob) (h', ob')"
| dispatched: "dispatch_pending fl m fn limit (h, ob) = (x, h', ob') \<Longrightarrow> outbox_step (h, ob) (h', ob')"
| requeued: "outbox_step (h, ob) (h', requeue_failed eid ob)"

lemma enqueue_view:
  assumes "outbox_ok ob" "ob_view ob uuid = None" "enqueue uuid now c ids rid reason m ob = (e, ob')"
  shows "outbox_ok ob' \<and> ob_view ob' = (ob_view ob)(uuid \<mapsto> Pending e) \<and> oe_envelope_id e = uuid \<and> oe_attempts e = 0"
proof -
  have o': "ob' = ob\<lparr>ob_pending := dset uuid (envelope_to_dict e) (ob_pending ob)\<rparr>" "oe_envelope_id e = uuid" "oe_attempts e = 0"
    using assms(3) by (auto simp: enqueue_def Let_def)
  have "dget (ob_done ob) uuid = None" "dget (ob_failed ob) uuid = None"
    using assms(2) by (auto simp: ob_view_def split: option.splits)
  then have "outbox_ok ob'" using assms(1) o' by (auto simp: outbox_ok_def folder_ok_dset)
  moreover have "ob_view ob' = (ob_view ob)(uuid \<mapsto> Pending e)" by (auto simp: fun_eq_iff o' ob_view_def split: option.splits)
  ultimately show ?thesis using o' by simp
qed

lemma requeue_ok: "outbox_ok ob \<Longrightarrow> outbox_ok (requeue_failed eid ob)"
proof (cases "dget (ob_failed ob) eid")
  case (Some j)
  assume ok: "outbox_ok ob"
  then have "envelope_to_dict (decode j) = j" "oe_envelope_id (decode j) = eid" using folder_content Some by (auto simp: outbox_ok_def)
  then have "folder_ok (dset eid j (ob_pending ob))" using folder_ok_dset [of "ob_pending ob" "decode j" eid] ok by (simp add: outbox_ok_def)
  then show ?thesis using ok Some by (auto simp: requeue_failed_def outbox_ok_def folder_ok_ddel)
qed (simp add: requeue_failed_def)

lemma outbox_step_ok: "outbox_step s s' \<Longrightarrow> outbox_ok (snd s) \<Longrightarrow> outbox_ok (snd s')"
proof (induction rule: outbox_step.induct)
  case (dispatched fl m fn limit h ob x h' ob')
  have ok: "outbox_ok ob" using dispatched.prems by simp
  obtain envs where l: "list_pending ob = Inr envs" using list_pending_ok [OF ok] by blast
  show ?case by (rule dispatch_pending_view [OF ok l, of fl m fn limit h]) (use dispatched.hyps in auto)
next
  case (enqueued ob uuid now c ids rid reason m e ob' h h')
  have "outbox_ok ob" using enqueued.prems by simp
  from enqueue_view [OF this enqueued.hyps] show ?case by simp
next
  case requeued
  then show ?case using requeue_ok by simp
qed

lemma outbox_reach_ok: "outbox_step\<^sup>*\<^sup>* (h, empty_outbox) s \<Longrightarrow> outbox_ok (snd s)"
  by (induction rule: rtranclp_induct) (auto dest: outbox_step_ok)

section \<open>Rounds of dispatching\<close>

lemma round_pending:
  assumes ok: "outbox_ok ob" and run: "dispatch_pending fl m fn limit (h, ob) = (x, h', ob')"
    and big: "int (card {k. \<exists>e. ob_view ob k = Some (Pending e)}) \<le> limit" and p: "ob_view ob' k = Some (Pending e')"
  shows "\<exists>e. ob_view ob k = Some (Pending e) \<and> oe_attempts e' = oe_attempts e + 1 \<and> oe_attempts e' < m"
proof -
  obtain envs where l: "list_pending ob = Inr envs" "distinct (map oe_envelope_id envs)"
    "set envs = {e. ob_view ob (oe_envelope_id e) = Some (Pending e)}" by (rule list_pending_ok [OF ok])
  have inj: "length envs \<le> card {k. \<exists>e. ob_view ob k = Some (Pending e)}"
  proof -
    have "oe_envelope_id ` set envs \<subseteq> {k. \<exists>e. ob_view ob k = Some (Pending e)}" using l(3) by auto
    moreover have "finite {k. \<exists>e. ob_view ob k = Some (Pending e)}"
    proof (rule finite_subset)
      show "{k. \<exists>e. ob_view ob k = Some (Pending e)} \<subseteq> set (dkeys (ob_pending ob))"
        using pending_view [OF ok] by (auto simp: set_dkeys)
    qed simp
    ultimately have "card (oe_envelope_id ` set envs) \<le> card {k. \<exists>e. ob_view ob k = Some (Pending e)}" by (rule card_mono [rotated])
    then show ?thesis using l(2) by (metis distinct_card length_map set_map)
  qed
  then have t: "py_take limit envs = envs" using big by (intro py_take_all) linarith
  obtain st h2 ob2 where d: "dispatch_pending fl m fn limit (h, ob) = (Inr st, h2, ob2)"
    "ob_view ob2 = ob_view ob ++ map_of (spec_updates m envs (outcomes fl fn envs h))"
    using dispatch_pending_view [OF ok l(1), of fl m fn limit h] unfolding t by metis
  then have v: "ob_view ob' = ob_view ob ++ map_of (spec_updates m envs (outcomes fl fn envs h))" using run by simp
  show ?thesis
  proof (cases "map_of (spec_updates m envs (outcomes fl fn envs h)) k")
    case None
    then have "ob_view ob k = Some (Pending e')" using v p by (simp add: map_add_def)
    moreover then have "oe_envelope_id e' = k" using pending_view [OF ok] folder_content ok by (metis decode_encode outbox_ok_def)
    ultimately have "k \<in> oe_envelope_id ` set envs" using l(3) by auto
    then show ?thesis using None spec_updates_keys [of envs "outcomes fl fn envs h" m]
      by (metis length_outcomes map_of_eq_None_iff set_map)
  next
    case (Some lt)
    then have lt: "lt = Pending e'" using v p by (simp add: map_add_def)
    from Some have "(k, lt) \<in> set (spec_updates m envs (outcomes fl fn envs h))" by (rule map_of_SomeD)
    then obtain e o' where e: "e \<in> set envs" "k = oe_envelope_id e" "lt = spec_dispatch m e o'"
      by (auto simp: spec_updates_def dest: set_zip_leftD)
    then show ?thesis using lt l(3) by (cases o') (auto simp: bump_def split: if_splits)
  qed
qed


text \<open>Several dispatch runs in a row, with nothing enqueued in between.\<close>

definition dispatch_rounds :: "(64 word \<Rightarrow> string) \<Rightarrow> int \<Rightarrow> int \<Rightarrow> 'h dispatch_fn list \<Rightarrow> 'h \<times> file_outbox \<Rightarrow> 'h \<times> file_outbox" where
  "dispatch_rounds fl m limit fns ho = foldl (\<lambda>ho fn. snd (dispatch_pending fl m fn limit ho)) ho fns"

lemma finite_pending:
  assumes "outbox_ok ob"
  shows "finite {k. \<exists>e. ob_view ob k = Some (Pending e)}"
proof (rule finite_subset)
  show "{k. \<exists>e. ob_view ob k = Some (Pending e)} \<subseteq> set (dkeys (ob_pending ob))"
    using pending_view [OF assms] by (auto simp: set_dkeys)
qed simp

lemma round_facts:
  assumes ok: "outbox_ok ob" and run: "dispatch_pending fl m fn limit (h, ob) = (x, h', ob')"
    and big: "int (card {k. \<exists>e. ob_view ob k = Some (Pending e)}) \<le> limit"
  shows "outbox_ok ob' \<and> dom (ob_view ob') = dom (ob_view ob) \<and> int (card {k. \<exists>e. ob_view ob' k = Some (Pending e)}) \<le> limit"
proof -
  obtain envs where l: "list_pending ob = Inr envs" by (rule list_pending_ok [OF ok])
  have 1: "outbox_ok ob' \<and> dom (ob_view ob') = dom (ob_view ob)"
    by (rule dispatch_pending_view [OF ok l, of fl m fn limit h]) (use run in auto)
  have "{k. \<exists>e. ob_view ob' k = Some (Pending e)} \<subseteq> {k. \<exists>e. ob_view ob k = Some (Pending e)}"
    using round_pending [OF ok run big] by blast
  then have "card {k. \<exists>e. ob_view ob' k = Some (Pending e)} \<le> card {k. \<exists>e. ob_view ob k = Some (Pending e)}"
    using finite_pending [OF ok] by (rule card_mono [rotated])
  then show ?thesis using 1 big by linarith
qed

lemma rounds_pending:
  assumes "outbox_ok ob" "int (card {k. \<exists>e. ob_view ob k = Some (Pending e)}) \<le> limit"
    and "dispatch_rounds fl m limit fns (h, ob) = (h', ob')"
  shows "outbox_ok ob' \<and> dom (ob_view ob') = dom (ob_view ob) \<and> (\<forall>k e'. ob_view ob' k = Some (Pending e') \<longrightarrow>
    (\<exists>e. ob_view ob k = Some (Pending e) \<and> oe_attempts e' = oe_attempts e + int (length fns) \<and> (fns \<noteq> [] \<longrightarrow> oe_attempts e' < m)))"
  using assms
proof (induction fns arbitrary: h ob)
  case Nil
  then show ?case by (simp add: dispatch_rounds_def)
next
  case (Cons fn fns)
  obtain x h1 ob1 where r: "dispatch_pending fl m fn limit (h, ob) = (x, h1, ob1)" by (metis prod.collapse)
  note f = round_facts [OF Cons.prems(1) r Cons.prems(2)] and p = round_pending [OF Cons.prems(1) r Cons.prems(2)]
  have run: "dispatch_rounds fl m limit fns (h1, ob1) = (h', ob')" using Cons.prems(3) r by (simp add: dispatch_rounds_def)
  have IH: "outbox_ok ob' \<and> dom (ob_view ob') = dom (ob_view ob1) \<and> (\<forall>k e'. ob_view ob' k = Some (Pending e') \<longrightarrow>
    (\<exists>e. ob_view ob1 k = Some (Pending e) \<and> oe_attempts e' = oe_attempts e + int (length fns) \<and> (fns \<noteq> [] \<longrightarrow> oe_attempts e' < m)))"
    using Cons.IH [OF _ _ run] f by blast
  have "\<exists>e. ob_view ob k = Some (Pending e) \<and> oe_attempts e' = oe_attempts e + int (length (fn # fns)) \<and> oe_attempts e' < m"
    if l: "ob_view ob' k = Some (Pending e')" for k e'
  proof -
    obtain e1 where e1: "ob_view ob1 k = Some (Pending e1)" "oe_attempts e' = oe_attempts e1 + int (length fns)" "fns \<noteq> [] \<longrightarrow> oe_attempts e' < m"
      using IH l by blast
    from p [OF e1(1)] obtain e where "ob_view ob k = Some (Pending e)" "oe_attempts e1 = oe_attempts e + 1" "oe_attempts e1 < m" by blast
    then show ?thesis using e1 by (cases fns) auto
  qed
  then show ?case using IH f by simp
qed

section \<open>Properties\<close>

text \<open>
  C20: the folders implement the map of letters: in every reachable outbox, a dispatch run returns its statistics, calls the
  callback on the first \<open>limit\<close> pending envelopes in file-name order, and changes exactly their letters: done on
  success, failed when the attempts are used up, otherwise pending with one more attempt. No envelope is lost or
  duplicated, and \<open>pending_left\<close> counts the pending ones.
\<close>

theorem outbox_dispatch_refines:
  assumes "outbox_step\<^sup>*\<^sup>* (h0, empty_outbox) (h, ob)"
  shows "\<exists>envs st h' ob'. list_pending ob = Inr envs \<and> map oe_envelope_id envs = map fst (sorted_files (ob_pending ob))
    \<and> set envs = {e. ob_view ob (oe_envelope_id e) = Some (Pending e)}
    \<and> dispatch_pending fl m fn limit (h, ob) = (Inr st, h', ob')
    \<and> ob_view ob' = ob_view ob ++ map_of (spec_updates m (py_take limit envs) (outcomes fl fn (py_take limit envs) h))
    \<and> dom (ob_view ob') = dom (ob_view ob) \<and> ds_pending_left st = card {k. \<exists>e. ob_view ob' k = Some (Pending e)}"
proof -
  have ok: "outbox_ok ob" using outbox_reach_ok [OF assms] by simp
  obtain envs where l: "list_pending ob = Inr envs" "map oe_envelope_id envs = map fst (sorted_files (ob_pending ob))"
    "set envs = {e. ob_view ob (oe_envelope_id e) = Some (Pending e)}" by (rule list_pending_ok [OF ok])
  obtain st h' ob' where d: "dispatch_pending fl m fn limit (h, ob) = (Inr st, h', ob')"
    "ob_view ob' = ob_view ob ++ map_of (spec_updates m (py_take limit envs) (outcomes fl fn (py_take limit envs) h))"
    "dom (ob_view ob') = dom (ob_view ob)" "ds_pending_left st = card {k. \<exists>e. ob_view ob' k = Some (Pending e)}"
    by (rule dispatch_pending_view [OF ok l(1)])
  show ?thesis by (intro exI conjI) (fact l d)+
qed

text \<open>A demonstration outbox with the envelopes \<open>e1\<close> and \<open>e2\<close>, and a callback that answers from a list.\<close>

definition demo_outbox :: file_outbox where
  "demo_outbox = snd (enqueue ''e2'' 2 ''users'' [''bob''] ''r2'' None 16 (snd (enqueue ''e1'' 1 ''users'' [''alice''] ''r1'' None 16 empty_outbox)))"

definition scripted :: "bool list dispatch_fn" where
  "scripted e h = (case h of [] \<Rightarrow> (Inl (RuntimeError ''down''), []) | b # bs \<Rightarrow> (Inr (JObj [(''success'', JBool b), (''message'', JStr ''no'')]), bs))"

lemma demo_outbox_reach: "outbox_step\<^sup>*\<^sup>* (h0, empty_outbox) (h, demo_outbox)"
proof -
  let ?o1 = "snd (enqueue ''e1'' 1 ''users'' [''alice''] ''r1'' None 16 empty_outbox)"
  have "outbox_step (h0, empty_outbox) (h0, ?o1)"
    by (rule enqueued [of _ "''e1''"]) (auto simp: empty_outbox_def ob_view_def enqueue_def Let_def)
  moreover have "outbox_step (h0, ?o1) (h, demo_outbox)"
    by (rule enqueued [of _ "''e2''"]) (auto simp: demo_outbox_def empty_outbox_def ob_view_def enqueue_def Let_def)
  ultimately show ?thesis by (rule converse_rtranclp_into_rtranclp [OF _ r_into_rtranclp])
qed

lemma outbox_dispatch_refines_witness:
  "\<exists>st h' ob'. dispatch_pending (\<lambda>_. []) 5 scripted 10 ([True, False], demo_outbox) = (Inr st, h', ob') \<and> dom (ob_view ob') = {''e1'', ''e2''}"
proof -
  have d: "dom (ob_view demo_outbox) = {''e1'', ''e2''}"
    by (auto simp: demo_outbox_def empty_outbox_def ob_view_def enqueue_def Let_def split: if_splits)
  have r: "outbox_step\<^sup>*\<^sup>* ([], empty_outbox) ([True, False], demo_outbox)" by (rule demo_outbox_reach)
  from outbox_dispatch_refines [OF r, of "\<lambda>_. []" 5 scripted 10] d show ?thesis by metis
qed

text \<open>
  C21: retries end: when nothing is enqueued in between and every run takes all pending envelopes, then after as many
  runs as an envelope has attempts left no envelope of a reachable outbox is pending any more, whatever the
  callback answers or raises; each is in the done or in the failed folder.
\<close>

theorem outbox_retries_bounded:
  assumes "outbox_step\<^sup>*\<^sup>* (h0, empty_outbox) (h, ob)" and "int (card {k. \<exists>e. ob_view ob k = Some (Pending e)}) \<le> limit"
    and "fns \<noteq> []" and "\<forall>k e. ob_view ob k = Some (Pending e) \<longrightarrow> m - oe_attempts e \<le> int (length fns)"
    and "dispatch_rounds fl m limit fns (h, ob) = (h', ob')"
  shows "dom (ob_view ob') = dom (ob_view ob) \<and> (\<forall>k e. ob_view ob' k \<noteq> Some (Pending e))"
proof -
  have ok: "outbox_ok ob" using outbox_reach_ok [OF assms(1)] by simp
  note r = rounds_pending [OF ok assms(2,5)]
  have False if l: "ob_view ob' k = Some (Pending e')" for k e'
  proof -
    obtain e where "ob_view ob k = Some (Pending e)" "oe_attempts e' = oe_attempts e + int (length fns)" "oe_attempts e' < m"
      using r l assms(3) by blast
    then show False using assms(4) by fastforce
  qed
  then show ?thesis using r by blast
qed

lemma outbox_retries_bounded_witness:
  "\<exists>h' ob'. dispatch_rounds (\<lambda>_. []) 2 10 [scripted, scripted] ([], demo_outbox) = (h', ob') \<and> (\<forall>e. ob_view ob' ''e1'' \<noteq> Some (Pending e))"
proof -
  obtain h' ob' where r: "dispatch_rounds (\<lambda>_. []) 2 10 [scripted, scripted] ([], demo_outbox) = (h', ob')" by fastforce
  have v: "ob_view demo_outbox k = Some (Pending e) \<Longrightarrow> (k = ''e1'' \<or> k = ''e2'') \<and> oe_attempts e = 0" for k e
    by (auto simp: demo_outbox_def empty_outbox_def ob_view_def enqueue_def Let_def split: if_splits)
  then have "{k. \<exists>e. ob_view demo_outbox k = Some (Pending e)} \<subseteq> {''e1'', ''e2''}" by blast
  then have "card {k. \<exists>e. ob_view demo_outbox k = Some (Pending e)} \<le> card {''e1'', ''e2''}" by (rule card_mono [rotated]) simp
  then have c: "int (card {k. \<exists>e. ob_view demo_outbox k = Some (Pending e)}) \<le> 10" by simp
  have a: "\<forall>k e. ob_view demo_outbox k = Some (Pending e) \<longrightarrow> 2 - oe_attempts e \<le> int (length [scripted, scripted])"
    using v by fastforce
  from outbox_retries_bounded [OF demo_outbox_reach c _ a r] r show ?thesis by blast
qed

text \<open>
  the workflow hook does not dispatch the intent it enqueued but the first pending one: with an older envelope whose
  file name sorts before the new one, the hook returns without an error although its own envelope has not been sent and is still
  pending, so the replica step of the ticket counts as done.
\<close>

theorem outbox_hook_skips_own_intent:
  assumes "outbox_step\<^sup>*\<^sup>* (h0, empty_outbox) (h, ob)" and "ob_view ob uuid = None"
    and "ob_view ob a = Some (Pending old)" and "a @ ''.json'' < uuid @ ''.json''"
    and "\<forall>d. dispatch_msg fl (fst (fn d h)) = None"
  shows "\<exists>j h' ob' e. outbox_replica_hook fl uuid now (Some (m, fn)) c ids rid (h, ob) = (Inr j, h', ob')
    \<and> ob_view ob' uuid = Some (Pending e) \<and> oe_attempts e = 0 \<and> oe_external_ids e = ids \<and> oe_request_id e = rid"
proof -
  have ok: "outbox_ok ob" using outbox_reach_ok [OF assms(1)] by simp
  obtain e ob1 where q: "enqueue uuid now c ids rid None 16 ob = (e, ob1)" by fastforce
  have e: "oe_external_ids e = ids" "oe_request_id e = rid" using q by (auto simp: enqueue_def Let_def)
  note v = enqueue_view [OF ok assms(2) q]
  obtain envs where l: "list_pending ob1 = Inr envs" "map oe_envelope_id envs = map fst (sorted_files (ob_pending ob1))"
    "set envs = {e. ob_view ob1 (oe_envelope_id e) = Some (Pending e)}" by (rule list_pending_ok [OF v [THEN conjunct1]])
  have "a \<noteq> uuid" using assms(2,3) by auto
  then have "ob_view ob1 a = Some (Pending old)" using v assms(3) by simp
  then have "dget (ob_pending ob1) a \<noteq> None" using pending_view v by blast
  then have "a \<in> set (map fst (ob_pending ob1))" by (metis dkeys_def domIff set_dkeys)
  then have af: "a \<in> set (map fst (sorted_files (ob_pending ob1)))" by (simp add: sorted_files_def)
  then obtain first rest where es: "envs = first # rest" using l(2) by (cases envs) (auto simp flip: l(2))
  have srt: "sorted (map (\<lambda>k. k @ ''.json'') (map oe_envelope_id envs))"
    unfolding l(2) by (simp add: sorted_files_def comp_def)
  then have "oe_envelope_id first @ ''.json'' \<le> a @ ''.json''" using af unfolding l(2) [symmetric] es by auto
  then have ne: "oe_envelope_id first \<noteq> uuid" using assms(4) by auto
  let ?o = "dispatch_msg fl (fst (fn first h))"
  have t: "py_take 1 envs = [first]" by (simp add: es py_take_def)
  obtain r1 h1 where fn: "fn first h = (r1, h1)" by fastforce
  then have ok1: "dispatch_msg fl r1 = None" using assms(5) by (metis fst_conv)
  obtain st h' ob' where d: "dispatch_pending fl m fn 1 (h, ob1) = (Inr st, h', ob')"
    "ob_view ob' = ob_view ob1 ++ map_of (spec_updates m [first] (outcomes fl fn [first] h))"
    using dispatch_pending_view [OF v [THEN conjunct1] l(1), of fl m fn 1 h] unfolding t by metis
  have "ds_failed st = 0"
    using d(1) l(1) t fn ok1 by (auto simp: dispatch_pending_def dispatch_one_def split: sum.splits)
  then have "\<exists>j. outbox_replica_hook fl uuid now (Some (m, fn)) c ids rid (h, ob) = (Inr j, h', ob')"
    using q d(1) by (simp add: outbox_replica_hook_def)
  moreover have "ob_view ob' uuid = Some (Pending e)"
    using d(2) ne v fn by (simp add: spec_updates_def map_add_def)
  ultimately show ?thesis using v e by blast
qed

lemma outbox_hook_skips_own_intent_witness:
  "\<exists>j h' ob' e. outbox_replica_hook (\<lambda>_. []) ''f'' 3 (Some (5, scripted)) ''users'' [''carol''] ''r3'' ([True], demo_outbox) = (Inr j, h', ob')
    \<and> ob_view ob' ''f'' = Some (Pending e)"
proof -
  have 1: "ob_view demo_outbox ''f'' = None" "\<exists>old. ob_view demo_outbox ''e1'' = Some (Pending old)"
    by (auto simp: demo_outbox_def empty_outbox_def ob_view_def enqueue_def Let_def)
  then obtain old where old: "ob_view demo_outbox ''e1'' = Some (Pending old)" by blast
  have 2: "''e1'' @ ''.json'' < ''f'' @ ''.json''" by code_simp
  have 3: "\<forall>d. dispatch_msg (\<lambda>_. []) (fst (scripted d [True])) = None"
    by (simp add: scripted_def dispatch_msg_def get_or_def dget_Cons)
  have r: "outbox_step\<^sup>*\<^sup>* ([], empty_outbox) ([True], demo_outbox)" by (rule demo_outbox_reach)
  from outbox_hook_skips_own_intent [where fl = "\<lambda>_. []" and fn = scripted, OF r 1(1) old 2 3] show ?thesis by blast
qed

end
