(* ===== verification/QueueTransports.thy ===== *)
theory QueueTransports
  imports Outbox
begin

text \<open>
  \<open>integrations/queue_transports.py\<close>: the queue of delete intents as a directory of JSON files (keyed by file name without extension), as a
  list of a Redis client and as an SQS queue (both clients are parameters). A JSON text is its value. File operations succeed.
\<close>

section \<open>Messages\<close>

record queue_message =
  qm_message_id :: string
  qm_body :: json
  qm_receipt_handle :: string
  qm_enqueued_unix_ns :: int

text \<open>\<open>asdict\<close> of a message, and the message of a JSON object with a given handle. \<open>dict(...)\<close> of the body needs an object.\<close>

definition message_dict :: "queue_message \<Rightarrow> json" where
  "message_dict m = JObj [(''message_id'', JStr (qm_message_id m)), (''body'', qm_body m), (''receipt_handle'', JStr (qm_receipt_handle m)),
     (''enqueued_unix_ns'', JInt (qm_enqueued_unix_ns m))]"

definition parse_message :: "json \<Rightarrow> string option \<Rightarrow> queue_message res" where
  "parse_message j handle = bind_res (items_of j) (\<lambda>d.
     bind_res (bind_res (req d ''message_id'') coerce_str) (\<lambda>mid.
     bind_res (bind_res (req d ''body'') items_of) (\<lambda>body.
     bind_res (coerce_int (get_or d ''enqueued_unix_ns'' (JInt 0))) (\<lambda>t.
       Inr \<lparr>qm_message_id = mid, qm_body = JObj body, qm_receipt_handle = (case handle of None \<Rightarrow> mid | Some h \<Rightarrow> h), qm_enqueued_unix_ns = t\<rparr>))))"

section \<open>Files\<close>

record file_queue =
  fq_pending :: "(string, json) dict"
  fq_processing :: "(string, json) dict"
  fq_done :: "(string, json) dict"

definition empty_queue :: file_queue where
  "empty_queue = \<lparr>fq_pending = [], fq_processing = [], fq_done = []\<rparr>"

definition fq_path :: "string \<Rightarrow> string \<Rightarrow> string" where
  "fq_path folder k = folder @ ''/'' @ k @ ''.json''"

definition fq_enqueue :: "string \<Rightarrow> int \<Rightarrow> json \<Rightarrow> file_queue \<Rightarrow> string res \<times> file_queue" where
  "fq_enqueue uuid now body q =
    (Inr uuid, q\<lparr>fq_pending := dset uuid (sort_keys (message_dict \<lparr>qm_message_id = uuid, qm_body = body, qm_receipt_handle = [],
        qm_enqueued_unix_ns = now\<rparr>)) (fq_pending q)\<rparr>)"

text \<open>The files are taken in order; a file that does not parse raises, with the earlier ones already moved.\<close>

fun fq_take :: "(string \<times> json) list \<Rightarrow> file_queue \<Rightarrow> queue_message list res \<times> file_queue" where
  "fq_take [] q = (Inr [], q)"
| "fq_take ((k, j) # rest) q =
    (case parse_message j (Some (fq_path ''processing'' k)) of
       Inl e \<Rightarrow> (Inl e, q)
     | Inr m \<Rightarrow>
         (case fq_take rest (q\<lparr>fq_pending := ddel k (fq_pending q), fq_processing := dset k j (fq_processing q)\<rparr>) of
            (Inl e, q1) \<Rightarrow> (Inl e, q1)
          | (Inr ms, q1) \<Rightarrow> (Inr (m # ms), q1)))"

definition fq_dequeue :: "int \<Rightarrow> file_queue \<Rightarrow> queue_message list res \<times> file_queue" where
  "fq_dequeue max_messages q = fq_take (py_take max_messages (sorted_files (fq_pending q))) q"

text \<open>\<open>ack\<close> moves the file that the handle names, if there is one.\<close>

definition fq_file :: "string \<Rightarrow> (string, json) dict \<Rightarrow> string \<Rightarrow> (string \<times> json) option" where
  "fq_file folder d handle = find (\<lambda>kv. fq_path folder (fst kv) = handle) d"

definition fq_ack :: "queue_message \<Rightarrow> file_queue \<Rightarrow> file_queue" where
  "fq_ack m q =
    (case fq_file ''processing'' (fq_processing q) (qm_receipt_handle m) of
       Some (k, j) \<Rightarrow> q\<lparr>fq_processing := ddel k (fq_processing q), fq_done := dset k j (fq_done q)\<rparr>
     | None \<Rightarrow>
         (case fq_file ''pending'' (fq_pending q) (qm_receipt_handle m) of
            Some (k, j) \<Rightarrow> q\<lparr>fq_pending := ddel k (fq_pending q), fq_done := dset k j (fq_done q)\<rparr>
          | None \<Rightarrow> q))"

section \<open>Redis\<close>

record 'r redis_client =
  rd_rpush :: "string \<Rightarrow> json \<Rightarrow> 'r \<Rightarrow> unit res \<times> 'r"
  rd_lpop :: "string \<Rightarrow> 'r \<Rightarrow> json option res \<times> 'r"
  rd_blpop :: "(string \<Rightarrow> int \<Rightarrow> 'r \<Rightarrow> json option res \<times> 'r) option"

definition rd_enqueue :: "'r redis_client \<Rightarrow> string \<Rightarrow> string \<Rightarrow> int \<Rightarrow> json \<Rightarrow> 'r \<Rightarrow> string res \<times> 'r" where
  "rd_enqueue C key uuid now body r =
    (case rd_rpush C key (JObj [(''message_id'', JStr uuid), (''body'', body), (''enqueued_unix_ns'', JInt now)]) r of
       (Inl e, r1) \<Rightarrow> (Inl e, r1)
     | (Inr _, r1) \<Rightarrow> (Inr uuid, r1))"

definition rd_pop :: "'r redis_client \<Rightarrow> string \<Rightarrow> rat \<Rightarrow> 'r \<Rightarrow> json option res \<times> 'r" where
  "rd_pop C key wait_s r =
    (case rd_blpop C of
       Some blpop \<Rightarrow> if 0 < wait_s then blpop key (max 1 (floor wait_s)) r else rd_lpop C key r
     | None \<Rightarrow> rd_lpop C key r)"

fun rd_dequeue :: "'r redis_client \<Rightarrow> string \<Rightarrow> rat \<Rightarrow> nat \<Rightarrow> 'r \<Rightarrow> queue_message list res \<times> 'r" where
  "rd_dequeue C key wait_s 0 r = (Inr [], r)"
| "rd_dequeue C key wait_s (Suc n) r =
    (case rd_pop C key wait_s r of
       (Inl e, r1) \<Rightarrow> (Inl e, r1)
     | (Inr None, r1) \<Rightarrow> (Inr [], r1)
     | (Inr (Some j), r1) \<Rightarrow>
         (case parse_message j None of
            Inl e \<Rightarrow> (Inl e, r1)
          | Inr m \<Rightarrow>
              (case rd_dequeue C key wait_s n r1 of
                 (Inl e, r2) \<Rightarrow> (Inl e, r2)
               | (Inr ms, r2) \<Rightarrow> (Inr (m # ms), r2))))"

definition rd_ack :: "queue_message \<Rightarrow> 'r \<Rightarrow> 'r" where
  "rd_ack m r = r"

section \<open>SQS\<close>

record sqs_message =
  sq_message_id :: string
  sq_receipt_handle :: string
  sq_body :: json

record 's sqs_client =
  sq_send :: "string \<Rightarrow> json \<Rightarrow> 's \<Rightarrow> string option res \<times> 's"
  sq_receive :: "string \<Rightarrow> int \<Rightarrow> int \<Rightarrow> 's \<Rightarrow> sqs_message list option res \<times> 's"
  sq_delete :: "string \<Rightarrow> string \<Rightarrow> 's \<Rightarrow> unit res \<times> 's"

definition sq_enqueue :: "'s sqs_client \<Rightarrow> string \<Rightarrow> string \<Rightarrow> int \<Rightarrow> json \<Rightarrow> 's \<Rightarrow> string res \<times> 's" where
  "sq_enqueue C url uuid now body s =
    (case sq_send C url (JObj [(''message_id'', JStr uuid), (''body'', body), (''enqueued_unix_ns'', JInt now)]) s of
       (Inl e, s1) \<Rightarrow> (Inl e, s1)
     | (Inr mid, s1) \<Rightarrow> (Inr (case mid of None \<Rightarrow> uuid | Some i \<Rightarrow> i), s1))"

definition sq_parse :: "sqs_message \<Rightarrow> queue_message res" where
  "sq_parse m = bind_res (items_of (sq_body m)) (\<lambda>d.
     bind_res (coerce_str (get_or d ''message_id'' (JStr (sq_message_id m)))) (\<lambda>mid.
     bind_res (items_of (get_or d ''body'' (JObj d))) (\<lambda>body.
     bind_res (coerce_int (get_or d ''enqueued_unix_ns'' (JInt 0))) (\<lambda>t.
       Inr \<lparr>qm_message_id = mid, qm_body = JObj body, qm_receipt_handle = sq_receipt_handle m, qm_enqueued_unix_ns = t\<rparr>))))"

definition sq_dequeue :: "'s sqs_client \<Rightarrow> string \<Rightarrow> int \<Rightarrow> rat \<Rightarrow> 's \<Rightarrow> queue_message list res \<times> 's" where
  "sq_dequeue C url max_messages wait_s s =
    (case sq_receive C url (min max_messages 10) (floor (min (max wait_s 0) 20)) s of
       (Inl e, s1) \<Rightarrow> (Inl e, s1)
     | (Inr ms, s1) \<Rightarrow> (map_res sq_parse (case ms of None \<Rightarrow> [] | Some xs \<Rightarrow> xs), s1))"

definition sq_ack :: "'s sqs_client \<Rightarrow> string \<Rightarrow> queue_message \<Rightarrow> 's \<Rightarrow> unit res \<times> 's" where
  "sq_ack C url m s = sq_delete C url (qm_receipt_handle m) s"

section \<open>Delete intents\<close>

definition intent_body :: "string \<Rightarrow> string list \<Rightarrow> string \<Rightarrow> string option \<Rightarrow> int \<Rightarrow> json" where
  "intent_body collection ids request_id reason max_m =
    JObj [(''kind'', JStr ''hnsw_healer.delete_intent''), (''request_id'', JStr request_id), (''collection'', JStr collection),
      (''external_ids'', JList (map JStr ids)), (''reason'', jopt JStr reason), (''max_m'', JInt max_m)]"

definition enqueue_delete_intent ::
  "(json \<Rightarrow> 'q \<Rightarrow> string res \<times> 'q) \<Rightarrow> string \<Rightarrow> string list \<Rightarrow> string \<Rightarrow> string option \<Rightarrow> int \<Rightarrow> 'q \<Rightarrow> string res \<times> 'q" where
  "enqueue_delete_intent enq collection ids request_id reason max_m q = enq (intent_body collection ids request_id reason max_m) q"

section \<open>The file queue delivers at most once and loses nothing\<close>

text \<open>Where a message is.\<close>

datatype stage = InPending | InProcessing | InDone

definition fq_view :: "file_queue \<Rightarrow> string \<Rightarrow> (stage \<times> json) option" where
  "fq_view q k =
    (case dget (fq_pending q) k of Some j \<Rightarrow> Some (InPending, j)
     | None \<Rightarrow> (case dget (fq_processing q) k of Some j \<Rightarrow> Some (InProcessing, j)
       | None \<Rightarrow> (case dget (fq_done q) k of Some j \<Rightarrow> Some (InDone, j) | None \<Rightarrow> None)))"

text \<open>The folders are disjoint and hold messages as \<open>enqueue\<close> writes them.\<close>

definition written :: "string \<Rightarrow> json \<Rightarrow> bool" where
  "written k j \<longleftrightarrow> (\<exists>kvs t. j = sort_keys (message_dict \<lparr>qm_message_id = k, qm_body = JObj kvs, qm_receipt_handle = [], qm_enqueued_unix_ns = t\<rparr>))"

definition fq_ok :: "file_queue \<Rightarrow> bool" where
  "fq_ok q \<longleftrightarrow> dict_ok (fq_pending q) \<and> dict_ok (fq_processing q) \<and> dict_ok (fq_done q)
     \<and> (\<forall>k. dget (fq_pending q) k \<noteq> None \<longrightarrow> dget (fq_processing q) k = None \<and> dget (fq_done q) k = None)
     \<and> (\<forall>k. dget (fq_processing q) k \<noteq> None \<longrightarrow> dget (fq_done q) k = None)
     \<and> (\<forall>k j. dget (fq_pending q) k = Some j \<longrightarrow> written k j)"

lemma fq_ok_empty [simp]: "fq_ok empty_queue"
  by (simp add: fq_ok_def empty_queue_def)

lemma parse_written:
  "parse_message (sort_keys (message_dict \<lparr>qm_message_id = k, qm_body = JObj kvs, qm_receipt_handle = [], qm_enqueued_unix_ns = t\<rparr>)) (Some h)
    = Inr \<lparr>qm_message_id = k, qm_body = sort_keys (JObj kvs), qm_receipt_handle = h, qm_enqueued_unix_ns = t\<rparr>"
  by (simp add: message_dict_def parse_message_def req_def get_or_def dget_Cons sort_key_def)

lemma fq_ok_written: "fq_ok q \<Longrightarrow> dget (fq_pending q) k = Some j \<Longrightarrow> \<exists>kvs t. parse_message j (Some h)
    = Inr \<lparr>qm_message_id = k, qm_body = sort_keys (JObj kvs), qm_receipt_handle = h, qm_enqueued_unix_ns = t\<rparr>"
  unfolding fq_ok_def written_def using parse_written by blast

lemma fq_ok_move:
  assumes "fq_ok q" "dget (fq_pending q) k = Some j"
  shows "fq_ok (q\<lparr>fq_pending := ddel k (fq_pending q), fq_processing := dset k j (fq_processing q)\<rparr>)"
  using assms by (auto simp: fq_ok_def)

lemma fq_take_ok:
  assumes "fq_ok q" "distinct (map fst items)" "\<forall>(k, j)\<in>set items. dget (fq_pending q) k = Some j"
  shows "\<exists>ms q'. fq_take items q = (Inr ms, q') \<and> map qm_message_id ms = map fst items \<and> fq_ok q'
    \<and> (\<forall>k. dget (fq_pending q') k = (if k \<in> fst ` set items then None else dget (fq_pending q) k))
    \<and> (\<forall>k. dget (fq_processing q') k = (if k \<in> fst ` set items then dget (fq_pending q) k else dget (fq_processing q) k))
    \<and> fq_done q' = fq_done q"
  using assms
proof (induction items arbitrary: q)
  case Nil
  then show ?case by simp
next
  case (Cons a items)
  obtain k j where a: "a = (k, j)" by fastforce
  have k: "dget (fq_pending q) k = Some j" "k \<notin> fst ` set items" using Cons.prems(2,3) a by auto
  let ?q = "q\<lparr>fq_pending := ddel k (fq_pending q), fq_processing := dset k j (fq_processing q)\<rparr>"
  have ok: "fq_ok ?q" by (rule fq_ok_move [OF Cons.prems(1) k(1)])
  have "\<forall>(i, x)\<in>set items. dget (fq_pending ?q) i = Some x" using Cons.prems(3) k(2) by force
  from Cons.IH [OF ok _ this] Cons.prems(2) obtain ms q' where
    rec: "fq_take items ?q = (Inr ms, q')" "map qm_message_id ms = map fst items" "fq_ok q'"
      "\<forall>k. dget (fq_pending q') k = (if k \<in> fst ` set items then None else dget (fq_pending ?q) k)"
      "\<forall>k. dget (fq_processing q') k = (if k \<in> fst ` set items then dget (fq_pending ?q) k else dget (fq_processing ?q) k)"
      "fq_done q' = fq_done ?q" by auto
  obtain kvs t where p: "parse_message j (Some (fq_path ''processing'' k))
    = Inr \<lparr>qm_message_id = k, qm_body = sort_keys (JObj kvs), qm_receipt_handle = fq_path ''processing'' k, qm_enqueued_unix_ns = t\<rparr>"
    using fq_ok_written [OF Cons.prems(1) k(1)] by blast
  show ?case
    using a p rec k by (intro exI [of _ "_ # ms"] exI [of _ q']) auto
qed

lemma fq_dequeue_ok:
  assumes "fq_ok q"
  shows "\<exists>ms q'. fq_dequeue n q = (Inr ms, q') \<and> fq_ok q' \<and> map qm_message_id ms = map fst (py_take n (sorted_files (fq_pending q)))
    \<and> distinct (map qm_message_id ms) \<and> (\<forall>k\<in>set (map qm_message_id ms). dget (fq_pending q) k \<noteq> None)
    \<and> (\<forall>k. dget (fq_pending q') k = (if k \<in> set (map qm_message_id ms) then None else dget (fq_pending q) k))
    \<and> (\<forall>k. dget (fq_processing q') k = (if k \<in> set (map qm_message_id ms) then dget (fq_pending q) k else dget (fq_processing q) k))
    \<and> fq_done q' = fq_done q"
proof -
  let ?f = "sorted_files (fq_pending q)" and ?items = "py_take n (sorted_files (fq_pending q))"
  have ok: "dict_ok (fq_pending q)" using assms by (simp add: fq_ok_def)
  have st: "set ?f = set (fq_pending q)" "distinct (map fst ?f)" using ok dict_ok_key_sort by (auto simp: sorted_files_def)
  have "map fst ?items = py_take n (map fst ?f)" by (simp add: py_take_def take_map)
  then have d: "distinct (map fst ?items)" using st(2) by (simp add: py_take_def)
  have "\<forall>(k, j)\<in>set ?items. dget (fq_pending q) k = Some j" using set_py_take [of n ?f] st(1) dget_in [OF ok] by blast
  from fq_take_ok [OF assms d this] obtain ms q' where
    t: "fq_take ?items q = (Inr ms, q')" "map qm_message_id ms = map fst ?items" "fq_ok q'"
      "\<forall>k. dget (fq_pending q') k = (if k \<in> fst ` set ?items then None else dget (fq_pending q) k)"
      "\<forall>k. dget (fq_processing q') k = (if k \<in> fst ` set ?items then dget (fq_pending q) k else dget (fq_processing q) k)"
      "fq_done q' = fq_done q" by blast
  have s: "fst ` set ?items = set (map qm_message_id ms)" unfolding t(2) by simp
  have "\<forall>k\<in>set (map qm_message_id ms). dget (fq_pending q) k \<noteq> None"
    using \<open>\<forall>(k, j)\<in>set ?items. dget (fq_pending q) k = Some j\<close> unfolding s [symmetric] by fastforce
  then show ?thesis using t d unfolding fq_dequeue_def s by (metis t(2))
qed

lemma fq_take_parses:
  "fq_take items q = (Inr ms, q') \<Longrightarrow> map_res (\<lambda>(k, j). parse_message j (Some (fq_path ''processing'' k))) items = Inr ms"
  by (induction items arbitrary: q ms) (auto split: sum.splits prod.splits)

text \<open>A client: enqueue, dequeue, acknowledge something that is in work.\<close>

datatype queue_op = QEnq string int "(string \<times> json) list" | QDeq int | QAck queue_message

fun queue_step :: "queue_op \<Rightarrow> file_queue \<times> string list \<Rightarrow> file_queue \<times> string list" where
  "queue_step (QEnq uuid now kvs) (q, delivered) = (snd (fq_enqueue uuid now (JObj kvs) q), delivered)"
| "queue_step (QDeq n) (q, delivered) =
    (case fq_dequeue n q of (Inl e, q1) \<Rightarrow> (q1, delivered) | (Inr ms, q1) \<Rightarrow> (q1, delivered @ map qm_message_id ms))"
| "queue_step (QAck m) (q, delivered) = (fq_ack m q, delivered)"

fun enqueued :: "queue_op list \<Rightarrow> string list" where
  "enqueued [] = []"
| "enqueued (QEnq uuid now kvs # ops) = uuid # enqueued ops"
| "enqueued (op # ops) = enqueued ops"

definition ack_ok :: "queue_op \<Rightarrow> bool" where
  "ack_ok op = (case op of QAck m \<Rightarrow> take 10 (qm_receipt_handle m) = ''processing'' | _ \<Rightarrow> True)"

definition queue_inv :: "string set \<Rightarrow> file_queue \<times> string list \<Rightarrow> bool" where
  "queue_inv E qd \<longleftrightarrow> fq_ok (fst qd) \<and> distinct (snd qd) \<and> (\<forall>k. fq_view (fst qd) k \<noteq> None \<longleftrightarrow> k \<in> E)
     \<and> (\<forall>k. k \<in> set (snd qd) \<longleftrightarrow> k \<in> E \<and> dget (fq_pending (fst qd)) k = None)"

lemma fq_view_None: "fq_view q k = None \<longleftrightarrow> dget (fq_pending q) k = None \<and> dget (fq_processing q) k = None \<and> dget (fq_done q) k = None"
  by (auto simp: fq_view_def split: option.splits)

lemma fq_file_in: "fq_file folder d h = Some (k, j) \<Longrightarrow> (k, j) \<in> set d \<and> fq_path folder k = h"
  unfolding fq_file_def by (induction d) (auto split: if_splits)

lemma queue_inv_enq:
  assumes "queue_inv E (q, ds)" "u \<notin> E"
  shows "queue_inv (insert u E) (queue_step (QEnq u t kvs) (q, ds))"
proof -
  let ?j = "sort_keys (message_dict \<lparr>qm_message_id = u, qm_body = JObj kvs, qm_receipt_handle = [], qm_enqueued_unix_ns = t\<rparr>)"
  let ?q = "q\<lparr>fq_pending := dset u ?j (fq_pending q)\<rparr>"
  have n: "dget (fq_pending q) u = None" "dget (fq_processing q) u = None" "dget (fq_done q) u = None"
    using assms unfolding queue_inv_def fst_conv by (metis fq_view_None)+
  have "written u ?j" unfolding written_def by blast
  then have ok: "fq_ok ?q" using assms(1) n unfolding queue_inv_def fq_ok_def by auto
  have v: "fq_view ?q k \<noteq> None \<longleftrightarrow> k = u \<or> fq_view q k \<noteq> None" for k by (auto simp: fq_view_None)
  have "u \<notin> set ds" using assms unfolding queue_inv_def by auto
  then show ?thesis using assms ok v unfolding queue_inv_def by (auto simp: fq_enqueue_def)
qed

lemma queue_inv_deq:
  assumes "queue_inv E (q, ds)"
  shows "queue_inv E (queue_step (QDeq n) (q, ds))"
proof -
  have q: "fq_ok q" using assms by (simp add: queue_inv_def)
  obtain ms q' where d: "fq_dequeue n q = (Inr ms, q')" "fq_ok q'" "distinct (map qm_message_id ms)"
    "\<forall>k\<in>set (map qm_message_id ms). dget (fq_pending q) k \<noteq> None"
    "\<forall>k. dget (fq_pending q') k = (if k \<in> set (map qm_message_id ms) then None else dget (fq_pending q) k)"
    "\<forall>k. dget (fq_processing q') k = (if k \<in> set (map qm_message_id ms) then dget (fq_pending q) k else dget (fq_processing q) k)"
    "fq_done q' = fq_done q" using fq_dequeue_ok [OF q, of n] by blast
  let ?ids = "map qm_message_id ms"
  have v: "fq_view q' k = None \<longleftrightarrow> fq_view q k = None" for k
    using d(4-7) unfolding fq_view_None by (cases "k \<in> set ?ids") auto
  have E: "k \<in> set ?ids \<Longrightarrow> k \<in> E" for k using assms d(4) unfolding queue_inv_def fst_conv by (metis fq_view_None)
  have dis: "k \<in> set ?ids \<Longrightarrow> k \<notin> set ds" for k using assms d(4) unfolding queue_inv_def fst_conv snd_conv by blast
  have "k \<in> set (ds @ ?ids) \<longleftrightarrow> k \<in> E \<and> dget (fq_pending q') k = None" for k
    using assms d(5) E by (cases "k \<in> set ?ids") (auto simp: queue_inv_def)
  moreover have "set ds \<inter> set ?ids = {}" using dis by blast
  then have "distinct (ds @ ?ids)" using assms d(3) unfolding queue_inv_def snd_conv distinct_append by blast
  ultimately show ?thesis using assms d(1,2) v by (simp add: queue_inv_def)
qed

lemma queue_inv_ack:
  assumes "queue_inv E (q, ds)" "take 10 (qm_receipt_handle m) = ''processing''"
  shows "queue_inv E (queue_step (QAck m) (q, ds))"
proof (cases "fq_file ''processing'' (fq_processing q) (qm_receipt_handle m)")
  case None
  have "fq_file ''pending'' (fq_pending q) (qm_receipt_handle m) = None"
  proof (rule ccontr)
    assume "fq_file ''pending'' (fq_pending q) (qm_receipt_handle m) \<noteq> None"
    then obtain k j where "fq_file ''pending'' (fq_pending q) (qm_receipt_handle m) = Some (k, j)" by auto
    then have "fq_path ''pending'' k = qm_receipt_handle m" using fq_file_in by blast
    then have "take 2 (fq_path ''pending'' k) = take 2 (take 10 (qm_receipt_handle m))" by (simp add: take_take)
    then show False unfolding assms(2) by (simp add: fq_path_def)
  qed
  then show ?thesis using assms(1) None by (simp add: fq_ack_def)
next
  case (Some kj)
  obtain k j where kj: "kj = (k, j)" by fastforce
  have ok: "fq_ok q" using assms(1) by (simp add: queue_inv_def)
  have k: "dget (fq_processing q) k = Some j"
    using fq_file_in [OF Some [unfolded kj]] ok dget_in [of "fq_processing q" k j] by (simp add: fq_ok_def)
  let ?q = "q\<lparr>fq_processing := ddel k (fq_processing q), fq_done := dset k j (fq_done q)\<rparr>"
  have pn: "dget (fq_pending q) k = None" using ok k unfolding fq_ok_def by (metis option.distinct(1))
  have ok': "fq_ok ?q" using ok k pn unfolding fq_ok_def by auto
  have "fq_view ?q i = None \<longleftrightarrow> fq_view q i = None" for i using k by (auto simp: fq_view_None)
  then show ?thesis using assms(1) Some kj ok' by (simp add: queue_inv_def fq_ack_def)
qed

lemma queue_run_inv:
  assumes "queue_inv E qd" "distinct (enqueued ops)" "set (enqueued ops) \<inter> E = {}" "list_all ack_ok ops"
  shows "queue_inv (E \<union> set (enqueued ops)) (foldl (\<lambda>s op. queue_step op s) qd ops)"
  using assms
proof (induction ops arbitrary: qd E)
  case Nil
  then show ?case by simp
next
  case (Cons op ops)
  obtain q ds where qd: "qd = (q, ds)" by fastforce
  show ?case
  proof (cases op)
    case (QEnq u t kvs)
    have "queue_inv (insert u E) (queue_step op qd)" using queue_inv_enq [of E q ds u t kvs] Cons.prems qd QEnq by auto
    from Cons.IH [OF this] Cons.prems QEnq show ?thesis by auto
  next
    case (QDeq n)
    have "queue_inv E (queue_step op qd)" using queue_inv_deq [of E q ds n] Cons.prems(1) qd QDeq by simp
    from Cons.IH [OF this] Cons.prems QDeq show ?thesis by auto
  next
    case (QAck m)
    have "queue_inv E (queue_step op qd)" using queue_inv_ack [of E q ds m] Cons.prems(1,4) qd QAck by (simp add: ack_ok_def)
    from Cons.IH [OF this] Cons.prems QAck show ?thesis by auto
  qed
qed

section \<open>Properties\<close>


definition demo_queue_ops :: "queue_op list" where
  "demo_queue_ops = [QEnq ''m2'' 5 [(''kind'', JStr ''x'')], QEnq ''m1'' 6 [], QDeq 1,
     QAck \<lparr>qm_message_id = ''m1'', qm_body = JObj [], qm_receipt_handle = ''processing/m1.json'', qm_enqueued_unix_ns = 6\<rparr>, QDeq 1, QDeq 1]"

definition demo_queue_end :: "file_queue \<times> string list" where
  "demo_queue_end = foldl (\<lambda>s op. queue_step op s) (empty_queue, []) demo_queue_ops"

lemma demo_queue_run:
  "snd demo_queue_end = [''m1'', ''m2'']" "enqueued demo_queue_ops = [''m2'', ''m1'']" "list_all ack_ok demo_queue_ops"
  by code_simp+


text \<open>
  An intent that was put on the file queue under a fresh id comes back: a dequeue with room for everything that is pending returns a message
  with that id whose body has the fields of the intent (in the order of sorted keys).
\<close>

theorem delete_intent_roundtrip:
  assumes "fq_ok q" "fq_view q uuid = None" "int (length (fq_pending q)) < n"
    and "enqueue_delete_intent (fq_enqueue uuid now) collection ids request_id reason max_m q = (res, q1)"
  shows "\<exists>ms q2 m. fq_dequeue n q1 = (Inr ms, q2) \<and> res = Inr uuid \<and> m \<in> set ms \<and> qm_message_id m = uuid
    \<and> qm_body m = sort_keys (intent_body collection ids request_id reason max_m)"
proof -
  let ?b = "intent_body collection ids request_id reason max_m"
  let ?j = "sort_keys (message_dict \<lparr>qm_message_id = uuid, qm_body = ?b, qm_receipt_handle = [], qm_enqueued_unix_ns = now\<rparr>)"
  have q1: "q1 = q\<lparr>fq_pending := dset uuid ?j (fq_pending q)\<rparr>" "res = Inr uuid"
    using assms(4) by (simp_all add: enqueue_delete_intent_def fq_enqueue_def)
  obtain kvs where kvs: "?b = JObj kvs" by (simp add: intent_body_def)
  have n: "dget (fq_pending q) uuid = None" "dget (fq_processing q) uuid = None" "dget (fq_done q) uuid = None"
    using assms(2) by (simp_all add: fq_view_None)
  have "written uuid ?j" unfolding written_def kvs by blast
  then have ok: "fq_ok q1" using assms(1) n unfolding q1 fq_ok_def by auto
  have len: "length (fq_pending q1) = Suc (length (fq_pending q))" using n(1) by (simp add: q1 dset_new)
  let ?items = "py_take n (sorted_files (fq_pending q1))"
  have "?items = sorted_files (fq_pending q1)" by (rule py_take_all) (use len assms(3) in \<open>simp add: sorted_files_def\<close>)
  moreover have "(uuid, ?j) \<in> set (fq_pending q1)" using ok dget_in [of "fq_pending q1" uuid ?j] by (simp add: fq_ok_def q1)
  ultimately have item: "(uuid, ?j) \<in> set ?items" by (simp add: sorted_files_def)
  obtain ms q2 where d: "fq_dequeue n q1 = (Inr ms, q2)" using fq_dequeue_ok [OF ok, of n] by blast
  obtain m where m: "m \<in> set ms" "parse_message ?j (Some (fq_path ''processing'' uuid)) = Inr m"
    using map_res_elem [OF fq_take_parses [OF d [unfolded fq_dequeue_def]] item] by auto
  have "m = \<lparr>qm_message_id = uuid, qm_body = sort_keys ?b, qm_receipt_handle = fq_path ''processing'' uuid, qm_enqueued_unix_ns = now\<rparr>"
    using m(2) unfolding kvs parse_written by simp
  then show ?thesis using d q1(2) m(1) by (intro exI [of _ ms] exI [of _ q2] exI [of _ m]) simp
qed

definition demo_intent_queue :: "string res \<times> file_queue" where
  "demo_intent_queue = enqueue_delete_intent (fq_enqueue ''q-1'' 7) ''docs'' [''u1'', ''u2''] ''req-9'' (Some ''gdpr'') 16 empty_queue"

lemma delete_intent_roundtrip_witness:
  "\<exists>ms q2 m. fq_dequeue 5 (snd demo_intent_queue) = (Inr ms, q2) \<and> m \<in> set ms \<and> qm_message_id m = ''q-1''
    \<and> qm_body m = sort_keys (intent_body ''docs'' [''u1'', ''u2''] ''req-9'' (Some ''gdpr'') 16)"
proof -
  have "enqueue_delete_intent (fq_enqueue ''q-1'' 7) ''docs'' [''u1'', ''u2''] ''req-9'' (Some ''gdpr'') 16 empty_queue
     = (fst demo_intent_queue, snd demo_intent_queue)" by (simp add: demo_intent_queue_def)
  moreover have "fq_view empty_queue ''q-1'' = None" "int (length (fq_pending empty_queue)) < 5"
    by (simp_all add: fq_view_None empty_queue_def)
  ultimately show ?thesis using delete_intent_roundtrip [OF fq_ok_empty] by blast
qed

end
