(* ===== verification/ReplicaFanout.thy ===== *)
theory ReplicaFanout
  imports Workflow
begin

text \<open>
  \<open>integrations/replica_fanout.py\<close>: delete intents, the idempotent worker, the in-process and HTTP transports and the
  coordinator that waits for a quorum. Latencies are left out. A send is one step: the pool runs one send per replica
  id, and \<open>order\<close> is the order in which they complete. The HTTP client is the parameter \<open>post\<close>; the three caught classes
  \<open>URLError\<close>, \<open>HTTPError\<close> and \<open>TimeoutError\<close> are \<open>OSError\<close> here, any other failure of it is another exception.
\<close>

section \<open>Intents and acknowledgements\<close>

record delete_intent =
  di_request_id :: string
  di_collection :: string
  di_external_ids :: "string list"
  di_reason :: "string option"
  di_max_m :: int
  di_timestamp_unix_ns :: int

definition intent_to_json :: "delete_intent \<Rightarrow> json" where
  "intent_to_json i = JObj [(''request_id'', JStr (di_request_id i)), (''collection'', JStr (di_collection i)),
     (''external_ids'', JList (map JStr (di_external_ids i))), (''reason'', jopt JStr (di_reason i)),
     (''max_m'', JInt (di_max_m i)), (''timestamp_unix_ns'', JInt (di_timestamp_unix_ns i))]"

definition intent_from_json :: "int \<Rightarrow> json \<Rightarrow> delete_intent res" where
  "intent_from_json now j = bind_res (items_of j) (\<lambda>d.
     bind_res (bind_res (req d ''request_id'') coerce_str) (\<lambda>rid.
     bind_res (bind_res (req d ''collection'') coerce_str) (\<lambda>coll.
     bind_res (bind_res (bind_res (req d ''external_ids'') as_list) (map_res as_str)) (\<lambda>ids.
     bind_res (as_opt_str (get_or d ''reason'' JNull)) (\<lambda>reason.
     bind_res (coerce_int (get_or d ''max_m'' (JInt 16))) (\<lambda>m.
     bind_res (coerce_int (get_or d ''timestamp_unix_ns'' (JInt now))) (\<lambda>t.
       Inr \<lparr>di_request_id = rid, di_collection = coll, di_external_ids = ids, di_reason = reason, di_max_m = m,
            di_timestamp_unix_ns = t\<rparr>)))))))"

record replica_ack =
  ra_replica_id :: string
  ra_request_id :: string
  ra_success :: bool
  ra_message :: string

section \<open>Workers and transports\<close>

type_synonym 'w apply_fn = "string \<Rightarrow> string list \<Rightarrow> string option \<Rightarrow> int \<Rightarrow> 'w \<Rightarrow> (bool \<times> string) res \<times> 'w"

record 'w replica_worker =
  rw_replica_id :: string
  rw_apply :: "'w apply_fn"
  rw_seen :: "string list"
  rw_world :: 'w

definition run_apply :: "'w replica_worker \<Rightarrow> delete_intent \<Rightarrow> (bool \<times> string) res \<times> 'w" where
  "run_apply w i = rw_apply w (di_collection i) (di_external_ids i) (di_reason i) (di_max_m i) (rw_world w)"

definition ack_of :: "string \<Rightarrow> delete_intent \<Rightarrow> bool \<Rightarrow> string \<Rightarrow> replica_ack" where
  "ack_of rid i ok msg = \<lparr>ra_replica_id = rid, ra_request_id = di_request_id i, ra_success = ok, ra_message = msg\<rparr>"

definition handle :: "delete_intent \<Rightarrow> 'w replica_worker \<Rightarrow> replica_ack \<times> 'w replica_worker" where
  "handle i w =
    (if di_request_id i \<in> set (rw_seen w) then (ack_of (rw_replica_id w) i True ''idempotent_replay'', w)
     else case run_apply w i of
       (Inr (ok, msg), v) \<Rightarrow>
         (ack_of (rw_replica_id w) i ok msg,
          w\<lparr>rw_world := v, rw_seen := (if ok then List.insert (di_request_id i) (rw_seen w) else rw_seen w)\<rparr>)
     | (Inl e, v) \<Rightarrow> (ack_of (rw_replica_id w) i False (exn_str e), w\<lparr>rw_world := v\<rparr>))"

type_synonym 'w workers = "(string, 'w replica_worker) dict"

definition in_process_send :: "string \<Rightarrow> delete_intent \<Rightarrow> 'w workers \<Rightarrow> replica_ack res \<times> 'w workers" where
  "in_process_send replica_id i ws =
    (case dget ws replica_id of
       None \<Rightarrow> (Inr (ack_of replica_id i False (''unknown replica '' @ replica_id)), ws)
     | Some w \<Rightarrow> (case handle i w of (a, w') \<Rightarrow> (Inr a, dset replica_id w' ws)))"

definition rstrip_slash :: "string \<Rightarrow> string" where
  "rstrip_slash s = rev (dropWhile (\<lambda>c. c = CHR ''/'') (rev s))"

text \<open>\<open>post url body net\<close> is the decoded JSON body of the response, or what \<open>urlopen\<close>, \<open>read\<close> or the decoding raise.\<close>

definition http_send ::
  "(string, string) dict \<Rightarrow> string \<Rightarrow> (string \<Rightarrow> json \<Rightarrow> 'n \<Rightarrow> json res \<times> 'n) \<Rightarrow> string \<Rightarrow> delete_intent \<Rightarrow> 'n \<Rightarrow> replica_ack res \<times> 'n" where
  "http_send endpoints path post replica_id i net =
    (case dget endpoints replica_id of
       None \<Rightarrow> (Inr (ack_of replica_id i False ''unknown replica endpoint''), net)
     | Some base \<Rightarrow>
         if base = [] then (Inr (ack_of replica_id i False ''unknown replica endpoint''), net)
         else
           (case post (rstrip_slash base @ path) (intent_to_json i) net of
              (Inr body, net1) \<Rightarrow>
                (bind_res (items_of body) (\<lambda>kvs. bind_res (coerce_str (get_or kvs ''message'' (JStr [])))
                   (\<lambda>msg. Inr (ack_of replica_id i (truthy (get_or kvs ''success'' JNull)) msg))), net1)
            | (Inl (OSError m), net1) \<Rightarrow> (Inr (ack_of replica_id i False m), net1)
            | (Inl (ValueError m), net1) \<Rightarrow> (Inr (ack_of replica_id i False m), net1)
            | (Inl e, net1) \<Rightarrow> (Inl e, net1)))"

section \<open>The coordinator\<close>

record fanout_result =
  fr_request_id :: string
  fr_quorum :: int
  fr_acks :: "replica_ack list"
  fr_quorum_met :: bool

record coordinator =
  co_replica_ids :: "string list"
  co_quorum :: int

definition make_coordinator :: "string list \<Rightarrow> int option \<Rightarrow> coordinator res" where
  "make_coordinator replica_ids quorum =
    (if replica_ids = [] then Inl (ValueError ''replica_ids must be non-empty'')
     else Inr \<lparr>co_replica_ids = replica_ids,
               co_quorum = (case quorum of Some q \<Rightarrow> q | None \<Rightarrow> max 1 (int (length replica_ids) div 2 + 1))\<rparr>)"

definition successes :: "replica_ack list \<Rightarrow> nat" where
  "successes acks = length (filter ra_success acks)"

fun send_all :: "(string \<Rightarrow> delete_intent \<Rightarrow> 's \<Rightarrow> replica_ack res \<times> 's) \<Rightarrow> delete_intent \<Rightarrow> string list \<Rightarrow> 's
    \<Rightarrow> replica_ack res list \<times> 's" where
  "send_all send i [] s = ([], s)"
| "send_all send i (r # rs) s =
    (case send r i s of (x, s1) \<Rightarrow> case send_all send i rs s1 of (xs, s2) \<Rightarrow> (x # xs, s2))"

text \<open>All submitted sends run, also when one raises; the first failed future in completion order is re-raised.\<close>

definition publish ::
  "(string \<Rightarrow> delete_intent \<Rightarrow> 's \<Rightarrow> replica_ack res \<times> 's) \<Rightarrow> coordinator \<Rightarrow> string \<Rightarrow> int \<Rightarrow> string list \<Rightarrow> string \<Rightarrow> string list
    \<Rightarrow> string option \<Rightarrow> int \<Rightarrow> string option \<Rightarrow> 's \<Rightarrow> fanout_result res \<times> 's" where
  "publish send co uuid now order collection ids reason max_m request_id s =
    (let i = \<lparr>di_request_id = (case request_id of None \<Rightarrow> uuid | Some q \<Rightarrow> if q = [] then uuid else q), di_collection = collection,
              di_external_ids = ids, di_reason = reason, di_max_m = max_m, di_timestamp_unix_ns = now\<rparr>
     in case send_all send i order s of
          (xs, s1) \<Rightarrow>
            (bind_res (map_res id xs) (\<lambda>acks.
               Inr \<lparr>fr_request_id = di_request_id i, fr_quorum = co_quorum co, fr_acks = acks,
                    fr_quorum_met = (int (successes acks) \<ge> co_quorum co)\<rparr>), s1))"

definition publish_after_local ::
  "bool \<Rightarrow> (string \<Rightarrow> delete_intent \<Rightarrow> 's \<Rightarrow> replica_ack res \<times> 's) \<Rightarrow> coordinator \<Rightarrow> string \<Rightarrow> int \<Rightarrow> string list \<Rightarrow> string \<Rightarrow> string list
    \<Rightarrow> string option \<Rightarrow> int \<Rightarrow> string option \<Rightarrow> 's \<Rightarrow> fanout_result res \<times> 's" where
  "publish_after_local local_success send co uuid now order collection ids reason max_m request_id s =
    (if \<not> local_success
     then (Inr \<lparr>fr_request_id = (case request_id of None \<Rightarrow> uuid | Some q \<Rightarrow> if q = [] then uuid else q), fr_quorum = co_quorum co,
               fr_acks = [], fr_quorum_met = False\<rparr>, s)
     else publish send co uuid now order collection ids reason max_m request_id s)"


section \<open>Quorums\<close>

text \<open>What waiting for a quorum is good for: two quorums of the same replicas meet.\<close>

locale quorum_system =
  fixes is_quorum :: "'a list \<Rightarrow> 'a set \<Rightarrow> bool"
  assumes within: "is_quorum rs Q \<Longrightarrow> Q \<subseteq> set rs"
    and meet: "distinct rs \<Longrightarrow> is_quorum rs P \<Longrightarrow> is_quorum rs Q \<Longrightarrow> P \<inter> Q \<noteq> {}"
begin

lemma reader_meets_writer:
  "distinct rs \<Longrightarrow> is_quorum rs {r \<in> set rs. W r} \<Longrightarrow> is_quorum rs R \<Longrightarrow> \<exists>r\<in>R. W r"
  using meet by blast

lemma no_opposite_quorum: "distinct rs \<Longrightarrow> is_quorum rs Q \<Longrightarrow> \<not> is_quorum rs (set rs - Q)"
  using meet by blast

end

definition majority :: "'a list \<Rightarrow> 'a set \<Rightarrow> bool" where
  "majority rs Q \<longleftrightarrow> Q \<subseteq> set rs \<and> length rs < 2 * card Q"

lemma majority_meet:
  assumes "distinct rs" "majority rs P" "majority rs Q"
  shows "P \<inter> Q \<noteq> {}"
proof
  assume e: "P \<inter> Q = {}"
  have fin: "finite P" "finite Q" using assms(2,3) by (auto simp: majority_def intro: finite_subset)
  have "card (P \<union> Q) = card P + card Q" by (rule card_Un_disjoint [OF fin e])
  moreover have "card (P \<union> Q) \<le> length rs" using assms card_mono [of "set rs" "P \<union> Q"] by (simp add: majority_def distinct_card)
  ultimately show False using assms(2,3) by (simp add: majority_def)
qed

interpretation maj: quorum_system majority
  by unfold_locales (auto simp: majority_def dest: majority_meet [unfolded majority_def])

section \<open>One round of sends\<close>

lemma intent_roundtrip: "intent_from_json now (intent_to_json i) = Inr i"
proof -
  have "map_res as_str (map JStr xs) = Inr xs" for xs by (rule map_res_id) simp
  then show ?thesis by (simp add: intent_from_json_def intent_to_json_def req_def get_or_def dget_Cons)
qed

definition ack_at :: "delete_intent \<Rightarrow> 'w workers \<Rightarrow> string \<Rightarrow> replica_ack" where
  "ack_at i ws r = (case dget ws r of None \<Rightarrow> ack_of r i False (''unknown replica '' @ r) | Some w \<Rightarrow> fst (handle i w))"

lemma send_all_in_process:
  assumes "distinct order" "send_all in_process_send i order ws = (xs, ws')"
  shows "xs = map (\<lambda>r. Inr (ack_at i ws r)) order
    \<and> (\<forall>r. dget ws' r = (if r \<in> set order then map_option (\<lambda>w. snd (handle i w)) (dget ws r) else dget ws r))"
  using assms
proof (induction order arbitrary: ws xs)
  case Nil
  then show ?case by simp
next
  case (Cons q order)
  define ws1 where "ws1 = snd (in_process_send q i ws)"
  have s: "in_process_send q i ws = (Inr (ack_at i ws q), ws1)"
    by (simp add: ws1_def in_process_send_def ack_at_def split: option.split prod.split)
  have v: "dget ws1 r = (if r = q then map_option (\<lambda>w. snd (handle i w)) (dget ws q) else dget ws r)" for r
    by (simp add: ws1_def in_process_send_def split: option.split prod.split)
  obtain ys where ys: "send_all in_process_send i order ws1 = (ys, ws')" "xs = Inr (ack_at i ws q) # ys"
    using Cons.prems(2) s by (auto split: prod.splits)
  from Cons.IH [OF _ ys(1)] Cons.prems(1) have
    "ys = map (\<lambda>r. Inr (ack_at i ws1 r)) order
     \<and> (\<forall>r. dget ws' r = (if r \<in> set order then map_option (\<lambda>w. snd (handle i w)) (dget ws1 r) else dget ws1 r))" by simp
  moreover have "ack_at i ws1 r = ack_at i ws r" if "r \<in> set order" for r using that Cons.prems(1) v by (auto simp: ack_at_def)
  ultimately show ?case using ys(2) v Cons.prems(1) by auto
qed

lemma map_res_Inr_id: "map_res id (map (\<lambda>r. Inr (f r)) xs) = Inr (map f xs)"
  by (induction xs) auto

lemma fresh_handle:
  assumes "di_request_id i \<notin> set (rw_seen w)"
  shows "ra_success (fst (handle i w)) \<longleftrightarrow> (\<exists>msg v. run_apply w i = (Inr (True, msg), v)
    \<and> rw_world (snd (handle i w)) = v \<and> di_request_id i \<in> set (rw_seen (snd (handle i w))))"
  using assms by (auto simp: handle_def ack_of_def split: prod.splits sum.splits)

text \<open>A sequence of intents at one worker.\<close>

fun handle_all :: "delete_intent list \<Rightarrow> 'w replica_worker \<Rightarrow> replica_ack list \<times> 'w replica_worker" where
  "handle_all [] w = ([], w)"
| "handle_all (i # is) w = (case handle i w of (a, w1) \<Rightarrow> case handle_all is w1 of (as, w2) \<Rightarrow> (a # as, w2))"

lemma handle_success_seen: "handle i w = (a, w1) \<Longrightarrow> ra_success a \<Longrightarrow> di_request_id i \<in> set (rw_seen w1)"
  by (auto simp: handle_def ack_of_def split: if_splits prod.splits sum.splits)

lemma handle_all_seen:
  "\<forall>j\<in>set js. di_request_id j \<in> set (rw_seen w) \<Longrightarrow> handle_all js w = (map (\<lambda>j. ack_of (rw_replica_id w) j True ''idempotent_replay'') js, w)"
  by (induction js) (auto simp: handle_def)

section \<open>Properties\<close>


text \<open>Three workers, one of which is down.\<close>

definition demo_worker :: "string \<Rightarrow> bool \<Rightarrow> nat replica_worker" where
  "demo_worker r up = \<lparr>rw_replica_id = r,
     rw_apply = (\<lambda>_ ids _ _ w. if up then (Inr (True, ''ok''), w + length ids) else (Inl (RuntimeError ''down''), w)),
     rw_seen = [], rw_world = 0\<rparr>"

definition demo_workers :: "nat workers" where
  "demo_workers = [(''a'', demo_worker ''a'' True), (''b'', demo_worker ''b'' False), (''c'', demo_worker ''c'' True)]"


text \<open>
  A worker applies a request once: after a successful acknowledgement, every later intent with the same request id is
  acknowledged as a replay and changes nothing. The ids are not compared: an intent that reuses the request id for other
  ids is acknowledged without having been applied.
\<close>

theorem replay_is_not_applied:
  assumes "handle i w = (a, w1)" and "ra_success a" and "\<forall>j\<in>set js. di_request_id j = di_request_id i"
  shows "handle_all js w1 = (map (\<lambda>j. ack_of (rw_replica_id w1) j True ''idempotent_replay'') js, w1)"
  by (rule handle_all_seen) (use assms handle_success_seen [OF assms(1,2)] in simp)


lemma replay_is_not_applied_witness:
  "\<exists>a w1. handle \<lparr>di_request_id = ''q'', di_collection = ''users'', di_external_ids = [''x''], di_reason = None, di_max_m = 16,
       di_timestamp_unix_ns = 1\<rparr> (demo_worker ''a'' True) = (a, w1)
    \<and> snd (handle_all [\<lparr>di_request_id = ''q'', di_collection = ''users'', di_external_ids = [''y''], di_reason = None, di_max_m = 16,
       di_timestamp_unix_ns = 2\<rparr>] w1) = w1"
proof -
  let ?i = "\<lambda>x t. \<lparr>di_request_id = ''q'', di_collection = ''users'', di_external_ids = [x], di_reason = None, di_max_m = 16, di_timestamp_unix_ns = t\<rparr>"
  obtain a w1 where h: "handle (?i ''x'' 1) (demo_worker ''a'' True) = (a, w1)" "ra_success a"
    by (simp add: handle_def run_apply_def demo_worker_def ack_of_def)
  have "\<forall>j\<in>set [?i ''y'' 2]. di_request_id j = di_request_id (?i ''x'' 1)" by simp
  from replay_is_not_applied [OF h this] h(1) show ?thesis by (metis snd_conv)
qed

end
