(* ===== verification/CryptoShred.thy ===== *)
theory CryptoShred
  imports Residual
begin

text \<open>
  \<open>compliance/crypto_shred.py\<close> and \<open>compliance/kms_backends.py\<close>: the in-memory vault of per-entity keys, the file-backed
  and the AWS and GCP key services, and the vault that keeps only wrapped keys. AES-GCM and the cloud clients are
  parameters; \<open>aead_ok\<close> and \<open>client_ok\<close> state what their documentation promises. The bytes that \<open>secrets\<close> returns are
  arguments of each call. Writing the key file succeeds; the locks make each operation one step.
\<close>

section \<open>Base64\<close>

definition b64_alphabet :: string where
  "b64_alphabet = ''ABCDEFGHIJKLMNOPQRSTUVWXYZabcdefghijklmnopqrstuvwxyz0123456789+/''"

definition b64_char :: "nat \<Rightarrow> char" where
  "b64_char n = b64_alphabet ! n"

definition b64_val :: "char \<Rightarrow> nat res" where
  "b64_val c = (case find (\<lambda>n. b64_char n = c) [0..<64] of None \<Rightarrow> Inl Unmodelled | Some n \<Rightarrow> Inr n)"

fun b64encode :: "bytes \<Rightarrow> string" where
  "b64encode [] = []"
| "b64encode [a] = [b64_char (unat a div 4), b64_char (unat a mod 4 * 16), CHR ''='', CHR ''='']"
| "b64encode [a, b] = [b64_char (unat a div 4), b64_char (unat a mod 4 * 16 + unat b div 16),
     b64_char (unat b mod 16 * 4), CHR ''='']"
| "b64encode (a # b # c # rest) = b64_char (unat a div 4) # b64_char (unat a mod 4 * 16 + unat b div 16)
     # b64_char (unat b mod 16 * 4 + unat c div 64) # b64_char (unat c mod 64) # b64encode rest"

text \<open>Decoding of padded text over the alphabet; other characters, which \<open>b64decode\<close> drops, are outside the model.\<close>

fun b64decode :: "string \<Rightarrow> bytes res" where
  "b64decode [] = Inr []"
| "b64decode (p # q # r # s # rest) =
    bind_res (b64_val p) (\<lambda>x. bind_res (b64_val q) (\<lambda>y.
      if r = CHR ''='' \<and> s = CHR ''='' \<and> rest = [] then Inr [of_nat (x * 4 + y div 16)]
      else bind_res (b64_val r) (\<lambda>z.
        if s = CHR ''='' \<and> rest = [] then Inr [of_nat (x * 4 + y div 16), of_nat (y mod 16 * 16 + z div 4)]
        else bind_res (b64_val s) (\<lambda>w. bind_res (b64decode rest) (\<lambda>bs.
          Inr (of_nat (x * 4 + y div 16) # of_nat (y mod 16 * 16 + z div 4) # of_nat (z mod 4 * 64 + w) # bs))))))"
| "b64decode _ = Inl (ValueError ''Incorrect padding'')"

section \<open>The in-memory vault\<close>

record aead =
  ae_encrypt :: "bytes \<Rightarrow> bytes \<Rightarrow> bytes \<Rightarrow> bytes option \<Rightarrow> bytes"
  ae_decrypt :: "bytes \<Rightarrow> bytes \<Rightarrow> bytes \<Rightarrow> bytes option \<Rightarrow> bytes res"

record vault =
  va_keys :: "(string, bytes) dict"
  va_shredded :: "string list"

definition new_vault :: vault where
  "new_vault = \<lparr>va_keys = [], va_shredded = []\<rparr>"

record shred_receipt =
  sr_entity_id :: string
  sr_shredded :: bool
  sr_timestamp_unix_ns :: int
  sr_message :: string

definition provision :: "bytes \<Rightarrow> string \<Rightarrow> vault \<Rightarrow> bytes res \<times> vault" where
  "provision dek entity_id v =
    (let eid = py_strip entity_id in
     if eid = [] then (Inl (ValueError ''entity_id required''), v)
     else if eid \<in> set (va_shredded v)
     then (Inl (RuntimeError (''entity '' @ py_repr eid @ '' was crypto-shredded; cannot re-provision without explicit admin recovery policy'')), v)
     else case dget (va_keys v) eid of
       Some k \<Rightarrow> (Inr k, v)
     | None \<Rightarrow> (Inr dek, v\<lparr>va_keys := dset eid dek (va_keys v)\<rparr>))"

definition aad_opt :: "bytes \<Rightarrow> bytes option" where
  "aad_opt aad = (if aad = [] then None else Some aad)"

definition encrypt :: "aead \<Rightarrow> bytes \<Rightarrow> bytes \<Rightarrow> string \<Rightarrow> bytes \<Rightarrow> bytes \<Rightarrow> vault \<Rightarrow> bytes res \<times> vault" where
  "encrypt a dek nonce entity_id plaintext aad v =
    (case provision dek entity_id v of
       (Inl e, v1) \<Rightarrow> (Inl e, v1)
     | (Inr key, v1) \<Rightarrow> (Inr (nonce @ ae_encrypt a key nonce plaintext (aad_opt aad)), v1))"

definition open_blob :: "aead \<Rightarrow> bytes \<Rightarrow> bytes \<Rightarrow> bytes \<Rightarrow> bytes res" where
  "open_blob a key blob aad =
    (if length blob < 13 then Inl (ValueError ''ciphertext too short'')
     else ae_decrypt a key (take 12 blob) (drop 12 blob) (aad_opt aad))"

definition decrypt :: "aead \<Rightarrow> string \<Rightarrow> bytes \<Rightarrow> bytes \<Rightarrow> vault \<Rightarrow> bytes res" where
  "decrypt a entity_id blob aad v =
    (let eid = py_strip entity_id;
         no = Inl (RuntimeError (''crypto-shredded or unknown entity '' @ py_repr eid @ '': cannot decrypt'')) in
     if eid \<in> set (va_shredded v) then no
     else case dget (va_keys v) eid of None \<Rightarrow> no | Some key \<Rightarrow> open_blob a key blob aad)"

definition EMBEDDING_AAD :: bytes where
  "EMBEDDING_AAD = str_bytes ''embedding/f32''"

definition encrypt_vector :: "aead \<Rightarrow> bytes \<Rightarrow> bytes \<Rightarrow> string \<Rightarrow> f32 list \<Rightarrow> vault \<Rightarrow> bytes res \<times> vault" where
  "encrypt_vector a dek nonce entity_id vec v = encrypt a dek nonce entity_id (pack_f32_le vec) EMBEDDING_AAD v"

fun frombuffer_f32 :: "bytes \<Rightarrow> f32 list res" where
  "frombuffer_f32 [] = Inr []"
| "frombuffer_f32 (a # b # c # d # rest) =
    bind_res (frombuffer_f32 rest) (\<lambda>vs. Inr (of_nat (le_nat [a, b, c, d]) # vs))"
| "frombuffer_f32 _ = Inl (ValueError ''buffer size must be a multiple of element size'')"

definition decrypt_vector :: "aead \<Rightarrow> string \<Rightarrow> bytes \<Rightarrow> vault \<Rightarrow> f32 list res" where
  "decrypt_vector a entity_id blob v = bind_res (decrypt a entity_id blob EMBEDDING_AAD v) frombuffer_f32"

definition shred :: "int \<Rightarrow> string \<Rightarrow> vault \<Rightarrow> shred_receipt \<times> vault" where
  "shred now entity_id v =
    (let eid = py_strip entity_id in
     (\<lparr>sr_entity_id = eid, sr_shredded = True, sr_timestamp_unix_ns = now,
       sr_message = (if dget (va_keys v) eid \<noteq> None then ''DEK destroyed''
                     else ''no DEK present; marked shredded for fail-closed decrypt'')\<rparr>,
      v\<lparr>va_keys := ddel eid (va_keys v), va_shredded := List.insert eid (va_shredded v)\<rparr>))"

definition is_shredded :: "string \<Rightarrow> vault \<Rightarrow> bool" where
  "is_shredded entity_id v \<longleftrightarrow> py_strip entity_id \<in> set (va_shredded v)"

section \<open>Key services\<close>

text \<open>The protocol \<open>KeyManagementService\<close> over a state \<open>'k\<close>; \<open>km_wrap\<close> takes the nonce it would draw.\<close>

record 'k kms_ops =
  km_wrap :: "string \<Rightarrow> bytes \<Rightarrow> bytes \<Rightarrow> 'k \<Rightarrow> bytes res \<times> 'k"
  km_unwrap :: "string \<Rightarrow> bytes \<Rightarrow> 'k \<Rightarrow> bytes res"
  km_destroy :: "string \<Rightarrow> 'k \<Rightarrow> unit res \<times> 'k"

subsection \<open>The file-backed service\<close>

text \<open>\<open>lk_path\<close> says whether a path was given, \<open>lk_file\<close> is the JSON in the file.\<close>

record local_kms =
  lk_path :: bool
  lk_file :: "json option"
  lk_master :: bytes
  lk_wrapped :: "(string, string) dict"
  lk_destroyed :: "string list"

definition lk_payload :: "local_kms \<Rightarrow> json" where
  "lk_payload k = JObj [(''master'', JStr (b64encode (lk_master k))),
     (''wrapped'', JObj (map (\<lambda>(e, t). (e, JStr t)) (lk_wrapped k))), (''destroyed'', JList (map JStr (sort (lk_destroyed k))))]"

definition lk_persist :: "local_kms \<Rightarrow> local_kms" where
  "lk_persist k = (if lk_path k then k\<lparr>lk_file := Some (lk_payload k)\<rparr> else k)"

definition json_str_of :: "json \<Rightarrow> string res" where
  "json_str_of j = (case j of JStr s \<Rightarrow> Inr s | _ \<Rightarrow> Inl Unmodelled)"

definition lk_load :: "json \<Rightarrow> local_kms res" where
  "lk_load raw = (case raw of JObj kvs \<Rightarrow>
      (case dget kvs ''master'' of
         None \<Rightarrow> Inl (KeyError ''master'')
       | Some m \<Rightarrow>
           bind_res (bind_res (json_str_of m) b64decode) (\<lambda>master.
           bind_res (case dget kvs ''wrapped'' of None \<Rightarrow> Inr [] | Some (JObj ws) \<Rightarrow> map_res (\<lambda>(e, j). bind_res (json_str_of j) (\<lambda>t. Inr (e, t))) ws
                     | Some _ \<Rightarrow> Inl Unmodelled) (\<lambda>wrapped.
           bind_res (case dget kvs ''destroyed'' of None \<Rightarrow> Inr [] | Some (JList ds) \<Rightarrow> map_res json_str_of ds | Some _ \<Rightarrow> Inl Unmodelled) (\<lambda>ds.
             Inr \<lparr>lk_path = True, lk_file = Some raw, lk_master = master, lk_wrapped = wrapped, lk_destroyed = remdups ds\<rparr>))))
    | _ \<Rightarrow> Inl Unmodelled)"

definition lk_init :: "bool \<Rightarrow> json option \<Rightarrow> bytes option \<Rightarrow> bytes \<Rightarrow> local_kms res" where
  "lk_init path file master_key rnd =
    (let fresh = (\<lambda>m. lk_persist \<lparr>lk_path = path, lk_file = file, lk_master = m, lk_wrapped = [], lk_destroyed = []\<rparr>) in
     case master_key of
       Some m \<Rightarrow> if length m \<noteq> 32 then Inl (ValueError ''master_key must be 32 bytes'') else Inr (fresh m)
     | None \<Rightarrow> (case (path, file) of (True, Some raw) \<Rightarrow> lk_load raw | _ \<Rightarrow> Inr (fresh rnd)))"

definition shredded_error :: "string \<Rightarrow> exn" where
  "shredded_error eid = RuntimeError (''entity '' @ py_repr eid @ '' shredded'')"

definition lk_wrap_dek :: "aead \<Rightarrow> string \<Rightarrow> bytes \<Rightarrow> bytes \<Rightarrow> local_kms \<Rightarrow> bytes res \<times> local_kms" where
  "lk_wrap_dek a eid dek nonce k =
    (if eid \<in> set (lk_destroyed k) then (Inl (shredded_error eid), k)
     else let blob = nonce @ ae_encrypt a (lk_master k) nonce dek (Some (utf8 eid))
          in (Inr blob, lk_persist (k\<lparr>lk_wrapped := dset eid (b64encode blob) (lk_wrapped k)\<rparr>)))"

definition lk_unwrap_dek :: "aead \<Rightarrow> string \<Rightarrow> bytes \<Rightarrow> local_kms \<Rightarrow> bytes res" where
  "lk_unwrap_dek a eid wrapped k =
    (if eid \<in> set (lk_destroyed k) then Inl (shredded_error eid)
     else bind_res (case dget (lk_wrapped k) eid of Some t \<Rightarrow> b64decode t | None \<Rightarrow> Inr wrapped) (\<lambda>w.
       if length w < 13 then Inl (ValueError ''wrapped DEK too short'')
       else ae_decrypt a (lk_master k) (take 12 w) (drop 12 w) (Some (utf8 eid))))"

definition lk_destroy_entity_key :: "string \<Rightarrow> local_kms \<Rightarrow> local_kms" where
  "lk_destroy_entity_key eid k =
    lk_persist (k\<lparr>lk_wrapped := ddel eid (lk_wrapped k), lk_destroyed := List.insert eid (lk_destroyed k)\<rparr>)"

definition local_ops :: "aead \<Rightarrow> local_kms kms_ops" where
  "local_ops a = \<lparr>km_wrap = lk_wrap_dek a, km_unwrap = lk_unwrap_dek a, km_destroy = (\<lambda>e k. (Inr (), lk_destroy_entity_key e k))\<rparr>"

subsection \<open>Cloud services\<close>

text \<open>A cloud client encrypts and decrypts with the entity as context (AWS) or additional data (GCP).\<close>

record cloud_client =
  cc_encrypt :: "string \<Rightarrow> bytes \<Rightarrow> bytes res"
  cc_decrypt :: "string \<Rightarrow> bytes \<Rightarrow> bytes res"

record aws_kms =
  aw_destroyed :: "string list"
  aw_cache :: "(string, bytes) dict"

definition aws_init :: aws_kms where
  "aws_init = \<lparr>aw_destroyed = [], aw_cache = []\<rparr>"

definition aws_wrap_dek :: "cloud_client \<Rightarrow> string \<Rightarrow> bytes \<Rightarrow> bytes \<Rightarrow> aws_kms \<Rightarrow> bytes res \<times> aws_kms" where
  "aws_wrap_dek c eid dek nonce k =
    (if eid \<in> set (aw_destroyed k) then (Inl (shredded_error eid), k)
     else case cc_encrypt c eid dek of Inl e \<Rightarrow> (Inl e, k) | Inr blob \<Rightarrow> (Inr blob, k\<lparr>aw_cache := dset eid blob (aw_cache k)\<rparr>))"

definition aws_unwrap_dek :: "cloud_client \<Rightarrow> string \<Rightarrow> bytes \<Rightarrow> aws_kms \<Rightarrow> bytes res" where
  "aws_unwrap_dek c eid wrapped k = (if eid \<in> set (aw_destroyed k) then Inl (shredded_error eid) else cc_decrypt c eid wrapped)"

definition aws_destroy_entity_key :: "string \<Rightarrow> aws_kms \<Rightarrow> aws_kms" where
  "aws_destroy_entity_key eid k = k\<lparr>aw_destroyed := List.insert eid (aw_destroyed k), aw_cache := ddel eid (aw_cache k)\<rparr>"

definition aws_ops :: "cloud_client \<Rightarrow> aws_kms kms_ops" where
  "aws_ops c = \<lparr>km_wrap = aws_wrap_dek c, km_unwrap = aws_unwrap_dek c, km_destroy = (\<lambda>e k. (Inr (), aws_destroy_entity_key e k))\<rparr>"

text \<open>The GCP service keeps only the deny list.\<close>

type_synonym gcp_kms = "string list"

definition gcp_wrap_dek :: "cloud_client \<Rightarrow> string \<Rightarrow> bytes \<Rightarrow> bytes \<Rightarrow> gcp_kms \<Rightarrow> bytes res \<times> gcp_kms" where
  "gcp_wrap_dek c eid dek nonce k = (if eid \<in> set k then Inl (shredded_error eid) else cc_encrypt c eid dek, k)"

definition gcp_unwrap_dek :: "cloud_client \<Rightarrow> string \<Rightarrow> bytes \<Rightarrow> gcp_kms \<Rightarrow> bytes res" where
  "gcp_unwrap_dek c eid wrapped k = (if eid \<in> set k then Inl (shredded_error eid) else cc_decrypt c eid wrapped)"

definition gcp_destroy_entity_key :: "string \<Rightarrow> gcp_kms \<Rightarrow> gcp_kms" where
  "gcp_destroy_entity_key eid k = List.insert eid k"

definition gcp_ops :: "cloud_client \<Rightarrow> gcp_kms kms_ops" where
  "gcp_ops c = \<lparr>km_wrap = gcp_wrap_dek c, km_unwrap = gcp_unwrap_dek c, km_destroy = (\<lambda>e k. (Inr (), gcp_destroy_entity_key e k))\<rparr>"

section \<open>The vault over a key service\<close>

record 'k kms_vault =
  kv_records :: "(string, bytes) dict"
  kv_shredded :: "string list"
  kv_kms :: 'k

definition kv_init :: "'k \<Rightarrow> 'k kms_vault" where
  "kv_init k = \<lparr>kv_records = [], kv_shredded = [], kv_kms = k\<rparr>"

definition kv_provision :: "'k kms_ops \<Rightarrow> bytes \<Rightarrow> bytes \<Rightarrow> string \<Rightarrow> 'k kms_vault \<Rightarrow> bytes res \<times> 'k kms_vault" where
  "kv_provision ops dek wnonce entity_id s =
    (let eid = py_strip entity_id in
     if eid = [] then (Inl (ValueError ''entity_id required''), s)
     else if eid \<in> set (kv_shredded s)
     then (Inl (RuntimeError (''entity '' @ py_repr eid @ '' was crypto-shredded; cannot re-provision'')), s)
     else case dget (kv_records s) eid of
       Some w \<Rightarrow> (km_unwrap ops eid w (kv_kms s), s)
     | None \<Rightarrow>
         (case km_wrap ops eid dek wnonce (kv_kms s) of
            (Inl e, k) \<Rightarrow> (Inl e, s\<lparr>kv_kms := k\<rparr>)
          | (Inr w, k) \<Rightarrow> (Inr dek, s\<lparr>kv_kms := k, kv_records := dset eid w (kv_records s)\<rparr>)))"

definition kv_encrypt ::
  "'k kms_ops \<Rightarrow> aead \<Rightarrow> bytes \<Rightarrow> bytes \<Rightarrow> bytes \<Rightarrow> string \<Rightarrow> bytes \<Rightarrow> bytes \<Rightarrow> 'k kms_vault \<Rightarrow> bytes res \<times> 'k kms_vault" where
  "kv_encrypt ops a dek wnonce nonce entity_id plaintext aad s =
    (case kv_provision ops dek wnonce entity_id s of
       (Inl e, s1) \<Rightarrow> (Inl e, s1)
     | (Inr key, s1) \<Rightarrow> (Inr (nonce @ ae_encrypt a key nonce plaintext (aad_opt aad)), s1))"

definition kv_decrypt :: "'k kms_ops \<Rightarrow> aead \<Rightarrow> string \<Rightarrow> bytes \<Rightarrow> bytes \<Rightarrow> 'k kms_vault \<Rightarrow> bytes res" where
  "kv_decrypt ops a entity_id blob aad s =
    (let eid = py_strip entity_id;
         no = Inl (RuntimeError (''crypto-shredded or unknown entity '' @ py_repr eid @ '': cannot decrypt'')) in
     if eid \<in> set (kv_shredded s) then no
     else case dget (kv_records s) eid of
       None \<Rightarrow> no
     | Some w \<Rightarrow> bind_res (km_unwrap ops eid w (kv_kms s)) (\<lambda>key. open_blob a key blob aad))"

definition kv_shred :: "'k kms_ops \<Rightarrow> int \<Rightarrow> string \<Rightarrow> 'k kms_vault \<Rightarrow> shred_receipt \<times> 'k kms_vault" where
  "kv_shred ops now entity_id s =
    (let eid = py_strip entity_id;
         s1 = s\<lparr>kv_records := ddel eid (kv_records s), kv_shredded := List.insert eid (kv_shredded s)\<rparr>;
         rc = (\<lambda>msg. \<lparr>sr_entity_id = eid, sr_shredded = True, sr_timestamp_unix_ns = now, sr_message = msg\<rparr>) in
     case km_destroy ops eid (kv_kms s1) of
       (Inr _, k) \<Rightarrow> (rc ''KMS entity key destroyed; local DEK record dropped'', s1\<lparr>kv_kms := k\<rparr>)
     | (Inl e, k) \<Rightarrow> (rc (''local drop ok; KMS destroy error: '' @ exn_str e), s1\<lparr>kv_kms := k\<rparr>))"

definition kv_is_shredded :: "string \<Rightarrow> 'k kms_vault \<Rightarrow> bool" where
  "kv_is_shredded entity_id s \<longleftrightarrow> py_strip entity_id \<in> set (kv_shredded s)"


section \<open>Encodings\<close>

lemma b64_val_char: "n < 64 \<Longrightarrow> b64_val (b64_char n) = Inr n"
proof -
  have "\<forall>n\<in>set [0..<64]. b64_val (b64_char n) = Inr n" by code_simp
  then show "n < 64 \<Longrightarrow> ?thesis" by simp
qed

lemma b64_char_not_pad: "n < 64 \<Longrightarrow> b64_char n \<noteq> CHR ''=''"
proof -
  have "\<forall>n\<in>set [0..<64]. b64_char n \<noteq> CHR ''=''" by code_simp
  then show "n < 64 \<Longrightarrow> ?thesis" by simp
qed

lemma byte_bound [simp]: "unat (a :: byte) < 256"
  using unsigned_less [of a] by simp

lemma b64_bounds:
  "unat (a :: byte) div 4 < 64" "unat a mod 4 * 16 + unat (b :: byte) div 16 < 64" "unat b mod 16 * 4 + unat (c :: byte) div 64 < 64"
  "unat c mod 64 < 64" "unat a mod 4 * 16 < 64" "unat b mod 16 * 4 < 64"
  using byte_bound [of a] byte_bound [of b] byte_bound [of c] by linarith+

lemma b64_group [simp]:
  "unat (b :: byte) div 16 div 16 = 0" "unat b div 16 mod 16 = unat b div 16"
  "unat (c :: byte) div 64 div 4 = 0" "unat c div 64 mod 4 = unat c div 64"
proof -
  have "unat b div 16 < 16" "unat c div 64 < 4" using byte_bound [of b] byte_bound [of c] by linarith+
  then show "unat b div 16 div 16 = 0" "unat b div 16 mod 16 = unat b div 16"
    "unat c div 64 div 4 = 0" "unat c div 64 mod 4 = unat c div 64" by simp_all
qed

lemma b64_roundtrip [simp]: "b64decode (b64encode bs) = Inr bs"
  by (induction bs rule: b64encode.induct)
    (simp_all add: b64_val_char b64_bounds b64_char_not_pad del: of_nat_add of_nat_mult)

lemma frombuffer_pack: "frombuffer_f32 (pack_f32_le vs) = Inr vs"
proof (induction vs)
  case (Cons v vs)
  obtain a b c d where abcd: "le_bytes 4 (unat v) = [a, b, c, d]"
    using length_le_bytes [of 4 "unat v"] by (auto simp: length_Suc_conv eval_nat_numeral simp del: length_le_bytes le_bytes.simps)
  have "unat v < 256 ^ 4" using unsigned_less [of v] by simp
  from le_nat_le_bytes [OF this] have "le_nat [a, b, c, d] = unat v" unfolding abcd .
  then show ?case using Cons by (simp add: pack_f32_le_def abcd)
qed (simp add: pack_f32_le_def)


section \<open>The key service as an interface\<close>

text \<open>What the documentation of AES-GCM promises: a 16-byte tag, and decryption under the same key, nonce and
  additional data. A cloud client opens what it sealed for the same context.\<close>

definition aead_ok :: "aead \<Rightarrow> bool" where
  "aead_ok a \<longleftrightarrow> (\<forall>k n p ad. length k = 32 \<longrightarrow> length n = 12 \<longrightarrow>
     length (ae_encrypt a k n p ad) = length p + 16 \<and> ae_decrypt a k n (ae_encrypt a k n p ad) ad = Inr p)"

definition client_ok :: "cloud_client \<Rightarrow> bool" where
  "client_ok c \<longleftrightarrow> (\<forall>e d. \<exists>w. cc_encrypt c e d = Inr w \<and> cc_decrypt c e w = Inr d)"

text \<open>\<open>dead k e\<close>: the key of \<open>e\<close> has been destroyed in the state \<open>k\<close>. The vault relies on this: what was
  destroyed can neither be wrapped nor unwrapped, and a wrapped key can be opened as long as it was not.\<close>

text \<open>The wrapped keys that the vault holds can be opened.\<close>

definition vault_inv :: "'k kms_ops \<Rightarrow> ('k \<Rightarrow> bool) \<Rightarrow> 'k kms_vault \<Rightarrow> bool" where
  "vault_inv ops kinv s \<longleftrightarrow> kinv (kv_kms s) \<and> (\<forall>e w. dget (kv_records s) e = Some w \<longrightarrow>
     e \<notin> set (kv_shredded s) \<and> (\<exists>d. length d = 32 \<and> km_unwrap ops e w (kv_kms s) = Inr d))"

locale key_service =
  fixes ops :: "'a \<Rightarrow> 'k kms_ops" and valid :: "'a \<Rightarrow> bool" and inv :: "'k \<Rightarrow> bool" and dead :: "'k \<Rightarrow> string \<Rightarrow> bool"
  assumes wrap_dead: "dead k e \<Longrightarrow> \<exists>x. km_wrap (ops a) e d n k = (Inl x, k)"
    and unwrap_dead: "dead k e \<Longrightarrow> \<exists>x. km_unwrap (ops a) e w k = Inl x"
    and wrap_keeps: "km_wrap (ops a) e d n k = (r, k') \<Longrightarrow> dead k' = dead k \<and> (inv k \<longrightarrow> inv k')"
    and destroy: "km_destroy (ops a) e k = (u, k') \<Longrightarrow> dead k' = (dead k)(e := True) \<and> (inv k \<longrightarrow> inv k')
      \<and> (\<forall>e' w. e' \<noteq> e \<longrightarrow> km_unwrap (ops a) e' w k' = km_unwrap (ops a) e' w k)"
    and wrap_unwrap: "valid a \<Longrightarrow> inv k \<Longrightarrow> \<not> dead k e \<Longrightarrow> length d = 32 \<Longrightarrow> length n = 12 \<Longrightarrow>
      \<exists>w k'. km_wrap (ops a) e d n k = (Inr w, k') \<and> km_unwrap (ops a) e w k' = Inr d
        \<and> (\<forall>e' w'. e' \<noteq> e \<longrightarrow> km_unwrap (ops a) e' w' k' = km_unwrap (ops a) e' w' k)"
begin

lemma provision_keeps:
  "kv_provision (ops a) d n e s = (x, s') \<Longrightarrow>
     dead (kv_kms s') = dead (kv_kms s) \<and> (inv (kv_kms s) \<longrightarrow> inv (kv_kms s')) \<and> kv_shredded s' = kv_shredded s"
  by (auto simp: kv_provision_def Let_def split: if_splits option.splits prod.splits sum.splits dest: wrap_keeps)

lemma encrypt_keeps:
  assumes "kv_encrypt (ops a) ae d n n' e p ad s = (x, s')"
  shows "dead (kv_kms s') = dead (kv_kms s) \<and> (inv (kv_kms s) \<longrightarrow> inv (kv_kms s'))"
proof -
  obtain y s1 where y: "kv_provision (ops a) d n e s = (y, s1)" by fastforce
  then have "s' = s1" using assms by (auto simp: kv_encrypt_def split: sum.splits)
  then show ?thesis using provision_keeps [OF y] by simp
qed

lemma shred_keeps:
  "kv_shred (ops a) now e s = (r, s') \<Longrightarrow> dead (kv_kms s') = (dead (kv_kms s))(py_strip e := True) \<and> (inv (kv_kms s) \<longrightarrow> inv (kv_kms s'))"
  by (auto simp: kv_shred_def Let_def split: prod.splits sum.splits dest!: destroy)

lemma dead_entity_fails:
  assumes "dead (kv_kms s) (py_strip e)"
  shows "\<exists>x. fst (kv_provision (ops a) d n e s) = Inl x" "\<exists>x. kv_decrypt (ops a) ae e blob ad s = Inl x"
proof -
  obtain x where x: "km_wrap (ops a) (py_strip e) d n (kv_kms s) = (Inl x, kv_kms s)" using wrap_dead [OF assms] by blast
  have u: "\<exists>y. km_unwrap (ops a) (py_strip e) w (kv_kms s) = Inl y" for w using unwrap_dead [OF assms] .
  show "\<exists>x. fst (kv_provision (ops a) d n e s) = Inl x"
    using x u by (auto simp: kv_provision_def Let_def split: option.splits)
  show "\<exists>x. kv_decrypt (ops a) ae e blob ad s = Inl x"
  proof (cases "dget (kv_records s) (py_strip e)")
    case None
    then show ?thesis by (auto simp: kv_decrypt_def Let_def)
  next
    case (Some w)
    obtain y where "km_unwrap (ops a) (py_strip e) w (kv_kms s) = Inl y" using u by blast
    then show ?thesis using Some by (auto simp: kv_decrypt_def Let_def)
  qed
qed

lemma encrypt_decrypt:
  assumes v: "valid a" and ae: "aead_ok ae" and i: "vault_inv (ops a) inv s" and len: "length d = 32" "length n = 12" "length n' = 12"
    and enc: "kv_encrypt (ops a) ae d n n' e p ad s = (Inr blob, s')"
  shows "vault_inv (ops a) inv s' \<and> kv_decrypt (ops a) ae e blob ad s' = Inr p"
proof -
  obtain key where pr: "kv_provision (ops a) d n e s = (Inr key, s')" and b: "blob = n' @ ae_encrypt ae key n' p (aad_opt ad)"
    using enc by (auto simp: kv_encrypt_def split: prod.splits sum.splits)
  let ?e = "py_strip e"
  have live: "?e \<notin> set (kv_shredded s)" "?e \<noteq> []" using pr by (auto simp: kv_provision_def Let_def split: if_splits)
  have "vault_inv (ops a) inv s' \<and> (\<exists>w. dget (kv_records s') ?e = Some w \<and> km_unwrap (ops a) ?e w (kv_kms s') = Inr key)
    \<and> ?e \<notin> set (kv_shredded s') \<and> length key = 32"
  proof (cases "dget (kv_records s) ?e")
    case (Some w)
    then have "s' = s" "km_unwrap (ops a) ?e w (kv_kms s) = Inr key" using pr live by (auto simp: kv_provision_def Let_def)
    moreover obtain d0 where "length d0 = 32" "km_unwrap (ops a) ?e w (kv_kms s) = Inr d0" using i Some by (auto simp: vault_inv_def)
    ultimately show ?thesis using i Some live by auto
  next
    case None
    obtain x k' where wr: "km_wrap (ops a) ?e d n (kv_kms s) = (x, k')" by fastforce
    have nd: "\<not> dead (kv_kms s) ?e" using dead_entity_fails(1) [of s e a d n] pr by force
    obtain w where w: "x = Inr w" "km_unwrap (ops a) ?e w k' = Inr d"
      "\<forall>e' w'. e' \<noteq> ?e \<longrightarrow> km_unwrap (ops a) e' w' k' = km_unwrap (ops a) e' w' (kv_kms s)"
      using wrap_unwrap [OF v _ nd len(1,2)] i wr by (auto simp: vault_inv_def)
    have s': "s' = s\<lparr>kv_kms := k', kv_records := dset ?e w (kv_records s)\<rparr>" "key = d"
      using pr live None wr w(1) by (auto simp: kv_provision_def Let_def)
    then show ?thesis using i w len(1) live provision_keeps [OF pr] by (auto simp: vault_inv_def)
  qed
  moreover then have "open_blob ae key blob ad = Inr p" using ae len(3) by (simp add: open_blob_def b aead_ok_def)
  ultimately show ?thesis by (auto simp: kv_decrypt_def Let_def)
qed

end

lemma lk_persist_simps [simp]:
  "lk_path (lk_persist k) = lk_path k" "lk_master (lk_persist k) = lk_master k" "lk_wrapped (lk_persist k) = lk_wrapped k"
  "lk_destroyed (lk_persist k) = lk_destroyed k"
  by (simp_all add: lk_persist_def)

text \<open>The state of a service with a file: the file is up to date.\<close>

definition lk_inv :: "local_kms \<Rightarrow> bool" where
  "lk_inv k \<longleftrightarrow> length (lk_master k) = 32 \<and> distinct (lk_destroyed k) \<and> lk_path k \<and> lk_file k = Some (lk_payload k)"

lemma lk_payload_file [simp]: "lk_payload (k\<lparr>lk_file := f\<rparr>) = lk_payload k"
  by (simp add: lk_payload_def)

lemma lk_inv_persist: "length (lk_master k) = 32 \<Longrightarrow> distinct (lk_destroyed k) \<Longrightarrow> lk_path k \<Longrightarrow> lk_inv (lk_persist k)"
  by (simp add: lk_inv_def lk_persist_def)

interpretation local: key_service local_ops aead_ok lk_inv "\<lambda>k e. e \<in> set (lk_destroyed k)"
proof unfold_locales
  fix a k e d n r k'
  assume "km_wrap (local_ops a) e d n k = (r, k')"
  then have "k' = k \<or> (\<exists>t. k' = lk_persist (k\<lparr>lk_wrapped := t\<rparr>))"
    by (auto simp: local_ops_def lk_wrap_dek_def Let_def split: if_splits)
  then show "(\<lambda>e. e \<in> set (lk_destroyed k')) = (\<lambda>e. e \<in> set (lk_destroyed k)) \<and> (lk_inv k \<longrightarrow> lk_inv k')"
    using lk_inv_persist [of "k\<lparr>lk_wrapped := t\<rparr>" for t] by (auto simp: lk_inv_def)
next
  fix a e k r k'
  assume "km_destroy (local_ops a) e k = (r, k')"
  then have k': "k' = lk_destroy_entity_key e k" by (simp add: local_ops_def)
  have "lk_inv k \<longrightarrow> lk_inv k'" unfolding k' lk_destroy_entity_key_def
    by (intro impI lk_inv_persist) (simp_all add: lk_inv_def)
  then show "(\<lambda>e. e \<in> set (lk_destroyed k')) = (\<lambda>e. e \<in> set (lk_destroyed k))(e := True) \<and> (lk_inv k \<longrightarrow> lk_inv k')
      \<and> (\<forall>e' w. e' \<noteq> e \<longrightarrow> km_unwrap (local_ops a) e' w k' = km_unwrap (local_ops a) e' w k)"
    unfolding k' by (auto simp: fun_eq_iff lk_destroy_entity_key_def local_ops_def lk_unwrap_dek_def cong: if_cong)
next
  fix a and k :: local_kms and e and d n :: bytes
  assume a: "aead_ok a" "lk_inv k" "e \<notin> set (lk_destroyed k)" "length d = 32" "length n = 12"
  then have "length (ae_encrypt a (lk_master k) n d (Some (utf8 e))) = 48" by (simp add: aead_ok_def lk_inv_def)
  then show "\<exists>w k'. km_wrap (local_ops a) e d n k = (Inr w, k') \<and> km_unwrap (local_ops a) e w k' = Inr d
      \<and> (\<forall>e' w'. e' \<noteq> e \<longrightarrow> km_unwrap (local_ops a) e' w' k' = km_unwrap (local_ops a) e' w' k)"
    using a by (simp add: local_ops_def lk_wrap_dek_def lk_unwrap_dek_def Let_def aead_ok_def lk_inv_def cong: if_cong)
qed (auto simp: local_ops_def lk_wrap_dek_def lk_unwrap_dek_def)

interpretation aws: key_service aws_ops client_ok "\<lambda>_. True" "\<lambda>k e. e \<in> set (aw_destroyed k)"
proof unfold_locales
  fix a e r and k k' :: aws_kms
  assume "km_destroy (aws_ops a) e k = (r, k')"
  then have k': "k' = aws_destroy_entity_key e k" by (simp add: aws_ops_def)
  then show "(\<lambda>e. e \<in> set (aw_destroyed k')) = (\<lambda>e. e \<in> set (aw_destroyed k))(e := True) \<and> (True \<longrightarrow> True)
      \<and> (\<forall>e' w. e' \<noteq> e \<longrightarrow> km_unwrap (aws_ops a) e' w k' = km_unwrap (aws_ops a) e' w k)"
    by (auto simp: fun_eq_iff aws_destroy_entity_key_def aws_ops_def aws_unwrap_dek_def)
next
  fix a and k :: aws_kms and e d n
  assume a: "client_ok a" "e \<notin> set (aw_destroyed k)"
  then obtain w where "cc_encrypt a e d = Inr w" "cc_decrypt a e w = Inr d" by (auto simp: client_ok_def)
  then show "\<exists>w k'. km_wrap (aws_ops a) e d n k = (Inr w, k') \<and> km_unwrap (aws_ops a) e w k' = Inr d
      \<and> (\<forall>e' w'. e' \<noteq> e \<longrightarrow> km_unwrap (aws_ops a) e' w' k' = km_unwrap (aws_ops a) e' w' k)"
    using a by (simp add: aws_ops_def aws_wrap_dek_def aws_unwrap_dek_def)
qed (auto simp: aws_ops_def aws_wrap_dek_def aws_unwrap_dek_def split: sum.splits if_splits)


interpretation gcp: key_service gcp_ops client_ok "\<lambda>_. True" "\<lambda>k e. e \<in> set k"
proof unfold_locales
  fix a and k :: gcp_kms and e d n
  assume a: "client_ok a" "e \<notin> set k"
  then obtain w where "cc_encrypt a e d = Inr w" "cc_decrypt a e w = Inr d" by (auto simp: client_ok_def)
  then show "\<exists>w k'. km_wrap (gcp_ops a) e d n k = (Inr w, k') \<and> km_unwrap (gcp_ops a) e w k' = Inr d
      \<and> (\<forall>e' w'. e' \<noteq> e \<longrightarrow> km_unwrap (gcp_ops a) e' w' k' = km_unwrap (gcp_ops a) e' w' k)"
    using a by (simp add: gcp_ops_def gcp_wrap_dek_def gcp_unwrap_dek_def)
qed (auto simp: fun_eq_iff gcp_ops_def gcp_wrap_dek_def gcp_unwrap_dek_def gcp_destroy_entity_key_def)

section \<open>Sequences of vault operations\<close>

text \<open>Provisioning, encrypting and shredding, and restarts of the process with a new vault over a reopened service.\<close>

inductive vault_step :: "'k kms_ops \<Rightarrow> ('k \<Rightarrow> 'k \<Rightarrow> bool) \<Rightarrow> 'k kms_vault \<Rightarrow> 'k kms_vault \<Rightarrow> bool" for ops reopen where
  provisioned: "kv_provision ops d n e s = (x, s') \<Longrightarrow> vault_step ops reopen s s'"
| encrypted: "kv_encrypt ops ae d n n' e p ad s = (x, s') \<Longrightarrow> vault_step ops reopen s s'"
| shredded: "kv_shred ops now e s = (r, s') \<Longrightarrow> vault_step ops reopen s s'"
| restarted: "reopen (kv_kms s) k' \<Longrightarrow> vault_step ops reopen s (kv_init k')"

text \<open>A service whose destroyed keys survive a restart.\<close>

locale durable_key_service = key_service +
  fixes reopen :: "'b \<Rightarrow> 'b \<Rightarrow> bool"
  assumes reopen_keeps: "inv k \<Longrightarrow> reopen k k' \<Longrightarrow> inv k' \<and> (dead k e \<longrightarrow> dead k' e)"
begin

lemma step_keeps:
  "vault_step (ops a) reopen s s' \<Longrightarrow> inv (kv_kms s) \<Longrightarrow> inv (kv_kms s') \<and> (\<forall>e. dead (kv_kms s) e \<longrightarrow> dead (kv_kms s') e)"
proof (induction rule: vault_step.induct)
  case (provisioned d n e s x s')
  then show ?case using provision_keeps by auto
next
  case (encrypted ae d n n' e p ad s x s')
  then show ?case using encrypt_keeps by metis
next
  case (shredded now e s r s')
  then show ?case using shred_keeps [OF shredded.hyps] by auto
next
  case (restarted s k')
  then show ?case using reopen_keeps by (auto simp: kv_init_def)
qed

lemma reach_keeps:
  "(vault_step (ops a) reopen)\<^sup>*\<^sup>* s s' \<Longrightarrow> inv (kv_kms s) \<Longrightarrow> inv (kv_kms s') \<and> (\<forall>e. dead (kv_kms s) e \<longrightarrow> dead (kv_kms s') e)"
  by (induction rule: rtranclp_induct) (auto dest: step_keeps)

end

definition local_reopen :: "local_kms \<Rightarrow> local_kms \<Rightarrow> bool" where
  "local_reopen k k' \<longleftrightarrow> (\<exists>rnd. lk_init True (lk_file k) None rnd = Inr k')"

lemma sort_sort: "sort (sort (xs :: string list)) = sort xs"
  by (rule sorted_sort_id) simp

lemma map_res_strs: "map_res json_str_of (map JStr xs) = Inr xs"
  by (rule map_res_id) (simp add: json_str_of_def)

lemma lk_load_payload:
  assumes "distinct (lk_destroyed k)"
  shows "lk_load (lk_payload k) = Inr \<lparr>lk_path = True, lk_file = Some (lk_payload k), lk_master = lk_master k,
    lk_wrapped = lk_wrapped k, lk_destroyed = sort (lk_destroyed k)\<rparr>"
proof -
  have w: "map_res (\<lambda>(e, j). bind_res (json_str_of j) (\<lambda>t. Inr (e, t))) (map (\<lambda>(e, t). (e, JStr t)) ws) = Inr ws" for ws
    by (induction ws) (auto simp: json_str_of_def)
  have "remdups (sort (lk_destroyed k)) = sort (lk_destroyed k)" using assms by (simp add: distinct_remdups_id)
  then show ?thesis
    using w map_res_strs by (simp add: lk_load_def lk_payload_def dget_def json_str_of_def)
qed

interpretation local: durable_key_service local_ops aead_ok lk_inv "\<lambda>k e. e \<in> set (lk_destroyed k)" local_reopen
proof unfold_locales
  fix k k' e
  assume i: "lk_inv k" and r: "local_reopen k k'"
  then have "lk_load (lk_payload k) = Inr k'" by (auto simp: local_reopen_def lk_init_def lk_inv_def)
  then have k': "k' = \<lparr>lk_path = True, lk_file = Some (lk_payload k), lk_master = lk_master k,
    lk_wrapped = lk_wrapped k, lk_destroyed = sort (lk_destroyed k)\<rparr>" using lk_load_payload i by (simp add: lk_inv_def)
  have "lk_payload k' = lk_payload k" by (simp add: k' lk_payload_def sort_sort)
  then show "lk_inv k' \<and> (e \<in> set (lk_destroyed k) \<longrightarrow> e \<in> set (lk_destroyed k'))"
    using i by (simp add: lk_inv_def) (simp add: k')
qed

section \<open>Properties\<close>


text \<open>A demonstration cipher: the plaintext followed by a constant tag.\<close>

definition demo_aead :: aead where
  "demo_aead = \<lparr>ae_encrypt = (\<lambda>k n p ad. p @ replicate 16 0), ae_decrypt = (\<lambda>k n ct ad. Inr (take (length ct - 16) ct))\<rparr>"

lemma demo_aead_ok: "aead_ok demo_aead"
  by (simp add: aead_ok_def demo_aead_def)


text \<open>
  what is encrypted can be decrypted until it is shredded: in a vault over the file-backed service whose records can be opened,
  a blob that \<open>encrypt\<close> returned decrypts to the plaintext in the resulting state, and an embedding reads back bit by bit.
\<close>

theorem vault_encrypt_decrypt:
  assumes "aead_ok a" and "vault_inv (local_ops a) lk_inv s" and "length d = 32" and "length n = 12" and "length n' = 12"
    and "kv_encrypt (local_ops a) a d n n' e (pack_f32_le vec) EMBEDDING_AAD s = (Inr blob, s')"
  shows "vault_inv (local_ops a) lk_inv s'
    \<and> bind_res (kv_decrypt (local_ops a) a e blob EMBEDDING_AAD s') frombuffer_f32 = Inr vec"
  using local.encrypt_decrypt [OF assms(1,1,2,3,4,5,6)] frombuffer_pack by simp

lemma vault_encrypt_decrypt_witness:
  "\<exists>k0 blob s'. lk_init True None None (replicate 32 7) = Inr k0
    \<and> kv_encrypt (local_ops demo_aead) demo_aead (replicate 32 1) (replicate 12 2) (replicate 12 3) ''eve'' (pack_f32_le [1, 2]) EMBEDDING_AAD
        (kv_init k0) = (Inr blob, s')
    \<and> bind_res (kv_decrypt (local_ops demo_aead) demo_aead ''eve'' blob EMBEDDING_AAD s') frombuffer_f32 = Inr [1, 2]"
proof -
  obtain k0 where k0: "lk_init True None None (replicate 32 7) = Inr k0" by (simp add: lk_init_def Let_def)
  then have "k0 = lk_persist \<lparr>lk_path = True, lk_file = None, lk_master = replicate 32 7, lk_wrapped = [], lk_destroyed = []\<rparr>"
    by (simp add: lk_init_def Let_def)
  then have i: "vault_inv (local_ops demo_aead) lk_inv (kv_init k0)" "lk_destroyed k0 = []" by (simp_all add: vault_inv_def kv_init_def lk_inv_persist)
  have st: "py_strip ''eve'' = ''eve''" by code_simp
  obtain blob s' where e: "kv_encrypt (local_ops demo_aead) demo_aead (replicate 32 1) (replicate 12 2) (replicate 12 3) ''eve''
      (pack_f32_le [1, 2]) EMBEDDING_AAD (kv_init k0) = (Inr blob, s')"
    by (simp add: kv_encrypt_def kv_provision_def kv_init_def st local_ops_def lk_wrap_dek_def i(2) Let_def)
  have len: "length (replicate 32 (1 :: byte)) = 32" "length (replicate 12 (2 :: byte)) = 12" "length (replicate 12 (3 :: byte)) = 12" by simp_all
  from vault_encrypt_decrypt [OF demo_aead_ok i(1) len e] k0 e show ?thesis by blast
qed

text \<open>
  shredding is not final on the other services: \<open>destroy_entity_key\<close> of the AWS service only extends a list in memory, so a
  service object made after a restart unwraps the stored blob of a destroyed entity; and reopening the file-backed service
  with its master key given explicitly starts with empty tables, overwrites the file and unwraps the blob as well.
\<close>

theorem destroyed_key_returns_after_restart:
  assumes "aead_ok a" and "client_ok c" and "length m = 32" and "length d = 32" and "length n = 12"
  shows "(\<exists>w k1. aws_wrap_dek c e d n aws_init = (Inr w, k1) \<and> (\<exists>x. aws_unwrap_dek c e w (aws_destroy_entity_key e k1) = Inl x)
      \<and> aws_unwrap_dek c e w aws_init = Inr d)
    \<and> (\<exists>k w k1 k2. lk_init True f (Some m) rnd = Inr k \<and> lk_wrap_dek a e d n k = (Inr w, k1)
      \<and> (\<exists>x. lk_unwrap_dek a e w (lk_destroy_entity_key e k1) = Inl x)
      \<and> lk_init True (lk_file (lk_destroy_entity_key e k1)) (Some m) rnd = Inr k2 \<and> lk_unwrap_dek a e w k2 = Inr d)"
proof
  obtain w where "cc_encrypt c e d = Inr w" "cc_decrypt c e w = Inr d" using assms(2) by (auto simp: client_ok_def)
  then show "\<exists>w k1. aws_wrap_dek c e d n aws_init = (Inr w, k1) \<and> (\<exists>x. aws_unwrap_dek c e w (aws_destroy_entity_key e k1) = Inl x)
      \<and> aws_unwrap_dek c e w aws_init = Inr d"
    by (simp add: aws_wrap_dek_def aws_unwrap_dek_def aws_init_def aws_destroy_entity_key_def)
next
  have "length (ae_encrypt a m n d (Some (utf8 e))) = 48" "ae_decrypt a m n (ae_encrypt a m n d (Some (utf8 e))) (Some (utf8 e)) = Inr d"
    using assms by (simp_all add: aead_ok_def)
  then show "\<exists>k w k1 k2. lk_init True f (Some m) rnd = Inr k \<and> lk_wrap_dek a e d n k = (Inr w, k1)
      \<and> (\<exists>x. lk_unwrap_dek a e w (lk_destroy_entity_key e k1) = Inl x)
      \<and> lk_init True (lk_file (lk_destroy_entity_key e k1)) (Some m) rnd = Inr k2 \<and> lk_unwrap_dek a e w k2 = Inr d"
    using assms(3,5) by (simp add: lk_init_def Let_def lk_wrap_dek_def lk_unwrap_dek_def lk_destroy_entity_key_def)
qed

definition demo_client :: cloud_client where
  "demo_client = \<lparr>cc_encrypt = (\<lambda>e d. Inr d), cc_decrypt = (\<lambda>e w. Inr w)\<rparr>"

lemma destroyed_key_returns_after_restart_witness:
  "aead_ok demo_aead \<and> client_ok demo_client
    \<and> (\<exists>w k1. aws_wrap_dek demo_client ''eve'' (replicate 32 1) (replicate 12 2) aws_init = (Inr w, k1)
        \<and> aws_unwrap_dek demo_client ''eve'' w aws_init = Inr (replicate 32 1))"
proof -
  have c: "client_ok demo_client" by (simp add: client_ok_def demo_client_def)
  have len: "length (replicate 32 (7 :: byte)) = 32" "length (replicate 32 (1 :: byte)) = 32" "length (replicate 12 (2 :: byte)) = 12" by simp_all
  from destroyed_key_returns_after_restart [OF demo_aead_ok c len, of "''eve''"] c demo_aead_ok show ?thesis by blast
qed

end
