(* ===== verification/Hooks.thy ===== *)
theory Hooks
  imports Outbox ReplicaFanout CryptoShred
begin

text \<open>
  \<open>integrations/hooks.py\<close> and \<open>integrations/hooks_config.py\<close>: the hooks of a workflow and their choice from the environment. The
  HTTP client of a webhook is the parameter \<open>post\<close>, which gives the status and the body of a response; a latency that
  ends up in an artifact is the parameter \<open>latency\<close>.
\<close>

section \<open>Webhooks\<close>

record webhook =
  wh_url :: string
  wh_event :: string
  wh_headers :: "(string, string) dict"

definition make_webhook :: "string \<Rightarrow> string \<Rightarrow> (string, string) dict \<Rightarrow> string option \<Rightarrow> webhook" where
  "make_webhook url event headers api_key =
    (let h1 = dsetdefault ''Content-Type'' ''application/json'' headers
     in \<lparr>wh_url = url, wh_event = event,
         wh_headers = (case api_key of None \<Rightarrow> h1 | Some k \<Rightarrow> if k = [] then h1 else dset ''X-API-Key'' k h1)\<rparr>)"

text \<open>What a POST gives: a response, an HTTP error with its code and the \<open>repr\<close> of the first 200 bytes of its body, an
  unreachable host, or another exception.\<close>

datatype http_reply = Response int string | HttpError int string | Unreachable string | Raised exn

definition webhook_call ::
  "(string \<Rightarrow> (string, string) dict \<Rightarrow> json \<Rightarrow> 'h \<Rightarrow> http_reply \<times> 'h) \<Rightarrow> 64 word \<Rightarrow> int \<Rightarrow> webhook \<Rightarrow> string \<Rightarrow> string list \<Rightarrow> string
    \<Rightarrow> string option \<Rightarrow> 'h \<Rightarrow> json res \<times> 'h" where
  "webhook_call post latency now wh collection ids request_id reason h =
    (let payload = JObj [(''event'', JStr (wh_event wh)), (''collection'', JStr collection), (''ids'', JList (map JStr ids)),
           (''request_id'', JStr request_id), (''reason'', jopt JStr reason), (''timestamp_unix_ns'', JInt now)] in
     case post (wh_url wh) (wh_headers wh) payload h of
       (Response status body, h1) \<Rightarrow>
         (if status \<ge> 400 then Inl (RuntimeError (''webhook HTTP '' @ int_str status @ '': '' @ take 200 body))
          else Inr (JObj [(''ok'', JBool True), (''http_status'', JInt status), (''latency_ms'', JFloat latency),
                 (''response'', JStr (take 500 body)), (''url'', JStr (wh_url wh)), (''event'', JStr (wh_event wh))]), h1)
     | (HttpError code text, h1) \<Rightarrow> (Inl (RuntimeError (''webhook HTTP '' @ int_str code @ '': '' @ text)), h1)
     | (Unreachable text, h1) \<Rightarrow> (Inl (RuntimeError (''webhook unreachable: '' @ text)), h1)
     | (Raised e, h1) \<Rightarrow> (Inl e, h1))"

definition as_document_store_hook ::
  "(string \<Rightarrow> (string, string) dict \<Rightarrow> json \<Rightarrow> 'h \<Rightarrow> http_reply \<times> 'h) \<Rightarrow> 64 word \<Rightarrow> int \<Rightarrow> webhook \<Rightarrow> string \<Rightarrow> string list \<Rightarrow> 'h
    \<Rightarrow> json res \<times> 'h" where
  "as_document_store_hook post latency now wh collection ids h = webhook_call post latency now wh collection ids [] None h"

section \<open>Crypto-shred, replica and backup hooks\<close>

text \<open>The vault is anything with a \<open>shred\<close> that returns a receipt; both vaults of the repository never raise there.\<close>

type_synonym 'v shred_fn = "int \<Rightarrow> string \<Rightarrow> 'v \<Rightarrow> shred_receipt \<times> 'v"

fun shred_each :: "'v shred_fn \<Rightarrow> int \<Rightarrow> string list \<Rightarrow> 'v \<Rightarrow> (string \<times> shred_receipt) list \<times> 'v" where
  "shred_each sh now [] v = ([], v)"
| "shred_each sh now (e # es) v =
    (case sh now e v of (r, v1) \<Rightarrow> case shred_each sh now es v1 of (rs, v2) \<Rightarrow> ((e, r) # rs, v2))"

definition shred_result :: "string \<times> shred_receipt \<Rightarrow> json" where
  "shred_result er = JObj [(''entity_id'', JStr (fst er)), (''shredded'', JBool (sr_shredded (snd er))), (''message'', JStr (sr_message (snd er)))]"

definition crypto_shred_hook :: "(64 word \<Rightarrow> string) \<Rightarrow> 'v shred_fn \<Rightarrow> int \<Rightarrow> string list \<Rightarrow> 'v \<Rightarrow> json res \<times> 'v" where
  "crypto_shred_hook fl sh now ids v =
    (case shred_each sh now ids v of (rs, v1) \<Rightarrow>
       let failed = filter (\<lambda>er. \<not> sr_shredded (snd er)) rs in
       if failed \<noteq> []
       then (Inl (RuntimeError (''crypto_shred failed for: '' @ json_repr fl (JList (map shred_result failed)))), v1)
       else (Inr (JObj [(''ok'', JBool True), (''results'', JList (map shred_result rs))]), v1))"

definition ack_json :: "replica_ack \<Rightarrow> json" where
  "ack_json a = JObj [(''replica_id'', JStr (ra_replica_id a)), (''success'', JBool (ra_success a)), (''message'', JStr (ra_message a))]"

definition replica_fanout_hook ::
  "(64 word \<Rightarrow> string) \<Rightarrow> (string \<Rightarrow> delete_intent \<Rightarrow> 's \<Rightarrow> replica_ack res \<times> 's) \<Rightarrow> coordinator \<Rightarrow> string \<Rightarrow> int \<Rightarrow> string list
    \<Rightarrow> string \<Rightarrow> string list \<Rightarrow> string \<Rightarrow> 's \<Rightarrow> json res \<times> 's" where
  "replica_fanout_hook fl send co uuid now order collection ids request_id s =
    (case publish send co uuid now order collection ids None 16 (Some request_id) s of
       (Inl e, s1) \<Rightarrow> (Inl e, s1)
     | (Inr res, s1) \<Rightarrow>
         let payload = JObj [(''quorum_met'', JBool (fr_quorum_met res)), (''acks'', JList (map ack_json (fr_acks res)))] in
         (if \<not> fr_quorum_met res then Inl (RuntimeError (''replica quorum not met: '' @ json_repr fl payload)) else Inr payload, s1))"

definition local_backup_ack_hook :: "bool \<Rightarrow> int \<Rightarrow> string \<Rightarrow> string list \<Rightarrow> json list \<Rightarrow> json res \<times> json list" where
  "local_backup_ack_hook auto_ack now collection ids acks =
    (if \<not> auto_ack then (Inl (RuntimeError ''backup ack requires operator confirmation (auto_ack=False)''), acks)
     else let rc = JObj [(''collection'', JStr collection), (''ids'', JList (map JStr ids)), (''acked'', JBool True),
                 (''policy'', JStr ''local_auto_ack_dev_only''), (''timestamp_unix_ns'', JInt now)]
          in (Inr rc, acks @ [rc]))"

section \<open>Hooks from the environment\<close>

definition hook_flag :: "environ \<Rightarrow> string \<Rightarrow> bool" where
  "hook_flag env name \<longleftrightarrow> py_lower (py_strip (env_get env name [])) \<in> {''1'', ''true'', ''yes'', ''on''}"

text \<open>The state of the hooks that \<open>build_hooks_from_env\<close> makes: the network, the vault it creates, the outbox and the local
  acknowledgements.\<close>

record 'n hook_world =
  hw_net :: 'n
  hw_vault :: vault
  hw_outbox :: file_outbox
  hw_acks :: "json list"

definition api_key_of :: "environ \<Rightarrow> string option" where
  "api_key_of env = (case env ''HEALER_WEBHOOK_API_KEY'' of None \<Rightarrow> None | Some k \<Rightarrow> if k = [] then None else Some k)"

definition on_net :: "('n \<Rightarrow> json res \<times> 'n) \<Rightarrow> 'n hook_world \<Rightarrow> json res \<times> 'n hook_world" where
  "on_net f h = (case f (hw_net h) of (r, n) \<Rightarrow> (r, h\<lparr>hw_net := n\<rparr>))"

definition build_hooks_from_env ::
  "(string \<Rightarrow> (string, string) dict \<Rightarrow> json \<Rightarrow> 'n \<Rightarrow> http_reply \<times> 'n) \<Rightarrow> 64 word \<Rightarrow> (64 word \<Rightarrow> string) \<Rightarrow> string \<Rightarrow> int \<Rightarrow> environ
    \<Rightarrow> 'n hook_world wf_hooks" where
  "build_hooks_from_env post latency fl uuid now env =
    (let key = api_key_of env;
         doc_url = py_strip (env_get env ''HEALER_WEBHOOK_DOCUMENT_STORE'' []);
         bak_url = py_strip (env_get env ''HEALER_WEBHOOK_BACKUP_ACK'' []);
         web = (\<lambda>url event c ids. on_net (as_document_store_hook post latency now (make_webhook url event [] key) c ids))
     in \<lparr>hk_replica_fanout = (if hook_flag env ''HEALER_OUTBOX_REPLICA''
            then Some (\<lambda>c ids rid h. case outbox_replica_hook fl uuid now None c ids rid ((), hw_outbox h) of
                         (r, _, ob) \<Rightarrow> (r, h\<lparr>hw_outbox := ob\<rparr>))
            else None),
         hk_crypto_shred = (if hook_flag env ''HEALER_CRYPTO_SHRED''
            then Some (\<lambda>ids h. case crypto_shred_hook fl shred now ids (hw_vault h) of (r, v) \<Rightarrow> (r, h\<lparr>hw_vault := v\<rparr>))
            else None),
         hk_document_store = (if doc_url \<noteq> [] then Some (web doc_url ''document_store_delete'') else None),
         hk_backup_ack = (if bak_url \<noteq> [] then Some (web bak_url ''backup_ack'')
            else if hook_flag env ''HEALER_LOCAL_BACKUP_ACK''
            then Some (\<lambda>c ids h. case local_backup_ack_hook True now c ids (hw_acks h) of (r, acks) \<Rightarrow> (r, h\<lparr>hw_acks := acks\<rparr>))
            else None)\<rparr>)"


section \<open>What the hooks achieve\<close>

definition entity_view :: "vault \<Rightarrow> string \<Rightarrow> bool \<times> bytes option" where
  "entity_view v eid = (eid \<in> set (va_shredded v), dget (va_keys v) eid)"

lemma shred_view:
  "entity_view (snd (shred now e v)) x = (if x = py_strip e then (True, None) else entity_view v x)"
  "sr_shredded (fst (shred now e v))"
  by (auto simp: entity_view_def shred_def Let_def)

lemma shred_each_view:
  assumes "shred_each shred now es v = (rs, v')"
  shows "(\<forall>er\<in>set rs. sr_shredded (snd er)) \<and> map fst rs = es
    \<and> (\<forall>x. entity_view v' x = (if x \<in> py_strip ` set es then (True, None) else entity_view v x))"
  using assms
proof (induction es arbitrary: v rs)
  case Nil
  then show ?case by simp
next
  case (Cons e es)
  obtain r v1 where sh: "shred now e v = (r, v1)" by fastforce
  obtain rs1 where rest: "shred_each shred now es v1 = (rs1, v')" "rs = (e, r) # rs1"
    using Cons.prems sh by (auto split: prod.splits)
  have "entity_view v1 x = (if x = py_strip e then (True, None) else entity_view v x)" for x
    using shred_view(1) [of now e v x] sh by simp
  then show ?case using Cons.IH [OF rest(1)] rest(2) shred_view(2) [of now e v] sh by auto
qed

lemma decrypt_view: "entity_view v (py_strip e) = entity_view v' (py_strip e) \<Longrightarrow> decrypt a e blob ad v = decrypt a e blob ad v'"
  by (simp add: entity_view_def decrypt_def Let_def)

lemma replica_hook_quorum:
  assumes "replica_fanout_hook fl send co uuid now order c ids rid s = (Inr j, s')"
  shows "\<exists>res. publish send co uuid now order c ids None 16 (Some rid) s = (Inr res, s') \<and> fr_quorum_met res"
  using assms by (auto simp: replica_fanout_hook_def Let_def split: prod.splits sum.splits if_splits)

section \<open>Properties\<close>

text \<open>
  What a done crypto-shred step means: the hook over the in-memory vault always succeeds, and afterwards every id of the ticket is
  shredded, cannot be provisioned again and no blob of it can be decrypted, while all other entities are as before. It
  succeeds for ids that the vault has no key for as well; in particular on the new, empty vault that \<open>build_hooks_from_env\<close>
  creates, where no key is destroyed.
\<close>

theorem crypto_shred_hook_meaning:
  assumes "crypto_shred_hook fl shred now ids v = (x, v')"
  shows "(\<exists>j. x = Inr j)
    \<and> (\<forall>e\<in>set ids. is_shredded e v' \<and> (\<exists>y. decrypt a e blob ad v' = Inl y) \<and> (\<exists>y. fst (provision d e v') = Inl y))
    \<and> (\<forall>e. py_strip e \<notin> py_strip ` set ids \<longrightarrow> is_shredded e v' = is_shredded e v \<and> decrypt a e blob ad v' = decrypt a e blob ad v)"
proof -
  obtain rs where r: "shred_each shred now ids v = (rs, v')" using assms by (auto simp: crypto_shred_hook_def Let_def split: prod.splits if_splits)
  note f = shred_each_view [OF r]
  then have "filter (\<lambda>er. \<not> sr_shredded (snd er)) rs = []" by (simp add: filter_empty_conv)
  then have x: "\<exists>j. x = Inr j" using assms r by (auto simp: crypto_shred_hook_def Let_def)
  have "is_shredded e v' \<and> (\<exists>y. decrypt a e blob ad v' = Inl y) \<and> (\<exists>y. fst (provision d e v') = Inl y)" if "e \<in> set ids" for e
  proof -
    have "entity_view v' (py_strip e) = (True, None)" using f that by simp
    then have "py_strip e \<in> set (va_shredded v')" by (simp add: entity_view_def)
    then show ?thesis by (simp add: is_shredded_def decrypt_def provision_def Let_def)
  qed
  moreover have "is_shredded e v' = is_shredded e v \<and> decrypt a e blob ad v' = decrypt a e blob ad v"
    if "py_strip e \<notin> py_strip ` set ids" for e
  proof -
    have "entity_view v' (py_strip e) = entity_view v (py_strip e)" using f that by simp
    moreover from this have "decrypt a e blob ad v' = decrypt a e blob ad v" by (rule decrypt_view)
    ultimately show ?thesis by (simp add: is_shredded_def entity_view_def)
  qed
  ultimately show ?thesis using x by blast
qed

lemma crypto_shred_hook_meaning_witness:
  "\<exists>j v'. crypto_shred_hook (\<lambda>_. []) shred 5 ['' alice'', ''bob''] new_vault = (Inr j, v') \<and> is_shredded ''bob'' v'"
proof -
  obtain x v' where h: "crypto_shred_hook (\<lambda>_. []) shred 5 ['' alice'', ''bob''] new_vault = (x, v')" by fastforce
  from crypto_shred_hook_meaning [OF h] have "\<exists>j. x = Inr j" "is_shredded ''bob'' v'" by simp_all
  then show ?thesis using h by blast
qed

end
