(* ===== verification/Access.thy ===== *)
theory Access
  imports Digest "HOL-Library.Sublist"
begin

text \<open>
  \<open>api/auth.py\<close> and \<open>integrations/tenancy.py\<close>: the API-key middleware and the start-up guard on secrets, and tenant ids,
  their directories and signing keys. Environment variables are a map; request headers are keyed by their lower-case name.
  Directory creation is left out: \<open>list_tenants\<close> takes the names of the directories that exist.
\<close>

section \<open>API keys\<close>

definition DEFAULT_SIGNING_KEY :: string where
  "DEFAULT_SIGNING_KEY = ''dev-only-placeholder-signing-key''"

definition PUBLIC_PATHS :: "string list" where
  "PUBLIC_PATHS = [''/health'', ''/metrics'', ''/docs'', ''/openapi.json'', ''/redoc'', ''/favicon.ico'']"

definition truthy_text :: "string \<Rightarrow> bool" where
  "truthy_text s \<longleftrightarrow> py_lower (py_strip s) \<in> {''1'', ''true'', ''yes'', ''on''}"

definition env_flag :: "environ \<Rightarrow> string \<Rightarrow> bool \<Rightarrow> bool" where
  "env_flag env name d = (case env name of None \<Rightarrow> d | Some raw \<Rightarrow> truthy_text raw)"

definition is_production :: "environ \<Rightarrow> bool" where
  "is_production env \<longleftrightarrow> py_lower (py_strip (env_get env ''HEALER_ENV'' ''development'')) \<in> {''production'', ''prod''}"

definition allow_insecure :: "environ \<Rightarrow> bool" where
  "allow_insecure env = env_flag env ''HEALER_ALLOW_INSECURE'' False"

definition get_api_key :: "environ \<Rightarrow> string option" where
  "get_api_key env = (let key = py_strip (env_get env ''HEALER_API_KEY'' []) in if key = [] then None else Some key)"

definition auth_required :: "environ \<Rightarrow> bool" where
  "auth_required env \<longleftrightarrow>
     (if allow_insecure env then False else if env_flag env ''HEALER_REQUIRE_AUTH'' False then True
      else if get_api_key env \<noteq> None then True else is_production env)"

definition get_signing_key_bytes :: "environ \<Rightarrow> bytes" where
  "get_signing_key_bytes env = utf8 (env_get env ''HEALER_SIGNING_KEY'' DEFAULT_SIGNING_KEY)"

definition validate_production_secrets :: "environ \<Rightarrow> unit res" where
  "validate_production_secrets env =
    (if allow_insecure env then Inr ()
     else let signing = env_get env ''HEALER_SIGNING_KEY'' DEFAULT_SIGNING_KEY in
       if is_production env \<and> signing = DEFAULT_SIGNING_KEY
       then Inl (RuntimeError ''HEALER_ENV=production requires a non-default HEALER_SIGNING_KEY. Set a long random secret before starting the API.'')
       else if is_production env \<and> get_api_key env = None
       then Inl (RuntimeError ''HEALER_ENV=production requires HEALER_API_KEY (or HEALER_ALLOW_INSECURE=1 for emergency bypass).'')
       else if env_flag env ''HEALER_REQUIRE_STRONG_SIGNING'' False \<and> signing = DEFAULT_SIGNING_KEY
       then Inl (RuntimeError ''HEALER_REQUIRE_STRONG_SIGNING=1 rejects the default signing key'')
       else Inr ())"

record request =
  rq_path :: string
  rq_headers :: "(string, string) dict"

definition extract_presented_key :: "request \<Rightarrow> string option" where
  "extract_presented_key rq =
    (case dget (rq_headers rq) ''x-api-key'' of
       Some header \<Rightarrow> if header \<noteq> [] then Some (py_strip header)
                      else (case dget (rq_headers rq) ''authorization'' of
                              Some a \<Rightarrow> if starts_with (py_lower a) ''bearer '' then Some (py_strip (drop 7 a)) else None
                            | None \<Rightarrow> None)
     | None \<Rightarrow> (case dget (rq_headers rq) ''authorization'' of
                  Some a \<Rightarrow> if starts_with (py_lower a) ''bearer '' then Some (py_strip (drop 7 a)) else None
                | None \<Rightarrow> None))"

definition keys_match :: "string \<Rightarrow> string \<Rightarrow> bool" where
  "keys_match presented expected \<longleftrightarrow> utf8 presented = utf8 expected"

text \<open>What the middleware does with a request: hand it on, or answer with a status and a detail.\<close>

datatype verdict = Pass | Reject int string

definition norm_path :: "string \<Rightarrow> string" where
  "norm_path p = (let q = rev (dropWhile (\<lambda>c. c = CHR ''/'') (rev p)) in if q = [] then ''/'' else q)"

definition middleware_dispatch :: "environ \<Rightarrow> request \<Rightarrow> verdict" where
  "middleware_dispatch env rq =
    (let path = norm_path (rq_path rq) in
     if path \<in> set PUBLIC_PATHS \<or> starts_with path ''/docs'' then Pass
     else if \<not> auth_required env then Pass
     else case get_api_key env of
       None \<Rightarrow> Reject 503 ''auth required but HEALER_API_KEY is not configured''
     | Some expected \<Rightarrow>
         (case extract_presented_key rq of
            None \<Rightarrow> Reject 401 ''invalid or missing API key''
          | Some presented \<Rightarrow> if presented = [] \<or> \<not> keys_match presented expected then Reject 401 ''invalid or missing API key'' else Pass))"

definition assert_api_key_dependency :: "environ \<Rightarrow> request \<Rightarrow> verdict" where
  "assert_api_key_dependency env rq =
    (if \<not> auth_required env then Pass
     else case get_api_key env of
       None \<Rightarrow> Reject 503 ''auth required but HEALER_API_KEY is not configured''
     | Some expected \<Rightarrow>
         (case extract_presented_key rq of
            None \<Rightarrow> Reject 401 ''invalid or missing API key''
          | Some presented \<Rightarrow> if presented = [] \<or> \<not> keys_match presented expected then Reject 401 ''invalid or missing API key'' else Pass))"

section \<open>Tenants\<close>

definition multi_tenant_enabled :: "environ \<Rightarrow> bool" where
  "multi_tenant_enabled env = truthy_text (env_get env ''HEALER_MULTI_TENANT'' [])"

definition ascii_alnum :: "char \<Rightarrow> bool" where
  "ascii_alnum c = (let n = of_char c :: nat in (48 \<le> n \<and> n \<le> 57) \<or> (65 \<le> n \<and> n \<le> 90) \<or> (97 \<le> n \<and> n \<le> 122))"

text \<open>The pattern \<open>^[a-zA-Z0-9][a-zA-Z0-9_.:-]{0,63}$\<close> on a stripped string.\<close>

definition tenant_re :: "string \<Rightarrow> bool" where
  "tenant_re s = (case s of [] \<Rightarrow> False
     | c # cs \<Rightarrow> ascii_alnum c \<and> length cs \<le> 63 \<and> (\<forall>x\<in>set cs. ascii_alnum x \<or> x \<in> set ''_.:-''))"

definition validate_tenant_id :: "string \<Rightarrow> string res" where
  "validate_tenant_id tenant_id =
    (let tid = py_strip tenant_id in
     if tid = [] then Inl (ValueError ''tenant_id required'')
     else if \<not> tenant_re tid then Inl (ValueError ''tenant_id must be 1-64 chars: alphanumeric, _ . : -'')
     else Inr tid)"

definition derive_tenant_signing_key :: "bytes \<Rightarrow> string \<Rightarrow> bytes res" where
  "derive_tenant_signing_key master tenant_id = bind_res (validate_tenant_id tenant_id) (\<lambda>tid. Inr (hmac_sha256 master (utf8 tid)))"

text \<open>A path is the list of its components below the base directory.\<close>

record tenant_context =
  tc_tenant_id :: string
  tc_data_dir :: "string list"
  tc_signing_key :: bytes

definition receipts_path :: "tenant_context \<Rightarrow> string list" where
  "receipts_path t = tc_data_dir t @ [''receipts.jsonl'']"

definition registry_path :: "tenant_context \<Rightarrow> string list" where
  "registry_path t = tc_data_dir t @ [''id_registry.json'']"

record tenant_manager =
  tm_master :: bytes
  tm_cache :: "(string, tenant_context) dict"

definition tenant_manager_init :: "environ \<Rightarrow> bytes option \<Rightarrow> tenant_manager" where
  "tenant_manager_init env master =
    \<lparr>tm_master = (case master of Some k \<Rightarrow> if k = [] then utf8 (env_get env ''HEALER_SIGNING_KEY'' DEFAULT_SIGNING_KEY) else k
                 | None \<Rightarrow> utf8 (env_get env ''HEALER_SIGNING_KEY'' DEFAULT_SIGNING_KEY)), tm_cache = []\<rparr>"

definition tenant_get :: "environ \<Rightarrow> string option \<Rightarrow> tenant_manager \<Rightarrow> tenant_context res \<times> tenant_manager" where
  "tenant_get env tenant_id tm =
    (let given = (case tenant_id of None \<Rightarrow> [] | Some t \<Rightarrow> t) in
     if \<not> multi_tenant_enabled env \<or> given = []
     then (Inr \<lparr>tc_tenant_id = (if given = [] then ''default'' else given), tc_data_dir = [], tc_signing_key = tm_master tm\<rparr>, tm)
     else case validate_tenant_id given of
       Inl e \<Rightarrow> (Inl e, tm)
     | Inr tid \<Rightarrow>
         (case dget (tm_cache tm) tid of
            Some c \<Rightarrow> (Inr c, tm)
          | None \<Rightarrow>
              (case derive_tenant_signing_key (tm_master tm) tid of
                 Inl e \<Rightarrow> (Inl e, tm)
               | Inr sk \<Rightarrow> let c = \<lparr>tc_tenant_id = tid, tc_data_dir = [''tenants'', tid], tc_signing_key = sk\<rparr>
                           in (Inr c, tm\<lparr>tm_cache := dset tid c (tm_cache tm)\<rparr>))))"

definition list_tenants :: "string list option \<Rightarrow> string list" where
  "list_tenants dirs = (case dirs of None \<Rightarrow> [] | Some ds \<Rightarrow> sort ds)"


section \<open>Keys compare by value\<close>

lemma utf8_head_small: "(of_char c :: nat) < 128 \<Longrightarrow> utf8_char c = [word_of_nat (of_char c)]"
  by (simp add: utf8_char_def)

lemma word_of_nat_inj8: "m < 256 \<Longrightarrow> n < 256 \<Longrightarrow> (word_of_nat m :: byte) = word_of_nat n \<longleftrightarrow> m = n"
  by (auto simp: word_of_nat_eq_iff take_bit_eq_mod)

lemma char_bound: "(of_char c :: nat) < 256"
  by (rule nat_of_char_less_256)

lemma utf8_char_prefix:
  assumes "utf8_char c @ xs = utf8_char d @ ys"
  shows "c = d \<and> xs = ys"
proof -
  let ?m = "of_char c :: nat" and ?n = "of_char d :: nat"
  have b: "?m < 256" "?n < 256" by (rule char_bound)+
  then have d: "?m div 64 < 4" "?n div 64 < 4" by linarith+
  have e: "?m = ?n \<and> xs = ys"
  proof (cases "?m < 128"; cases "?n < 128")
    assume "?m < 128" "?n < 128"
    then show ?thesis using assms b by (simp add: utf8_char_def Let_def word_of_nat_inj8 del: of_nat_add)
  next
    assume "?m < 128" "\<not> ?n < 128"
    then show ?thesis using assms b d by (simp add: utf8_char_def Let_def word_of_nat_inj8 del: of_nat_add)
  next
    assume "\<not> ?m < 128" "?n < 128"
    then show ?thesis using assms b d by (simp add: utf8_char_def Let_def word_of_nat_inj8 del: of_nat_add)
  next
    assume "\<not> ?m < 128" "\<not> ?n < 128"
    moreover have "?m mod 64 < 64" "?n mod 64 < 64" by simp_all
    ultimately have "?m div 64 = ?n div 64" "?m mod 64 = ?n mod 64" "xs = ys"
      using assms d by (auto simp: utf8_char_def Let_def word_of_nat_inj8 simp del: of_nat_add)
    then show ?thesis by (metis div_mult_mod_eq)
  qed
  then have "c = d" by (metis char_of_char)
  then show ?thesis using e by simp
qed

lemma utf8_char_nonempty: "utf8_char c \<noteq> []"
  by (simp add: utf8_char_def Let_def)

lemma utf8_inj: "utf8 s = utf8 t \<longleftrightarrow> s = t"
proof
  show "utf8 s = utf8 t \<Longrightarrow> s = t"
  proof (induction s arbitrary: t)
    case Nil
    then show ?case using utf8_char_nonempty by (cases t) (auto simp: utf8_def)
  next
    case (Cons c s)
    then obtain d u where t: "t = d # u" using utf8_char_nonempty by (cases t) (auto simp: utf8_def)
    have "utf8_char c @ utf8 s = utf8_char d @ utf8 u" using Cons.prems t by (simp add: utf8_def)
    then have "c = d" "utf8 s = utf8 u" using utf8_char_prefix by blast+
    then show ?case using Cons.IH t by simp
  qed
qed simp

lemma get_api_key_nonempty: "get_api_key env = Some k \<Longrightarrow> k \<noteq> []"
  by (auto simp: get_api_key_def Let_def split: if_splits)

section \<open>Tenant contexts\<close>

definition context_for :: "bytes \<Rightarrow> string \<Rightarrow> tenant_context" where
  "context_for master tid = \<lparr>tc_tenant_id = tid, tc_data_dir = [''tenants'', tid], tc_signing_key = hmac_sha256 master (utf8 tid)\<rparr>"

definition tm_ok :: "tenant_manager \<Rightarrow> bool" where
  "tm_ok tm \<longleftrightarrow> (\<forall>t c. dget (tm_cache tm) t = Some c \<longrightarrow> c = context_for (tm_master tm) t)"

lemma validate_Inr: "validate_tenant_id t = Inr tid \<longleftrightarrow> tid = py_strip t \<and> tenant_re tid"
  by (auto simp: validate_tenant_id_def Let_def tenant_re_def)

lemma tenant_get_multi:
  assumes "tm_ok tm" "multi_tenant_enabled env" "t \<noteq> []"
  shows "tm_ok (snd (tenant_get env (Some t) tm)) \<and> tm_master (snd (tenant_get env (Some t) tm)) = tm_master tm
    \<and> (\<forall>c. fst (tenant_get env (Some t) tm) = Inr c \<longleftrightarrow> tenant_re (py_strip t) \<and> c = context_for (tm_master tm) (py_strip t))"
proof (cases "validate_tenant_id t")
  case (Inl e)
  then have "\<not> tenant_re (py_strip t)" using validate_Inr [of t "py_strip t"] by simp
  then show ?thesis using assms Inl by (simp add: tenant_get_def)
next
  case (Inr tid)
  then have tid: "tid = py_strip t" "tenant_re tid" using validate_Inr [of t tid] by blast+
  then have sk: "derive_tenant_signing_key (tm_master tm) tid = Inr (hmac_sha256 (tm_master tm) (utf8 tid))"
    by (simp add: derive_tenant_signing_key_def validate_Inr)
  show ?thesis
  proof (cases "dget (tm_cache tm) tid")
    case (Some c)
    then show ?thesis using assms Inr tid by (auto simp: tenant_get_def tm_ok_def)
  next
    case None
    then show ?thesis using assms Inr tid sk by (auto simp: tenant_get_def tm_ok_def context_for_def Let_def)
  qed
qed

lemma tenant_get_ok: "tm_ok tm \<Longrightarrow> tm_ok (snd (tenant_get env t tm)) \<and> tm_master (snd (tenant_get env t tm)) = tm_master tm"
proof (cases "\<not> multi_tenant_enabled env \<or> t = None \<or> t = Some []")
  case True
  moreover assume "tm_ok tm"
  ultimately show ?thesis by (auto simp: tenant_get_def Let_def)
next
  case False
  moreover assume "tm_ok tm"
  ultimately show ?thesis using tenant_get_multi by auto
qed

lemma tenant_gets_ok:
  "tm_ok tm \<Longrightarrow> tm_ok (foldl (\<lambda>tm t. snd (tenant_get env t tm)) tm ts) \<and> tm_master (foldl (\<lambda>tm t. snd (tenant_get env t tm)) tm ts) = tm_master tm"
  by (induction ts arbitrary: tm) (use tenant_get_ok in auto)

section \<open>Properties\<close>

text \<open>
  C24: in production the API is closed: when the start-up guard has accepted the environment of a production service without the
  insecure bypass, the receipts are not signed with the default key, and the middleware hands on a request to a path that is not
  public exactly when it presents the configured key; otherwise it answers 401, never 503.
\<close>

theorem production_requires_key:
  assumes "validate_production_secrets env = Inr ()" and "is_production env" and "\<not> allow_insecure env"
    and "norm_path (rq_path rq) \<notin> set PUBLIC_PATHS" and "\<not> starts_with (norm_path (rq_path rq)) ''/docs''"
  shows "get_signing_key_bytes env \<noteq> utf8 DEFAULT_SIGNING_KEY
    \<and> (\<exists>key. get_api_key env = Some key
         \<and> middleware_dispatch env rq = (if extract_presented_key rq = Some key then Pass else Reject 401 ''invalid or missing API key''))"
proof -
  obtain key where k: "get_api_key env = Some key" "env_get env ''HEALER_SIGNING_KEY'' DEFAULT_SIGNING_KEY \<noteq> DEFAULT_SIGNING_KEY"
    using assms(1,2,3) by (auto simp: validate_production_secrets_def Let_def split: if_splits)
  have "auth_required env" using assms(3) k(1) by (simp add: auth_required_def)
  then have "middleware_dispatch env rq = (if extract_presented_key rq = Some key then Pass else Reject 401 ''invalid or missing API key'')"
    using assms(4,5) k(1) get_api_key_nonempty [OF k(1)]
    by (auto simp: middleware_dispatch_def Let_def keys_match_def utf8_inj split: option.splits)
  then show ?thesis using k by (simp add: get_signing_key_bytes_def utf8_inj)
qed

definition demo_environ :: environ where
  "demo_environ = [''HEALER_ENV'' \<mapsto> ''production'', ''HEALER_SIGNING_KEY'' \<mapsto> ''k1'', ''HEALER_API_KEY'' \<mapsto> ''s3'', ''HEALER_MULTI_TENANT'' \<mapsto> ''on'']"

lemma production_requires_key_witness:
  "middleware_dispatch demo_environ \<lparr>rq_path = ''/delete'', rq_headers = [(''x-api-key'', ''s4'')]\<rparr> = Reject 401 ''invalid or missing API key''"
proof -
  let ?rq = "\<lparr>rq_path = ''/delete'', rq_headers = [(''x-api-key'', ''s4'')]\<rparr>"
  have v: "validate_production_secrets demo_environ = Inr ()" "is_production demo_environ" "\<not> allow_insecure demo_environ"
    "norm_path (rq_path ?rq) \<notin> set PUBLIC_PATHS" "\<not> starts_with (norm_path (rq_path ?rq)) ''/docs''"
    by code_simp+
  have k: "get_api_key demo_environ = Some ''s3''" "extract_presented_key ?rq = Some ''s4''" by code_simp+
  from production_requires_key [OF v] k show ?thesis by auto
qed



end
