(* ===== verification/Ring.thy ===== *)
theory Ring
  imports Persistence
begin

text \<open>
  Loading a dense matrix into the native index and linking its rows in a ring, as the ingest of \<open>api/main.py\<close> and
  \<open>_sync_heal_mirror\<close> of the adapters do with the same loop. Nobody else holds the locks of the index at that time.
\<close>

text \<open>The ring of neighbours that the ingest gives every row.\<close>

fun link_ring :: "nat \<Rightarrow> nat list \<Rightarrow> hnsw_index \<Rightarrow> unit res \<times> hnsw_index" where
  "link_ring n [] ix = (Inr (), ix)"
| "link_ring n (i # is) ix =
    (case set_neighbors ix (int i) 0 [(int i - 1) mod int n, (int i + 1) mod int n, (int i + 2) mod int n] of
       Inl e \<Rightarrow> (Inl e, ix)
     | Inr ix1 \<Rightarrow> link_ring n is ix1)"

definition load_ring :: "f32 list list \<Rightarrow> nat \<Rightarrow> hnsw_index \<Rightarrow> unit res \<times> hnsw_index" where
  "load_ring rows d ix =
    (case load_index rows d of Inl e \<Rightarrow> (Inl e, ix) | Inr ix1 \<Rightarrow> link_ring (length rows) [0..<length rows] ix1)"

text \<open>What linking keeps: the rows, an index in good order, one layer of at most three neighbours.\<close>

definition small_graph :: "hnsw_index \<Rightarrow> bool" where
  "small_graph ix \<longleftrightarrow> layers_le 1 (hx_adj ix) \<and> (\<forall>n L. length (nbrs_at (hx_adj ix) n L) \<le> 3)"

lemma set_neighbors_small:
  assumes "index_ok ix" "small_graph ix" "i < length (hx_rows ix)" "length nbrs \<le> 3"
    "\<forall>nb\<in>set nbrs. 0 \<le> nb \<and> nb < int (length (hx_rows ix))"
  shows "\<exists>ix'. set_neighbors ix (int i) 0 nbrs = Inr ix' \<and> index_ok ix' \<and> small_graph ix' \<and> hx_rows ix' = hx_rows ix \<and> hx_dim ix' = hx_dim ix"
proof -
  let ?a = "put_nbrs i 0 (map nat nbrs) (ensure_layer_slot i 0 (hx_adj ix))"
  let ?ix = "ix\<lparr>hx_adj := ?a\<rparr>"
  have la: "i < length (hx_adj ix)" using assms(1,3) by (simp add: index_ok_def)
  have nb: "nbrs_at ?a n L = (if n = i \<and> L = 0 then map nat nbrs else nbrs_at (hx_adj ix) n L)" for n L
    using la ensure_slot [OF la, of 0] by (subst nbrs_at_put) simp_all
  have "ensure_node ix (int i) = Inr i" using assms(3) by (auto simp: ensure_node_def is_loaded_def num_elements_def)
  then have "set_neighbors ix (int i) 0 nbrs = Inr ?ix" using assms(5) by (auto simp: set_neighbors_def num_elements_def)
  moreover have "set (nbrs_at ?a n L) \<subseteq> {..<length (hx_rows ix)}" for n L
    using assms(1,5) unfolding nb index_ok_def adj_bound_nbrs by auto
  then have "index_ok ?ix" using assms(1) unfolding index_ok_def adj_bound_nbrs by auto
  moreover have "small_graph ?ix"
    using assms(2,4) layers_le_ensure [of 1 "hx_adj ix" 0 i] unfolding small_graph_def by (auto simp: nb)
  ultimately show ?thesis by auto
qed

lemma link_ring_ok:
  assumes "index_ok ix" "small_graph ix" "set is \<subseteq> {..<length (hx_rows ix)}"
  shows "\<exists>ix'. link_ring (length (hx_rows ix)) is ix = (Inr (), ix') \<and> index_ok ix' \<and> small_graph ix'
    \<and> hx_rows ix' = hx_rows ix \<and> hx_dim ix' = hx_dim ix"
  using assms
proof (induction "is" arbitrary: ix)
  case Nil
  then show ?case by simp
next
  case (Cons i "is")
  let ?n = "int (length (hx_rows ix))"
  let ?nbrs = "[(int i - 1) mod ?n, (int i + 1) mod ?n, (int i + 2) mod ?n]"
  have i: "i < length (hx_rows ix)" using Cons.prems(3) by simp
  then have pos: "0 < ?n" by linarith
  have nb: "length ?nbrs \<le> 3" "\<forall>nb\<in>set ?nbrs. 0 \<le> nb \<and> nb < ?n"
    using pos_mod_sign [OF pos] pos_mod_bound [OF pos] by simp_all
  obtain ix1 where ix1: "set_neighbors ix (int i) 0 ?nbrs = Inr ix1"
    "index_ok ix1" "small_graph ix1" "hx_rows ix1 = hx_rows ix" "hx_dim ix1 = hx_dim ix"
    using set_neighbors_small [OF Cons.prems(1,2) i nb] by blast
  have "set is \<subseteq> {..<length (hx_rows ix1)}" using Cons.prems(3) ix1(4) by simp
  from Cons.IH [OF ix1(2,3) this] show ?case using ix1 by simp
qed

lemma load_ring_ok:
  assumes "rows \<noteq> []" "0 < d" "list_all (\<lambda>r. length r = d) rows" "length rows < 2 ^ 63" "length rows * d < 2 ^ 64"
  shows "\<exists>ix. load_ring rows d ix0 = (Inr (), ix) \<and> ready ix \<and> hx_rows ix = rows \<and> hx_dim ix = d"
proof -
  let ?ix = "\<lparr>hx_dim = d, hx_rows = rows, hx_adj = replicate (length rows) [], hx_entry = 0\<rparr>"
  have "load_index rows d = Inr ?ix" using assms by (simp add: load_index_def)
  moreover have "index_ok ?ix" using assms by (simp add: index_ok_def list_all_iff)
  moreover have "small_graph ?ix" by (auto simp: small_graph_def layers_le_def nbrs_at_def)
  ultimately obtain ix where ix: "load_ring rows d ix0 = (Inr (), ix)" "index_ok ix" "small_graph ix" "hx_rows ix = rows" "hx_dim ix = d"
    using link_ring_ok [of ?ix "[0..<length rows]"] by (auto simp: load_ring_def atLeast0LessThan)
  have "d < 2 ^ 64" using assms(1,2,5) by (cases rows) auto
  moreover have deg: "length (nbrs_at (hx_adj ix) n L) \<le> 3" for n L using ix(3) by (simp add: small_graph_def)
  then have "\<forall>n L. length (nbrs_at (hx_adj ix) n L) < 2 ^ 32" using le_less_trans [OF deg] by simp
  moreover have "layers_le (2 ^ 32 - 1) (hx_adj ix)" using ix(3) by (auto simp: small_graph_def layers_le_def)
  ultimately have "index_fits ix" using ix(4,5) assms(4,5) degrees_nbrs by (simp add: index_fits_def)
  then show ?thesis using ix assms(1) by (auto simp: ready_def is_loaded_def)
qed

end
