(* ===== verification/Api.thy ===== *)
theory Api
  imports NativeBackend Workflow Outbox ReplicaFanout Hooks Access Ring
begin

text \<open>
  \<open>api/main.py\<close>: the HTTP handlers over the erasure service of the process. The state is what the module globals hold:
  the runner with the service (registry, engine, receipt log, counters), the tickets and the world of the hooks with the
  outbox, and the file \<open>id_registry.json\<close> beside the files of the engine. A handler returns a JSON value, raises an
  \<open>HTTPException\<close>, or lets an exception escape. Timers and log lines are left out.
\<close>

section \<open>State and replies\<close>

datatype reply = Reply json | HttpException int string | Unhandled exn

text \<open>What the process and its surroundings give: the environment of the engine (\<open>penv\<close>), the data directory, the inputs of the
  service, the texts of messages and floats, the HTTP client of the webhooks, the conversion of a JSON number to float32,
  and whether writing \<open>id_registry.json\<close> fails.\<close>

record ('d, 'n) api_env =
  ae_penv :: "'d penv"
  ae_dir :: string
  ae_senv :: service_env
  ae_render :: "message \<Rightarrow> string"
  ae_float_str :: "64 word \<Rightarrow> string"
  ae_post :: "string \<Rightarrow> (string, string) dict \<Rightarrow> json \<Rightarrow> 'n \<Rightarrow> http_reply \<times> 'n"
  ae_latency :: "64 word"
  ae_f32 :: "64 word \<Rightarrow> f32"
  ae_save_fails :: bool

record 'n api =
  ap_run :: "(engine, 'n hook_world) runner"
  ap_ids_file :: "json option"

abbreviation ap_service :: "'n api \<Rightarrow> engine service" where
  "ap_service st \<equiv> wr_service (ap_run st)"

abbreviation ap_engine :: "'n api \<Rightarrow> engine" where
  "ap_engine st \<equiv> sv_world (ap_service st)"

abbreviation ap_ids :: "'n api \<Rightarrow> id_registry" where
  "ap_ids st \<equiv> sv_registry (ap_service st)"

definition put_service :: "engine service \<Rightarrow> 'n api \<Rightarrow> 'n api" where
  "put_service s st = st\<lparr>ap_run := (ap_run st)\<lparr>wr_service := s\<rparr>\<rparr>"

text \<open>\<open>get_erasure_service\<close>: the native backend with the engine attached, the defaults of the constructor.\<close>

definition api_backend :: "('d, 'n) api_env \<Rightarrow> engine backend" where
  "api_backend a = native_backend (ae_penv a) (ae_dir a) True"

definition api_config :: "environ \<Rightarrow> service_config" where
  "api_config env = \<lparr>sv_signing_key = get_signing_key_bytes env, sv_drop_mappings = True, sv_default_compact = ''auto'',
     sv_default_residual_proof = None, sv_receipt_log = True\<rparr>"

abbreviation ae_environ :: "('d, 'n) api_env \<Rightarrow> environ" where
  "ae_environ a \<equiv> se_environ (ae_senv a)"

definition api_delete ::
  "('d, 'n) api_env \<Rightarrow> string \<Rightarrow> string list \<Rightarrow> string option \<Rightarrow> string option \<Rightarrow> int \<Rightarrow> compact_arg option \<Rightarrow> string option
    \<Rightarrow> 'n api \<Rightarrow> erasure_receipt res \<times> 'n api" where
  "api_delete a c ids reason rid m carg rp st =
    (case delete (api_backend a) (api_config (ae_environ a)) (ae_senv a) c ids reason rid m True carg rp None (ap_service st) of
       (r, s) \<Rightarrow> (r, put_service s st))"

definition save_ids :: "('d, 'n) api_env \<Rightarrow> 'n api \<Rightarrow> 'n api" where
  "save_ids a st = (if ae_save_fails a then st else st\<lparr>ap_ids_file := Some (save_registry (ap_ids st))\<rparr>)"

definition api_inc :: "string \<Rightarrow> int \<Rightarrow> 'n api \<Rightarrow> 'n api" where
  "api_inc k n st = put_service (metric_inc k n (ap_service st)) st"

definition index_loaded :: "'n api \<Rightarrow> bool" where
  "index_loaded st = is_loaded (pe_mem (ap_engine st))"

section \<open>Requests\<close>

record delete_request =
  dr_node_id :: int
  dr_max_m :: int

record enterprise_delete_request =
  ed_collection :: string
  ed_ids :: "string list"
  ed_reason :: "string option"
  ed_request_id :: "string option"
  ed_max_m :: int
  ed_compact :: "compact_arg option"
  ed_residual_proof :: "string option"

record register_ids_request =
  ri_req_collection :: string
  ri_req_ids :: "string list"
  ri_req_labels :: "int list option"

record ingest_vectors_request =
  iv_collection :: string
  iv_ids :: "string list"
  iv_vectors :: "64 word list list"
  iv_labels :: "int list option"
  iv_replace_index :: bool
  iv_checkpoint :: bool

record create_erasure_body =
  ce_collection :: string
  ce_ids :: "string list"
  ce_reason :: "string option"
  ce_request_id :: "string option"
  ce_require_replica :: bool
  ce_require_crypto_shred :: bool
  ce_require_document_store :: bool
  ce_require_backup_ack :: bool
  ce_advance :: bool
  ce_max_m :: int

text \<open>The field constraints of the request models; a body that violates them is answered with 422 before the handler runs.\<close>

definition delete_request_valid :: "delete_request \<Rightarrow> bool" where
  "delete_request_valid b \<longleftrightarrow> 0 \<le> dr_node_id b \<and> 1 \<le> dr_max_m b"

definition enterprise_delete_valid :: "enterprise_delete_request \<Rightarrow> bool" where
  "enterprise_delete_valid b \<longleftrightarrow> ed_collection b \<noteq> [] \<and> ed_ids b \<noteq> [] \<and> 1 \<le> ed_max_m b"

definition register_ids_valid :: "register_ids_request \<Rightarrow> bool" where
  "register_ids_valid b \<longleftrightarrow> ri_req_collection b \<noteq> [] \<and> ri_req_ids b \<noteq> []"

definition ingest_vectors_valid :: "ingest_vectors_request \<Rightarrow> bool" where
  "ingest_vectors_valid b \<longleftrightarrow> iv_collection b \<noteq> [] \<and> iv_ids b \<noteq> [] \<and> iv_vectors b \<noteq> []"

definition create_erasure_valid :: "create_erasure_body \<Rightarrow> bool" where
  "create_erasure_valid b \<longleftrightarrow> ce_collection b \<noteq> [] \<and> ce_ids b \<noteq> [] \<and> 1 \<le> ce_max_m b"

definition validated :: "('b \<Rightarrow> bool) \<Rightarrow> ('b \<Rightarrow> 'n api \<Rightarrow> reply \<times> 'n api) \<Rightarrow> 'b \<Rightarrow> 'n api \<Rightarrow> reply \<times> 'n api" where
  "validated valid handler b st = (if valid b then handler b st else (HttpException 422 ''Unprocessable Entity'', st))"

section \<open>Raw deletes\<close>

definition sign_erasure :: "bytes \<Rightarrow> int \<Rightarrow> string \<Rightarrow> string" where
  "sign_erasure key node status = hexdigest (hmac_sha256 key (utf8 (status @ '':'' @ int_str node)))"

text \<open>The calls that \<open>_tracked_retry\<close> counts in a successful delete: the attempts of the native erase, and the one call of
  \<open>save_index\<close> in the flush.\<close>

definition erase_attempts :: "'d penv \<Rightarrow> int \<Rightarrow> int \<Rightarrow> engine \<Rightarrow> nat" where
  "erase_attempts v node m e =
    (let e1 = snd (begin_step v node m e)
     in snd (snd (with_lock_retry (pv_attempts v)
          (\<lambda>i. native_erase (pv_fp v) (pv_ms v (pe_tick e1)) (pv_busy v (pe_tick e1) i) node m) (pe_mem e1))))"

definition attempts_used :: "'d penv \<Rightarrow> int \<Rightarrow> int \<Rightarrow> engine \<Rightarrow> int" where
  "attempts_used v node m e = int (erase_attempts v node m e) + 1"

definition delete_node :: "('d, 'n) api_env \<Rightarrow> delete_request \<Rightarrow> 'n api \<Rightarrow> reply \<times> 'n api" where
  "delete_node a body st =
    (if \<not> index_loaded st then (HttpException 409 ''no index loaded; load or recover index.bin first'', st)
     else
       let v = ae_penv a; node = dr_node_id body; m = dr_max_m body; e = ap_engine st in
       case hard_delete_and_heal v node m False e of
         (r, e1) \<Rightarrow>
           (let st1 = api_inc ''raw_deletes'' 1 (put_service ((ap_service st)\<lparr>sv_world := e1\<rparr>) st)
            in case r of
                 Inl (LockContentionError t) \<Rightarrow> (HttpException 503 (''lock contention after retries: '' @ t), st1)
               | Inl (ValueError t) \<Rightarrow> (HttpException 400 t, st1)
               | Inl x \<Rightarrow> (HttpException 500 (''durable erasure failed: '' @ exn_str x), st1)
               | Inr d \<Rightarrow>
                   (Reply (JObj [(''status'', JStr ''erased''), (''node_id'', JInt node),
                      (''signature'', JStr (sign_erasure (get_signing_key_bytes (ae_environ a)) node ''erased'')),
                      (''message'', jopt JStr (hd_message d)), (''retries'', JInt (max 0 (attempts_used v node m e - 1))),
                      (''transaction_id'', JInt (hd_transaction_id d))]), st1)))"

section \<open>Registering and ingesting\<close>

fun register_all ::
  "string \<Rightarrow> (string \<times> int option) list \<Rightarrow> (string, int) dict \<Rightarrow> id_registry \<Rightarrow> (string, int) dict res \<times> id_registry" where
  "register_all c [] mapping r = (Inr mapping, r)"
| "register_all c ((x, l) # xs) mapping r =
    (case register c x l r of
       (Inl e, r1) \<Rightarrow> (Inl e, r1)
     | (Inr k, r1) \<Rightarrow> register_all c xs (dset x k mapping) r1)"

definition with_labels :: "string list \<Rightarrow> int list option \<Rightarrow> (string \<times> int option) list" where
  "with_labels ids labels = (case labels of None \<Rightarrow> map (\<lambda>x. (x, None)) ids | Some ls \<Rightarrow> zip ids (map Some ls))"

definition put_ids :: "id_registry \<Rightarrow> 'n api \<Rightarrow> 'n api" where
  "put_ids r st = put_service ((ap_service st)\<lparr>sv_registry := r\<rparr>) st"

definition mapping_json :: "(string, int) dict \<Rightarrow> json" where
  "mapping_json m = JObj (map (\<lambda>(x, l). (x, JInt l)) m)"

definition register_ids :: "('d, 'n) api_env \<Rightarrow> register_ids_request \<Rightarrow> 'n api \<Rightarrow> reply \<times> 'n api" where
  "register_ids a body st =
    (if case ri_req_labels body of None \<Rightarrow> False | Some ls \<Rightarrow> length ls \<noteq> length (ri_req_ids body)
     then (HttpException 400 ''ids and labels length mismatch'', st)
     else case register_all (ri_req_collection body) (with_labels (ri_req_ids body) (ri_req_labels body)) [] (ap_ids st) of
       (Inl e, r) \<Rightarrow> (HttpException 400 (exn_str e), put_ids r st)
     | (Inr mapping, r) \<Rightarrow>
         (Reply (JObj [(''collection'', JStr (ri_req_collection body)), (''mapping'', mapping_json mapping)]), save_ids a (put_ids r st)))"

text \<open>\<open>np.asarray\<close> of the rows: the number of columns, or the error of a ragged list.\<close>

definition np_columns :: "'a list list \<Rightarrow> nat res" where
  "np_columns rows =
    (case rows of [] \<Rightarrow> Inr 0
     | r # rs \<Rightarrow> if list_all (\<lambda>q. length q = length r) rs then Inr (length r)
               else Inl (ValueError ''setting an array element with a sequence''))"

text \<open>\<open>dense[int(lab)] = row\<close>: numpy counts a negative index from the end and raises beyond both ends.\<close>

definition np_row :: "nat \<Rightarrow> int \<Rightarrow> nat option" where
  "np_row n lab = (if 0 \<le> lab \<and> lab < int n then Some (nat lab)
     else if - int n \<le> lab \<and> lab < 0 then Some (nat (int n + lab)) else None)"

fun fill_rows :: "(int \<times> f32 list) list \<Rightarrow> f32 list list \<Rightarrow> f32 list list res" where
  "fill_rows [] dense = Inr dense"
| "fill_rows ((lab, row) # rest) dense =
    (case np_row (length dense) lab of
       None \<Rightarrow> Inl (OtherError ''IndexError'')
     | Some i \<Rightarrow> fill_rows rest (dense[i := row]))"

definition dense_matrix :: "int list \<Rightarrow> f32 list list \<Rightarrow> nat \<Rightarrow> int \<Rightarrow> f32 list list res" where
  "dense_matrix labels rows d n =
    (if n < 0 then Inl (ValueError ''negative dimensions are not allowed'')
     else fill_rows (zip labels rows) (replicate (nat n) (zero_row d)))"

definition max_label :: "int list \<Rightarrow> int" where
  "max_label ls = foldl max (hd ls) (tl ls)"

text \<open>The matrix to load: rows in the order of their labels when these are exactly \<open>0..n-1\<close> and the index is replaced,
  otherwise a zero matrix up to the largest label with the rows written in.\<close>

definition rows_to_load :: "bool \<Rightarrow> int list \<Rightarrow> f32 list list \<Rightarrow> nat \<Rightarrow> f32 list list res" where
  "rows_to_load replace_index labels rows d =
    (let n = length labels in
     if replace_index \<and> max_label labels + 1 = int n \<and> set labels = set (map int [0..<n])
     then Inr (map snd (sort_key fst (zip labels rows)))
     else dense_matrix labels rows d (max_label labels + 1))"

definition put_engine :: "engine \<Rightarrow> 'n api \<Rightarrow> 'n api" where
  "put_engine e st = put_service ((ap_service st)\<lparr>sv_world := e\<rparr>) st"

definition int64_labels :: "int list \<Rightarrow> bool" where
  "int64_labels ls = list_all (\<lambda>l. - (2 ^ 63) \<le> l \<and> l < 2 ^ 63) ls"

text \<open>After the load: checkpoint, save the ids, count and answer.\<close>

definition finish_ingest :: "('d, 'n) api_env \<Rightarrow> ingest_vectors_request \<Rightarrow> nat \<Rightarrow> (string, int) dict \<Rightarrow> 'n api \<Rightarrow> reply \<times> 'n api" where
  "finish_ingest a body d mapping st =
    (case (if iv_checkpoint body then save_initial_checkpoint (ae_penv a) (ap_engine st) else (Inr (), ap_engine st)) of
       (Inl e, e1) \<Rightarrow> (Unhandled e, put_engine e1 st)
     | (Inr _, e1) \<Rightarrow>
         (let n = length (iv_vectors body);
              st1 = api_inc ''ingest_vectors'' (int n) (api_inc ''ingest_batches'' 1 (save_ids a (put_engine e1 st)))
          in (Reply (JObj [(''collection'', JStr (iv_collection body)), (''count'', JInt (int n)), (''dim'', JInt (int d)),
                (''mapping'', mapping_json mapping), (''index_loaded'', JBool (index_loaded st1)),
                (''checkpointed'', JBool (iv_checkpoint body))]), st1)))"

definition ingest_vectors :: "('d, 'n) api_env \<Rightarrow> ingest_vectors_request \<Rightarrow> 'n api \<Rightarrow> reply \<times> 'n api" where
  "ingest_vectors a body st =
    (if length (iv_ids body) \<noteq> length (iv_vectors body) then (HttpException 400 ''ids and vectors length mismatch'', st)
     else if case iv_labels body of None \<Rightarrow> False | Some ls \<Rightarrow> length ls \<noteq> length (iv_ids body)
     then (HttpException 400 ''ids and labels length mismatch'', st)
     else case np_columns (iv_vectors body) of
       Inl e \<Rightarrow> (Unhandled e, st)
     | Inr d \<Rightarrow>
    (case register_all (iv_collection body) (with_labels (iv_ids body) (iv_labels body)) [] (ap_ids st) of
       (Inl e, r) \<Rightarrow> (HttpException 400 (exn_str e), put_ids r st)
     | (Inr mapping, r) \<Rightarrow>
         let st1 = put_ids r st;
             labels = map (\<lambda>x. the (dget mapping x)) (iv_ids body);
             rows = map (map (ae_f32 a)) (iv_vectors body)
         in if \<not> int64_labels labels then (Unhandled (OtherError ''OverflowError''), st1)
            else if \<not> iv_replace_index body \<and> index_loaded st1
            then (HttpException 409 ''append to non-empty native index not supported; use replace_index=true or adapters'', st1)
            else case rows_to_load (iv_replace_index body) labels rows d of
              Inl e \<Rightarrow> (Unhandled e, st1)
            | Inr m \<Rightarrow>
                (case load_ring m d (pe_mem (ap_engine st1)) of
                   (Inl e, ix) \<Rightarrow> (Unhandled e, put_engine ((ap_engine st1)\<lparr>pe_mem := ix\<rparr>) st1)
                 | (Inr _, ix) \<Rightarrow> finish_ingest a body d mapping (put_engine ((ap_engine st1)\<lparr>pe_mem := ix\<rparr>) st1))))"

section \<open>Deletes by id\<close>

definition receipt_response :: "erasure_receipt \<Rightarrow> json" where
  "receipt_response r = JObj [(''success'', JBool (rc_success r)), (''request_id'', JStr (rc_request_id r)),
     (''collection'', JStr (rc_collection r)), (''external_ids'', JList (map JStr (rc_external_ids r))),
     (''labels'', JList (map JInt (rc_labels r))), (''bytes_wiped_total'', JInt (rc_bytes_wiped_total r)),
     (''signature'', JStr (rc_signature r)), (''reason'', jopt JStr (rc_reason r)), (''errors'', JList (map JStr (rc_errors r))),
     (''transaction_ids'', JList (map JInt (rc_transaction_ids r))), (''receipt_version'', JInt (rc_receipt_version r)),
     (''status'', JStr (status_str (rc_status r))), (''compacted'', JBool (rc_compacted r)),
     (''residual_proof'', summary_json (rc_residual_proof r))]"

definition replica_delete_intent :: "('d, 'n) api_env \<Rightarrow> json \<Rightarrow> 'n api \<Rightarrow> reply \<times> 'n api" where
  "replica_delete_intent a body st =
    (case intent_from_json (se_time_ns (ae_senv a)) body of
       Inl (KeyError t) \<Rightarrow> (HttpException 400 (''bad intent: '' @ exn_str (KeyError t)), st)
     | Inl (TypeError t) \<Rightarrow> (HttpException 400 (''bad intent: '' @ t), st)
     | Inl (ValueError t) \<Rightarrow> (HttpException 400 (''bad intent: '' @ t), st)
     | Inl e \<Rightarrow> (Unhandled e, st)
     | Inr i \<Rightarrow>
         if \<not> index_loaded st then (HttpException 409 ''no index loaded on replica'', st)
         else case api_delete a (di_collection i) (di_external_ids i) (di_reason i) (Some (di_request_id i)) (di_max_m i) None None st of
           (Inl e, st1) \<Rightarrow>
             (Reply (JObj [(''success'', JBool False), (''message'', JStr (exn_str e)), (''request_id'', JStr (di_request_id i))]), st1)
         | (Inr r, st1) \<Rightarrow>
             (Reply (JObj [(''success'', JBool (rc_success r)),
                (''message'', JStr (if rc_errors r \<noteq> [] then join_with ''; '' (rc_errors r) else ''ok'')),
                (''request_id'', JStr (di_request_id i)), (''bytes_wiped_total'', JInt (rc_bytes_wiped_total r)),
                (''status'', JStr (status_str (rc_status r)))]), st1))"

definition enterprise_delete :: "('d, 'n) api_env \<Rightarrow> string \<Rightarrow> enterprise_delete_request \<Rightarrow> 'n api \<Rightarrow> reply \<times> 'n api" where
  "enterprise_delete a collection body st =
    (if ed_collection body \<noteq> collection then (HttpException 400 ''path collection must match body.collection'', st)
     else if \<not> index_loaded st then (HttpException 409 ''no index loaded; load or recover index.bin first'', st)
     else case api_delete a collection (ed_ids body) (ed_reason body) (ed_request_id body) (ed_max_m body) (ed_compact body)
                 (ed_residual_proof body) st of
       (Inl (IdMappingError t), st1) \<Rightarrow> (HttpException 404 (exn_str (IdMappingError t)), st1)
     | (Inl (LockContentionError t), st1) \<Rightarrow> (HttpException 503 (''lock contention: '' @ t), st1)
     | (Inl e, st1) \<Rightarrow> (HttpException 500 (''enterprise erase failed: '' @ exn_str e), st1)
     | (Inr r, st1) \<Rightarrow> (Reply (receipt_response r), save_ids a st1))"

definition admin_force_compact :: "('d, 'n) api_env \<Rightarrow> 'n api \<Rightarrow> reply \<times> 'n api" where
  "admin_force_compact a st =
    (case force_compact (api_backend a) (ap_service st) of
       (Inl e, s) \<Rightarrow> (Unhandled e, put_service s st)
     | (Inr None, s) \<Rightarrow> (Reply (JObj [(''compacted'', JBool False), (''reason'', JStr ''no_compact_backend'')]), put_service s st)
     | (Inr (Some n), s) \<Rightarrow> (Reply (JObj [(''compacted'', JBool True), (''live'', JInt n)]), put_service s st))"

section \<open>Receipts and outbox\<close>

definition iter_receipts :: "('d, 'n) api_env \<Rightarrow> 'n api \<Rightarrow> json list" where
  "iter_receipts a st = map (\<lambda>r. sort_keys (receipt_json (ae_render a) r)) (sv_log (ap_service st))"

fun json_get :: "json \<Rightarrow> string \<Rightarrow> json" where
  "json_get (JObj kvs) k = get_or kvs k JNull"
| "json_get j k = JNull"

definition find_by_request_id :: "('d, 'n) api_env \<Rightarrow> string \<Rightarrow> 'n api \<Rightarrow> json list" where
  "find_by_request_id a rid st = filter (\<lambda>j. json_get j ''request_id'' = JStr rid) (iter_receipts a st)"

definition list_receipts :: "('d, 'n) api_env \<Rightarrow> int \<Rightarrow> 'n api \<Rightarrow> reply" where
  "list_receipts a limit st =
    (let rows = iter_receipts a st;
         rows1 = (if 0 < limit then drop (length rows - nat limit) rows else rows)
     in Reply (JObj [(''count'', JInt (int (length rows1))), (''receipts'', JList rows1)]))"

definition get_receipts_by_request :: "('d, 'n) api_env \<Rightarrow> string \<Rightarrow> 'n api \<Rightarrow> reply" where
  "get_receipts_by_request a rid st =
    (let found = find_by_request_id a rid st in
     if found = [] then HttpException 404 ''no receipts for request_id''
     else Reply (JObj [(''request_id'', JStr rid), (''receipts'', JList found)]))"

text \<open>The dispatch callback applies the delete of an envelope to the local service again.\<close>

definition dispatch_locally :: "('d, 'n) api_env \<Rightarrow> engine service dispatch_fn" where
  "dispatch_locally a env s =
    (case delete (api_backend a) (api_config (ae_environ a)) (ae_senv a) (oe_collection env) (oe_external_ids env) (oe_reason env)
            (Some (oe_request_id env)) (oe_max_m env) True None None None s of
       (Inl e, s1) \<Rightarrow> (Inr (JObj [(''success'', JBool False), (''message'', JStr (exn_str e))]), s1)
     | (Inr r, s1) \<Rightarrow> (Inr (JObj [(''success'', JBool (rc_success r)), (''message'', JStr (status_str (rc_status r)))]), s1))"

definition MAX_ATTEMPTS :: int where "MAX_ATTEMPTS = 5"

abbreviation ap_outbox :: "'n api \<Rightarrow> file_outbox" where
  "ap_outbox st \<equiv> hw_outbox (wr_world (ap_run st))"

definition put_outbox :: "file_outbox \<Rightarrow> 'n api \<Rightarrow> 'n api" where
  "put_outbox ob st = st\<lparr>ap_run := (ap_run st)\<lparr>wr_world := (wr_world (ap_run st))\<lparr>hw_outbox := ob\<rparr>\<rparr>\<rparr>"

definition dispatch_outbox :: "('d, 'n) api_env \<Rightarrow> int \<Rightarrow> 'n api \<Rightarrow> reply \<times> 'n api" where
  "dispatch_outbox a limit st =
    (case dispatch_pending (ae_float_str a) MAX_ATTEMPTS (dispatch_locally a) limit (ap_service st, ap_outbox st) of
       (Inl e, s, ob) \<Rightarrow> (Unhandled e, put_outbox ob (put_service s st))
     | (Inr stats, s, ob) \<Rightarrow> (Reply (stats_json stats), api_inc ''outbox_dispatch_runs'' 1 (put_outbox ob (put_service s st))))"

definition list_outbox_pending :: "'n api \<Rightarrow> reply" where
  "list_outbox_pending st =
    (case list_pending (ap_outbox st) of
       Inl e \<Rightarrow> Unhandled e
     | Inr es \<Rightarrow> Reply (JObj [(''count'', JInt (int (length es))), (''envelopes'', JList (map envelope_to_dict es))]))"

definition tenant_from_headers :: "environ \<Rightarrow> string option \<Rightarrow> reply + string option" where
  "tenant_from_headers env header =
    (if \<not> multi_tenant_enabled env then Inr None
     else case header of
       None \<Rightarrow> Inl (HttpException 400 ''X-Tenant-ID required when HEALER_MULTI_TENANT=1'')
     | Some t \<Rightarrow> if t = [] then Inl (HttpException 400 ''X-Tenant-ID required when HEALER_MULTI_TENANT=1'') else Inr (Some (py_strip t)))"

section \<open>Erasure requests\<close>

definition api_hooks :: "('d, 'n) api_env \<Rightarrow> 'n hook_world wf_hooks" where
  "api_hooks a = build_hooks_from_env (ae_post a) (ae_latency a) (ae_float_str a) (se_uuid (ae_senv a)) (se_time_ns (ae_senv a)) (ae_environ a)"

definition api_advance :: "('d, 'n) api_env \<Rightarrow> string \<Rightarrow> int \<Rightarrow> 'n api \<Rightarrow> reply \<times> 'n api" where
  "api_advance a rid m st =
    (case advance (api_backend a) (api_config (ae_environ a)) (ae_senv a) (ae_render a) (api_hooks a) rid m False (ap_run st) of
       (Inl e, run) \<Rightarrow> (Unhandled e, st\<lparr>ap_run := run\<rparr>)
     | (Inr tk, run) \<Rightarrow> (Reply (wf_to_dict tk), st\<lparr>ap_run := run\<rparr>))"

definition create_erasure_request :: "('d, 'n) api_env \<Rightarrow> create_erasure_body \<Rightarrow> 'n api \<Rightarrow> reply \<times> 'n api" where
  "create_erasure_request a body st =
    (case wf_create (ae_senv a) (ce_collection body) (ce_ids body) (ce_reason body) (ce_request_id body) (ce_require_replica body)
            (ce_require_crypto_shred body) (ce_require_document_store body) (ce_require_backup_ack body) (ap_run st) of
       (tk, run) \<Rightarrow>
         (let st1 = st\<lparr>ap_run := run\<rparr> in
          if \<not> ce_advance body then (Reply (wf_to_dict tk), st1)
          else if \<not> index_loaded st1
          then (HttpException 409 ''no index loaded; create with advance=false or load index'', st1)
          else api_advance a (wf_request_id tk) (ce_max_m body) st1))"

definition list_erasure_requests :: "'n api \<Rightarrow> reply" where
  "list_erasure_requests st = Reply (JObj [(''request_ids'', JList (map JStr (store_list_ids (wr_files (ap_run st)))))])"

text \<open>\<open>store.load\<close> in the handlers: a missing ticket is answered with 404.\<close>

definition load_ticket :: "string \<Rightarrow> 'n api \<Rightarrow> reply + erasure_workflow" where
  "load_ticket rid st =
    (case store_load rid (wr_files (ap_run st)) of
       Inl (FileNotFoundError t) \<Rightarrow> Inl (HttpException 404 t)
     | Inl e \<Rightarrow> Inl (Unhandled e)
     | Inr tk \<Rightarrow> Inr tk)"

definition get_erasure_request :: "string \<Rightarrow> 'n api \<Rightarrow> reply" where
  "get_erasure_request rid st = (case load_ticket rid st of Inl r \<Rightarrow> r | Inr tk \<Rightarrow> Reply (wf_to_dict tk))"

definition advance_erasure_request :: "('d, 'n) api_env \<Rightarrow> string \<Rightarrow> int \<Rightarrow> 'n api \<Rightarrow> reply \<times> 'n api" where
  "advance_erasure_request a rid m st =
    (case load_ticket rid st of
       Inl r \<Rightarrow> (r, st)
     | Inr _ \<Rightarrow> if \<not> index_loaded st then (HttpException 409 ''no index loaded'', st) else api_advance a rid m st)"

definition export_erasure_request :: "('d, 'n) api_env \<Rightarrow> string \<Rightarrow> 'n api \<Rightarrow> reply" where
  "export_erasure_request a rid st =
    (case load_ticket rid st of
       Inl r \<Rightarrow> r
     | Inr tk \<Rightarrow> (case export_package tk of
                   JObj kvs \<Rightarrow> Reply (JObj (dset ''receipt_log'' (JList (find_by_request_id a rid st)) kvs))
                 | j \<Rightarrow> Reply j))"

section \<open>Start and stop\<close>

text \<open>What is in the data directory when no process runs.\<close>

record data_dir =
  dd_disk :: disk
  dd_ids :: "json option"
  dd_receipts :: "erasure_receipt list"
  dd_tickets :: wf_files
  dd_outbox :: file_outbox

definition data_dir_of :: "'n api \<Rightarrow> data_dir" where
  "data_dir_of st = \<lparr>dd_disk = disk_of (ap_engine st), dd_ids = ap_ids_file st, dd_receipts = sv_log (ap_service st),
     dd_tickets = wr_files (ap_run st), dd_outbox = ap_outbox st\<rparr>"

text \<open>\<open>lifespan\<close> up to its \<open>yield\<close>, in a new process: the module's registry is empty. \<open>net\<close> is the network.\<close>

definition lifespan_start :: "('d, 'n) api_env \<Rightarrow> 'n \<Rightarrow> data_dir \<Rightarrow> 'n api res" where
  "lifespan_start a net d =
    bind_res (validate_production_secrets (ae_environ a)) (\<lambda>_.
    bind_res (engine_init (dd_disk d)) (\<lambda>e0.
    case bootstrap (ae_penv a) e0 of
      (Inl x, _) \<Rightarrow> Inl x
    | (Inr _, e) \<Rightarrow>
    bind_res (policy_from_env (ae_environ a)) (\<lambda>policy.
    bind_res (case dd_ids d of None \<Rightarrow> Inr empty_registry
              | Some j \<Rightarrow> (case load_registry j empty_registry of (Inl x, _) \<Rightarrow> Inl x | (Inr _, r) \<Rightarrow> Inr r)) (\<lambda>r.
      Inr \<lparr>ap_run = \<lparr>wr_service = \<lparr>sv_registry = r, sv_policy = policy, sv_world = e, sv_log = dd_receipts d, sv_counters = [], sv_gauges = []\<rparr>,
             wr_files = dd_tickets d, wr_world = \<lparr>hw_net = net, hw_vault = new_vault, hw_outbox = dd_outbox d, hw_acks = []\<rparr>\<rparr>,
           ap_ids_file = dd_ids d\<rparr>))))"

text \<open>After the \<open>yield\<close>, at an orderly shutdown.\<close>

definition lifespan_stop :: "('d, 'n) api_env \<Rightarrow> 'n api \<Rightarrow> data_dir" where
  "lifespan_stop a st = data_dir_of (save_ids a st)"

section \<open>A batch of new ids\<close>

lemma register_fresh:
  assumes "reg_ok r" "py_strip c \<noteq> []" "py_strip x \<noteq> []" "id_view r c x = None"
  shows "\<exists>r'. register c x None r = (Inr (next_of r (py_strip c)), r') \<and> reg_ok r'
    \<and> next_of r' (py_strip c) = next_of r (py_strip c) + 1
    \<and> (\<forall>d y. id_view r' d y = (if same_id c x d y then Some (next_of r (py_strip c)) else id_view r d y))"
proof -
  let ?c = "py_strip c" and ?x = "py_strip x" and ?l = "next_of r (py_strip c)"
  let ?r = "put_mapping ?c ?x ?l (?l + 1) (ensure_norm ?c r)"
  have n: "dget (fwd_of (ensure_norm ?c r) ?c) ?x = None" using assms by (simp add: id_view_def ensure_views)
  then have "register c x None r = (Inr ?l, ?r)"
    using assms(2,3) by (simp add: register_def norm_collection_def norm_external_def ensure_views Let_def)
  moreover have "reg_ok ?r"
    using n assms(3) no_label_free [OF assms(1) order.refl]
    by (intro reg_ok_put reg_ok_ensure [OF assms(1)]) (simp_all add: ensure_views)
  moreover have "id_view ?r d y = (if same_id c x d y then Some ?l else id_view r d y)" for d y
    using assms(2,3) by (auto simp: id_view_def same_id_def put_views ensure_views)
  ultimately show ?thesis by (simp add: put_views)
qed

lemma register_all_fresh:
  assumes "reg_ok r" "py_strip c \<noteq> []" "\<forall>x\<in>set ids. py_strip x \<noteq> [] \<and> id_view r c x = None" "distinct (map py_strip ids)"
  shows "\<exists>mp r'. register_all c (map (\<lambda>x. (x, None)) ids) m0 r = (Inr mp, r') \<and> reg_ok r'
    \<and> (\<forall>i < length ids. dget mp (ids ! i) = Some (next_of r (py_strip c) + int i)
                      \<and> id_view r' c (ids ! i) = Some (next_of r (py_strip c) + int i))
    \<and> (\<forall>x. x \<notin> set ids \<longrightarrow> dget mp x = dget m0 x)
    \<and> (\<forall>d y. (\<forall>x\<in>set ids. \<not> same_id c x d y) \<longrightarrow> id_view r' d y = id_view r d y)"
  using assms
proof (induction ids arbitrary: r m0)
  case Nil
  then show ?case by simp
next
  case (Cons x xs)
  let ?l = "next_of r (py_strip c)"
  obtain r1 where r1: "register c x None r = (Inr ?l, r1)" "reg_ok r1" "next_of r1 (py_strip c) = ?l + 1"
    "\<forall>d y. id_view r1 d y = (if same_id c x d y then Some ?l else id_view r d y)"
    using register_fresh [OF Cons.prems(1,2)] Cons.prems(3) by fastforce
  have other: "py_strip y \<noteq> py_strip x" if "y \<in> set xs" for y using that Cons.prems(4) by (metis distinct.simps(2) image_eqI image_set list.simps(9))
  have "\<forall>y\<in>set xs. py_strip y \<noteq> [] \<and> id_view r1 c y = None" using Cons.prems(3) r1(4) other by (metis list.set_intros(2) same_id_def)
  then obtain mp r' where run: "register_all c (map (\<lambda>x. (x, None)) xs) (dset x ?l m0) r1 = (Inr mp, r')" "reg_ok r'"
    and at: "\<forall>i < length xs. dget mp (xs ! i) = Some (?l + 1 + int i) \<and> id_view r' c (xs ! i) = Some (?l + 1 + int i)"
    and out: "\<forall>y. y \<notin> set xs \<longrightarrow> dget mp y = dget (dset x ?l m0) y"
    and vw: "\<forall>d y. (\<forall>z\<in>set xs. \<not> same_id c z d y) \<longrightarrow> id_view r' d y = id_view r1 d y"
    using Cons.IH [OF r1(2) Cons.prems(2), of "dset x ?l m0"] Cons.prems(4) r1(3) by auto
  have x: "x \<notin> set xs" using other by blast
  have "\<forall>z\<in>set xs. \<not> same_id c z c x" using other by (auto simp: same_id_def)
  then have "id_view r' c x = Some ?l" using vw r1(4) by (auto simp: same_id_def)
  moreover have "dget mp x = Some ?l" using out x by simp
  ultimately have "\<forall>i < length (x # xs). dget mp ((x # xs) ! i) = Some (?l + int i) \<and> id_view r' c ((x # xs) ! i) = Some (?l + int i)"
    using at by (auto simp: nth_Cons' algebra_simps of_nat_diff)
  moreover have "\<forall>y. y \<notin> set (x # xs) \<longrightarrow> dget mp y = dget m0 y" using out by auto
  moreover have "\<forall>d y. (\<forall>z\<in>set (x # xs). \<not> same_id c z d y) \<longrightarrow> id_view r' d y = id_view r d y" using vw r1(4) by auto
  ultimately show ?case using run r1(1) by auto
qed

section \<open>The loaded matrix\<close>

lemma fill_rows_append:
  assumes "length pre = j"
  shows "fill_rows (zip (map (\<lambda>i. int (j + i)) [0..<length rows]) rows) (pre @ replicate (length rows) z) = Inr (pre @ rows)"
  using assms
proof (induction rows arbitrary: pre j)
  case Nil
  then show ?case by simp
next
  case (Cons r rows)
  have up: "map (\<lambda>i. int (j + i)) [0..<length (r # rows)] = int j # map (\<lambda>i. int (Suc j + i)) [0..<length rows]"
    by (simp add: upt_conv_Cons map_Suc_upt [symmetric] comp_def del: upt_Suc)
  have "(pre @ replicate (length (r # rows)) z)[j := r] = (pre @ [r]) @ replicate (length rows) z"
    using Cons.prems by (simp add: list_update_append)
  moreover have "np_row (length (pre @ replicate (length (r # rows)) z)) (int j) = Some j" using Cons.prems by (simp add: np_row_def)
  moreover have "fill_rows (zip (map (\<lambda>i. int (Suc j + i)) [0..<length rows]) rows) ((pre @ [r]) @ replicate (length rows) z)
      = Inr (pre @ r # rows)"
    using Cons.IH [of "pre @ [r]" "Suc j"] Cons.prems by simp
  ultimately show ?case unfolding up zip_Cons_Cons fill_rows.simps by simp
qed

lemma max_label_Max: "ls \<noteq> [] \<Longrightarrow> max_label ls = Max (set ls)"
proof -
  have "(\<lambda>x s :: int. max s x) = max" by (simp add: fun_eq_iff max.commute)
  then have "foldl max a xs = Max (set (a # xs))" for a :: int and xs
    unfolding Max.set_eq_fold foldl_conv_fold by simp
  then show "ls \<noteq> [] \<Longrightarrow> max_label ls = Max (set ls)" by (cases ls) (simp_all add: max_label_def)
qed

lemma max_label_upt: "0 < n \<Longrightarrow> max_label (map (\<lambda>i. int (k + i)) [0..<n]) = int (k + n) - 1"
  by (subst max_label_Max) (auto intro!: Max_eqI image_eqI [of _ _ "n - 1"])

lemma rows_to_load_upt:
  assumes "rows \<noteq> []"
  shows "rows_to_load rep (map (\<lambda>i. int (k + i)) [0..<length rows]) rows d = Inr (replicate k (zero_row d) @ rows)"
proof (cases "rep \<and> k = 0")
  case True
  have "map fst (zip (map (\<lambda>i. int (k + i)) [0..<length rows]) rows) = map (\<lambda>i. int (k + i)) [0..<length rows]" by simp
  moreover have "sorted (map (\<lambda>i. int (k + i)) [0..<length rows])" by (simp add: sorted_iff_nth_mono)
  ultimately have "sort_key fst (zip (map (\<lambda>i. int (k + i)) [0..<length rows]) rows) = zip (map (\<lambda>i. int (k + i)) [0..<length rows]) rows"
    by (metis sort_key_id_if_sorted)
  then show ?thesis using True assms max_label_upt [of "length rows" k] by (simp add: rows_to_load_def)
next
  case False
  have "\<not> (rep \<and> max_label (map (\<lambda>i. int (k + i)) [0..<length rows]) + 1 = int (length rows))"
    using False assms by (subst max_label_upt) auto
  moreover have "dense_matrix (map (\<lambda>i. int (k + i)) [0..<length rows]) rows d (int (k + length rows)) = Inr (replicate k (zero_row d) @ rows)"
    using fill_rows_append [of "replicate k (zero_row d)" k rows "zero_row d"] by (simp add: dense_matrix_def nat_add_distrib replicate_add)
  ultimately show ?thesis using assms max_label_upt [of "length rows" k] by (auto simp: rows_to_load_def Let_def)
qed

section \<open>Ingest\<close>

text \<open>A clean ingest request: new, distinct ids with one vector each, all of one positive dimension, which fits the index.\<close>

definition ingest_clean :: "ingest_vectors_request \<Rightarrow> nat \<Rightarrow> nat \<Rightarrow> id_registry \<Rightarrow> bool" where
  "ingest_clean b k d r \<longleftrightarrow> ingest_vectors_valid b \<and> py_strip (iv_collection b) \<noteq> [] \<and> iv_labels b = None \<and> iv_replace_index b
     \<and> iv_checkpoint b \<and> length (iv_ids b) = length (iv_vectors b) \<and> 0 < d \<and> list_all (\<lambda>q. length q = d) (iv_vectors b)
     \<and> distinct (map py_strip (iv_ids b)) \<and> list_all (\<lambda>x. py_strip x \<noteq> [] \<and> id_view r (iv_collection b) x = None) (iv_ids b)
     \<and> next_of r (py_strip (iv_collection b)) = int k
     \<and> k + length (iv_ids b) < 2 ^ 63 \<and> (k + length (iv_ids b)) * d < 2 ^ 64"

lemma put_simps [simp]:
  "ap_service (put_service s st) = s" "ap_ids_file (put_service s st) = ap_ids_file st"
  "put_service s (put_service s' st) = put_service s st"
  "wr_files (ap_run (put_service s st)) = wr_files (ap_run st)" "wr_world (ap_run (put_service s st)) = wr_world (ap_run st)"
  by (simp_all add: put_service_def)

lemma save_ids_simps [simp]:
  "ap_run (save_ids a st) = ap_run st" "ap_ids_file (save_ids a st) = (if ae_save_fails a then ap_ids_file st else Some (save_registry (ap_ids st)))"
  by (simp_all add: save_ids_def)

lemma np_columns_ok: "rows \<noteq> [] \<Longrightarrow> list_all (\<lambda>q. length q = d) rows \<Longrightarrow> np_columns rows = Inr d"
  by (cases rows) (auto simp: np_columns_def list_all_iff)

lemma flush_publishes:
  assumes "benign v" "ready (pe_mem e)"
  shows "\<exists>e'. atomic_flush_index v e = (Inr (), e') \<and> published e' \<and> pe_mem e' = pe_mem e \<and> pe_wal e' = pe_wal e"
proof -
  obtain img where "save_to_file (pe_mem e) = Inr img" "load_from_file img = Inr (pe_mem e)"
    using load_save assms(2) unfolding ready_def by blast
  then show ?thesis using assms(1) by (auto simp: atomic_flush_index_def published_def benign_def benign_at_def Let_def)
qed

lemma ingest_ok:
  assumes v: "benign (ae_penv a)" and r: "reg_ok (ap_ids st)" and w: "wal_inv (pe_wal (ap_engine st))"
    and b: "ingest_clean body k d (ap_ids st)"
  shows "\<exists>j st'. ingest_vectors a body st = (Reply j, st') \<and> reg_ok (ap_ids st') \<and> engine_ok (ap_engine st') \<and> published (ap_engine st')
    \<and> pe_wal (ap_engine st') = pe_wal (ap_engine st)
    \<and> hx_rows (pe_mem (ap_engine st')) = replicate k (zero_row d) @ map (map (ae_f32 a)) (iv_vectors body)
    \<and> hx_dim (pe_mem (ap_engine st')) = d
    \<and> (\<exists>ix0. load_ring (replicate k (zero_row d) @ map (map (ae_f32 a)) (iv_vectors body)) d ix0 = (Inr (), pe_mem (ap_engine st')))
    \<and> (\<forall>i < length (iv_ids body). id_view (ap_ids st') (iv_collection body) (iv_ids body ! i) = Some (int (k + i)))
    \<and> (\<forall>c x. py_strip c \<noteq> py_strip (iv_collection body) \<longrightarrow> id_view (ap_ids st') c x = id_view (ap_ids st) c x)
    \<and> wr_files (ap_run st') = wr_files (ap_run st) \<and> wr_world (ap_run st') = wr_world (ap_run st)"
proof -
  let ?c = "iv_collection body" and ?ids = "iv_ids body" and ?rows = "map (map (ae_f32 a)) (iv_vectors body)"
  have h: "py_strip ?c \<noteq> []" "\<forall>x\<in>set ?ids. py_strip x \<noteq> [] \<and> id_view (ap_ids st) ?c x = None" "distinct (map py_strip ?ids)"
    "next_of (ap_ids st) (py_strip ?c) = int k" "iv_vectors body \<noteq> []" "length ?ids = length (iv_vectors body)"
    "list_all (\<lambda>q. length q = d) (iv_vectors body)" "k + length ?ids < 2 ^ 63" "(k + length ?ids) * d < 2 ^ 64" "0 < d"
    "iv_labels body = None" "iv_replace_index body" "iv_checkpoint body"
    using b unfolding ingest_clean_def ingest_vectors_valid_def list_all_iff by blast+
  obtain mp r' where reg: "register_all ?c (map (\<lambda>x. (x, None)) ?ids) [] (ap_ids st) = (Inr mp, r')" "reg_ok r'"
    "\<forall>i < length ?ids. dget mp (?ids ! i) = Some (int k + int i) \<and> id_view r' ?c (?ids ! i) = Some (int k + int i)"
    "\<forall>c x. (\<forall>y\<in>set ?ids. \<not> same_id ?c y c x) \<longrightarrow> id_view r' c x = id_view (ap_ids st) c x"
    using register_all_fresh [OF r h(1,2,3), of "[]"] h(4) by auto
  have labels: "map (\<lambda>x. the (dget mp x)) ?ids = map (\<lambda>i. int (k + i)) [0..<length ?rows]"
    using reg(3) h(6) by (intro nth_equalityI) simp_all
  have i64: "int64_labels (map (\<lambda>i. int (k + i)) [0..<length ?rows])"
    using h(6,8) by (auto simp: int64_labels_def list_all_iff)
  define rows where "rows = replicate k (zero_row d) @ ?rows"
  have ld: "rows_to_load True (map (\<lambda>i. int (k + i)) [0..<length ?rows]) ?rows d = Inr rows"
    unfolding rows_def using h(5) by (intro rows_to_load_upt) simp
  have "rows \<noteq> []" "list_all (\<lambda>q. length q = d) rows" "length rows < 2 ^ 63" "length rows * d < 2 ^ 64"
    using h(5-9) by (auto simp: rows_def zero_row_def list_all_iff)
  then obtain ix where ix: "load_ring rows d (pe_mem (ap_engine st)) = (Inr (), ix)" "ready ix" "hx_rows ix = rows" "hx_dim ix = d"
    using load_ring_ok [OF _ h(10)] by blast
  let ?e = "(ap_engine st)\<lparr>pe_mem := ix\<rparr>"
  obtain e' where e': "atomic_flush_index (ae_penv a) ?e = (Inr (), e')" "published e'" "pe_mem e' = ix" "pe_wal e' = pe_wal (ap_engine st)"
    using flush_publishes [OF v, of ?e] ix(2) by auto
  have sv: "save_initial_checkpoint (ae_penv a) ?e = (Inr (), e')"
    using e'(1) ix(2) by (simp add: save_initial_checkpoint_def ready_def)
  have "\<exists>j st'. ingest_vectors a body st = (Reply j, st') \<and> ap_ids st' = r' \<and> ap_engine st' = e'
    \<and> wr_files (ap_run st') = wr_files (ap_run st) \<and> wr_world (ap_run st') = wr_world (ap_run st)"
    unfolding ingest_vectors_def np_columns_ok [OF h(5,7)] with_labels_def h(11) option.case reg(1) labels sum.case prod.case Let_def
    using h(6,12,13) i64 ld ix(1) sv
    by (simp add: finish_ingest_def put_engine_def put_ids_def api_inc_def Let_def)
  then obtain j st' where st': "ingest_vectors a body st = (Reply j, st')" "ap_ids st' = r'" "ap_engine st' = e'"
    "wr_files (ap_run st') = wr_files (ap_run st)" "wr_world (ap_run st') = wr_world (ap_run st)" by blast
  have "engine_ok e'" using e'(3,4) ix(2) w by (simp add: engine_ok_def)
  moreover have "id_view r' c x = id_view (ap_ids st) c x" if "py_strip c \<noteq> py_strip ?c" for c x
    using reg(4) that by (auto simp: same_id_def)
  moreover have "\<exists>ix0. load_ring (replicate k (zero_row d) @ ?rows) d ix0 = (Inr (), pe_mem e')" using ix(1) e'(3) rows_def by auto
  ultimately show ?thesis using st' reg(2,3) e' ix(3,4) rows_def by auto
qed

section \<open>Delete and restart\<close>

lemma enterprise_delete_ok:
  assumes "benign (ae_penv a)" "batch_ready c (clean_ids (ed_ids b)) (ed_max_m b) (ap_service st)" "ed_collection b = c" "ed_compact b = None"
  shows "\<exists>r st'. enterprise_delete a c b st = (Reply (receipt_response r), st') \<and> rc_status r = complete
    \<and> batch_effect (api_config (ae_environ a)) c (clean_ids (ed_ids b)) (ap_service st) (ap_service st') \<and> reg_ok (ap_ids st')
    \<and> (\<not> ae_save_fails a \<longrightarrow> ap_ids_file st' = Some (save_registry (ap_ids st')))
    \<and> wr_files (ap_run st') = wr_files (ap_run st) \<and> wr_world (ap_run st') = wr_world (ap_run st)
    \<and> delete_chain (ae_penv a) (ed_max_m b) (map (\<lambda>x. the (id_view (ap_ids st) c x)) (clean_ids (ed_ids b))) (ap_engine st) (ap_engine st')"
proof -
  let ?cfg = "api_config (ae_environ a)"
  obtain r s' where d: "delete (api_backend a) ?cfg (ae_senv a) c (ed_ids b) (ed_reason b) (ed_request_id b) (ed_max_m b) True None
      (ed_residual_proof b) None (ap_service st) = (Inr r, s')" "rc_status r = complete"
    "batch_effect ?cfg c (clean_ids (ed_ids b)) (ap_service st) s'"
    "delete_chain (ae_penv a) (ed_max_m b) (map (\<lambda>x. the (id_view (ap_ids st) c x)) (clean_ids (ed_ids b))) (ap_engine st) (sv_world s')"
    using complete_run [OF assms(1,2)] unfolding api_backend_def by blast
  have "reg_ok (ap_ids st)" "index_loaded st" using assms(2) by (auto simp: batch_ready_def engine_ok_def ready_def index_loaded_def)
  then have "reg_ok (sv_registry s')" using delete_registry [OF _ d(1)] by blast
  moreover have "enterprise_delete a c b st = (Reply (receipt_response r), save_ids a (put_service s' st))"
    using d(1) assms(3,4) \<open>index_loaded st\<close> by (simp add: enterprise_delete_def api_delete_def)
  ultimately show ?thesis using d(2-4) by auto
qed

text \<open>What a start needs of its environment.\<close>

definition can_start :: "('d, 'n) api_env \<Rightarrow> bool" where
  "can_start a \<longleftrightarrow> benign (ae_penv a) \<and> validate_production_secrets (ae_environ a) = Inr () \<and> \<not> isl (policy_from_env (ae_environ a))"

lemma restart_keeps:
  assumes "can_start a" "engine_ok (ap_engine st)" "published (ap_engine st)" "pending (ap_engine st) = []" "0 < ids_left (ap_engine st)"
    and "reg_ok (ap_ids st)" "ap_ids_file st = Some (save_registry (ap_ids st))"
  shows "\<exists>st'. lifespan_start a net (data_dir_of st) = Inr st' \<and> hx_rows (pe_mem (ap_engine st')) = hx_rows (pe_mem (ap_engine st))
    \<and> hx_dim (pe_mem (ap_engine st')) = hx_dim (pe_mem (ap_engine st)) \<and> engine_ok (ap_engine st') \<and> published (ap_engine st')
    \<and> (\<forall>c x. id_view (ap_ids st') c x = id_view (ap_ids st) c x) \<and> sv_log (ap_service st') = sv_log (ap_service st)
    \<and> wr_files (ap_run st') = wr_files (ap_run st) \<and> ap_outbox st' = ap_outbox st"
proof -
  let ?e = "ap_engine st"
  have v: "benign (ae_penv a)" "validate_production_secrets (ae_environ a) = Inr ()" using assms(1) by (simp_all add: can_start_def)
  obtain p where p: "policy_from_env (ae_environ a) = Inr p" using assms(1) by (auto simp: can_start_def isl_def) (metis sum.exhaust)
  obtain b where b: "pe_bin ?e = Some b" "load_from_file b = Inr (pe_mem ?e)" using assms(3) by (auto simp: published_def)
  have w: "wal_inv (pe_wal ?e)" "ready (pe_mem ?e)" using assms(2) by (simp_all add: engine_ok_def)
  obtain e0 out e1 where e1: "engine_init (disk_of ?e) = Inr e0" "bootstrap (ae_penv a) e0 = (Inr (True, out), e1)" "engine_ok e1"
    "published e1" "wiped_all {} (pe_mem ?e) (pe_mem e1)"
    using restart_ok [OF v(1) w(1) _ _ b(2) w(2), of "disk_of ?e"] assms(4,5) b(1) by (auto simp: disk_of_def)
  have rows: "hx_rows (pe_mem e1) = hx_rows (pe_mem ?e)" "hx_dim (pe_mem e1) = hx_dim (pe_mem ?e)"
    using e1(5) by (auto simp: wiped_all_def intro: nth_equalityI)
  obtain r' where r': "load_registry (save_registry (ap_ids st)) empty_registry = (Inr (), r')"
    "\<forall>c x. dget (fwd_of r' c) x = dget (fwd_of (ap_ids st) c) x"
    using load_save_registry [OF assms(6), of empty_registry] fwd_of_loaded(1) [OF assms(6) refl] by blast
  then have "\<forall>c x. id_view r' c x = id_view (ap_ids st) c x" by (simp add: id_view_def)
  then show ?thesis
    using v(2) p e1 rows r'(1) assms(7) by (simp add: lifespan_start_def data_dir_of_def del: bind_res_Inr)
qed

section \<open>From ingest to restart\<close>

text \<open>A delete request for ids of an ingest request, each named once.\<close>

definition delete_clean :: "enterprise_delete_request \<Rightarrow> ingest_vectors_request \<Rightarrow> bool" where
  "delete_clean del body \<longleftrightarrow> enterprise_delete_valid del \<and> ed_collection del = iv_collection body \<and> ed_compact del = None
     \<and> ed_max_m del < 2 ^ 31 \<and> distinct (clean_ids (ed_ids del)) \<and> set (clean_ids (ed_ids del)) \<subseteq> py_strip ` set (iv_ids body)"

text \<open>The state of the service for the ids of an ingest request: which are mapped, and what is in their rows.\<close>

definition ingest_view :: "('d, 'n) api_env \<Rightarrow> ingest_vectors_request \<Rightarrow> nat \<Rightarrow> nat \<Rightarrow> string set \<Rightarrow> 'n api \<Rightarrow> bool" where
  "ingest_view a body k d gone st \<longleftrightarrow> (\<forall>i < length (iv_ids body).
     (if py_strip (iv_ids body ! i) \<in> gone
      then id_view (ap_ids st) (iv_collection body) (iv_ids body ! i) = None \<and> hx_rows (pe_mem (ap_engine st)) ! (k + i) = zero_row d
      else id_view (ap_ids st) (iv_collection body) (iv_ids body ! i) = Some (int (k + i))
        \<and> hx_rows (pe_mem (ap_engine st)) ! (k + i) = map (ae_f32 a) (iv_vectors body ! i)))"

lemma delete_clean_index:
  assumes "delete_clean del body" "y \<in> set (clean_ids (ed_ids del))"
  shows "\<exists>j < length (iv_ids body). py_strip (iv_ids body ! j) = y"
proof -
  obtain x where "x \<in> set (iv_ids body)" "y = py_strip x" using assms unfolding delete_clean_def by blast
  then show ?thesis by (auto simp: in_set_conv_nth)
qed

lemma ingest_delete_view:
  assumes b: "ingest_clean body k d r0" and del: "delete_clean del body"
    and reg: "\<forall>i < length (iv_ids body). id_view (ap_ids st) (iv_collection body) (iv_ids body ! i) = Some (int (k + i))"
    and rows: "hx_rows (pe_mem (ap_engine st)) = replicate k (zero_row d) @ map (map (ae_f32 a)) (iv_vectors body)"
    and dim: "hx_dim (pe_mem (ap_engine st)) = d"
    and ef: "batch_effect cfg (iv_collection body) (clean_ids (ed_ids del)) (ap_service st) (ap_service st')" "sv_drop_mappings cfg"
  shows "ingest_view a body k d (set (clean_ids (ed_ids del))) st'"
  unfolding ingest_view_def
proof (intro allI impI)
  fix i assume i: "i < length (iv_ids body)"
  let ?c = "iv_collection body" and ?xs = "clean_ids (ed_ids del)" and ?x = "iv_ids body ! i"
  let ?Q = "(\<lambda>x. nat (the (id_view (ap_ids st) ?c x))) ` set ?xs"
  have dist: "distinct (map py_strip (iv_ids body))" and len: "length (iv_ids body) = length (iv_vectors body)"
    using b by (simp_all add: ingest_clean_def)
  have lab: "id_view (ap_ids st) ?c y = Some (int (k + j))" if "j < length (iv_ids body)" "py_strip (iv_ids body ! j) = y" for y j
    using reg that id_view_strip by metis
  have inQ: "k + i \<in> ?Q \<longleftrightarrow> py_strip ?x \<in> set ?xs"
  proof
    assume "k + i \<in> ?Q"
    then obtain y where y: "y \<in> set ?xs" "k + i = nat (the (id_view (ap_ids st) ?c y))" by blast
    then obtain j where j: "j < length (iv_ids body)" "py_strip (iv_ids body ! j) = y"
      using delete_clean_index [OF del] by blast
    then have "i = j" using y(2) lab [OF j] by simp
    then show "py_strip ?x \<in> set ?xs" using y(1) j(2) by simp
  next
    assume "py_strip ?x \<in> set ?xs"
    moreover have "nat (the (id_view (ap_ids st) ?c (py_strip ?x))) = k + i" using lab [OF i refl] by simp
    ultimately show "k + i \<in> ?Q" by (metis image_eqI)
  qed
  have same: "(\<exists>y\<in>set ?xs. same_id ?c y ?c ?x) \<longleftrightarrow> py_strip ?x \<in> set ?xs"
    using clean_ids_strip by (auto simp: same_id_def)
  have row: "k + i < length (hx_rows (pe_mem (ap_engine st)))" "hx_rows (pe_mem (ap_engine st)) ! (k + i) = map (ae_f32 a) (iv_vectors body ! i)"
    using i len by (simp_all add: rows nth_append)
  have "hx_rows (pe_mem (ap_engine st')) ! (k + i) = (if k + i \<in> ?Q then zero_row d else map (ae_f32 a) (iv_vectors body ! i))"
    using ef(1) row dim by (simp add: batch_effect_def wiped_all_def)
  moreover have "id_view (ap_ids st') ?c ?x = (if py_strip ?x \<in> set ?xs then None else Some (int (k + i)))"
    using ef reg i same by (simp add: batch_effect_def)
  ultimately show "if py_strip ?x \<in> set ?xs
      then id_view (ap_ids st') ?c ?x = None \<and> hx_rows (pe_mem (ap_engine st')) ! (k + i) = zero_row d
      else id_view (ap_ids st') ?c ?x = Some (int (k + i)) \<and> hx_rows (pe_mem (ap_engine st')) ! (k + i) = map (ae_f32 a) (iv_vectors body ! i)"
    using inQ by simp
qed

lemma golden_path:
  assumes a: "benign (ae_penv a)" "\<not> ae_save_fails a" "can_start a'"
    and st: "reg_ok (ap_ids st)" "wal_inv (pe_wal (ap_engine st))" "pending (ap_engine st) = []"
    and b: "ingest_clean body k d (ap_ids st)" and del: "delete_clean del body"
    and room: "int (length (clean_ids (ed_ids del))) < ids_left (ap_engine st)"
  shows "\<exists>j st1 r st2 st3. ingest_vectors a body st = (Reply j, st1)
    \<and> enterprise_delete a (iv_collection body) del st1 = (Reply (receipt_response r), st2) \<and> rc_status r = complete
    \<and> lifespan_start a' net (data_dir_of st2) = Inr st3
    \<and> ingest_view a body k d {} st1 \<and> ingest_view a body k d (set (clean_ids (ed_ids del))) st2
    \<and> ingest_view a body k d (set (clean_ids (ed_ids del))) st3"
proof -
  let ?c = "iv_collection body" and ?xs = "clean_ids (ed_ids del)"
  obtain j st1 where i: "ingest_vectors a body st = (Reply j, st1)" "reg_ok (ap_ids st1)" "engine_ok (ap_engine st1)" "published (ap_engine st1)"
    "pe_wal (ap_engine st1) = pe_wal (ap_engine st)"
    and rows: "hx_rows (pe_mem (ap_engine st1)) = replicate k (zero_row d) @ map (map (ae_f32 a)) (iv_vectors body)"
      "hx_dim (pe_mem (ap_engine st1)) = d"
    and reg: "\<forall>i < length (iv_ids body). id_view (ap_ids st1) ?c (iv_ids body ! i) = Some (int (k + i))"
    using ingest_ok [OF a(1) st(1,2) b] by blast
  have len: "length (iv_ids body) = length (iv_vectors body)" using b by (simp add: ingest_clean_def)
  have "\<exists>l. id_view (ap_ids st1) ?c x = Some l \<and> in_reach (pe_mem (ap_engine st1)) l (ed_max_m del)" if x: "x \<in> set ?xs" for x
  proof -
    obtain n where n: "n < length (iv_ids body)" "py_strip (iv_ids body ! n) = x"
      using delete_clean_index [OF del x] by blast
    then have "id_view (ap_ids st1) ?c x = Some (int (k + n))" using reg id_view_strip by metis
    then show ?thesis using n(1) len rows(1) del
      by (simp add: in_reach_def num_elements_def delete_clean_def enterprise_delete_valid_def)
  qed
  moreover have "map py_strip ?xs = ?xs" by (rule map_idI) (use clean_ids_strip in blast)
  ultimately have "batch_ready ?c ?xs (ed_max_m del) (ap_service st1)"
    using i(2,3,5) room del by (simp add: batch_ready_def delete_clean_def)
  moreover have "ed_collection del = ?c" "ed_compact del = None" using del by (simp_all add: delete_clean_def)
  ultimately obtain r st2 where d: "enterprise_delete a ?c del st1 = (Reply (receipt_response r), st2)" "rc_status r = complete"
    "batch_effect (api_config (ae_environ a)) ?c ?xs (ap_service st1) (ap_service st2)" "reg_ok (ap_ids st2)"
    "ap_ids_file st2 = Some (save_registry (ap_ids st2))"
    using enterprise_delete_ok [OF a(1)] a(2) by blast
  have v2: "ingest_view a body k d (set ?xs) st2"
    using ingest_delete_view [OF b del reg rows d(3)] by (simp add: api_config_def)
  have "engine_ok (ap_engine st2)" "published (ap_engine st2)" "pending (ap_engine st2) = []" "0 < ids_left (ap_engine st2)"
    using d(3) i(4,5) st(3) room by (simp_all add: batch_effect_def)
  from restart_keeps [OF a(3) this d(4,5), of net] obtain st3 where s3: "lifespan_start a' net (data_dir_of st2) = Inr st3"
    "hx_rows (pe_mem (ap_engine st3)) = hx_rows (pe_mem (ap_engine st2))" "\<forall>c x. id_view (ap_ids st3) c x = id_view (ap_ids st2) c x"
    by blast
  have "ingest_view a body k d (set ?xs) st3" using v2 s3(2,3) by (simp add: ingest_view_def)
  moreover have "ingest_view a body k d {} st1" using reg rows len by (simp add: ingest_view_def nth_append)
  ultimately show ?thesis using i(1) d(1,2) s3(1) v2 by blast
qed

section \<open>Two collections\<close>

lemma shared_row:
  assumes a: "benign (ae_penv a)" and st: "reg_ok (ap_ids st)" "wal_inv (pe_wal (ap_engine st))" "0 < ids_left (ap_engine st)"
    and b: "ingest_clean body k d (ap_ids st)" "i < length (iv_ids body)"
    and x: "id_view (ap_ids st) c x = Some (int (k + i))" "py_strip c \<noteq> py_strip (iv_collection body)"
    and del: "enterprise_delete_valid del" "ed_collection del = c" "ed_compact del = None" "ed_max_m del < 2 ^ 31" "clean_ids (ed_ids del) = [py_strip x]"
  shows "\<exists>j st1 r st2. ingest_vectors a body st = (Reply j, st1)
    \<and> enterprise_delete a c del st1 = (Reply (receipt_response r), st2) \<and> rc_status r = complete
    \<and> hx_rows (pe_mem (ap_engine st1)) ! (k + i) = map (ae_f32 a) (iv_vectors body ! i)
    \<and> hx_rows (pe_mem (ap_engine st2)) ! (k + i) = zero_row d
    \<and> id_view (ap_ids st2) (iv_collection body) (iv_ids body ! i) = Some (int (k + i))"
proof -
  let ?c = "iv_collection body"
  have len: "length (iv_ids body) = length (iv_vectors body)" using b by (simp add: ingest_clean_def)
  obtain j st1 where s: "ingest_vectors a body st = (Reply j, st1)" "reg_ok (ap_ids st1)" "engine_ok (ap_engine st1)"
    "pe_wal (ap_engine st1) = pe_wal (ap_engine st)"
    and rows: "hx_rows (pe_mem (ap_engine st1)) = replicate k (zero_row d) @ map (map (ae_f32 a)) (iv_vectors body)"
      "hx_dim (pe_mem (ap_engine st1)) = d"
    and v: "id_view (ap_ids st1) ?c (iv_ids body ! i) = Some (int (k + i))" "id_view (ap_ids st1) c x = Some (int (k + i))"
    using ingest_ok [OF a st(1,2) b(1)] b(2) x by metis
  have l: "id_view (ap_ids st1) c (py_strip x) = Some (int (k + i))" using v(2) by (simp add: id_view_strip)
  have "batch_ready c (clean_ids (ed_ids del)) (ed_max_m del) (ap_service st1)"
    using del s(2-4) st(3) l b(2) len rows(1) by (simp add: batch_ready_def in_reach_def num_elements_def enterprise_delete_valid_def)
  then obtain r st2 where d: "enterprise_delete a c del st1 = (Reply (receipt_response r), st2)" "rc_status r = complete"
    "batch_effect (api_config (ae_environ a)) c [py_strip x] (ap_service st1) (ap_service st2)"
    using enterprise_delete_ok [OF a _ del(2,3)] del(5) by metis
  have "\<not> same_id c (py_strip x) ?c y" for y using x(2) by (simp add: same_id_def)
  then have "id_view (ap_ids st2) ?c (iv_ids body ! i) = Some (int (k + i))" using d(3) v(1) by (simp add: batch_effect_def)
  moreover have "hx_rows (pe_mem (ap_engine st2)) ! (k + i) = zero_row d"
    using d(3) l rows b(2) len by (simp add: batch_effect_def wiped_all_def nat_int_add)
  moreover have "hx_rows (pe_mem (ap_engine st1)) ! (k + i) = map (ae_f32 a) (iv_vectors body ! i)"
    using b(2) len by (simp add: rows(1) nth_append)
  ultimately show ?thesis using s(1) d(1,2) by blast
qed

section \<open>A raw delete counts its flush as a retry\<close>

lemma raw_delete_retries:
  assumes "benign (ae_penv a)" "engine_ok (ap_engine st)" "in_reach (pe_mem (ap_engine st)) (dr_node_id b) (dr_max_m b)"
    "0 < ids_left (ap_engine st)" "\<forall>t. pv_busy (ae_penv a) t 0 = None"
  shows "\<exists>kvs st'. delete_node a b st = (Reply (JObj kvs), st') \<and> dget kvs ''retries'' = Some (JInt 1)"
proof -
  let ?v = "ae_penv a" and ?e = "ap_engine st"
  obtain r e' where d: "hard_delete_and_heal ?v (dr_node_id b) (dr_max_m b) False ?e = (Inr r, e')"
    using hard_delete_ok [OF assms(1-4)] by blast
  obtain rec e1 where bg: "begin_step ?v (dr_node_id b) (dr_max_m b) ?e = (Inr rec, e1)"
    using d by (auto simp: hard_delete_and_heal_def split: prod.splits sum.splits)
  have mem: "pe_mem e1 = pe_mem ?e" using step_mems(1) [OF bg] .
  obtain x ix where er: "erase_node (pv_fp ?v) (pv_ms ?v (pe_tick e1)) (dr_node_id b) (dr_max_m b) (pe_mem e1) = (Inr x, ix)"
    using erase_ready [OF _ assms(3)] assms(2) mem unfolding engine_ok_def by metis
  obtain k where "nat (if pv_attempts ?v < 1 then 1 else pv_attempts ?v) = Suc k"
    by (cases "nat (if pv_attempts ?v < 1 then 1 else pv_attempts ?v)") (auto split: if_splits)
  then have w: "with_lock_retry (pv_attempts ?v) (\<lambda>i. native_erase (pv_fp ?v) (pv_ms ?v (pe_tick e1)) (pv_busy ?v (pe_tick e1) i)
      (dr_node_id b) (dr_max_m b)) (pe_mem e1) = (Inr x, ix, 1)"
    using assms(5) er by (simp add: with_lock_retry_def native_erase_def)
  then have "attempts_used ?v (dr_node_id b) (dr_max_m b) ?e = 2" using bg w by (simp add: attempts_used_def erase_attempts_def)
  moreover have "index_loaded st" using assms(2) by (simp add: index_loaded_def engine_ok_def ready_def)
  ultimately show ?thesis using d by (simp add: delete_node_def Let_def dget_def)
qed

section \<open>Dispatching an applied intent again\<close>

lemma redispatch_refused:
  assumes "py_strip (oe_collection e) \<noteq> []" "clean_ids (oe_external_ids e) \<noteq> []"
    and "\<forall>x\<in>set (clean_ids (oe_external_ids e)). id_view (sv_registry s) (oe_collection e) x = None"
  shows "dispatch_msg fl (fst (dispatch_locally a e s)) \<noteq> None"
proof -
  let ?d = "delete (api_backend a) (api_config (ae_environ a)) (ae_senv a) (oe_collection e) (oe_external_ids e) (oe_reason e)
    (Some (oe_request_id e)) (oe_max_m e) True None None None s"
  obtain x s1 where d: "?d = (x, s1)" by fastforce
  show ?thesis
  proof (cases x)
    case (Inl y)
    then show ?thesis using d by (simp add: dispatch_locally_def dispatch_msg_def get_or_def dget_def)
  next
    case (Inr r)
    then have "\<not> rc_success r" using delete_unknown [OF assms] d by blast
    then show ?thesis using d Inr by (simp add: dispatch_locally_def dispatch_msg_def get_or_def dget_def)
  qed
qed

section \<open>A concrete service\<close>

definition demo_api_env :: "(nat, unit) api_env" where
  "demo_api_env = \<lparr>ae_penv = demo_env, ae_dir = ''d'', ae_senv = demo_senv, ae_render = (\<lambda>_. []), ae_float_str = (\<lambda>_. []),
     ae_post = (\<lambda>_ _ _ n. (Response 200 [], n)), ae_latency = 0, ae_f32 = ucast, ae_save_fails = False\<rparr>"

definition demo_dir :: data_dir where
  "demo_dir = \<lparr>dd_disk = \<lparr>dk_wal = None, dk_bin = None, dk_tmp = None\<rparr>, dd_ids = None, dd_receipts = [], dd_tickets = [],
     dd_outbox = empty_outbox\<rparr>"

definition demo_api :: "unit api" where
  "demo_api = projr (lifespan_start demo_api_env () demo_dir)"

definition demo_ingest :: "string \<Rightarrow> ingest_vectors_request" where
  "demo_ingest c = \<lparr>iv_collection = c, iv_ids = [''alice'', '' bob''], iv_vectors = [[1, 2], [3, 4]], iv_labels = None,
     iv_replace_index = True, iv_checkpoint = True\<rparr>"

definition demo_erase :: enterprise_delete_request where
  "demo_erase = \<lparr>ed_collection = ''users'', ed_ids = ['' alice '', '' ''], ed_reason = None, ed_request_id = None, ed_max_m = 16,
     ed_compact = None, ed_residual_proof = None\<rparr>"

lemma demo_can_start: "can_start demo_api_env"
proof -
  have "\<not> isl (policy_from_env Map.empty)" by code_simp
  moreover have "validate_production_secrets Map.empty = Inr ()" by code_simp
  ultimately show ?thesis using demo_benign by (simp add: can_start_def demo_api_env_def demo_senv_def)
qed

lemma demo_api_start:
  "ap_ids demo_api = empty_registry \<and> pe_wal (ap_engine demo_api) = \<lparr>wal_file = None, tx_counter = 0\<rparr>"
proof -
  have w: "wal_init None = Inr \<lparr>wal_file = None, tx_counter = 0\<rparr>" by code_simp
  have u: "uncommitted_deletes \<lparr>wal_file = None, tx_counter = 0\<rparr> = Inr []" by code_simp
  obtain p where "policy_from_env Map.empty = Inr p" "validate_production_secrets Map.empty = Inr ()"
    using demo_can_start by (cases "policy_from_env Map.empty") (auto simp: can_start_def demo_api_env_def demo_senv_def)
  then show ?thesis
    using w u by (simp add: demo_api_def demo_dir_def lifespan_start_def demo_api_env_def demo_senv_def engine_init_def bootstrap_def
        load_index_if_present_def recover_uncommitted_def del: bind_res_Inr)
qed

lemma demo_clean:
  assumes "c = ''users'' \<or> c = ''docs''"
  shows "ingest_clean (demo_ingest c) 0 2 empty_registry"
proof -
  have "py_strip ''users'' = ''users''" "py_strip ''docs'' = ''docs''" "py_strip ''alice'' = ''alice''" "py_strip '' bob'' = ''bob''" by code_simp+
  then show ?thesis
    using assms by (auto simp: ingest_clean_def ingest_vectors_valid_def demo_ingest_def id_view_def empty_registry_def fwd_of_def next_of_def)
qed

lemma demo_erase_clean: "delete_clean demo_erase (demo_ingest ''users'')" "clean_ids (ed_ids demo_erase) = [''alice'']"
proof -
  have s: "py_strip ''alice'' = ''alice''" "py_strip '' bob'' = ''bob''" by code_simp+
  show c: "clean_ids (ed_ids demo_erase) = [''alice'']" by code_simp
  show "delete_clean demo_erase (demo_ingest ''users'')"
    unfolding delete_clean_def c by (simp add: demo_erase_def demo_ingest_def enterprise_delete_valid_def s)
qed

end
