(* ===== verification/MatrixStore.thy ===== *)
theory MatrixStore
  imports EraseService Ring
begin

text \<open>
  What the adapters over other vector engines share: the authoritative float32 matrix \<open>_vectors\<close> with the dict
  \<open>_label_to_row\<close> and the set \<open>_deleted\<close>, the heal mirror of two of them, and the contract of a backend built on such a matrix.
  A matrix is the list of its rows; numpy's conversion to float32 has been done by the caller.
\<close>

section \<open>The matrix\<close>

record mstore =
  ms_dim :: nat
  ms_rows :: "f32 list list"
  ms_row_of :: "(int, nat) dict"
  ms_deleted :: "int set"

definition ms_new :: "nat \<Rightarrow> mstore" where
  "ms_new d = \<lparr>ms_dim = d, ms_rows = [], ms_row_of = [], ms_deleted = {}\<rparr>"

definition ms_has :: "mstore \<Rightarrow> int \<Rightarrow> bool" where
  "ms_has s l \<longleftrightarrow> dget (ms_row_of s) l \<noteq> None"

definition put_row :: "int \<Rightarrow> f32 list \<Rightarrow> mstore \<Rightarrow> mstore" where
  "put_row l v s =
    (case dget (ms_row_of s) l of
       Some i \<Rightarrow> s\<lparr>ms_rows := (ms_rows s)[i := v]\<rparr>
     | None \<Rightarrow> s\<lparr>ms_rows := ms_rows s @ [v], ms_row_of := dset l (length (ms_rows s)) (ms_row_of s)\<rparr>)"

definition undelete :: "int \<Rightarrow> mstore \<Rightarrow> mstore" where
  "undelete l s = s\<lparr>ms_deleted := ms_deleted s - {l}\<rparr>"

definition mark_deleted :: "int \<Rightarrow> mstore \<Rightarrow> mstore" where
  "mark_deleted l s = s\<lparr>ms_deleted := insert l (ms_deleted s)\<rparr>"

text \<open>\<open>self._vectors[row_i] = 0.0\<close>, and the bytes of the row.\<close>

definition wipe_row :: "int \<Rightarrow> mstore \<Rightarrow> mstore" where
  "wipe_row l s =
    (case dget (ms_row_of s) l of None \<Rightarrow> s | Some i \<Rightarrow> s\<lparr>ms_rows := (ms_rows s)[i := zero_row (ms_dim s)]\<rparr>)"

definition row_bytes_of :: "mstore \<Rightarrow> int" where
  "row_bytes_of s = 4 * int (ms_dim s)"

definition ms_get_vector :: "int \<Rightarrow> mstore \<Rightarrow> f32 list res" where
  "ms_get_vector l s =
    (case dget (ms_row_of s) l of
       None \<Rightarrow> Inl (KeyError (int_str l))
     | Some i \<Rightarrow> if i < length (ms_rows s) then Inr (ms_rows s ! i) else Inl (OtherError ''IndexError''))"

definition ms_verify_zeroed :: "int \<Rightarrow> mstore \<Rightarrow> bool res" where
  "ms_verify_zeroed l s =
    (if \<not> ms_has s l then Inr False else bind_res (ms_get_vector l s) (\<lambda>v. Inr (all_zero v)))"

text \<open>The loop of \<open>compact\<close>: the labels that are neither deleted nor zero, with their rows, in the order of the dict.\<close>

definition live_items :: "mstore \<Rightarrow> (int \<times> f32 list) list" where
  "live_items s = filter (\<lambda>(l, v). l \<notin> ms_deleted s \<and> \<not> all_zero v) (map (\<lambda>(l, i). (l, ms_rows s ! i)) (ms_row_of s))"

section \<open>Invariant and views\<close>

definition ms_ok :: "mstore \<Rightarrow> bool" where
  "ms_ok s \<longleftrightarrow> dict_ok (ms_row_of s) \<and> map snd (ms_row_of s) = [0..<length (ms_rows s)]
     \<and> list_all (\<lambda>v. length v = ms_dim s) (ms_rows s) \<and> (\<forall>l\<in>ms_deleted s. ms_has s l)"

definition ms_view :: "mstore \<Rightarrow> int \<Rightarrow> f32 list option" where
  "ms_view s l = map_option (\<lambda>i. ms_rows s ! i) (dget (ms_row_of s) l)"

definition ms_zero :: "mstore \<Rightarrow> int \<Rightarrow> bool" where
  "ms_zero s l \<longleftrightarrow> (\<exists>i < length (ms_rows s). dget (ms_row_of s) l = Some i \<and> all_zero (ms_rows s ! i))"

lemma ms_row_bound: "ms_ok s \<Longrightarrow> dget (ms_row_of s) l = Some i \<Longrightarrow> i < length (ms_rows s)"
proof -
  assume ok: "ms_ok s" and g: "dget (ms_row_of s) l = Some i"
  have "(l, i) \<in> set (ms_row_of s)" using g map_of_SomeD by (simp add: dget_def)
  then have "i \<in> set (map snd (ms_row_of s))" by force
  then show ?thesis using ok unfolding ms_ok_def by (metis atLeastLessThan_iff set_upt)
qed

lemma ms_row_inj:
  assumes "ms_ok s" "dget (ms_row_of s) k = Some i" "dget (ms_row_of s) l = Some i"
  shows "k = l"
proof -
  have "distinct (map snd (ms_row_of s))" using assms(1) by (simp add: ms_ok_def)
  moreover have "(k, i) \<in> set (ms_row_of s)" "(l, i) \<in> set (ms_row_of s)" using assms(2,3) map_of_SomeD by (fastforce simp: dget_def)+
  ultimately show ?thesis by (metis distinct_map inj_onD prod.inject snd_conv)
qed

lemma ms_ok_new [simp]: "ms_ok (ms_new d)"
  by (simp add: ms_ok_def ms_new_def)

lemma ms_has_put [simp]: "ms_has (put_row l v s) k \<longleftrightarrow> k = l \<or> ms_has s k"
  by (auto simp: ms_has_def put_row_def split: option.splits)

lemma list_all_update: "list_all P xs \<Longrightarrow> P v \<Longrightarrow> list_all P (xs[i := v])"
  by (auto simp: list_all_iff dest!: set_update_subset_insert [THEN subsetD])

lemma map_snd_dset_new: "dget d k = None \<Longrightarrow> map snd (dset k v d) = map snd d @ [v]"
  by (simp add: dset_new)

lemma ms_ok_put:
  assumes "ms_ok s" "length v = ms_dim s"
  shows "ms_ok (put_row l v s)"
proof (cases "dget (ms_row_of s) l")
  case None
  have "map snd (dset l (length (ms_rows s)) (ms_row_of s)) = [0..<length (ms_rows s @ [v])]"
    using assms(1) unfolding map_snd_dset_new [OF None] ms_ok_def by simp
  moreover have "dict_ok (dset l (length (ms_rows s)) (ms_row_of s))" using assms(1) by (simp add: ms_ok_def)
  ultimately show ?thesis using assms None unfolding ms_ok_def ms_has_put by (simp add: put_row_def)
next
  case (Some i)
  have "list_all (\<lambda>v. length v = ms_dim s) ((ms_rows s)[i := v])"
    using assms by (intro list_all_update) (simp_all add: ms_ok_def)
  then show ?thesis using assms(1) Some unfolding ms_ok_def ms_has_put by (simp add: put_row_def)
qed

lemma ms_simps [simp]:
  "ms_row_of (wipe_row l s) = ms_row_of s" "ms_dim (wipe_row l s) = ms_dim s" "ms_deleted (wipe_row l s) = ms_deleted s"
  "ms_row_of (mark_deleted l s) = ms_row_of s" "ms_rows (mark_deleted l s) = ms_rows s" "ms_dim (mark_deleted l s) = ms_dim s"
  "ms_deleted (mark_deleted l s) = insert l (ms_deleted s)" "length (ms_rows (wipe_row l s)) = length (ms_rows s)"
  "ms_dim (put_row l v s) = ms_dim s" "ms_deleted (put_row l v s) = ms_deleted s"
  "ms_row_of (undelete l s) = ms_row_of s" "ms_rows (undelete l s) = ms_rows s" "ms_dim (undelete l s) = ms_dim s"
  "ms_deleted (undelete l s) = ms_deleted s - {l}"
  by (auto simp: wipe_row_def mark_deleted_def put_row_def undelete_def split: option.splits)

lemma ms_has_simps [simp]:
  "ms_has (wipe_row l s) = ms_has s" "ms_has (mark_deleted l s) = ms_has s" "ms_has (undelete l s) = ms_has s"
  by (simp_all add: ms_has_def fun_eq_iff)

lemma ms_ok_wipe: "ms_ok s \<Longrightarrow> ms_ok (wipe_row l s)"
proof -
  assume ok: "ms_ok s"
  then have "list_all (\<lambda>v. length v = ms_dim s) (ms_rows (wipe_row l s))"
    by (auto simp: ms_ok_def wipe_row_def intro!: list_all_update split: option.splits)
  then show ?thesis using ok unfolding ms_ok_def ms_has_simps ms_simps by blast
qed

lemma ms_ok_mark: "ms_ok s \<Longrightarrow> ms_has s l \<Longrightarrow> ms_ok (mark_deleted l s)"
  by (auto simp: ms_ok_def)

lemma ms_ok_undelete: "ms_ok s \<Longrightarrow> ms_ok (undelete l s)"
  by (auto simp: ms_ok_def)

lemma ms_view_put:
  assumes "ms_ok s"
  shows "ms_view (put_row l v s) k = (if k = l then Some v else ms_view s k)"
proof (cases "dget (ms_row_of s) l")
  case None
  have "dget (ms_row_of s) k = Some i \<Longrightarrow> (ms_rows s @ [v]) ! i = ms_rows s ! i" for i
    using ms_row_bound [OF assms, of k i] by (simp add: nth_append)
  then show ?thesis using None by (cases "dget (ms_row_of s) k") (simp_all add: ms_view_def put_row_def)
next
  case (Some j)
  have "dget (ms_row_of s) k = Some i \<Longrightarrow> k \<noteq> l \<Longrightarrow> (ms_rows s)[j := v] ! i = ms_rows s ! i" for i
    using ms_row_inj [OF assms, of k i l] Some by (cases "i = j") simp_all
  then show ?thesis using Some ms_row_bound [OF assms Some]
    by (cases "k = l"; cases "dget (ms_row_of s) k") (simp_all add: ms_view_def put_row_def)
qed

lemma wipe_is_put: "ms_has s l \<Longrightarrow> wipe_row l s = put_row l (zero_row (ms_dim s)) s"
  by (auto simp: wipe_row_def put_row_def ms_has_def)

lemma wipe_absent: "\<not> ms_has s l \<Longrightarrow> wipe_row l s = s"
  by (simp add: wipe_row_def ms_has_def)

lemma ms_view_wipe:
  "ms_ok s \<Longrightarrow> ms_view (wipe_row l s) k = (if k = l \<and> ms_has s l then Some (zero_row (ms_dim s)) else ms_view s k)"
  by (cases "ms_has s l") (simp_all add: wipe_is_put ms_view_put wipe_absent)

lemma ms_view_simps [simp]: "ms_view (mark_deleted l s) = ms_view s" "ms_view (undelete l s) = ms_view s"
  by (simp_all add: ms_view_def fun_eq_iff)

lemma ms_zero_wipe: "ms_zero s k \<Longrightarrow> ms_zero (wipe_row l s) k"
proof -
  assume "ms_zero s k"
  then obtain i where i: "i < length (ms_rows s)" "dget (ms_row_of s) k = Some i" "all_zero (ms_rows s ! i)"
    by (auto simp: ms_zero_def)
  have "all_zero ((ms_rows s)[j := zero_row (ms_dim s)] ! i)" for j using i by (cases "i = j") simp_all
  then show ?thesis using i by (auto simp: ms_zero_def wipe_row_def split: option.splits)
qed

lemma ms_zero_mark [simp]: "ms_zero (mark_deleted l s) = ms_zero s"
  by (simp add: ms_zero_def fun_eq_iff)

lemma ms_verify_sound: "ms_verify_zeroed l s = Inr True \<Longrightarrow> ms_zero s l"
  by (auto simp: ms_verify_zeroed_def ms_get_vector_def ms_zero_def split: option.splits if_splits)

lemma live_items_iff:
  assumes "ms_ok s"
  shows "(l, v) \<in> set (live_items s) \<longleftrightarrow> ms_view s l = Some v \<and> l \<notin> ms_deleted s \<and> \<not> all_zero v"
  using assms dget_in [of "ms_row_of s" l]
  by (force simp: live_items_def ms_view_def ms_ok_def)

lemma live_items_distinct: "ms_ok s \<Longrightarrow> distinct (map fst (live_items s))"
proof -
  assume "ms_ok s"
  then have "distinct (map fst (map (\<lambda>(l, i). (l, ms_rows s ! i)) (ms_row_of s)))"
    by (simp add: ms_ok_def dict_ok_def dkeys_def comp_def case_prod_unfold)
  then show ?thesis unfolding live_items_def by (rule distinct_map_filter)
qed

lemma live_items_zero: "ms_ok s \<Longrightarrow> ms_zero s l \<Longrightarrow> l \<notin> fst ` set (live_items s)"
  by (auto simp: live_items_iff ms_zero_def ms_view_def)

section \<open>Numpy arrays and search libraries\<close>

text \<open>What \<open>add\<close> gets: one vector or a matrix with its number of columns. \<open>np.asarray\<close> and \<open>reshape(1, -1)\<close> give
  the columns and the rows.\<close>

datatype np_array = Arr1 "f32 list" | Arr2 nat "f32 list list"

fun as_matrix :: "np_array \<Rightarrow> nat \<times> f32 list list" where
  "as_matrix (Arr1 v) = (length v, [v])"
| "as_matrix (Arr2 c rows) = (c, rows)"

fun np_ok :: "np_array \<Rightarrow> bool" where
  "np_ok (Arr1 v) = True"
| "np_ok (Arr2 c rows) = list_all (\<lambda>v. length v = c) rows"

definition check_shapes :: "nat \<Rightarrow> string list \<Rightarrow> np_array \<Rightarrow> f32 list list res" where
  "check_shapes d ids vecs =
    (case as_matrix vecs of (c, rows) \<Rightarrow>
      if c \<noteq> d then Inl (ValueError (''expected dim='' @ nat_str d @ '', got '' @ nat_str c))
      else if length ids \<noteq> length rows then Inl (ValueError ''external_ids and vectors length mismatch'')
      else Inr rows)"

lemma check_shapes_Inr: "check_shapes d ids vecs = Inr rows \<Longrightarrow> np_ok vecs \<Longrightarrow> list_all (\<lambda>v. length v = d) rows \<and> length rows = length ids"
  by (cases vecs) (auto simp: check_shapes_def split: if_splits)

text \<open>
  A nearest-neighbour library outside the repository: its calls, and two views of its index, the labels that have an
  item in it and those that a query can return. \<open>lib_ok\<close> is its documented behaviour: a new index is empty, \<open>add\<close>
  adds at most the given labels, an item that was dropped is not found, and a query returns labels of items (or -1, the padding of one library).
\<close>

record 'x ann_lib =
  lb_new :: "int \<Rightarrow> unit res \<times> 'x"
  lb_add :: "f32 list list \<Rightarrow> int list \<Rightarrow> 'x \<Rightarrow> unit res \<times> 'x"
  lb_drop :: "int \<Rightarrow> 'x \<Rightarrow> int res \<times> 'x"
  lb_query :: "f32 list \<Rightarrow> int \<Rightarrow> 'x \<Rightarrow> (int list \<times> f32 list) res"
  lb_save :: "'x \<Rightarrow> bytes res"
  lb_load :: "bytes \<Rightarrow> int \<Rightarrow> unit res \<times> 'x"
  lb_labels :: "'x \<Rightarrow> int set"
  lb_found :: "'x \<Rightarrow> int set"

definition lib_ok :: "'x ann_lib \<Rightarrow> bool" where
  "lib_ok L \<longleftrightarrow>
     (\<forall>c r x. lb_new L c = (r, x) \<longrightarrow> lb_labels L x = {})
     \<and> (\<forall>rows ls x r x'. lb_add L rows ls x = (r, x') \<longrightarrow>
          lb_labels L x' \<subseteq> lb_labels L x \<union> set ls \<and> lb_found L x' \<subseteq> lb_found L x \<union> set ls)
     \<and> (\<forall>l x r x'. lb_drop L l x = (r, x') \<longrightarrow> lb_labels L x' \<subseteq> lb_labels L x \<and> lb_found L x' \<subseteq> lb_found L x
          \<and> ((\<exists>n. r = Inr n) \<longrightarrow> l \<notin> lb_found L x'))
     \<and> (\<forall>q k x ls ds. lb_query L q k x = Inr (ls, ds) \<longrightarrow> set ls \<subseteq> lb_found L x \<union> {-1})
     \<and> (\<forall>x. lb_found L x \<subseteq> lb_labels L x)"

lemma lib_new: "lib_ok L \<Longrightarrow> lb_new L c = (r, x) \<Longrightarrow> lb_labels L x = {}"
  unfolding lib_ok_def by (drule conjunct1) metis

lemma lib_add:
  assumes "lib_ok L" "lb_add L rows ls x = (r, x')"
  shows "lb_labels L x' \<subseteq> lb_labels L x \<union> set ls" "lb_found L x' \<subseteq> lb_found L x \<union> set ls"
  using assms(1) [unfolded lib_ok_def, THEN conjunct2, THEN conjunct1, rule_format, OF assms(2)] by simp_all

lemma lib_drop:
  assumes "lib_ok L" "lb_drop L l x = (r, x')"
  shows "lb_found L x' \<subseteq> lb_found L x" "r = Inr n \<Longrightarrow> l \<notin> lb_found L x'"
    "lb_labels L x' \<subseteq> lb_labels L x"
  using assms(1) [unfolded lib_ok_def, THEN conjunct2, THEN conjunct2, THEN conjunct1, rule_format, OF assms(2)] by simp_all

lemma lib_query: "lib_ok L \<Longrightarrow> lb_query L q k x = Inr (ls, ds) \<Longrightarrow> set ls \<subseteq> lb_found L x \<union> {-1}"
  unfolding lib_ok_def by (drule conjunct2, drule conjunct2, drule conjunct2, drule conjunct1) metis

lemma lib_found: "lib_ok L \<Longrightarrow> lb_found L x \<subseteq> lb_labels L x"
  unfolding lib_ok_def by (drule conjunct2, drule conjunct2, drule conjunct2, drule conjunct2) simp

section \<open>The heal mirror\<close>

text \<open>\<open>_sync_heal_mirror\<close>: the native index of two adapters gets the matrix, with the rows of deleted labels
  zeroed, and a ring of neighbours; an empty matrix is not loaded.\<close>

definition synced_rows :: "mstore \<Rightarrow> f32 list list" where
  "synced_rows s =
    map (\<lambda>i. if \<exists>l\<in>ms_deleted s. dget (ms_row_of s) l = Some i then zero_row (ms_dim s) else ms_rows s ! i)
      [0..<length (ms_rows s)]"

definition sync_heal_mirror :: "mstore \<Rightarrow> hnsw_index option \<Rightarrow> unit res \<times> hnsw_index option" where
  "sync_heal_mirror s mo =
    (case mo of
       None \<Rightarrow> (Inr (), None)
     | Some ix \<Rightarrow>
         if ms_rows s = [] then (Inr (), Some ix)
         else (case load_ring (synced_rows s) (ms_dim s) ix of (r, ix1) \<Rightarrow> (r, Some ix1)))"

text \<open>The erase of a row in the mirror. Any exception of it ends up in the message only.\<close>

definition mirror_erase :: "'d penv \<Rightarrow> nat \<Rightarrow> nat \<Rightarrow> int \<Rightarrow> hnsw_index option \<Rightarrow> string \<times> hnsw_index option" where
  "mirror_erase v tick i max_m mo =
    (case mo of
       None \<Rightarrow> ([], None)
     | Some ix \<Rightarrow>
         if \<not> is_loaded ix \<or> num_elements ix \<le> i then ([], Some ix)
         else (case native_erase (pv_fp v) (pv_ms v tick) (pv_busy v tick 0) (int i) max_m ix of
                 (Inr _, ix1) \<Rightarrow> (''+mn_ru_heal'', Some ix1)
               | (Inl e, ix1) \<Rightarrow> (''+heal_error('' @ exn_str e @ '')'', Some ix1)))"

lemma link_ring_rows: "link_ring n is ix = (r, ix') \<Longrightarrow> hx_rows ix' = hx_rows ix"
proof (induction "is" arbitrary: ix)
  case (Cons i "is")
  have "set_neighbors ix a b cs = Inr ix1 \<Longrightarrow> hx_rows ix1 = hx_rows ix" for a b cs ix1
    by (auto simp: set_neighbors_def split: sum.splits if_splits)
  then show ?case using Cons by (auto split: sum.splits)
qed simp

lemma load_ring_rows: "load_ring rows d ix = (Inr u, ix') \<Longrightarrow> hx_rows ix' = rows"
  by (auto simp: load_ring_def load_index_def dest!: link_ring_rows split: sum.splits if_splits)

text \<open>A row that is zero in the matrix is zero in a mirror that has just been synchronised.\<close>

definition mirror_zero :: "hnsw_index option \<Rightarrow> nat \<Rightarrow> bool" where
  "mirror_zero mo i \<longleftrightarrow> (\<forall>ix. mo = Some ix \<longrightarrow> i < length (hx_rows ix) \<and> all_zero (hx_rows ix ! i))"

lemma sync_zero:
  assumes "sync_heal_mirror s mo = (Inr u, mo')" "ms_zero s l" "dget (ms_row_of s) l = Some i"
  shows "mirror_zero mo' i"
proof -
  have i: "i < length (ms_rows s)" "all_zero (ms_rows s ! i)" using assms(2,3) by (auto simp: ms_zero_def)
  have "mo' = None \<or> (\<exists>ix. mo' = Some ix \<and> hx_rows ix = synced_rows s)"
    using assms(1) i(1) by (auto simp: sync_heal_mirror_def dest!: load_ring_rows split: option.splits prod.splits if_splits)
  moreover have "all_zero (synced_rows s ! i)" using i by (simp add: synced_rows_def)
  ultimately show ?thesis using i(1) by (auto simp: mirror_zero_def synced_rows_def)
qed

section \<open>Backends over a matrix\<close>

text \<open>A world invariant that the erase of one label keeps is kept by the loop of a delete.\<close>

lemma erase_resolved_world:
  assumes "erase_resolved b cfg need c m x l (s, bt) = (s', bt')"
  shows "\<exists>r. backend_erase b c l m (sv_world s) = (r, sv_world s')"
proof -
  have "record_erased cfg c x l br (t, bt1) = (t', bt2) \<Longrightarrow> sv_world t' = sv_world t" for br t bt1 t' bt2
    by (auto simp: record_erased_def Let_def split: prod.splits sum.splits if_splits)
  then show ?thesis
    using assms unfolding erase_resolved_def
    by (fastforce simp: Let_def split: sum.splits prod.splits if_splits bool.splits)
qed

lemma erase_loop_world:
  assumes step: "\<And>l w r w'. backend_erase b c l m w = (r, w') \<Longrightarrow> P w \<Longrightarrow> P w'"
    and "erase_loop b cfg idem need c m xs sb = (x, sb')" "P (sv_world (fst sb))"
  shows "P (sv_world (fst sb'))"
  using assms(2,3)
proof (induction xs arbitrary: sb)
  case Nil
  then show ?case by simp
next
  case (Cons y ys)
  obtain s bt where sb: "sb = (s, bt)" by fastforce
  show ?case
  proof (cases "resolve c y (sv_registry s)")
    case (Inr i)
    obtain s1 bt1 where st: "erase_resolved b cfg need c m y (ri_label i) (s, bt) = (s1, bt1)" by fastforce
    have "P (sv_world s1)" using erase_resolved_world [OF st] step Cons.prems(2) sb by auto
    then show ?thesis using Cons.IH [of "(s1, bt1)"] Cons.prems(1) sb Inr st by simp
  next
    case (Inl e)
    then show ?thesis
      using Cons.IH [of "(s, bt\<lparr>bt_errors := _\<rparr>)"] Cons.prems sb by (auto split: exn.splits if_splits)
  qed
qed

locale matrix_backend =
  fixes bk :: "'w backend" and st :: "'w \<Rightarrow> mstore"
  assumes no_engine: "bk_persistence bk = None"
    and erase_step: "bk_hard_delete bk c l m w = (r, w') \<Longrightarrow>
      st w' = st w \<or> st w' = wipe_row l (st w) \<or> ms_has (st w) l \<and> st w' = mark_deleted l (wipe_row l (st w))"
    and verify_matrix: "bk_verify_zeroed bk c l w = ms_verify_zeroed l (st w)"
    and compact_step: "bk_compact bk = Some f \<Longrightarrow> f w = (r', w') \<Longrightarrow> st w' = st w"
begin

lemma backend_erase_step: "backend_erase bk c l m w = (r, w') \<Longrightarrow>
    st w' = st w \<or> st w' = wipe_row l (st w) \<or> ms_has (st w) l \<and> st w' = mark_deleted l (wipe_row l (st w))"
  using no_engine erase_step by (auto simp: backend_erase_def split: prod.splits sum.splits)

lemma erase_keeps_zero: "backend_erase bk c l m w = (r, w') \<Longrightarrow> ms_zero (st w) k \<Longrightarrow> ms_zero (st w') k"
  using backend_erase_step by (metis ms_zero_mark ms_zero_wipe)

lemma erase_keeps_ok: "backend_erase bk c l m w = (r, w') \<Longrightarrow> ms_ok (st w) \<Longrightarrow> ms_ok (st w')"
  using backend_erase_step by (metis ms_has_simps(1) ms_ok_mark ms_ok_wipe)

lemma delete_keeps_ok:
  assumes "delete bk cfg env c ids reason rid m idem carg rp ckpt s = (Inr r, s')" "ms_ok (st (sv_world s))"
  shows "ms_ok (st (sv_world s'))"
  using assms(1)
proof (cases rule: delete_steps)
  case (1 ms mode s1 bt1 cp df s2 bt2 sm need)
  have "ms_ok (st (sv_world s1))"
    using erase_loop_world [where P = "\<lambda>w. ms_ok (st w)", OF erase_keeps_ok 1(1)] assms(2) by simp
  then have "ms_ok (st (sv_world s2))" using compact_block_keeps(9) [OF 1(2)] compact_step by metis
  then show ?thesis using finish_delete_simps(5) [OF 1(4)] by simp
qed

end

sublocale matrix_backend \<subseteq> hard_delete_backend bk "\<lambda>w l. ms_zero (st w) l"
proof unfold_locales
  fix c l m w r w' k
  show "backend_erase bk c l m w = (r, w') \<Longrightarrow> ms_zero (st w) k \<Longrightarrow> ms_zero (st w') k" by (rule erase_keeps_zero)
next
  fix c l w
  show "bk_verify_zeroed bk c l w = Inr True \<Longrightarrow> ms_zero (st w) l" by (simp add: verify_matrix ms_verify_sound)
next
  fix f w r' w' k
  show "bk_compact bk = Some f \<Longrightarrow> f w = (r', w') \<Longrightarrow> ms_zero (st w) k \<Longrightarrow> ms_zero (st w') k" using compact_step by metis
qed

text \<open>A receipt that says \<open>compacted\<close> was written after a compaction that saw all its labels zero.\<close>

context matrix_backend
begin

lemma compacted_receipt:
  assumes ok: "reg_ok (sv_registry s)" "ms_ok (st (sv_world s))"
    and del: "delete bk cfg env c ids reason rid m idem carg rp ckpt s = (Inr r, s')" and cp: "rc_compacted r"
    and l: "l \<in> set (rc_labels r)"
  shows "\<exists>f w live. bk_compact bk = Some f \<and> f w = (Inr live, sv_world s') \<and> ms_ok (st w) \<and> ms_zero (st w) l"
  using del
proof (cases rule: delete_steps)
  case (1 ms mode s1 bt1 cpd df s2 bt2 sm need)
  have cpd: cpd using 1(4) cp by (auto simp: finish_delete_def Let_def)
  obtain f live where f: "bk_compact bk = Some f" "f (sv_world s1) = (Inr live, sv_world s2)"
    using 1(2) cpd by (auto simp: compact_block_def Let_def split: prod.splits if_splits option.splits sum.splits)
  have "ms_ok (st (sv_world s1))"
    using erase_loop_world [where P = "\<lambda>w. ms_ok (st w)", OF erase_keeps_ok 1(1)] ok(2) by simp
  moreover have "\<forall>l\<in>set (bt_labels bt1). ms_zero (st (sv_world s1)) l"
    using erase_loop_zero [OF loop_inv_start [OF ok(1)] _ 1(1)] by (simp add: empty_batch_def)
  ultimately show ?thesis
    using l f finish_delete_simps(1,5) [OF 1(4)] compact_block_keeps(3) [OF 1(2)] by (intro exI [of _ f] exI [of _ "sv_world s1"] exI [of _ live]) simp
qed

text \<open>When every completed compaction leaves only live items in the index structure, no label of a compacted receipt is there.\<close>

lemma compacted_not_in_index:
  assumes "reg_ok (sv_registry s)" "ms_ok (st (sv_world s))"
    and "delete bk cfg env c ids reason rid m idem carg rp ckpt s = (Inr r, s')" "rc_compacted r" "l \<in> set (rc_labels r)"
    and rebuild: "\<And>f w n w'. bk_compact bk = Some f \<Longrightarrow> f w = (Inr n, w') \<Longrightarrow> items w' \<subseteq> fst ` set (live_items (st w))"
    and mirror: "\<And>f w n w' i. bk_compact bk = Some f \<Longrightarrow> f w = (Inr n, w') \<Longrightarrow> ms_zero (st w) l \<Longrightarrow> dget (ms_row_of (st w)) l = Some i
      \<Longrightarrow> mirror_zero (mir w') i"
  shows "ms_zero (st (sv_world s')) l \<and> l \<notin> items (sv_world s')
    \<and> (\<forall>i. dget (ms_row_of (st (sv_world s'))) l = Some i \<longrightarrow> mirror_zero (mir (sv_world s')) i)"
proof -
  obtain f w n where w: "bk_compact bk = Some f" "f w = (Inr n, sv_world s')" "ms_ok (st w)" "ms_zero (st w) l"
    using compacted_receipt [OF assms(1-5)] by (elim exE conjE)
  have st: "st (sv_world s') = st w" by (rule compact_step [OF w(1,2)])
  show ?thesis
    using rebuild [OF w(1,2)] live_items_zero [OF w(3,4)] mirror [OF w(1,2,4)] w(4) unfolding st by blast
qed

end

section \<open>Concrete instances\<close>

text \<open>A library that keeps labels with a deletion mark, and a delete that compacts, run part by part.\<close>

definition demo_lib :: "(int \<times> bool) list ann_lib" where
  "demo_lib = \<lparr>lb_new = (\<lambda>_. (Inr (), [])),
     lb_add = (\<lambda>rows ls x. (Inr (), filter (\<lambda>(l, d). l \<notin> set ls) x @ map (\<lambda>l. (l, False)) ls)),
     lb_drop = (\<lambda>l x. if (l, False) \<in> set x then (Inr 1, map (\<lambda>(k, d). (k, d \<or> k = l)) x)
                      else (Inl (RuntimeError ''label''), x)),
     lb_query = (\<lambda>q k x. Inr (map fst (filter (\<lambda>(l, d). \<not> d) x), [])),
     lb_save = (\<lambda>_. Inr []), lb_load = (\<lambda>_ _. (Inr (), [])),
     lb_labels = (\<lambda>x. set (map fst x)), lb_found = (\<lambda>x. set (map fst (filter (\<lambda>(l, d). \<not> d) x)))\<rparr>"

lemma demo_lib_ok: "lib_ok demo_lib"
proof -
  have "set (map fst (filter (\<lambda>(l, d). \<not> d) (map (\<lambda>(k, d). (k, d \<or> k = l)) x)))
    = set (map fst (filter (\<lambda>(l, d). \<not> d) x)) - {l}" for l :: int and x
    by (induction x) (auto split: if_splits)
  then have "lb_drop demo_lib l x = (r, x') \<Longrightarrow> lb_found demo_lib x' \<subseteq> lb_found demo_lib x \<and> lb_labels demo_lib x' \<subseteq> lb_labels demo_lib x
      \<and> ((\<exists>n. r = Inr n) \<longrightarrow> l \<notin> lb_found demo_lib x')" for l x r x'
    by (auto simp: demo_lib_def image_image case_prod_unfold split: if_splits)
  then show ?thesis unfolding lib_ok_def by (auto simp: demo_lib_def)
qed

lemma compacting_delete:
  assumes "erase_loop b cfg idem False c m (clean_ids ids) (s, empty_batch []) = (None, s1, bt1)"
    and "compact_block b ''always'' (se_monotonic env) (s1, bt1) = (True, df, s2, bt2)"
  shows "\<exists>r s'. delete b cfg env c ids reason rid m idem (Some (CStr ''always'')) (Some ''off'') ckpt s = (Inr r, s')
    \<and> rc_compacted r \<and> rc_labels r = bt_labels bt2 \<and> sv_world s' = sv_world s2"
proof -
  have pm: "proof_mode_of cfg (se_environ env) (Some ''off'') = ''off''" by (simp add: proof_mode_of_def)
  have pl: "plan_compact b cfg (se_environ env) c (clean_ids ids) (Some (CStr ''always'')) s = (CStr ''always'', [])"
    by (simp add: plan_compact_def Let_def case_prod_unfold)
  obtain sm where sm: "run_residual_proofs b (se_norm64 env) c ''off'' ckpt bt2 (sv_world s2) = Inr sm"
    by (simp add: run_residual_proofs_def)
  obtain r s' where d: "delete b cfg env c ids reason rid m idem (Some (CStr ''always'')) (Some ''off'') ckpt s = (Inr r, s')"
    "finish_delete b cfg env c (clean_ids ids) reason rid ''off'' True df sm (s2, bt2) = (r, s')"
    using delete_run [OF pl _ _ assms(2), where rp = "Some ''off''" and idem = idem and m = m and ckpt = ckpt and sm = sm and reason = reason and rid = rid] assms(1) sm by (auto simp: pm)
  have "rc_compacted r" using d(2) by (auto simp: finish_delete_def Let_def)
  then show ?thesis using d finish_delete_simps(1,5) [OF d(2)] by blast
qed

lemma uncompacted_delete:
  assumes "erase_loop b cfg idem False c m (clean_ids ids) (s, empty_batch []) = (None, s1, bt1)"
  shows "\<exists>r s'. delete b cfg env c ids reason rid m idem (Some (CStr ''never'')) (Some ''off'') ckpt s = (Inr r, s')
    \<and> rc_labels r = bt_labels bt1 \<and> rc_errors r = bt_errors bt1 \<and> sv_world s' = sv_world s1
    \<and> rc_status r = derive_status (int (length (clean_ids ids))) (int (length (bt_labels bt1))) (bt_errors bt1) ''off'' None False"
proof -
  have pm: "proof_mode_of cfg (se_environ env) (Some ''off'') = ''off''" by (simp add: proof_mode_of_def)
  have pl: "plan_compact b cfg (se_environ env) c (clean_ids ids) (Some (CStr ''never'')) s = (CStr ''never'', [])"
    by (simp add: plan_compact_def Let_def case_prod_unfold)
  define s2 where "s2 = (if length (bt_labels bt1) \<noteq> 0 \<and> backend_supports_compact b
    then s1\<lparr>sv_policy := note_deletes (int (length (bt_labels bt1))) (se_monotonic env) (sv_policy s1)\<rparr> else s1)"
  have cb: "compact_block b ''never'' (se_monotonic env) (s1, bt1) = (False, False, s2, bt1)" "sv_world s2 = sv_world s1"
    by (simp_all add: compact_block_def compact_decision_of_def Let_def s2_def)
  have sm: "run_residual_proofs b (se_norm64 env) c ''off'' ckpt bt1 (sv_world s2)
     = Inr \<lparr>rs_mode = ''off'', rs_passed = None, rs_checked = 0, rs_failed = 0, rs_proofs = [], rs_details = ''skipped''\<rparr>"
    by (simp add: run_residual_proofs_def)
  obtain r s' where d: "delete b cfg env c ids reason rid m idem (Some (CStr ''never'')) (Some ''off'') ckpt s = (Inr r, s')"
    "finish_delete b cfg env c (clean_ids ids) reason rid ''off'' False False
      \<lparr>rs_mode = ''off'', rs_passed = None, rs_checked = 0, rs_failed = 0, rs_proofs = [], rs_details = ''skipped''\<rparr> (s2, bt1) = (r, s')"
    using delete_run [OF pl _ _ cb(1), where rp = "Some ''off''" and idem = idem and m = m and ckpt = ckpt and reason = reason and rid = rid] assms sm
    by (auto simp: pm)
  show ?thesis using d(1) finish_delete_simps [OF d(2)] cb(2) by (intro exI [of _ r] exI [of _ s']) simp
qed

definition service_over :: "id_registry \<Rightarrow> 'w \<Rightarrow> 'w service" where
  "service_over r w = \<lparr>sv_registry = r, sv_policy = sv_policy demo_service, sv_world = w, sv_log = [], sv_counters = [], sv_gauges = []\<rparr>"

definition demo_registry :: id_registry where
  "demo_registry = reg_run [EnsureOp ''users''] empty_registry"

lemma demo_registry_ok: "reg_ok (reg_run ops demo_registry)"
  using reg_run_ok reg_ok_empty by (simp add: demo_registry_def)

end
