(* ===== verification/HnswlibAdapter.thy ===== *)
theory HnswlibAdapter
  imports MatrixStore
begin

text \<open>
  \<open>integrations/hnswlib_adapter.py\<close>: a matrix, an index of the hnswlib package (the parameter \<open>L\<close>) and an optional heal mirror.
  \<open>mark_deleted\<close> of the package is \<open>lb_drop\<close>; it returns nothing, which is the result 1. The lists \<open>_labels\<close> and
  \<open>_row_to_label\<close> of the class are written and never read; they are left out. \<open>ha_tick\<close> counts the calls of the mirror and selects what
  the environment \<open>v\<close> does in each.
\<close>

section \<open>The adapter\<close>

record 'x hnswlib_adapter =
  ha_collection :: string
  ha_max_elements :: int
  ha_store :: mstore
  ha_index :: 'x
  ha_mirror :: "hnsw_index option"
  ha_tick :: nat

definition ha_init ::
  "'x ann_lib \<Rightarrow> bool \<Rightarrow> bool \<Rightarrow> int \<Rightarrow> int \<Rightarrow> bool \<Rightarrow> string \<Rightarrow> id_registry \<Rightarrow> 'x hnswlib_adapter res \<times> id_registry" where
  "ha_init L lib_available healer_available dm max_elements enable_heal_mirror collection r =
    (if \<not> lib_available
     then (Inl (OtherError ''hnswlib is required for HnswlibHardDeleteAdapter. Install with: pip install hnswlib''), r)
     else if dm \<le> 0 then (Inl (ValueError ''dim must be positive''), r)
     else case ensure_collection collection r of
       (Inl e, r1) \<Rightarrow> (Inl e, r1)
     | (Inr _, r1) \<Rightarrow>
         (case lb_new L max_elements of
            (Inl e, _) \<Rightarrow> (Inl e, r1)
          | (Inr _, x) \<Rightarrow>
              (Inr \<lparr>ha_collection = collection, ha_max_elements = max_elements, ha_store = ms_new (nat dm), ha_index = x,
                    ha_mirror = (if enable_heal_mirror \<and> healer_available then Some empty_index else None), ha_tick = 0\<rparr>, r1)))"

subsection \<open>Ingest\<close>

definition ha_append_row :: "int \<Rightarrow> f32 list \<Rightarrow> mstore \<Rightarrow> mstore" where
  "ha_append_row l v s = (if ms_has s l then undelete l (put_row l v s) else put_row l v s)"

fun ha_register_rows ::
  "string \<Rightarrow> (string \<times> f32 list) list \<Rightarrow> id_registry \<times> mstore \<Rightarrow> int list res \<times> id_registry \<times> mstore" where
  "ha_register_rows c [] rs = (Inr [], rs)"
| "ha_register_rows c ((ext, v) # rest) (r, s) =
    (case register c ext None r of
       (Inl e, r1) \<Rightarrow> (Inl e, r1, s)
     | (Inr l, r1) \<Rightarrow>
         if ms_has s l \<and> l \<notin> ms_deleted s
         then (Inl (ValueError (''label '' @ int_str l @ '' already present; drop or use new id'')), r1, s)
         else (case ha_register_rows c rest (r1, ha_append_row l v s) of
                 (Inl e, rs) \<Rightarrow> (Inl e, rs)
               | (Inr ls, rs) \<Rightarrow> (Inr (l # ls), rs)))"

definition ha_sync :: "'x hnswlib_adapter \<Rightarrow> unit res \<times> 'x hnswlib_adapter" where
  "ha_sync a = (case sync_heal_mirror (ha_store a) (ha_mirror a) of (r, mo) \<Rightarrow> (r, a\<lparr>ha_mirror := mo\<rparr>))"

definition ha_add ::
  "'x ann_lib \<Rightarrow> string option \<Rightarrow> string list \<Rightarrow> np_array \<Rightarrow> id_registry \<times> 'x hnswlib_adapter
    \<Rightarrow> int list res \<times> id_registry \<times> 'x hnswlib_adapter" where
  "ha_add L coll ids vecs ra =
    (case ra of (r, a) \<Rightarrow>
     case check_shapes (ms_dim (ha_store a)) ids vecs of
       Inl e \<Rightarrow> (Inl e, r, a)
     | Inr rows \<Rightarrow>
         (case ha_register_rows (case coll of Some c \<Rightarrow> (if c = [] then ha_collection a else c) | None \<Rightarrow> ha_collection a)
                  (zip ids rows) (r, ha_store a) of
            (Inl e, r1, s1) \<Rightarrow> (Inl e, r1, a\<lparr>ha_store := s1\<rparr>)
          | (Inr labels, r1, s1) \<Rightarrow>
              let a1 = a\<lparr>ha_store := s1\<rparr>;
                  active = filter (\<lambda>l. l \<notin> ms_deleted s1) labels
              in case (if active = [] then (Inr (), ha_index a)
                       else case map_res (\<lambda>l. ms_get_vector l s1) active of
                              Inl e \<Rightarrow> (Inl e, ha_index a)
                            | Inr vs \<Rightarrow> lb_add L vs active (ha_index a)) of
                   (Inl e, x1) \<Rightarrow> (Inl e, r1, a1\<lparr>ha_index := x1\<rparr>)
                 | (Inr _, x1) \<Rightarrow>
                     (case ha_sync (a1\<lparr>ha_index := x1\<rparr>) of
                        (Inl e, a2) \<Rightarrow> (Inl e, r1, a2)
                      | (Inr _, a2) \<Rightarrow> (Inr labels, r1, a2))))"

subsection \<open>The backend protocol\<close>

definition ha_drop_item :: "'x ann_lib \<Rightarrow> int \<Rightarrow> 'x hnswlib_adapter \<Rightarrow> int res \<times> 'x" where
  "ha_drop_item L l a = (if l \<in> ms_deleted (ha_store a) then (Inr 0, ha_index a) else lb_drop L l (ha_index a))"

text \<open>The \<open>except RuntimeError\<close> around \<open>mark_deleted\<close>.\<close>

fun uncaught :: "int res \<Rightarrow> exn option" where
  "uncaught (Inl (RuntimeError m)) = None"
| "uncaught (Inl e) = Some e"
| "uncaught (Inr _) = None"

definition ha_hard_delete_label ::
  "'x ann_lib \<Rightarrow> 'd penv \<Rightarrow> string \<Rightarrow> int \<Rightarrow> int \<Rightarrow> 'x hnswlib_adapter \<Rightarrow> backend_erase_result res \<times> 'x hnswlib_adapter" where
  "ha_hard_delete_label L v collection label max_m a =
    (case dget (ms_row_of (ha_store a)) label of
       None \<Rightarrow> (Inr \<lparr>br_success = False, br_label = label, br_bytes_wiped = 0, br_message = Some ''unknown label'', br_compacted = False\<rparr>, a)
     | Some i \<Rightarrow>
         let a1 = a\<lparr>ha_store := wipe_row label (ha_store a)\<rparr>;
             (dropped, x1) = ha_drop_item L label a;
             a2 = a1\<lparr>ha_index := x1\<rparr>
         in if length (ms_rows (ha_store a)) \<le> i then (Inl (OtherError ''IndexError''), a)
            else case uncaught dropped of
              Some e \<Rightarrow> (Inl e, a2)
            | None \<Rightarrow>
                (case mirror_erase v (ha_tick a) i max_m (ha_mirror a) of
              (said, mo) \<Rightarrow>
                (Inr \<lparr>br_success = True, br_label = label, br_bytes_wiped = row_bytes_of (ha_store a),
                      br_message = Some (''zeroed+mark_deleted'' @ said), br_compacted = False\<rparr>,
                 a2\<lparr>ha_store := mark_deleted label (ha_store a1), ha_mirror := mo, ha_tick := Suc (ha_tick a)\<rparr>)))"

definition ha_query :: "'x ann_lib \<Rightarrow> f32 list \<Rightarrow> int \<Rightarrow> 'x hnswlib_adapter \<Rightarrow> (int list \<times> f32 list) res" where
  "ha_query L q k a = lb_query L q k (ha_index a)"

definition ha_compact :: "'x ann_lib \<Rightarrow> 'x hnswlib_adapter \<Rightarrow> int res \<times> 'x hnswlib_adapter" where
  "ha_compact L a =
    (let live = live_items (ha_store a)
     in case lb_new L (max (ha_max_elements a) (int (length live) + 1)) of
          (Inl e, x0) \<Rightarrow> (Inl e, a\<lparr>ha_index := x0\<rparr>)
        | (Inr _, x0) \<Rightarrow>
            (case (if live = [] then (Inr (), x0) else lb_add L (map snd live) (map fst live) x0) of
               (Inl e, x1) \<Rightarrow> (Inl e, a\<lparr>ha_index := x1\<rparr>)
             | (Inr _, x1) \<Rightarrow>
                 (case ha_sync (a\<lparr>ha_index := x1\<rparr>) of
                    (Inl e, a1) \<Rightarrow> (Inl e, a1)
                  | (Inr _, a1) \<Rightarrow> (Inr (int (length live)), a1))))"

definition ha_save_index :: "'x ann_lib \<Rightarrow> 'x hnswlib_adapter \<Rightarrow> bytes res" where
  "ha_save_index L a = lb_save L (ha_index a)"

definition ha_load_index :: "'x ann_lib \<Rightarrow> bytes \<Rightarrow> int option \<Rightarrow> 'x hnswlib_adapter \<Rightarrow> unit res \<times> 'x hnswlib_adapter" where
  "ha_load_index L file max_elements a =
    (case lb_load L file (case max_elements of Some m \<Rightarrow> if m = 0 then ha_max_elements a else m | None \<Rightarrow> ha_max_elements a) of
       (r, x) \<Rightarrow> (r, a\<lparr>ha_index := x\<rparr>))"

definition hnswlib_backend ::
  "'x ann_lib \<Rightarrow> 'd penv \<Rightarrow> ('x hnswlib_adapter \<Rightarrow> string \<Rightarrow> bytes option) \<Rightarrow> 'x hnswlib_adapter backend" where
  "hnswlib_backend L v files = \<lparr>
     bk_hard_delete = ha_hard_delete_label L v,
     bk_verify_zeroed = (\<lambda>c l a. ms_verify_zeroed l (ha_store a)),
     bk_get_vector = Some (\<lambda>l a. ms_get_vector l (ha_store a)),
     bk_compact = Some (ha_compact L),
     bk_num_vectors = Some (\<lambda>a. int (length (ms_rows (ha_store a)))),
     bk_heal_mirror = True, bk_persistence = None, bk_files = files\<rparr>"

section \<open>The contract\<close>

lemma ha_sync_keeps: "ha_sync a = (r, a') \<Longrightarrow> ha_store a' = ha_store a \<and> ha_index a' = ha_index a"
  by (auto simp: ha_sync_def split: prod.splits)

lemma ha_compact_store: "ha_compact L a = (r, a') \<Longrightarrow> ha_store a' = ha_store a"
  by (auto simp: ha_compact_def Let_def dest!: ha_sync_keeps split: prod.splits sum.splits if_splits)

lemma ha_delete_store:
  "ha_hard_delete_label L v c l m a = (r, a') \<Longrightarrow>
    ha_store a' = ha_store a \<or> ha_store a' = wipe_row l (ha_store a)
    \<or> ms_has (ha_store a) l \<and> ha_store a' = mark_deleted l (wipe_row l (ha_store a))"
  by (auto simp: ha_hard_delete_label_def Let_def ms_has_def split: option.splits prod.splits if_splits)

interpretation hnswlib: matrix_backend "hnswlib_backend L v files" ha_store
  for L :: "'x ann_lib" and v :: "'d penv" and files
  by unfold_locales (auto simp: hnswlib_backend_def dest: ha_delete_store ha_compact_store)

section \<open>Properties of the operations\<close>

lemma ha_compact_labels:
  assumes "lib_ok L" "ha_compact L a = (r, a')"
  shows "lb_labels L (ha_index a') \<subseteq> fst ` set (live_items (ha_store a))"
proof -
  let ?live = "live_items (ha_store a)"
  obtain r0 x0 where new: "lb_new L (max (ha_max_elements a) (int (length ?live) + 1)) = (r0, x0)" by fastforce
  obtain r1 x1 where add: "lb_add L (map snd ?live) (map fst ?live) x0 = (r1, x1)" by fastforce
  have "lb_labels L x0 = {}" by (rule lib_new [OF assms(1) new])
  moreover have "lb_labels L x1 \<subseteq> lb_labels L x0 \<union> fst ` set ?live" using lib_add(1) [OF assms(1) add] by simp
  moreover have "ha_index a' \<in> {x0, x1}"
    using assms(2) new add by (auto simp: ha_compact_def Let_def dest!: ha_sync_keeps split: prod.splits sum.splits if_splits)
  ultimately show ?thesis by auto
qed

lemma ha_compact_mirror:
  assumes "ha_compact L a = (Inr n, a')" "ms_zero (ha_store a) l" "dget (ms_row_of (ha_store a)) l = Some i"
  shows "mirror_zero (ha_mirror a') i"
proof -
  obtain x1 u where "ha_sync (a\<lparr>ha_index := x1\<rparr>) = (Inr u, a')"
    using assms(1) by (auto simp: ha_compact_def Let_def split: prod.splits sum.splits if_splits)
  then have "sync_heal_mirror (ha_store a) (ha_mirror a) = (Inr u, ha_mirror a')"
    by (auto simp: ha_sync_def split: prod.splits)
  then show ?thesis using assms(2,3) by (rule sync_zero)
qed

text \<open>
  C27: A receipt of a delete over the hnswlib adapter that says \<open>compacted\<close> leaves no copy of an erased vector in the adapter: for
  each of its labels the matrix row is zero, the rebuilt index has no item of the label, no query returns it, and its
  row in the heal mirror is zero.
\<close>

theorem hnswlib_compacted_leaves_no_copy:
  assumes "lib_ok L" "reg_ok (sv_registry s)" "ms_ok (ha_store (sv_world s))"
    and "delete (hnswlib_backend L v files) cfg env c ids reason rid m idem carg rp ckpt s = (Inr r, s')" "rc_compacted r"
    and "l \<in> set (rc_labels r)"
  shows "ms_zero (ha_store (sv_world s')) l \<and> l \<notin> lb_labels L (ha_index (sv_world s'))
    \<and> (\<forall>q k ls ds. ha_query L q k (sv_world s') = Inr (ls, ds) \<longrightarrow> l \<noteq> -1 \<longrightarrow> l \<notin> set ls)
    \<and> (\<forall>i. dget (ms_row_of (ha_store (sv_world s'))) l = Some i \<longrightarrow> mirror_zero (ha_mirror (sv_world s')) i)"
proof -
  let ?w = "sv_world s'"
  have z: "ms_zero (ha_store ?w) l \<and> l \<notin> lb_labels L (ha_index ?w)
    \<and> (\<forall>i. dget (ms_row_of (ha_store ?w)) l = Some i \<longrightarrow> mirror_zero (ha_mirror ?w) i)"
    by (rule hnswlib.compacted_not_in_index [OF assms(2-6)])
      (auto simp: hnswlib_backend_def dest: ha_compact_labels [OF assms(1)] ha_compact_mirror)
  then have nf: "l \<notin> lb_found L (ha_index ?w)" using lib_found [OF assms(1)] by blast
  have "\<forall>q k ls ds. ha_query L q k ?w = Inr (ls, ds) \<longrightarrow> l \<noteq> -1 \<longrightarrow> l \<notin> set ls"
  proof (intro allI impI)
    fix q k ls ds
    assume "ha_query L q k ?w = Inr (ls, ds)" "l \<noteq> -1"
    then show "l \<notin> set ls" using lib_query [OF assms(1), of q k "ha_index ?w" ls ds] nf by (auto simp: ha_query_def)
  qed
  then show ?thesis using z by blast
qed

definition demo_ha0 :: "(int \<times> bool) list hnswlib_adapter" where
  "demo_ha0 = \<lparr>ha_collection = ''users'', ha_max_elements = 10, ha_store = ms_new 2, ha_index = [], ha_mirror = Some empty_index, ha_tick = 0\<rparr>"

definition demo_ha :: "id_registry \<times> (int \<times> bool) list hnswlib_adapter" where
  "demo_ha = snd (ha_add demo_lib None [''alice'', ''bob''] (Arr2 2 [[1, 2], [3, 4]]) (demo_registry, demo_ha0))"

definition demo_ha_loop :: "exn option \<times> (int \<times> bool) list hnswlib_adapter service \<times> batch" where
  "demo_ha_loop = erase_loop (hnswlib_backend demo_lib demo_env (\<lambda>_ _. None)) demo_config True False ''users'' 16 [''alice'']
     (service_over (fst demo_ha) (snd demo_ha), empty_batch [])"

definition demo_ha_compact :: "bool \<times> bool \<times> (int \<times> bool) list hnswlib_adapter service \<times> batch" where
  "demo_ha_compact = compact_block (hnswlib_backend demo_lib demo_env (\<lambda>_ _. None)) ''always'' 1 (snd demo_ha_loop)"

lemma demo_ha_run: "fst demo_ha_loop = None" "fst demo_ha_compact" "bt_labels (snd (snd (snd demo_ha_compact))) = [0]"
  "ha_index (snd demo_ha) = [(0, False), (1, False)]"
  by code_simp+

lemma ha_register_rows_ok:
  assumes "reg_ok r" "ms_ok s" "list_all (\<lambda>(x, v). length v = ms_dim s) xs" "ha_register_rows c xs (r, s) = (res, r', s')"
  shows "reg_ok r' \<and> ms_ok s' \<and> ms_deleted s' \<subseteq> ms_deleted s \<and> ms_dim s' = ms_dim s
    \<and> (\<forall>ls. res = Inr ls \<longrightarrow> (\<forall>l\<in>set ls. ms_has s' l))
    \<and> (\<forall>l. ms_has s l \<longrightarrow> ms_has s' l)"
  using assms
proof (induction c xs "(r, s)" arbitrary: r s res r' s' rule: ha_register_rows.induct)
  case (1 c r s)
  then show ?case by auto
next
  case (2 c ext v rest r s)
  obtain q r1 where reg: "register c ext None r = (q, r1)" by fastforce
  have ok1: "reg_ok r1" using reg_step_ok [OF 2(2), of "RegisterOp c ext None"] reg by simp
  show ?case
  proof (cases "\<exists>l. q = Inr l \<and> \<not> (ms_has s l \<and> l \<notin> ms_deleted s)")
    case False
    then show ?thesis using 2(3,5) reg ok1 by (auto split: sum.splits if_splits)
  next
    case True
    then obtain l where l: "q = Inr l" "\<not> (ms_has s l \<and> l \<notin> ms_deleted s)" by blast
    let ?s = "ha_append_row l v s"
    have s1: "ms_ok ?s" "ms_deleted ?s \<subseteq> ms_deleted s" "ms_dim ?s = ms_dim s" "ms_has ?s k \<longleftrightarrow> k = l \<or> ms_has s k" for k
      using 2(3,4) by (auto simp: ha_append_row_def ms_ok_put ms_ok_undelete)
    obtain q2 r2 s2 where rec: "ha_register_rows c rest (r1, ?s) = (q2, r2, s2)" by (rule prod_cases3)
    have dims: "list_all (\<lambda>(x, v). length v = ms_dim ?s) rest" using 2(4) s1(3) by simp
    have "reg_ok r2 \<and> ms_ok s2 \<and> ms_deleted s2 \<subseteq> ms_deleted ?s \<and> ms_dim s2 = ms_dim ?s
        \<and> (\<forall>ls. q2 = Inr ls \<longrightarrow> (\<forall>l\<in>set ls. ms_has s2 l)) \<and> (\<forall>l. ms_has ?s l \<longrightarrow> ms_has s2 l)"
      using 2(1) [OF reg [unfolded l(1), symmetric] refl l(2) ok1 s1(1) dims] rec reg l by simp
    then show ?thesis using 2(5) reg l rec s1 by (auto split: sum.splits)
  qed
qed

section \<open>Deleted labels are not found\<close>

datatype ha_op = HaAdd "string option" "string list" np_array | HaDelete int int | HaCompact

fun ha_op_ok :: "ha_op \<Rightarrow> bool" where
  "ha_op_ok (HaAdd coll ids vecs) = np_ok vecs"
| "ha_op_ok _ = True"

fun ha_step :: "'x ann_lib \<Rightarrow> 'd penv \<Rightarrow> ha_op \<Rightarrow> id_registry \<times> 'x hnswlib_adapter \<Rightarrow> id_registry \<times> 'x hnswlib_adapter" where
  "ha_step L v (HaAdd coll ids vecs) ra = snd (ha_add L coll ids vecs ra)"
| "ha_step L v (HaDelete l m) ra = (fst ra, snd (ha_hard_delete_label L v (ha_collection (snd ra)) l m (snd ra)))"
| "ha_step L v HaCompact ra = (fst ra, snd (ha_compact L (snd ra)))"

definition ha_run :: "'x ann_lib \<Rightarrow> 'd penv \<Rightarrow> ha_op list \<Rightarrow> id_registry \<times> 'x hnswlib_adapter \<Rightarrow> id_registry \<times> 'x hnswlib_adapter" where
  "ha_run L v ops ra = foldl (\<lambda>ra op. ha_step L v op ra) ra ops"

text \<open>\<open>mark_deleted\<close> of the package raises \<open>RuntimeError\<close> only for labels that are absent or already deleted.\<close>

definition marks_ok :: "'x ann_lib \<Rightarrow> bool" where
  "marks_ok L \<longleftrightarrow> (\<forall>l x m x'. lb_drop L l x = (Inl (RuntimeError m), x') \<longrightarrow> l \<notin> lb_found L x')"

definition ha_inv :: "'x ann_lib \<Rightarrow> id_registry \<times> 'x hnswlib_adapter \<Rightarrow> bool" where
  "ha_inv L ra \<longleftrightarrow> reg_ok (fst ra) \<and> ms_ok (ha_store (snd ra)) \<and> ms_deleted (ha_store (snd ra)) \<inter> lb_found L (ha_index (snd ra)) = {}"

lemma ha_add_inv:
  assumes L: "lib_ok L" and inv: "ha_inv L (r, a)" and np: "np_ok vecs" and run: "ha_add L coll ids vecs (r, a) = (res, r', a')"
  shows "ha_inv L (r', a')"
proof (cases "check_shapes (ms_dim (ha_store a)) ids vecs")
  case (Inl e)
  then show ?thesis using inv run by (simp add: ha_add_def)
next
  case (Inr rows)
  have dims: "list_all (\<lambda>(x, v). length v = ms_dim (ha_store a)) (zip ids rows)"
    using check_shapes_Inr [OF Inr np] by (auto simp: list_all_iff dest: set_zip_rightD)
  let ?c = "case coll of Some c \<Rightarrow> (if c = [] then ha_collection a else c) | None \<Rightarrow> ha_collection a"
  obtain q r1 s1 where reg: "ha_register_rows ?c (zip ids rows) (r, ha_store a) = (q, r1, s1)" by (rule prod_cases3)
  have h: "reg_ok r" "ms_ok (ha_store a)" "ms_deleted (ha_store a) \<inter> lb_found L (ha_index a) = {}" using inv by (simp_all add: ha_inv_def)
  have s1: "reg_ok r1" "ms_ok s1" "ms_deleted s1 \<subseteq> ms_deleted (ha_store a)"
    using ha_register_rows_ok [OF h(1,2) dims reg] by blast+
  have keep: "ms_deleted s1 \<inter> lb_found L (ha_index a) = {}" using s1(3) h(3) by blast
  have added: "ms_deleted s1 \<inter> lb_found L x1 = {}"
    if "lb_add L vs (filter (\<lambda>l. l \<notin> ms_deleted s1) ls) (ha_index a) = (p, x1)" for vs ls p x1
    using lib_add(2) [OF L that] keep by auto
  have "r' = r1 \<and> ha_store a' = s1 \<and> (ha_index a' = ha_index a
      \<or> (\<exists>vs ls p. lb_add L vs (filter (\<lambda>l. l \<notin> ms_deleted s1) ls) (ha_index a) = (p, ha_index a')))"
    using run Inr reg unfolding ha_add_def
    by (auto simp: Let_def dest!: ha_sync_keeps split: sum.splits prod.splits if_splits)
  moreover from this have "ms_deleted s1 \<inter> lb_found L (ha_index a') = {}"
    by (elim conjE disjE exE) (simp add: keep, rule added)
  ultimately show ?thesis using s1(1,2) by (simp add: ha_inv_def)
qed

lemma ha_drop_item_found:
  assumes "lib_ok L" "marks_ok L" "ms_deleted (ha_store a) \<inter> lb_found L (ha_index a) = {}" "ha_drop_item L l a = (q, x1)"
  shows "ms_deleted (ha_store a) \<inter> lb_found L x1 = {}" "uncaught q = None \<Longrightarrow> l \<notin> lb_found L x1"
proof -
  show "ms_deleted (ha_store a) \<inter> lb_found L x1 = {}"
    using assms(3,4) lib_drop(1) [OF assms(1)] by (fastforce simp: ha_drop_item_def split: if_splits)
  assume n: "uncaught q = None"
  show "l \<notin> lb_found L x1"
  proof (cases "l \<in> ms_deleted (ha_store a)")
    case True
    then show ?thesis using assms(3,4) by (auto simp: ha_drop_item_def)
  next
    case False
    then have d: "lb_drop L l (ha_index a) = (q, x1)" using assms(4) by (simp add: ha_drop_item_def)
    show ?thesis
    proof (cases q)
      case (Inr k)
      then show ?thesis using lib_drop(2) [OF assms(1) d] by simp
    next
      case (Inl e)
      then obtain m where "q = Inl (RuntimeError m)" using n by (cases e) auto
      then show ?thesis using assms(2) d unfolding marks_ok_def by blast
    qed
  qed
qed

lemma ha_delete_inv:
  assumes "lib_ok L" "marks_ok L" "ha_inv L (r, a)" "ha_hard_delete_label L v c l m a = (res, a')"
  shows "ha_inv L (r, a')"
proof (cases "dget (ms_row_of (ha_store a)) l")
  case None
  then show ?thesis using assms(3,4) by (simp add: ha_hard_delete_label_def)
next
  case (Some i)
  obtain q x1 where d: "ha_drop_item L l a = (q, x1)" by fastforce
  have h: "reg_ok r" "ms_ok (ha_store a)" "ms_deleted (ha_store a) \<inter> lb_found L (ha_index a) = {}" using assms(3) by (simp_all add: ha_inv_def)
  have f: "ms_deleted (ha_store a) \<inter> lb_found L x1 = {}" "uncaught q = None \<Longrightarrow> l \<notin> lb_found L x1"
    using ha_drop_item_found [OF assms(1,2) h(3) d] by blast+
  have "ms_has (ha_store a) l" using Some by (simp add: ms_has_def)
  then have st: "ms_ok (wipe_row l (ha_store a))" "ms_ok (mark_deleted l (wipe_row l (ha_store a)))"
    using h(2) by (simp_all add: ms_ok_wipe ms_ok_mark)
  obtain said mo where me: "mirror_erase v (ha_tick a) i m (ha_mirror a) = (said, mo)" by fastforce
  show ?thesis
    using assms(4) Some d h f st me unfolding ha_hard_delete_label_def ha_inv_def
    by (cases "uncaught q") (auto simp: Let_def split: if_splits)
qed

lemma ha_compact_inv:
  assumes "lib_ok L" "ha_inv L (r, a)" "ha_compact L a = (res, a')"
  shows "ha_inv L (r, a')"
proof -
  have "fst ` set (live_items (ha_store a)) \<inter> ms_deleted (ha_store a) = {}" by (auto simp: live_items_def)
  then have "ms_deleted (ha_store a) \<inter> lb_found L (ha_index a') = {}"
    using ha_compact_labels [OF assms(1,3)] lib_found [OF assms(1)] by blast
  then show ?thesis using assms(2) ha_compact_store [OF assms(3)] by (simp add: ha_inv_def)
qed

lemma ha_step_inv:
  assumes "lib_ok L" "marks_ok L" "ha_inv L ra" "ha_op_ok op"
  shows "ha_inv L (ha_step L v op ra)"
proof -
  obtain r a where ra: "ra = (r, a)" by fastforce
  show ?thesis
  proof (cases op)
    case (HaAdd coll ids vecs)
    obtain res r' a' where run: "ha_add L coll ids vecs (r, a) = (res, r', a')" by (rule prod_cases3)
    then show ?thesis using ha_add_inv [OF assms(1) _ _ run] assms(3,4) HaAdd ra by simp
  next
    case (HaDelete l m)
    obtain res a' where run: "ha_hard_delete_label L v (ha_collection a) l m a = (res, a')" by fastforce
    then show ?thesis using ha_delete_inv [OF assms(1,2) _ run] assms(3) HaDelete ra by simp
  next
    case HaCompact
    obtain res a' where run: "ha_compact L a = (res, a')" by fastforce
    then show ?thesis using ha_compact_inv [OF assms(1) _ run] assms(3) HaCompact ra by simp
  qed
qed

lemma ha_run_inv: "lib_ok L \<Longrightarrow> marks_ok L \<Longrightarrow> ha_inv L ra \<Longrightarrow> list_all ha_op_ok ops \<Longrightarrow> ha_inv L (ha_run L v ops ra)"
proof (induction ops arbitrary: ra)
  case Nil
  then show ?case by (simp add: ha_run_def)
next
  case (Cons op ops)
  then show ?case using ha_step_inv [OF Cons.prems(1-3), of op v] by (simp add: ha_run_def)
qed

text \<open>
  C28: After any adds, deletes and compactions of a new adapter, failed ones included, no query returns a label that is deleted and
  not added again, as long as the hnswlib package does what it documents.
\<close>

theorem hnswlib_deleted_not_found:
  assumes "lib_ok L" "marks_ok L" "reg_ok r"
    and "ha_init L True healer dm cap mirror c r = (Inr a, r1)" "list_all ha_op_ok ops"
    and "ha_run L v ops (r1, a) = (r2, b)" "ha_query L q k b = Inr (ls, ds)" "l \<in> ms_deleted (ha_store b)" "l \<noteq> -1"
  shows "l \<notin> set ls"
proof -
  have a: "ha_store a = ms_new (nat dm)" "reg_ok r1"
    using assms(4) reg_step_ok [OF assms(3), of "EnsureOp c"] by (auto simp: ha_init_def split: prod.splits sum.splits if_splits)
  then have "ha_inv L (r1, a)" by (simp add: ha_inv_def) (simp add: ms_new_def)
  then have "ha_inv L (r2, b)" using ha_run_inv [OF assms(1,2) _ assms(5), of "(r1, a)" v] assms(6) by simp
  then have "l \<notin> lb_found L (ha_index b)" using assms(8) by (auto simp: ha_inv_def)
  moreover have "set ls \<subseteq> lb_found L (ha_index b) \<union> {-1}"
    by (rule lib_query [OF assms(1) assms(7) [unfolded ha_query_def]])
  ultimately show ?thesis using assms(9) by blast
qed

lemma demo_marks: "marks_ok demo_lib"
  by (auto simp: marks_ok_def demo_lib_def split: if_splits)

lemma demo_ha_ok: "reg_ok (fst demo_ha)" "ms_ok (ha_store (snd demo_ha))" "ha_inv demo_lib demo_ha"
proof -
  have "reg_ok demo_registry" using demo_registry_ok [of "[]"] by (simp add: reg_run_def)
  then have "ha_inv demo_lib (demo_registry, demo_ha0)" by (simp add: ha_inv_def demo_ha0_def) (simp add: ms_new_def)
  then show *: "ha_inv demo_lib demo_ha"
    using ha_step_inv [OF demo_lib_ok demo_marks, of "(demo_registry, demo_ha0)" "HaAdd None [''alice'', ''bob''] (Arr2 2 [[1, 2], [3, 4]])" demo_env]
    by (simp add: demo_ha_def)
  then show "reg_ok (fst demo_ha)" "ms_ok (ha_store (snd demo_ha))" by (simp_all add: ha_inv_def)
qed

lemma hnswlib_compacted_leaves_no_copy_witness:
  "\<exists>r s'. delete (hnswlib_backend demo_lib demo_env (\<lambda>_ _. None)) demo_config demo_senv ''users'' [''alice''] None None 16 True
      (Some (CStr ''always'')) (Some ''off'') None (service_over (fst demo_ha) (snd demo_ha)) = (Inr r, s')
    \<and> rc_labels r = [0] \<and> 0 \<notin> lb_labels demo_lib (ha_index (sv_world s'))"
proof -
  obtain s1 bt1 where l: "demo_ha_loop = (None, s1, bt1)" using demo_ha_run(1) by (metis prod.collapse)
  obtain df s2 bt2 where c: "demo_ha_compact = (True, df, s2, bt2)" using demo_ha_run(2) by (metis prod.collapse)
  have b: "bt_labels bt2 = [0]" using demo_ha_run(3) unfolding c by (simp only: snd_conv)
  have ids: "clean_ids [''alice''] = [''alice'']" by code_simp
  obtain r s' where d: "delete (hnswlib_backend demo_lib demo_env (\<lambda>_ _. None)) demo_config demo_senv ''users'' [''alice''] None None 16 True
      (Some (CStr ''always'')) (Some ''off'') None (service_over (fst demo_ha) (snd demo_ha)) = (Inr r, s')" "rc_compacted r" "rc_labels r = [0]"
    using compacting_delete [of "hnswlib_backend demo_lib demo_env (\<lambda>_ _. None)" demo_config True "''users''" 16 "[''alice'']"
        "service_over (fst demo_ha) (snd demo_ha)" s1 bt1 demo_senv df s2 bt2 None None None] l c b
    unfolding demo_ha_loop_def demo_ha_compact_def ids by (auto simp: demo_senv_def)
  have st: "reg_ok (sv_registry (service_over (fst demo_ha) (snd demo_ha)))" "ms_ok (ha_store (sv_world (service_over (fst demo_ha) (snd demo_ha))))"
    using demo_ha_ok by (simp_all add: service_over_def)
  have m: "0 \<in> set (rc_labels r)" using d(3) by simp
  show ?thesis using hnswlib_compacted_leaves_no_copy [OF demo_lib_ok st d(1,2) m] d by blast
qed

definition demo_ha_new :: "(int \<times> bool) list hnswlib_adapter res \<times> id_registry" where
  "demo_ha_new = ha_init demo_lib True True 2 10 True ''users'' empty_registry"

definition demo_ha_ran :: "id_registry \<times> (int \<times> bool) list hnswlib_adapter" where
  "demo_ha_ran = ha_run demo_lib demo_env [HaAdd None [''alice'', ''bob''] (Arr2 2 [[1, 2], [3, 4]]), HaDelete 0 16]
     (snd demo_ha_new, projr (fst demo_ha_new))"

lemma demo_ha_ran_facts: "\<not> isl (fst demo_ha_new)" "0 \<in> ms_deleted (ha_store (snd demo_ha_ran))"
  "ha_query demo_lib [1, 2] 2 (snd demo_ha_ran) = Inr ([1], [])"
  by code_simp+

lemma hnswlib_deleted_not_found_witness:
  "0 \<in> ms_deleted (ha_store (snd demo_ha_ran)) \<and> ha_query demo_lib [1, 2] 2 (snd demo_ha_ran) = Inr ([1], []) \<and> (0 :: int) \<notin> set [1]"
proof -
  have i: "ha_init demo_lib True True 2 10 True ''users'' empty_registry = (Inr (projr (fst demo_ha_new)), snd demo_ha_new)"
    using demo_ha_ran_facts(1) by (cases "fst demo_ha_new") (auto simp: demo_ha_new_def prod_eq_iff)
  have ops: "list_all ha_op_ok [HaAdd None [''alice'', ''bob''] (Arr2 2 [[1, 2], [3, 4]]), HaDelete 0 16]" by simp
  have run: "ha_run demo_lib demo_env [HaAdd None [''alice'', ''bob''] (Arr2 2 [[1, 2], [3, 4]]), HaDelete 0 16]
     (snd demo_ha_new, projr (fst demo_ha_new)) = (fst demo_ha_ran, snd demo_ha_ran)" by (simp add: demo_ha_ran_def)
  have "(0 :: int) \<notin> set [1]"
    by (rule hnswlib_deleted_not_found [OF demo_lib_ok demo_marks reg_ok_empty i ops run demo_ha_ran_facts(3,2)]) simp
  then show ?thesis using demo_ha_ran_facts by blast
qed

end
