(* ===== verification/ChromaHook.thy ===== *)
theory ChromaHook
  imports HnswlibAdapter
begin

text \<open>
  \<open>integrations/chroma_hook.py\<close>: a wrapper of a Chroma collection that erases the vectors before it lets Chroma forget the ids. The
  collection is outside the repository: its calls are the parameter \<open>K\<close>, over a state of its own. The properties take the hnswlib adapter as backend.
\<close>

section \<open>The wrapper\<close>

record 'k chroma_collection =
  ck_name :: "string option"
  ck_add :: "string list \<Rightarrow> np_array option \<Rightarrow> string list option \<Rightarrow> json list option \<Rightarrow> 'k \<Rightarrow> unit res \<times> 'k"
  ck_delete_ids :: "string list \<Rightarrow> 'k \<Rightarrow> unit res \<times> 'k"
  ck_delete_where :: "json option \<Rightarrow> 'k \<Rightarrow> unit res \<times> 'k"
  ck_query :: "json \<Rightarrow> 'k \<Rightarrow> json res"
  ck_get :: "json \<Rightarrow> 'k \<Rightarrow> json res"

record chroma_hook =
  hk_name :: string
  hk_fail_closed :: bool

definition chroma_init :: "'k chroma_collection \<Rightarrow> string option \<Rightarrow> bool \<Rightarrow> chroma_hook" where
  "chroma_init K collection_name fail_closed =
    \<lparr>hk_name = (let dflt = (case ck_name K of Some n \<Rightarrow> n | None \<Rightarrow> ''default'')
                in case collection_name of Some n \<Rightarrow> if n = [] then dflt else n | None \<Rightarrow> dflt),
     hk_fail_closed = fail_closed\<rparr>"

fun register_each :: "string \<Rightarrow> string list \<Rightarrow> id_registry \<Rightarrow> unit res \<times> id_registry" where
  "register_each c [] r = (Inr (), r)"
| "register_each c (x # xs) r =
    (case register c x None r of (Inl e, r1) \<Rightarrow> (Inl e, r1) | (Inr _, r1) \<Rightarrow> register_each c xs r1)"

text \<open>\<open>badd\<close> is the \<open>add\<close> of the backend, when it has one.\<close>

definition chroma_add ::
  "'k chroma_collection \<Rightarrow> (string option \<Rightarrow> string list \<Rightarrow> np_array \<Rightarrow> id_registry \<times> 'w \<Rightarrow> int list res \<times> id_registry \<times> 'w) option
    \<Rightarrow> chroma_hook \<Rightarrow> string list \<Rightarrow> np_array option \<Rightarrow> string list option \<Rightarrow> json list option \<Rightarrow> 'w service \<times> 'k
    \<Rightarrow> unit res \<times> 'w service \<times> 'k" where
  "chroma_add K badd hk ids embeddings documents metadatas sk =
    (case sk of (s, k) \<Rightarrow>
      let (res, r1, w1) =
            (case (embeddings, badd) of
               (Some e, Some add) \<Rightarrow>
                 (case add (Some (hk_name hk)) ids e (sv_registry s, sv_world s) of
                    (Inl x, r1, w1) \<Rightarrow> (Inl x, r1, w1)
                  | (Inr _, r1, w1) \<Rightarrow> (Inr (), r1, w1))
             | _ \<Rightarrow> (case register_each (hk_name hk) ids (sv_registry s) of (res, r1) \<Rightarrow> (res, r1, sv_world s)));
          s1 = s\<lparr>sv_registry := r1, sv_world := w1\<rparr>
      in case res of
           Inl e \<Rightarrow> (Inl e, s1, k)
         | Inr _ \<Rightarrow> (case ck_add K ids embeddings documents metadatas k of (q, k1) \<Rightarrow> (q, s1, k1)))"

text \<open>\<open>repr\<close> of a list of strings.\<close>

definition str_list_repr :: "string list \<Rightarrow> string" where
  "str_list_repr xs = ''['' @ join_with '', '' (map py_repr xs) @ '']''"

definition chroma_delete ::
  "'k chroma_collection \<Rightarrow> 'w backend \<Rightarrow> service_config \<Rightarrow> service_env \<Rightarrow> chroma_hook \<Rightarrow> string list option \<Rightarrow> string option \<Rightarrow> string option
    \<Rightarrow> int \<Rightarrow> json option \<Rightarrow> compact_arg option \<Rightarrow> string option \<Rightarrow> 'w service \<times> 'k
    \<Rightarrow> erasure_receipt option res \<times> 'w service \<times> 'k" where
  "chroma_delete K b cfg env hk ids reason request_id max_m where_filter compact_opt residual_proof sk =
    (case sk of (s, k) \<Rightarrow>
     case ids of
       Some (x # xs) \<Rightarrow>
         (case delete b cfg env (hk_name hk) (x # xs) reason request_id max_m True compact_opt residual_proof None s of
            (Inl e, s1) \<Rightarrow> (Inl e, s1, k)
          | (Inr r, s1) \<Rightarrow>
              if \<not> rc_success r \<and> hk_fail_closed hk
              then (Inl (RuntimeError (''hard erase failed; refusing Chroma soft-delete to avoid residual vectors: status=''
                      @ status_str (rc_status r) @ '' errors='' @ str_list_repr (rc_errors r))), s1, k)
              else (case ck_delete_ids K (x # xs) k of
                      (Inl e, k1) \<Rightarrow> (Inl e, s1, k1)
                    | (Inr _, k1) \<Rightarrow> (Inr (Some r), s1, k1)))
     | _ \<Rightarrow>
         (case ck_delete_where K where_filter k of
            (Inl e, k1) \<Rightarrow> (Inl e, s, k1)
          | (Inr _, k1) \<Rightarrow> (Inr None, s, k1)))"

definition chroma_query :: "'k chroma_collection \<Rightarrow> json \<Rightarrow> 'w service \<times> 'k \<Rightarrow> json res" where
  "chroma_query K args sk = ck_query K args (snd sk)"

definition chroma_get :: "'k chroma_collection \<Rightarrow> json \<Rightarrow> 'w service \<times> 'k \<Rightarrow> json res" where
  "chroma_get K args sk = ck_get K args (snd sk)"

definition require_chromadb :: "bool \<Rightarrow> unit res" where
  "require_chromadb available =
    (if available then Inr () else Inl (OtherError ''chromadb is required. Install with: pip install chromadb''))"

section \<open>Properties\<close>

text \<open>
  Fail-closed: when a delete by ids through the wrapper reaches Chroma at all, every given id had a label and the vector of each of them is zero in the
  adapter; otherwise Chroma is untouched. So Chroma never forgets an id whose vector is still there.
\<close>

theorem chroma_forgets_only_erased:
  assumes "reg_ok (sv_registry s)" "ids \<noteq> []" "hk_fail_closed hk"
    and "chroma_delete K (hnswlib_backend L v files) cfg env hk (Some ids) reason rid m flt carg rp (s, k) = (res, s', k')"
    and "k' \<noteq> k"
  shows "\<forall>x\<in>set (clean_ids ids). \<exists>l. id_view (sv_registry s) (hk_name hk) x = Some l \<and> ms_zero (ha_store (sv_world s')) l"
proof -
  obtain q s1 where d: "delete (hnswlib_backend L v files) cfg env (hk_name hk) ids reason rid m True carg rp None s = (q, s1)" by fastforce
  obtain r where r: "q = Inr r" "rc_success r" "s' = s1"
    using assms(2-5) d by (cases ids) (auto simp: chroma_delete_def split: sum.splits if_splits prod.splits)
  have run: "delete (hnswlib_backend L v files) cfg env (hk_name hk) ids reason rid m True carg rp None s = (Inr r, s')" using d r by simp
  have "rc_status r = complete"
    using run r(2) by (cases rule: delete_steps) (auto dest: finish_delete_simps(3))
  then have "list_all2 (\<lambda>l x. id_view (sv_registry s) (hk_name hk) x = Some l) (rc_labels r) (clean_ids ids)"
    using delete_registry [OF assms(1) run] by blast
  moreover have "\<forall>l\<in>set (rc_labels r). ms_zero (ha_store (sv_world s')) l"
    by (rule hnswlib.delete_labels_zero [OF assms(1) run])
  ultimately show ?thesis by (auto simp: list_all2_conv_all_nth in_set_conv_nth) (metis nth_mem)
qed

text \<open>A collection that keeps the set of its ids.\<close>

definition demo_chroma :: "string list chroma_collection" where
  "demo_chroma = \<lparr>ck_name = Some ''users'', ck_add = (\<lambda>ids e d m k. (Inr (), k @ ids)),
     ck_delete_ids = (\<lambda>ids k. (Inr (), filter (\<lambda>x. x \<notin> set ids) k)), ck_delete_where = (\<lambda>w k. (Inr (), [])),
     ck_query = (\<lambda>a k. Inr JNull), ck_get = (\<lambda>a k. Inr (JList (map JStr k)))\<rparr>"

lemma demo_chroma_run: "bt_errors (snd (snd demo_ha_loop)) = []" "bt_labels (snd (snd demo_ha_loop)) = [0]"
  by code_simp+

lemma chroma_forgets_only_erased_witness:
  "\<exists>res s'. chroma_delete demo_chroma (hnswlib_backend demo_lib demo_env (\<lambda>_ _. None)) demo_config demo_senv (chroma_init demo_chroma None True)
      (Some [''alice'']) None None 16 None (Some (CStr ''never'')) (Some ''off'') (service_over (fst demo_ha) (snd demo_ha), [''alice'', ''bob''])
        = (res, s', [''bob''])
    \<and> (\<exists>l. id_view (fst demo_ha) ''users'' ''alice'' = Some l \<and> ms_zero (ha_store (sv_world s')) l)"
proof -
  let ?hk = "chroma_init demo_chroma None True" and ?s = "service_over (fst demo_ha) (snd demo_ha)"
  let ?b = "hnswlib_backend demo_lib demo_env (\<lambda>_ _. None)"
  have hk: "hk_name ?hk = ''users''" "hk_fail_closed ?hk" by (simp_all add: chroma_init_def demo_chroma_def)
  have ids: "clean_ids [''alice''] = [''alice'']" by code_simp
  obtain s1 bt1 where l: "demo_ha_loop = (None, s1, bt1)" using demo_ha_run(1) by (metis prod.collapse)
  have bt: "bt_errors bt1 = []" "bt_labels bt1 = [0]" using demo_chroma_run unfolding l by (simp_all only: snd_conv)
  have "erase_loop ?b demo_config True False ''users'' 16 (clean_ids [''alice'']) (?s, empty_batch []) = (None, s1, bt1)"
    using l unfolding demo_ha_loop_def ids .
  from uncompacted_delete [OF this, of demo_senv None None None] obtain r s' where
    d: "delete ?b demo_config demo_senv ''users'' [''alice''] None None 16 True (Some (CStr ''never'')) (Some ''off'') None ?s = (Inr r, s')"
      "rc_status r = derive_status (int (length (clean_ids [''alice'']))) (int (length (bt_labels bt1))) (bt_errors bt1) ''off'' None False" by blast
  have "rc_status r = complete" unfolding d(2) bt ids by (simp add: derive_status_complete_iff)
  with d(1) have "rc_success r" by (cases rule: delete_steps) (auto dest: finish_delete_simps(3))
  then have run: "chroma_delete demo_chroma ?b demo_config demo_senv ?hk (Some [''alice'']) None None 16 None (Some (CStr ''never'')) (Some ''off'')
      (?s, [''alice'', ''bob'']) = (Inr (Some r), s', [''bob''])"
    using d(1) hk by (simp add: chroma_delete_def) (simp add: demo_chroma_def)
  have ok: "reg_ok (sv_registry ?s)" using demo_ha_ok(1) by (simp add: service_over_def)
  have ne: "[''alice''] \<noteq> []" "[''bob''] \<noteq> [''alice'', ''bob'']" by simp_all
  have "\<forall>x\<in>set (clean_ids [''alice'']). \<exists>l. id_view (sv_registry ?s) (hk_name ?hk) x = Some l \<and> ms_zero (ha_store (sv_world s')) l"
    by (rule chroma_forgets_only_erased [OF ok ne(1) hk(2) run ne(2)])
  then show ?thesis using run hk(1) ids by (simp add: service_over_def)
qed

end
