(* ===== verification/FaissAdapter.thy ===== *)
theory FaissAdapter
  imports MatrixStore
begin

text \<open>
  \<open>integrations/faiss_adapter.py\<close>: a matrix, an HNSW index of the faiss package behind an id map (the parameter \<open>L\<close>, in
  which dimension, metric and parameters are fixed) and an optional heal mirror. \<open>lb_drop\<close> is \<open>remove_ids\<close>; its result is the number
  of removed items. The list \<open>_row_to_label\<close> of the class is written and never read; it is left out.
\<close>

section \<open>The adapter\<close>

record 'x faiss_adapter =
  fa_collection :: string
  fa_store :: mstore
  fa_index :: 'x
  fa_mirror :: "hnsw_index option"
  fa_tick :: nat

definition fa_new_index :: "'x ann_lib \<Rightarrow> 'x res" where
  "fa_new_index L = (case lb_new L 0 of (Inl e, _) \<Rightarrow> Inl e | (Inr _, x) \<Rightarrow> Inr x)"

definition fa_init ::
  "'x ann_lib \<Rightarrow> bool \<Rightarrow> bool \<Rightarrow> int \<Rightarrow> bool \<Rightarrow> string \<Rightarrow> id_registry \<Rightarrow> 'x faiss_adapter res \<times> id_registry" where
  "fa_init L lib_available healer_available dm enable_heal_mirror collection r =
    (if \<not> lib_available
     then (Inl (OtherError ''faiss is required for FaissHNSWHardDeleteAdapter. Install with: pip install faiss-cpu''), r)
     else if dm \<le> 0 then (Inl (ValueError ''dim must be positive''), r)
     else case ensure_collection collection r of
       (Inl e, r1) \<Rightarrow> (Inl e, r1)
     | (Inr _, r1) \<Rightarrow>
         (case fa_new_index L of
            Inl e \<Rightarrow> (Inl e, r1)
          | Inr x \<Rightarrow>
              (Inr \<lparr>fa_collection = collection, fa_store = ms_new (nat dm), fa_index = x,
                    fa_mirror = (if enable_heal_mirror \<and> healer_available then Some empty_index else None), fa_tick = 0\<rparr>, r1)))"

subsection \<open>Ingest\<close>

definition fa_append_row :: "int \<Rightarrow> f32 list \<Rightarrow> mstore \<Rightarrow> mstore" where
  "fa_append_row l v s = (if ms_has s l then undelete l (put_row l v s) else put_row l v s)"

text \<open>The loop of \<open>add\<close>: the labels, and the rows and labels to add to the index.\<close>

fun fa_register_rows ::
  "string \<Rightarrow> (string \<times> f32 list) list \<Rightarrow> id_registry \<times> mstore
    \<Rightarrow> (int list \<times> (f32 list \<times> int) list) res \<times> id_registry \<times> mstore" where
  "fa_register_rows c [] rs = (Inr ([], []), rs)"
| "fa_register_rows c ((ext, v) # rest) (r, s) =
    (case register c ext None r of
       (Inl e, r1) \<Rightarrow> (Inl e, r1, s)
     | (Inr l, r1) \<Rightarrow>
         let s1 = fa_append_row l v s
         in (case fa_register_rows c rest (r1, s1) of
               (Inl e, rs) \<Rightarrow> (Inl e, rs)
             | (Inr (ls, xs), rs) \<Rightarrow> (Inr (l # ls, if l \<notin> ms_deleted s1 then (v, l) # xs else xs), rs)))"

definition fa_sync :: "'x faiss_adapter \<Rightarrow> unit res \<times> 'x faiss_adapter" where
  "fa_sync a = (case sync_heal_mirror (fa_store a) (fa_mirror a) of (r, mo) \<Rightarrow> (r, a\<lparr>fa_mirror := mo\<rparr>))"

definition fa_add ::
  "'x ann_lib \<Rightarrow> string option \<Rightarrow> string list \<Rightarrow> np_array \<Rightarrow> id_registry \<times> 'x faiss_adapter
    \<Rightarrow> int list res \<times> id_registry \<times> 'x faiss_adapter" where
  "fa_add L coll ids vecs ra =
    (case ra of (r, a) \<Rightarrow>
     case check_shapes (ms_dim (fa_store a)) ids vecs of
       Inl e \<Rightarrow> (Inl e, r, a)
     | Inr rows \<Rightarrow>
         (case fa_register_rows (case coll of Some c \<Rightarrow> (if c = [] then fa_collection a else c) | None \<Rightarrow> fa_collection a)
                  (zip ids rows) (r, fa_store a) of
            (Inl e, r1, s1) \<Rightarrow> (Inl e, r1, a\<lparr>fa_store := s1\<rparr>)
          | (Inr (labels, xs), r1, s1) \<Rightarrow>
              (case (if xs = [] then (Inr (), fa_index a) else lb_add L (map fst xs) (map snd xs) (fa_index a)) of
                 (Inl e, x1) \<Rightarrow> (Inl e, r1, a\<lparr>fa_store := s1, fa_index := x1\<rparr>)
               | (Inr _, x1) \<Rightarrow>
                   (case fa_sync (a\<lparr>fa_store := s1, fa_index := x1\<rparr>) of
                      (Inl e, a2) \<Rightarrow> (Inl e, r1, a2)
                    | (Inr _, a2) \<Rightarrow> (Inr labels, r1, a2)))))"

subsection \<open>The backend protocol\<close>

definition fa_hard_delete_label ::
  "'x ann_lib \<Rightarrow> 'd penv \<Rightarrow> string \<Rightarrow> int \<Rightarrow> int \<Rightarrow> 'x faiss_adapter \<Rightarrow> backend_erase_result res \<times> 'x faiss_adapter" where
  "fa_hard_delete_label L v collection label max_m a =
    (case dget (ms_row_of (fa_store a)) label of
       None \<Rightarrow> (Inr \<lparr>br_success = False, br_label = label, br_bytes_wiped = 0, br_message = Some ''unknown label'', br_compacted = False\<rparr>, a)
     | Some i \<Rightarrow>
         if length (ms_rows (fa_store a)) \<le> i then (Inl (OtherError ''IndexError''), a)
         else
         let (nrem, x1) = lb_drop L label (fa_index a);
             removed = (case nrem of Inl e \<Rightarrow> False | Inr n \<Rightarrow> 0 < n);
             (said, mo) = mirror_erase v (fa_tick a) i max_m (fa_mirror a)
         in (Inr \<lparr>br_success = True, br_label = label, br_bytes_wiped = row_bytes_of (fa_store a),
                  br_message = Some (''zeroed'' @ (if removed then ''+remove_ids'' else ''+pending_compact'') @ said), br_compacted = False\<rparr>,
             a\<lparr>fa_store := mark_deleted label (wipe_row label (fa_store a)), fa_index := x1, fa_mirror := mo,
               fa_tick := Suc (fa_tick a)\<rparr>))"

definition fa_query :: "'x ann_lib \<Rightarrow> f32 list \<Rightarrow> int \<Rightarrow> 'x faiss_adapter \<Rightarrow> (int list \<times> f32 list) res" where
  "fa_query L q k a = lb_query L q k (fa_index a)"

definition fa_compact :: "'x ann_lib \<Rightarrow> 'x faiss_adapter \<Rightarrow> int res \<times> 'x faiss_adapter" where
  "fa_compact L a =
    (let live = live_items (fa_store a)
     in case fa_new_index L of
          Inl e \<Rightarrow> (Inl e, a)
        | Inr x0 \<Rightarrow>
            (case (if live = [] then (Inr (), x0) else lb_add L (map snd live) (map fst live) x0) of
               (Inl e, x1) \<Rightarrow> (Inl e, a\<lparr>fa_index := x1\<rparr>)
             | (Inr _, x1) \<Rightarrow>
                 (case fa_sync (a\<lparr>fa_index := x1\<rparr>) of
                    (Inl e, a1) \<Rightarrow> (Inl e, a1)
                  | (Inr _, a1) \<Rightarrow> (Inr (int (length live)), a1))))"

definition fa_save_index :: "'x ann_lib \<Rightarrow> 'x faiss_adapter \<Rightarrow> bytes res" where
  "fa_save_index L a = lb_save L (fa_index a)"

definition fa_load_index :: "'x ann_lib \<Rightarrow> bytes \<Rightarrow> 'x faiss_adapter \<Rightarrow> unit res \<times> 'x faiss_adapter" where
  "fa_load_index L file a = (case lb_load L file 0 of (Inl e, _) \<Rightarrow> (Inl e, a) | (Inr u, x) \<Rightarrow> (Inr u, a\<lparr>fa_index := x\<rparr>))"

definition faiss_backend ::
  "'x ann_lib \<Rightarrow> 'd penv \<Rightarrow> ('x faiss_adapter \<Rightarrow> string \<Rightarrow> bytes option) \<Rightarrow> 'x faiss_adapter backend" where
  "faiss_backend L v files = \<lparr>
     bk_hard_delete = fa_hard_delete_label L v,
     bk_verify_zeroed = (\<lambda>c l a. ms_verify_zeroed l (fa_store a)),
     bk_get_vector = Some (\<lambda>l a. ms_get_vector l (fa_store a)),
     bk_compact = Some (fa_compact L),
     bk_num_vectors = Some (\<lambda>a. int (length (ms_rows (fa_store a)))),
     bk_heal_mirror = True, bk_persistence = None, bk_files = files\<rparr>"

section \<open>The contract\<close>

lemma fa_sync_keeps: "fa_sync a = (r, a') \<Longrightarrow> fa_store a' = fa_store a \<and> fa_index a' = fa_index a"
  by (auto simp: fa_sync_def split: prod.splits)

lemma fa_compact_store: "fa_compact L a = (r, a') \<Longrightarrow> fa_store a' = fa_store a"
  by (auto simp: fa_compact_def Let_def dest!: fa_sync_keeps split: prod.splits sum.splits if_splits)

lemma fa_delete_store:
  "fa_hard_delete_label L v c l m a = (r, a') \<Longrightarrow>
    fa_store a' = fa_store a \<or> fa_store a' = wipe_row l (fa_store a)
    \<or> ms_has (fa_store a) l \<and> fa_store a' = mark_deleted l (wipe_row l (fa_store a))"
  by (auto simp: fa_hard_delete_label_def Let_def ms_has_def split: option.splits prod.splits if_splits)

interpretation faiss: matrix_backend "faiss_backend L v files" fa_store
  for L :: "'x ann_lib" and v :: "'d penv" and files
  by unfold_locales (auto simp: faiss_backend_def dest: fa_delete_store fa_compact_store)

section \<open>Properties\<close>

lemma fa_compact_labels:
  assumes "lib_ok L" "fa_compact L a = (Inr n, a')"
  shows "lb_labels L (fa_index a') \<subseteq> fst ` set (live_items (fa_store a))"
proof -
  let ?live = "live_items (fa_store a)"
  obtain u x0 where new: "lb_new L 0 = (Inr u, x0)" using assms(2) by (auto simp: fa_compact_def fa_new_index_def split: prod.splits sum.splits)
  obtain r1 x1 where add: "lb_add L (map snd ?live) (map fst ?live) x0 = (r1, x1)" by fastforce
  have "lb_labels L x0 = {}" by (rule lib_new [OF assms(1) new])
  moreover have "lb_labels L x1 \<subseteq> lb_labels L x0 \<union> fst ` set ?live" using lib_add(1) [OF assms(1) add] by simp
  moreover have "fa_index a' \<in> {x0, x1}"
    using assms(2) new add by (auto simp: fa_compact_def fa_new_index_def Let_def dest!: fa_sync_keeps split: prod.splits sum.splits if_splits)
  ultimately show ?thesis by auto
qed

lemma fa_compact_mirror:
  assumes "fa_compact L a = (Inr n, a')" "ms_zero (fa_store a) l" "dget (ms_row_of (fa_store a)) l = Some i"
  shows "mirror_zero (fa_mirror a') i"
proof -
  obtain x1 u where "fa_sync (a\<lparr>fa_index := x1\<rparr>) = (Inr u, a')"
    using assms(1) by (auto simp: fa_compact_def Let_def split: prod.splits sum.splits if_splits)
  then have "sync_heal_mirror (fa_store a) (fa_mirror a) = (Inr u, fa_mirror a')"
    by (auto simp: fa_sync_def split: prod.splits)
  then show ?thesis using assms(2,3) by (rule sync_zero)
qed

lemma fa_register_rows_ok:
  assumes "reg_ok r" "ms_ok s" "list_all (\<lambda>(x, v). length v = ms_dim s) xs" "fa_register_rows c xs (r, s) = (res, r', s')"
  shows "reg_ok r' \<and> ms_ok s'"
  using assms
proof (induction c xs "(r, s)" arbitrary: r s res r' s' rule: fa_register_rows.induct)
  case (1 c r s)
  then show ?case by simp
next
  case (2 c ext v rest r s)
  obtain q r1 where reg: "register c ext None r = (q, r1)" by fastforce
  have ok1: "reg_ok r1" using reg_step_ok [OF 2(2), of "RegisterOp c ext None"] reg by simp
  show ?case
  proof (cases q)
    case (Inl e)
    then show ?thesis using 2(3,5) reg ok1 by simp
  next
    case (Inr l)
    let ?s = "fa_append_row l v s"
    have s1: "ms_ok ?s" "ms_dim ?s = ms_dim s" using 2(3,4) by (simp_all add: fa_append_row_def ms_ok_put ms_ok_undelete)
    obtain q2 r2 s2 where rec: "fa_register_rows c rest (r1, ?s) = (q2, r2, s2)" by (rule prod_cases3)
    have "reg_ok r2 \<and> ms_ok s2" using 2(1) [OF reg [unfolded Inr, symmetric] refl refl ok1 s1(1) _ rec] 2(4) s1(2) by simp
    then show ?thesis using 2(5) reg Inr rec by (auto simp: Let_def split: sum.splits)
  qed
qed

lemma fa_add_ok:
  assumes "reg_ok r" "ms_ok (fa_store a)" "np_ok vecs" "fa_add L coll ids vecs (r, a) = (res, r', a')"
  shows "reg_ok r' \<and> ms_ok (fa_store a')"
proof (cases "check_shapes (ms_dim (fa_store a)) ids vecs")
  case (Inl e)
  then show ?thesis using assms by (simp add: fa_add_def)
next
  case (Inr rows)
  have dims: "list_all (\<lambda>(x, v). length v = ms_dim (fa_store a)) (zip ids rows)"
    using check_shapes_Inr [OF Inr assms(3)] by (auto simp: list_all_iff dest: set_zip_rightD)
  let ?c = "case coll of Some c \<Rightarrow> (if c = [] then fa_collection a else c) | None \<Rightarrow> fa_collection a"
  obtain q r1 s1 where reg: "fa_register_rows ?c (zip ids rows) (r, fa_store a) = (q, r1, s1)" by (rule prod_cases3)
  have "r' = r1 \<and> fa_store a' = s1"
    using assms(4) Inr reg unfolding fa_add_def
    by (auto simp: Let_def dest!: fa_sync_keeps split: sum.splits prod.splits if_splits)
  then show ?thesis using fa_register_rows_ok [OF assms(1,2) dims reg] by simp
qed

text \<open>
  A receipt of a delete over the FAISS adapter that says \<open>compacted\<close> leaves no copy of an erased vector in the adapter: the matrix
  row is zero, the new index has no item of the label, and the row in the heal mirror is zero.
\<close>

theorem faiss_compacted_leaves_no_copy:
  assumes "lib_ok L" "reg_ok (sv_registry s)" "ms_ok (fa_store (sv_world s))"
    and "delete (faiss_backend L v files) cfg env c ids reason rid m idem carg rp ckpt s = (Inr r, s')" "rc_compacted r"
    and "l \<in> set (rc_labels r)"
  shows "ms_zero (fa_store (sv_world s')) l \<and> l \<notin> lb_labels L (fa_index (sv_world s'))
    \<and> (\<forall>i. dget (ms_row_of (fa_store (sv_world s'))) l = Some i \<longrightarrow> mirror_zero (fa_mirror (sv_world s')) i)"
  by (rule faiss.compacted_not_in_index [OF assms(2-6)])
    (auto simp: faiss_backend_def dest: fa_compact_labels [OF assms(1)] fa_compact_mirror)

definition demo_fa :: "id_registry \<times> (int \<times> bool) list faiss_adapter" where
  "demo_fa = snd (fa_add demo_lib None [''alice'', ''bob''] (Arr2 2 [[1, 2], [3, 4]]) (demo_registry,
     \<lparr>fa_collection = ''users'', fa_store = ms_new 2, fa_index = [], fa_mirror = Some empty_index, fa_tick = 0\<rparr>))"

definition demo_fa_loop :: "exn option \<times> (int \<times> bool) list faiss_adapter service \<times> batch" where
  "demo_fa_loop = erase_loop (faiss_backend demo_lib demo_env (\<lambda>_ _. None)) demo_config True False ''users'' 16 [''alice'']
     (service_over (fst demo_fa) (snd demo_fa), empty_batch [])"

definition demo_fa_compact :: "bool \<times> bool \<times> (int \<times> bool) list faiss_adapter service \<times> batch" where
  "demo_fa_compact = compact_block (faiss_backend demo_lib demo_env (\<lambda>_ _. None)) ''always'' 1 (snd demo_fa_loop)"

lemma demo_fa_run: "fst demo_fa_loop = None" "fst demo_fa_compact" "bt_labels (snd (snd (snd demo_fa_compact))) = [0]"
  "fa_index (snd demo_fa) = [(0, False), (1, False)]"
  by code_simp+

lemma faiss_compacted_leaves_no_copy_witness:
  "\<exists>r s'. delete (faiss_backend demo_lib demo_env (\<lambda>_ _. None)) demo_config demo_senv ''users'' [''alice''] None None 16 True
      (Some (CStr ''always'')) (Some ''off'') None (service_over (fst demo_fa) (snd demo_fa)) = (Inr r, s')
    \<and> rc_labels r = [0] \<and> 0 \<notin> lb_labels demo_lib (fa_index (sv_world s'))"
proof -
  obtain s1 bt1 where l: "demo_fa_loop = (None, s1, bt1)" using demo_fa_run(1) by (metis prod.collapse)
  obtain df s2 bt2 where c: "demo_fa_compact = (True, df, s2, bt2)" using demo_fa_run(2) by (metis prod.collapse)
  have b: "bt_labels bt2 = [0]" using demo_fa_run(3) unfolding c by (simp only: snd_conv)
  have ids: "clean_ids [''alice''] = [''alice'']" by code_simp
  obtain r s' where d: "delete (faiss_backend demo_lib demo_env (\<lambda>_ _. None)) demo_config demo_senv ''users'' [''alice''] None None 16 True
      (Some (CStr ''always'')) (Some ''off'') None (service_over (fst demo_fa) (snd demo_fa)) = (Inr r, s')" "rc_compacted r" "rc_labels r = [0]"
    using compacting_delete [of "faiss_backend demo_lib demo_env (\<lambda>_ _. None)" demo_config True "''users''" 16 "[''alice'']"
        "service_over (fst demo_fa) (snd demo_fa)" s1 bt1 demo_senv df s2 bt2 None None None] l c b
    unfolding demo_fa_loop_def demo_fa_compact_def ids by (auto simp: demo_senv_def)
  have "reg_ok demo_registry" using demo_registry_ok [of "[]"] by (simp add: reg_run_def)
  then have "reg_ok (fst demo_fa) \<and> ms_ok (fa_store (snd demo_fa))"
    using fa_add_ok [of demo_registry "\<lparr>fa_collection = ''users'', fa_store = ms_new 2, fa_index = [], fa_mirror = Some empty_index, fa_tick = 0\<rparr>"
        "Arr2 2 [[1, 2], [3, 4]]" demo_lib None "[''alice'', ''bob'']"] by (simp add: demo_fa_def prod_eq_iff)
  then have st: "reg_ok (sv_registry (service_over (fst demo_fa) (snd demo_fa)))" "ms_ok (fa_store (sv_world (service_over (fst demo_fa) (snd demo_fa))))"
    by (simp_all add: service_over_def)
  have m: "0 \<in> set (rc_labels r)" using d(3) by simp
  show ?thesis using faiss_compacted_leaves_no_copy [OF demo_lib_ok st d(1,2) m] d by blast
qed

end
