(* ===== verification/PointStore.thy ===== *)
theory PointStore
  imports MatrixStore
begin

text \<open>
  What the adapters over vector databases share: each vector is also a point of a database, under the business id. The theory relates
  the registry, the matrix, the dict \<open>_label_to_ext\<close> and the points served to clients, and shows that the erasure service over such an
  adapter is a map from ids to vectors: adding updates it, deleting removes ids, compacting changes nothing.
\<close>

section \<open>Registering rows\<close>

text \<open>The loop of \<open>add\<close>, in both adapters.\<close>

fun point_rows ::
  "string \<Rightarrow> (string \<times> f32 list) list \<Rightarrow> id_registry \<times> mstore \<times> (int, string) dict
    \<Rightarrow> int list res \<times> id_registry \<times> mstore \<times> (int, string) dict" where
  "point_rows c [] rsx = (Inr [], rsx)"
| "point_rows c ((ext, v) # rest) (r, s, x) =
    (case register c ext None r of
       (Inl e, r1) \<Rightarrow> (Inl e, r1, s, x)
     | (Inr l, r1) \<Rightarrow>
         (case point_rows c rest (r1, undelete l (put_row l v s), dset l ext x) of
            (Inl e, rsx) \<Rightarrow> (Inl e, rsx)
          | (Inr ls, rsx) \<Rightarrow> (Inr (l # ls), rsx)))"

text \<open>\<open>self._label_to_ext.get(lab, str(lab))\<close>, and the points that a compaction writes.\<close>

definition ext_of :: "(int, string) dict \<Rightarrow> int \<Rightarrow> string" where
  "ext_of x l = (case dget x l of Some e \<Rightarrow> e | None \<Rightarrow> int_str l)"

definition live_points :: "mstore \<Rightarrow> (int, string) dict \<Rightarrow> (string \<times> f32 list) list" where
  "live_points s x = map (\<lambda>(l, v). (ext_of x l, v)) (live_items s)"

text \<open>Storing and removing a list of points in a dict.\<close>

lemma dget_foldl_dset: "dget (foldl (\<lambda>d (p, v). dset p v d) d pvs) = dget d ++ map_of (rev pvs)"
proof (induction pvs arbitrary: d)
  case (Cons a pvs)
  obtain p v where a: "a = (p, v)" by fastforce
  have "dget (dset p v d) = (dget d)(p \<mapsto> v)" by (simp add: fun_eq_iff)
  then have "dget (foldl (\<lambda>d (p, v). dset p v d) d (a # pvs)) = (dget d)(p \<mapsto> v) ++ map_of (rev pvs)"
    unfolding foldl_Cons a prod.case Cons.IH by (rule arg_cong)
  then show ?case by (simp add: a fun_eq_iff map_add_def map_of_append split: option.splits)
qed simp

lemma dget_foldl_ddel: "dget (foldl (\<lambda>d p. ddel p d) d ps) p = (if p \<in> set ps then None else dget d p)"
  by (induction ps arbitrary: d) auto

section \<open>The invariant\<close>

definition live :: "mstore \<Rightarrow> int \<Rightarrow> bool" where
  "live s l \<longleftrightarrow> ms_has s l \<and> l \<notin> ms_deleted s"

text \<open>
  For the collection \<open>c\<close>: labels in the matrix have been given out and have an id; a live label is the label of its id; a mapped label in the
  matrix has the id it is mapped from; live rows are not zero; the points are the live rows under their ids.
\<close>

definition served_inv ::
  "string \<Rightarrow> id_registry \<Rightarrow> mstore \<Rightarrow> (int, string) dict \<Rightarrow> (string \<Rightarrow> f32 list option) \<Rightarrow> bool" where
  "served_inv c r s x pts \<longleftrightarrow>
     reg_ok r \<and> ms_ok s \<and> py_strip c \<noteq> []
     \<and> (\<forall>l. ms_has s l \<longrightarrow> l < next_of r (py_strip c) \<and> dget x l \<noteq> None)
     \<and> (\<forall>l e. live s l \<and> dget x l = Some e \<longrightarrow> id_view r c e = Some l)
     \<and> (\<forall>l e. ms_has s l \<and> id_view r c e = Some l \<longrightarrow> dget x l = Some (py_strip e))
     \<and> (\<forall>l v. live s l \<and> ms_view s l = Some v \<longrightarrow> \<not> all_zero v)
     \<and> (\<forall>p v. pts p = Some v \<longleftrightarrow> (\<exists>l. live s l \<and> dget x l = Some p \<and> ms_view s l = Some v))"

lemma served_invD:
  assumes "served_inv c r s x pts"
  shows "reg_ok r" "ms_ok s" "py_strip c \<noteq> []" "ms_has s l \<Longrightarrow> l < next_of r (py_strip c)" "ms_has s l \<Longrightarrow> \<exists>e. dget x l = Some e"
    "live s l \<Longrightarrow> dget x l = Some e \<Longrightarrow> id_view r c e = Some l"
    "ms_has s l \<Longrightarrow> id_view r c e = Some l \<Longrightarrow> dget x l = Some (py_strip e)"
    "live s l \<Longrightarrow> ms_view s l = Some v \<Longrightarrow> \<not> all_zero v"
    "pts p = Some v \<longleftrightarrow> (\<exists>l. live s l \<and> dget x l = Some p \<and> ms_view s l = Some v)"
  using assms unfolding served_inv_def by blast+

lemma served_invI:
  assumes "reg_ok r" "ms_ok s" "py_strip c \<noteq> []" "\<And>l. ms_has s l \<Longrightarrow> l < next_of r (py_strip c)" "\<And>l. ms_has s l \<Longrightarrow> dget x l \<noteq> None"
    "\<And>l e. live s l \<Longrightarrow> dget x l = Some e \<Longrightarrow> id_view r c e = Some l"
    "\<And>l e. ms_has s l \<Longrightarrow> id_view r c e = Some l \<Longrightarrow> dget x l = Some (py_strip e)"
    "\<And>l v. live s l \<Longrightarrow> ms_view s l = Some v \<Longrightarrow> \<not> all_zero v"
    "\<And>p v. pts p = Some v \<longleftrightarrow> (\<exists>l. live s l \<and> dget x l = Some p \<and> ms_view s l = Some v)"
  shows "served_inv c r s x pts"
  unfolding served_inv_def using assms by (intro conjI allI impI) blast+

declare id_view_strip [simp]

lemma id_view_cong: "py_strip e = py_strip f \<Longrightarrow> id_view r c e = id_view r c f"
  by (simp add: id_view_def)

lemma has_view: "ms_has s l \<longleftrightarrow> (\<exists>v. ms_view s l = Some v)"
  by (auto simp: ms_has_def ms_view_def)

lemma served_none: "served_inv c r s x pts \<Longrightarrow> \<forall>l. live s l \<longrightarrow> id_view r c e \<noteq> Some l \<Longrightarrow> pts (py_strip e) = None"
proof (rule ccontr)
  assume inv: "served_inv c r s x pts" and n: "\<forall>l. live s l \<longrightarrow> id_view r c e \<noteq> Some l" and "pts (py_strip e) \<noteq> None"
  then obtain l where "live s l" "dget x l = Some (py_strip e)" using served_invD(9) [OF inv, of "py_strip e"] by blast
  then show False using served_invD(6) [OF inv] n by fastforce
qed

lemma served_inv_erase:
  assumes inv: "served_inv c r s x pts" and v: "id_view r c e = Some l" and has: "ms_has s l"
  shows "served_inv c r (mark_deleted l (wipe_row l s)) x (pts(py_strip e := None))"
proof -
  let ?s = "mark_deleted l (wipe_row l s)"
  have ext: "dget x l = Some (py_strip e)" by (rule served_invD(7) [OF inv has v])
  have lv: "live ?s k \<longleftrightarrow> live s k \<and> k \<noteq> l" for k by (auto simp: live_def)
  have vw: "ms_view ?s k = ms_view s k" if "k \<noteq> l" for k using that ms_view_wipe [OF served_invD(2) [OF inv]] by simp
  have "(pts(py_strip e := None)) p = Some u \<longleftrightarrow> (\<exists>k. live ?s k \<and> dget x k = Some p \<and> ms_view ?s k = Some u)" for p u
  proof (cases "p = py_strip e")
    case True
    have "\<not> (live ?s k \<and> dget x k = Some p)" for k
    proof
      assume k: "live ?s k \<and> dget x k = Some p"
      then have "id_view r c p = Some k" using served_invD(6) [OF inv, of k p] by (simp add: lv)
      then show False using k v lv True by simp
    qed
    then show ?thesis using True by auto
  next
    case False
    then have "dget x k = Some p \<Longrightarrow> k \<noteq> l" for k using ext by auto
    then show ?thesis using False served_invD(9) [OF inv, of p u] lv vw by auto metis+
  qed
  note pts = this
  have "\<not> all_zero u" if "live ?s k" "ms_view ?s k = Some u" for k u
    using served_invD(8) [OF inv, of k u] that vw [of k] by (simp add: lv)
  then show ?thesis
    using pts has served_invD [OF inv] by (intro served_invI) (auto simp: lv ms_ok_mark ms_ok_wipe)
qed

lemma served_inv_drop:
  assumes inv: "served_inv c r s x pts" and v: "id_view r c e = Some l" and del: "l \<in> ms_deleted s"
    and r': "r' = snd (drop_id c e r)"
  shows "served_inv c r' s x pts"
proof -
  have ok: "reg_ok r" by (rule served_invD(1) [OF inv])
  obtain i where i: "resolve c e r = Inr i" using reg.resolve_some [OF ok v] by blast
  have d: "reg_ok r'" "\<forall>d y. id_view r' d y = (if same_id c e d y then None else id_view r d y)"
    using reg.drop_some [OF ok v] r' by auto
  have nx: "next_of r' d = next_of r d" for d using drop_views [OF ok i] r' by (auto simp: next_of_def)
  have "id_view r' c y = Some k" if "live s k" "dget x k = Some y" for k y
  proof -
    have k: "id_view r c y = Some k" by (rule served_invD(6) [OF inv that])
    have "k \<noteq> l" using that(1) del by (auto simp: live_def)
    then have "\<not> same_id c e c y" using k v reg.same_view [of c e c y r] by auto
    then show ?thesis using d(2) k by simp
  qed
  note lv = this
  have old: "id_view r' c y = Some k \<Longrightarrow> id_view r c y = Some k" for y k using d(2) by (auto split: if_splits)
  show ?thesis
  proof (rule served_invI)
    show "dget x l = Some (py_strip e)" if "ms_has s l" "id_view r' c e = Some l" for l e
      by (rule served_invD(7) [OF inv that(1) old [OF that(2)]])
    show "dget x l \<noteq> None" "l < next_of r' (py_strip c)" if "ms_has s l" for l
      using served_invD(4,5) [OF inv that] by (auto simp: nx)
  qed (use d(1) lv served_invD [OF inv] in auto)
qed

lemma id_view_inj: "reg_ok r \<Longrightarrow> id_view r c e = Some l \<Longrightarrow> id_view r c f = Some l \<Longrightarrow> py_strip e = py_strip f"
  by (auto simp: id_view_def reg_okD(1) split: if_splits)

lemma register_view:
  assumes "reg_ok r" "register c e None r = (Inr l, r1)"
  shows "reg_ok r1" "id_view r1 c e = Some l" "py_strip f \<noteq> py_strip e \<Longrightarrow> id_view r1 c f = id_view r c f"
    "id_view r c e = None \<and> l = next_of r (py_strip c) \<or> id_view r c e = Some l"
    "next_of r (py_strip c) \<le> next_of r1 (py_strip c)" "l < next_of r1 (py_strip c)"
proof -
  have "reg_ok r1 \<and> id_view r1 c e = Some l \<and> (py_strip f \<noteq> py_strip e \<longrightarrow> id_view r1 c f = id_view r c f)
      \<and> (id_view r c e = None \<and> l = next_of r (py_strip c) \<or> id_view r c e = Some l)
      \<and> next_of r (py_strip c) \<le> next_of r1 (py_strip c) \<and> l < next_of r1 (py_strip c)"
    using assms
  proof (cases rule: register_cases)
    case (old k)
    then show ?thesis using reg_okD(2) [OF assms(1)] by (auto simp: id_view_def)
  qed (auto simp: id_view_def)
  then show "reg_ok r1" "id_view r1 c e = Some l" "py_strip f \<noteq> py_strip e \<Longrightarrow> id_view r1 c f = id_view r c f"
    "id_view r c e = None \<and> l = next_of r (py_strip c) \<or> id_view r c e = Some l"
    "next_of r (py_strip c) \<le> next_of r1 (py_strip c)" "l < next_of r1 (py_strip c)" by blast+
qed

lemma served_inv_put:
  assumes inv: "served_inv c r s x pts" and reg: "register c e None r = (Inr l, r1)" and e: "py_strip e = e"
    and v: "length v = ms_dim s" "\<not> all_zero v"
  shows "served_inv c r1 (undelete l (put_row l v s)) (dset l e x) (pts(e \<mapsto> v))"
proof -
  let ?s = "undelete l (put_row l v s)"
  note ok = served_invD(1,2) [OF inv] and rv = register_view [OF served_invD(1) [OF inv] reg]
  have at: "ms_has s l \<Longrightarrow> id_view r c e = Some l" using rv(4) served_invD(4) [OF inv] by fastforce
  have other: "id_view r c e = Some k \<Longrightarrow> k = l" for k using rv(4) by auto
  have lv: "live ?s k \<longleftrightarrow> k = l \<or> live s k" for k by (auto simp: live_def)
  have vw: "ms_view ?s k = (if k = l then Some v else ms_view s k)" for k by (simp add: ms_view_put [OF ok(2)])
  have B: "id_view r1 c f = Some k" if "live ?s k" "dget (dset l e x) k = Some f" for k f
  proof (cases "k = l")
    case True
    then show ?thesis using that rv(2) by simp
  next
    case False
    then have k: "id_view r c f = Some k" using that served_invD(6) [OF inv, of k f] by (simp add: lv)
    have "py_strip f \<noteq> e"
    proof
      assume "py_strip f = e"
      then have "id_view r c e = Some k" using k id_view_strip [of r c f] by simp
      then show False using other False by blast
    qed
    then show ?thesis using k rv(3) e by simp
  qed
  have A: "dget (dset l e x) k = Some (py_strip f)" if "ms_has ?s k" "id_view r1 c f = Some k" for k f
  proof (cases "k = l")
    case True
    then show ?thesis using id_view_inj [OF rv(1) rv(2), of f] that e by simp
  next
    case False
    then have "py_strip f \<noteq> py_strip e" using that(2) rv(2) id_view_cong [of f e r1 c] by auto
    then show ?thesis using False that rv(3) served_invD(7) [OF inv, of k f] by simp
  qed
  have S: "(pts(e \<mapsto> v)) p = Some u \<longleftrightarrow> (\<exists>k. live ?s k \<and> dget (dset l e x) k = Some p \<and> ms_view ?s k = Some u)" for p u
  proof (cases "p = e")
    case True
    have "live s k \<Longrightarrow> dget x k = Some e \<Longrightarrow> k = l" for k using served_invD(6) [OF inv, of k e] other by blast
    then show ?thesis using True by (auto simp: lv ms_view_put [OF ok(2)])
  next
    case False
    have "dget x l = Some p \<Longrightarrow> \<not> live s l" using at served_invD(7) [OF inv, of l e] False e by (auto simp: live_def)
    then have "pts p = Some u \<longleftrightarrow> (\<exists>k. k \<noteq> l \<and> live s k \<and> dget x k = Some p \<and> ms_view s k = Some u)"
      unfolding served_invD(9) [OF inv, of p u] by metis
    also have "\<dots> \<longleftrightarrow> (\<exists>k. live ?s k \<and> dget (dset l e x) k = Some p \<and> ms_view ?s k = Some u)"
      using False by (intro ex_cong1) (auto simp: lv ms_view_put [OF ok(2)])
    finally show ?thesis using False by simp
  qed
  have N: "\<not> all_zero u" if "live ?s k" "ms_view ?s k = Some u" for k u
    using that served_invD(8) [OF inv, of k u] v(2) by (cases "k = l") (auto simp: lv ms_view_put [OF ok(2)])
  have next_ok: "k < next_of r1 (py_strip c)" "dget (dset l e x) k \<noteq> None" if "ms_has ?s k" for k
    using that served_invD(4,5) [OF inv, of k] rv(5,6) by auto
  have "ms_ok ?s" using ok(2) v(1) by (simp add: ms_ok_put ms_ok_undelete)
  from served_invI [OF rv(1) this served_invD(3) [OF inv] next_ok B A N S] show ?thesis .
qed

text \<open>Adding rows under clean ids.\<close>

lemma point_rows_served:
  assumes "served_inv c r s x pts" "list_all (\<lambda>(e, v). py_strip e = e \<and> e \<noteq> [] \<and> length v = ms_dim s \<and> \<not> all_zero v) rows"
  shows "\<exists>ls r' s' x'. point_rows c rows (r, s, x) = (Inr ls, r', s', x') \<and> length ls = length rows
    \<and> served_inv c r' s' x' (pts ++ map_of (rev rows)) \<and> ms_dim s' = ms_dim s"
  using assms
proof (induction rows arbitrary: r s x pts)
  case Nil
  then show ?case by simp
next
  case (Cons a rows)
  obtain e v where a: "a = (e, v)" by fastforce
  have e: "py_strip e = e" "e \<noteq> []" "length v = ms_dim s" "\<not> all_zero v" using Cons.prems(2) a by auto
  obtain q r1 where reg: "register c e None r = (q, r1)" by fastforce
  have "\<exists>l. q = Inr l"
    using reg e(1,2) served_invD(3) [OF Cons.prems(1)]
    by (auto simp: register_def norm_collection_def norm_external_def Let_def split: option.splits if_splits)
  then obtain l where l: "q = Inr l" by blast
  let ?s = "undelete l (put_row l v s)"
  have inv: "served_inv c r1 ?s (dset l e x) (pts(e \<mapsto> v))"
    by (rule served_inv_put [OF Cons.prems(1) reg [unfolded l] e(1,3,4)])
  have "list_all (\<lambda>(e, v). py_strip e = e \<and> e \<noteq> [] \<and> length v = ms_dim ?s \<and> \<not> all_zero v) rows" using Cons.prems(2) by simp
  from Cons.IH [OF inv this] obtain ls r' s' x' where
    rec: "point_rows c rows (r1, ?s, dset l e x) = (Inr ls, r', s', x')" "length ls = length rows"
      "served_inv c r' s' x' (pts(e \<mapsto> v) ++ map_of (rev rows))" "ms_dim s' = ms_dim ?s" by blast
  have "pts(e \<mapsto> v) ++ map_of (rev rows) = pts ++ map_of (rev (a # rows))"
    by (simp add: a map_add_def fun_eq_iff map_of_append split: option.splits)
  then show ?case using a reg l rec by simp
qed

text \<open>A compaction writes the points that are there already.\<close>

lemma live_points_served:
  assumes inv: "served_inv c r s x pts"
  shows "map_of (rev (live_points s x)) = pts"
proof -
  have mem: "(p, v) \<in> set (live_points s x) \<longleftrightarrow> (\<exists>l. live s l \<and> dget x l = Some p \<and> ms_view s l = Some v)" for p v
  proof -
    have "(l, v) \<in> set (live_items s) \<longleftrightarrow> live s l \<and> ms_view s l = Some v" for l
      unfolding live_items_iff [OF served_invD(2) [OF inv]] using served_invD(8) [OF inv, of l v]
      by (auto simp: live_def has_view)
    moreover have "(p, v) \<in> set (live_points s x) \<longleftrightarrow> (\<exists>l. (l, v) \<in> set (live_items s) \<and> p = ext_of x l)"
      unfolding live_points_def by auto
    moreover have "live s l \<Longrightarrow> p = ext_of x l \<longleftrightarrow> dget x l = Some p" for l
      using served_invD(5) [OF inv, of l] by (auto simp: ext_of_def live_def)
    ultimately show ?thesis by blast
  qed
  have in_pts: "(p, v) \<in> set (live_points s x) \<longleftrightarrow> pts p = Some v" for p v
    unfolding mem by (rule served_invD(9) [OF inv, symmetric])
  show ?thesis
  proof
    fix p
    show "map_of (rev (live_points s x)) p = pts p"
    proof (cases "map_of (rev (live_points s x)) p")
      case None
      then have "(p, v) \<notin> set (live_points s x)" for v by (force simp: map_of_eq_None_iff)
      then show ?thesis using None in_pts by (cases "pts p") auto
    next
      case (Some v)
      then show ?thesis using in_pts map_of_SomeD [OF Some] by simp
    qed
  qed
qed

section \<open>A delete, whatever it returns\<close>

lemma erase_resolved_effect:
  assumes "erase_resolved b cfg need c m x l (s, bt) = (s', bt')"
  shows "\<exists>r. backend_erase b c l m (sv_world s) = (r, sv_world s')
    \<and> (sv_registry s' = sv_registry s
       \<or> (\<exists>br tx. r = Inr (br, tx) \<and> br_success br) \<and> sv_registry s' = snd (drop_id c x (sv_registry s)))"
proof -
  have "record_erased cfg c x l br (t, bt1) = (t', bt2) \<Longrightarrow>
      sv_world t' = sv_world t \<and> (sv_registry t' = sv_registry t \<or> sv_registry t' = snd (drop_id c x (sv_registry t)))" for br t bt1 t' bt2
    by (auto simp: record_erased_def Let_def split: prod.splits sum.splits if_splits)
  then show ?thesis
    using assms unfolding erase_resolved_def
    by (fastforce simp: Let_def split: sum.splits prod.splits if_splits bool.splits)
qed

lemma delete_effect:
  assumes "py_strip c \<noteq> []" "compact_arg_ok carg"
  shows "\<exists>ms mode need s1 bt1 cp df s2 bt2. erase_loop b cfg True need c m (clean_ids ids) (s, empty_batch ms) = (None, s1, bt1)
    \<and> compact_block b mode (se_monotonic env) (s1, bt1) = (cp, df, s2, bt2)
    \<and> sv_world (snd (delete b cfg env c ids reason rid m True carg rp ckpt s)) = sv_world s2
    \<and> sv_registry (snd (delete b cfg env c ids reason rid m True carg rp ckpt s)) = sv_registry s2"
proof -
  obtain k ms where k: "plan_compact b cfg (se_environ env) c (clean_ids ids) carg s = (k, ms)" by fastforce
  obtain mode where mode: "normalize_compact k = Inr mode" using plan_compact_ok [OF assms(2) k] by blast
  let ?pm = "proof_mode_of cfg (se_environ env) rp"
  let ?need = "?pm \<noteq> ''off'' \<and> bk_get_vector b \<noteq> None"
  have "\<forall>x\<in>set (clean_ids ids). py_strip x \<noteq> []" using clean_ids_strip by fastforce
  then have "fst (erase_loop b cfg True ?need c m (clean_ids ids) (s, empty_batch ms)) = None" by (rule loop_returns [OF assms(1)])
  then obtain s1 bt1 where l: "erase_loop b cfg True ?need c m (clean_ids ids) (s, empty_batch ms) = (None, s1, bt1)"
    by (cases "erase_loop b cfg True ?need c m (clean_ids ids) (s, empty_batch ms)") auto
  obtain cp df s2 bt2 where cb: "compact_block b mode (se_monotonic env) (s1, bt1) = (cp, df, s2, bt2)"
    by (cases "compact_block b mode (se_monotonic env) (s1, bt1)") auto
  have "sv_world (snd (delete b cfg env c ids reason rid m True carg rp ckpt s)) = sv_world s2
    \<and> sv_registry (snd (delete b cfg env c ids reason rid m True carg rp ckpt s)) = sv_registry s2"
  proof (cases "run_residual_proofs b (se_norm64 env) c ?pm ckpt bt2 (sv_world s2)")
    case (Inl e)
    then show ?thesis using k mode l cb by (simp add: delete_def Let_def)
  next
    case (Inr sm)
    obtain r s3 where f: "finish_delete b cfg env c (clean_ids ids) reason rid ?pm cp df sm (s2, bt2) = (r, s3)" by fastforce
    then have "snd (delete b cfg env c ids reason rid m True carg rp ckpt s) = s3" using k mode l cb Inr by (simp add: delete_def Let_def)
    then show ?thesis using finish_delete_simps(5,6) [OF f] by simp
  qed
  then show ?thesis using l cb by blast
qed

section \<open>Adapters as maps\<close>

text \<open>The relation between a service and the points of its adapter, and the operations of a client on both sides.\<close>

definition point_inv ::
  "('w \<Rightarrow> mstore) \<Rightarrow> ('w \<Rightarrow> (int, string) dict) \<Rightarrow> ('w \<Rightarrow> string \<Rightarrow> f32 list option) \<Rightarrow> ('w \<Rightarrow> bool) \<Rightarrow> string \<Rightarrow> 'w service \<Rightarrow> bool" where
  "point_inv st exts served good c s \<longleftrightarrow> good (sv_world s)
     \<and> served_inv c (sv_registry s) (st (sv_world s)) (exts (sv_world s)) (served (sv_world s))"

datatype point_op =
    PAdd "string list" np_array
  | PDelete service_config service_env "string list" int "compact_arg option" "string option" "string option"

fun point_step ::
  "'w backend \<Rightarrow> (string list \<Rightarrow> np_array \<Rightarrow> id_registry \<times> 'w \<Rightarrow> int list res \<times> id_registry \<times> 'w) \<Rightarrow> string
    \<Rightarrow> point_op \<Rightarrow> 'w service \<Rightarrow> 'w service" where
  "point_step b ad c (PAdd ids vecs) s =
    (case ad ids vecs (sv_registry s, sv_world s) of (res, r', w') \<Rightarrow> s\<lparr>sv_registry := r', sv_world := w'\<rparr>)"
| "point_step b ad c (PDelete cfg env ids m carg rp ckpt) s = snd (delete b cfg env c ids None None m True carg rp ckpt s)"

fun map_step :: "point_op \<Rightarrow> (string \<Rightarrow> f32 list option) \<Rightarrow> string \<Rightarrow> f32 list option" where
  "map_step (PAdd ids vecs) f = f ++ map_of (rev (zip ids (snd (as_matrix vecs))))"
| "map_step (PDelete cfg env ids m carg rp ckpt) f = (\<lambda>p. if p \<in> set (clean_ids ids) then None else f p)"

text \<open>Clean ids, rows of the right width that are not zero, and a valid compaction argument.\<close>

fun point_op_ok :: "nat \<Rightarrow> point_op \<Rightarrow> bool" where
  "point_op_ok d (PAdd ids vecs) \<longleftrightarrow> np_ok vecs \<and> fst (as_matrix vecs) = d \<and> length ids = length (snd (as_matrix vecs)) \<and> ids \<noteq> []
     \<and> list_all (\<lambda>e. py_strip e = e \<and> e \<noteq> []) ids \<and> list_all (\<lambda>v. \<not> all_zero v) (snd (as_matrix vecs))"
| "point_op_ok d (PDelete cfg env ids m carg rp ckpt) \<longleftrightarrow> compact_arg_ok carg"

locale point_adapter = matrix_backend bk st
  for bk :: "'w backend" and st :: "'w \<Rightarrow> mstore" +
  fixes exts :: "'w \<Rightarrow> (int, string) dict" and served :: "'w \<Rightarrow> string \<Rightarrow> f32 list option" and good :: "'w \<Rightarrow> bool" and coll :: string
    and ad :: "string list \<Rightarrow> np_array \<Rightarrow> id_registry \<times> 'w \<Rightarrow> int list res \<times> id_registry \<times> 'w"
  assumes point_erase: "good w \<Longrightarrow> ms_ok (st w) \<Longrightarrow> dget (exts w) l = Some e \<Longrightarrow> ms_has (st w) l \<Longrightarrow> bk_hard_delete bk coll l m w = (r, w') \<Longrightarrow>
      good w' \<and> st w' = mark_deleted l (wipe_row l (st w)) \<and> exts w' = exts w \<and> served w' = (served w)(e := None)"
    and point_unknown: "\<not> ms_has (st w) l \<Longrightarrow> bk_hard_delete bk coll l m w = (r, w') \<Longrightarrow> w' = w \<and> (\<exists>br. r = Inr br \<and> \<not> br_success br)"
    and point_compact: "good w \<Longrightarrow> bk_compact bk = Some f \<Longrightarrow> f w = (r', w') \<Longrightarrow>
      good w' \<and> exts w' = exts w \<and> served w' = map_of (rev (live_points (st w) (exts w)))"
    and point_add: "good w \<Longrightarrow> check_shapes (ms_dim (st w)) ids vecs = Inr rows \<Longrightarrow> rows \<noteq> [] \<Longrightarrow> list_all (\<lambda>v. length v = ms_dim (st w)) rows \<Longrightarrow>
      point_rows coll (zip ids rows) (g, st w, exts w) = (Inr ls, g', s', x') \<Longrightarrow>
      \<exists>w'. ad ids vecs (g, w) = (Inr ls, g', w') \<and> good w' \<and> st w' = s' \<and> exts w' = x' \<and> served w' = served w ++ map_of (rev (zip ids rows))"
begin

lemma point_erase_one:
  assumes inv: "point_inv st exts served good coll s" and res: "resolve coll y (sv_registry s) = Inr i"
    and run: "erase_resolved bk cfg need coll m y (ri_label i) (s, bt) = (s', bt')"
  shows "point_inv st exts served good coll s' \<and> served (sv_world s') = (served (sv_world s))(py_strip y := None)
    \<and> ms_dim (st (sv_world s')) = ms_dim (st (sv_world s))"
proof -
  let ?w = "sv_world s" and ?w' = "sv_world s'" and ?l = "ri_label i"
  have good: "good ?w" and si: "served_inv coll (sv_registry s) (st ?w) (exts ?w) (served ?w)" using inv by (simp_all add: point_inv_def)
  have v: "id_view (sv_registry s) coll y = Some ?l" using res by (auto simp: resolve_view)
  obtain r where r: "backend_erase bk coll ?l m ?w = (r, ?w')"
    "sv_registry s' = sv_registry s \<or> (\<exists>br tx. r = Inr (br, tx) \<and> br_success br) \<and> sv_registry s' = snd (drop_id coll y (sv_registry s))"
    using erase_resolved_effect [OF run] by blast
  obtain r0 where r0: "bk_hard_delete bk coll ?l m ?w = (r0, ?w')" "\<And>br tx. r = Inr (br, tx) \<Longrightarrow> r0 = Inr br"
    using r(1) no_engine by (auto simp: backend_erase_def split: prod.splits sum.splits)
  show ?thesis
  proof (cases "ms_has (st ?w) ?l")
    case False
    then have un: "?w' = ?w" "\<exists>br. r0 = Inr br \<and> \<not> br_success br" using point_unknown [OF _ r0(1)] by blast+
    then have "sv_registry s' = sv_registry s" using r(2) r0(2) by fastforce
    moreover have "\<forall>l. live (st ?w) l \<longrightarrow> id_view (sv_registry s) coll y \<noteq> Some l" using False v by (auto simp: live_def)
    then have "served ?w (py_strip y) = None" by (rule served_none [OF si])
    then have "(served ?w)(py_strip y := None) = served ?w" by (auto simp: fun_eq_iff)
    ultimately show ?thesis using inv un(1) by (simp add: point_inv_def)
  next
    case True
    have e: "dget (exts ?w) ?l = Some (py_strip y)" by (rule served_invD(7) [OF si True v])
    have st: "good ?w'" "st ?w' = mark_deleted ?l (wipe_row ?l (st ?w))" "exts ?w' = exts ?w" "served ?w' = (served ?w)(py_strip y := None)"
      using point_erase [OF good served_invD(2) [OF si] e True r0(1)] by blast+
    have "served_inv coll (sv_registry s) (st ?w') (exts ?w') (served ?w')"
      unfolding st(2-4) by (rule served_inv_erase [OF si v True])
    moreover have "?l \<in> ms_deleted (st ?w')" by (simp add: st(2))
    ultimately have "served_inv coll (sv_registry s') (st ?w') (exts ?w') (served ?w')"
      using r(2) served_inv_drop [OF _ v _ refl] by auto
    then show ?thesis using st by (simp add: point_inv_def)
  qed
qed

lemma point_erase_loop:
  assumes "point_inv st exts served good coll (fst sb)" "erase_loop bk cfg True need coll m xs sb = (x, sb')"
    "\<forall>y\<in>set xs. py_strip y \<noteq> []"
  shows "point_inv st exts served good coll (fst sb')
    \<and> served (sv_world (fst sb')) = (\<lambda>p. if p \<in> py_strip ` set xs then None else served (sv_world (fst sb)) p)
    \<and> ms_dim (st (sv_world (fst sb'))) = ms_dim (st (sv_world (fst sb)))"
  using assms
proof (induction xs arbitrary: sb)
  case Nil
  then show ?case by simp
next
  case (Cons y ys)
  obtain s bt where sb: "sb = (s, bt)" by fastforce
  have c: "py_strip coll \<noteq> []" using Cons.prems(1) served_invD(3) by (auto simp: point_inv_def)
  show ?case
  proof (cases "resolve coll y (sv_registry s)")
    case (Inr i)
    obtain s1 bt1 where st: "erase_resolved bk cfg need coll m y (ri_label i) (s, bt) = (s1, bt1)" by fastforce
    have one: "point_inv st exts served good coll s1" "served (sv_world s1) = (served (sv_world s))(py_strip y := None)"
      "ms_dim (st (sv_world s1)) = ms_dim (st (sv_world s))"
      using point_erase_one [OF _ Inr st] Cons.prems(1) sb by auto
    have "erase_loop bk cfg True need coll m ys (s1, bt1) = (x, sb')" using Cons.prems(2) sb Inr st by simp
    from Cons.IH [OF _ this, unfolded fst_conv] one(1) Cons.prems(3)
    have "point_inv st exts served good coll (fst sb')"
      "served (sv_world (fst sb')) = (\<lambda>p. if p \<in> py_strip ` set ys then None else served (sv_world s1) p)"
      "ms_dim (st (sv_world (fst sb'))) = ms_dim (st (sv_world s1))" by simp_all
    then show ?thesis using one sb by (auto simp: fun_eq_iff)
  next
    case (Inl e)
    then obtain t where e: "e = IdMappingError t" using resolve_Inl_cases c Cons.prems(3) by fastforce
    have "id_view (sv_registry s) coll y = None" using Inl resolve_view [of coll y "sv_registry s"] by (cases "id_view (sv_registry s) coll y") auto
    then have gone: "served (sv_world s) (py_strip y) = None"
      using served_none [of coll "sv_registry s" "st (sv_world s)" "exts (sv_world s)" "served (sv_world s)" y] Cons.prems(1) sb
      by (simp add: point_inv_def)
    let ?b = "bt\<lparr>bt_errors := bt_errors bt @ [''skip '' @ y @ '': '' @ exn_str (IdMappingError t)]\<rparr>"
    have "erase_loop bk cfg True need coll m ys (s, ?b) = (x, sb')" using Cons.prems(2) sb Inl e by simp
    from Cons.IH [OF _ this, unfolded fst_conv] Cons.prems(1,3) sb
    have "point_inv st exts served good coll (fst sb')"
      "served (sv_world (fst sb')) = (\<lambda>p. if p \<in> py_strip ` set ys then None else served (sv_world s) p)"
      "ms_dim (st (sv_world (fst sb'))) = ms_dim (st (sv_world s))" by simp_all
    then show ?thesis using sb gone by (auto simp: fun_eq_iff)
  qed
qed

lemma point_compact_step:
  assumes "point_inv st exts served good coll s" "bk_compact bk = Some f" "f (sv_world s) = (r, w')"
  shows "good w' \<and> st w' = st (sv_world s) \<and> exts w' = exts (sv_world s) \<and> served w' = served (sv_world s)"
proof -
  have inv: "good (sv_world s)" "served_inv coll (sv_registry s) (st (sv_world s)) (exts (sv_world s)) (served (sv_world s))"
    using assms(1) by (simp_all add: point_inv_def)
  show ?thesis using point_compact [OF inv(1) assms(2,3)] compact_step [OF assms(2,3)] live_points_served [OF inv(2)] by simp
qed

lemma point_delete:
  assumes inv: "point_inv st exts served good coll s" and c: "compact_arg_ok carg"
    and s': "s' = snd (delete bk cfg env coll ids reason rid m True carg rp ckpt s)"
  shows "point_inv st exts served good coll s'
    \<and> served (sv_world s') = (\<lambda>p. if p \<in> set (clean_ids ids) then None else served (sv_world s) p)
    \<and> ms_dim (st (sv_world s')) = ms_dim (st (sv_world s))"
proof -
  have "py_strip coll \<noteq> []" using inv served_invD(3) by (auto simp: point_inv_def)
  from delete_effect [OF this c, of bk cfg m ids s env reason rid rp ckpt] obtain ms mode need s1 bt1 cp df s2 bt2 where
    run: "erase_loop bk cfg True need coll m (clean_ids ids) (s, empty_batch ms) = (None, s1, bt1)"
      "compact_block bk mode (se_monotonic env) (s1, bt1) = (cp, df, s2, bt2)"
      "sv_world s' = sv_world s2" "sv_registry s' = sv_registry s2" unfolding s' by blast
  have ids: "\<forall>y\<in>set (clean_ids ids). py_strip y \<noteq> []" "py_strip ` set (clean_ids ids) = set (clean_ids ids)"
    using clean_ids_strip [of _ ids] by (force simp: image_iff)+
  have one: "point_inv st exts served good coll s1" "served (sv_world s1) = (\<lambda>p. if p \<in> set (clean_ids ids) then None else served (sv_world s) p)"
    "ms_dim (st (sv_world s1)) = ms_dim (st (sv_world s))"
    using point_erase_loop [OF _ run(1) ids(1)] inv unfolding ids(2) fst_conv by simp_all
  have "sv_world s2 = sv_world s1 \<or> good (sv_world s2) \<and> st (sv_world s2) = st (sv_world s1)
      \<and> exts (sv_world s2) = exts (sv_world s1) \<and> served (sv_world s2) = served (sv_world s1)"
    using compact_block_keeps(9) [OF run(2)] point_compact_step [OF one(1)] by blast
  moreover have "sv_registry s2 = sv_registry s1" by (rule compact_block_keeps(1) [OF run(2)])
  ultimately show ?thesis using one run(3,4) by (auto simp: point_inv_def)
qed

lemma point_step_ok:
  assumes inv: "point_inv st exts served good coll s" and ok: "point_op_ok (ms_dim (st (sv_world s))) op"
  shows "point_inv st exts served good coll (point_step bk ad coll op s)
    \<and> served (sv_world (point_step bk ad coll op s)) = map_step op (served (sv_world s))
    \<and> ms_dim (st (sv_world (point_step bk ad coll op s))) = ms_dim (st (sv_world s))"
proof (cases op)
  case (PDelete cfg env ids m carg rp ckpt)
  then show ?thesis using point_delete [OF inv _ refl, of carg cfg env ids None None m rp ckpt] ok by simp
next
  case (PAdd ids vecs)
  let ?w = "sv_world s" and ?rows = "snd (as_matrix vecs)"
  have h: "np_ok vecs" "fst (as_matrix vecs) = ms_dim (st ?w)" "length ids = length ?rows" "ids \<noteq> []"
    "list_all (\<lambda>e. py_strip e = e \<and> e \<noteq> []) ids" "list_all (\<lambda>v. \<not> all_zero v) ?rows" using ok PAdd by simp_all
  have sh: "check_shapes (ms_dim (st ?w)) ids vecs = Inr ?rows" using h(2,3) by (simp add: check_shapes_def case_prod_unfold)
  have rows: "list_all (\<lambda>v. length v = ms_dim (st ?w)) ?rows" using check_shapes_Inr [OF sh h(1)] by blast
  have ne: "?rows \<noteq> []" using h(3,4) by auto
  have good: "good ?w" and si: "served_inv coll (sv_registry s) (st ?w) (exts ?w) (served ?w)" using inv by (simp_all add: point_inv_def)
  have "list_all (\<lambda>(e, v). py_strip e = e \<and> e \<noteq> [] \<and> length v = ms_dim (st ?w) \<and> \<not> all_zero v) (zip ids ?rows)"
    using h(5,6) rows by (auto simp: list_all_iff dest: set_zip_leftD set_zip_rightD)
  from point_rows_served [OF si this] obtain ls r' s1 x' where
    run: "point_rows coll (zip ids ?rows) (sv_registry s, st ?w, exts ?w) = (Inr ls, r', s1, x')"
      "served_inv coll r' s1 x' (served ?w ++ map_of (rev (zip ids ?rows)))" "ms_dim s1 = ms_dim (st ?w)" by blast
  from point_add [OF good sh ne rows run(1)] obtain w' where
    "ad ids vecs (sv_registry s, ?w) = (Inr ls, r', w')" "good w'" "st w' = s1" "exts w' = x'"
    "served w' = served ?w ++ map_of (rev (zip ids ?rows))" by blast
  then show ?thesis using PAdd run(2,3) by (simp add: point_inv_def)
qed

lemma point_run_ok:
  assumes "point_inv st exts served good coll s" "list_all (point_op_ok (ms_dim (st (sv_world s)))) ops"
    "s' = foldl (\<lambda>s op. point_step bk ad coll op s) s ops"
  shows "point_inv st exts served good coll s' \<and> served (sv_world s') = foldl (\<lambda>f op. map_step op f) (served (sv_world s)) ops"
  using assms
proof (induction ops arbitrary: s)
  case Nil
  then show ?case by simp
next
  case (Cons op ops)
  let ?s = "point_step bk ad coll op s"
  have "point_inv st exts served good coll ?s" "served (sv_world ?s) = map_step op (served (sv_world s))"
    "ms_dim (st (sv_world ?s)) = ms_dim (st (sv_world s))"
    using point_step_ok [OF Cons.prems(1), of op] Cons.prems(2) by simp_all
  then show ?case using Cons.IH [of ?s] Cons.prems(2,3) by simp
qed

end

end
