(* ===== verification/QdrantAdapter.thy ===== *)
theory QdrantAdapter
  imports PointStore
begin

text \<open>
  \<open>integrations/qdrant_adapter.py\<close>: the in-memory client, the wrapper of the official client package (its calls are the parameter \<open>K\<close>),
  and the adapter over any client (the parameter \<open>C\<close>). The world of the service is the adapter with its client.
\<close>

section \<open>Clients\<close>

text \<open>\<open>QdrantClientProtocol\<close>.\<close>

record 'c qdrant_client =
  qc_upsert :: "string \<Rightarrow> string list \<Rightarrow> f32 list list \<Rightarrow> json list option \<Rightarrow> 'c \<Rightarrow> unit res \<times> 'c"
  qc_delete :: "string \<Rightarrow> string list \<Rightarrow> 'c \<Rightarrow> unit res \<times> 'c"
  qc_recreate :: "string \<Rightarrow> int \<Rightarrow> string \<Rightarrow> 'c \<Rightarrow> unit res \<times> 'c"
  qc_count :: "string \<Rightarrow> 'c \<Rightarrow> int res"
  qc_get :: "string \<Rightarrow> string \<Rightarrow> 'c \<Rightarrow> f32 list option res"

subsection \<open>In memory\<close>

record mem_qdrant =
  mq_data :: "(string, (string, f32 list) dict) dict"
  mq_dims :: "(string, int) dict"

definition mq_store :: "string \<Rightarrow> mem_qdrant \<Rightarrow> (string, f32 list) dict" where
  "mq_store c k = (case dget (mq_data k) c of None \<Rightarrow> [] | Some d \<Rightarrow> d)"

definition mq_recreate_collection :: "string \<Rightarrow> int \<Rightarrow> string \<Rightarrow> mem_qdrant \<Rightarrow> unit res \<times> mem_qdrant" where
  "mq_recreate_collection c d distance k = (Inr (), k\<lparr>mq_data := dset c [] (mq_data k), mq_dims := dset c d (mq_dims k)\<rparr>)"

text \<open>The loop stores one row per id and raises when the rows run out.\<close>

definition mq_upsert_points ::
  "string \<Rightarrow> string list \<Rightarrow> f32 list list \<Rightarrow> json list option \<Rightarrow> mem_qdrant \<Rightarrow> unit res \<times> mem_qdrant" where
  "mq_upsert_points c ids vecs payloads k =
    (if dget (mq_data k) c = None \<and> vecs = [] then (Inl (OtherError ''IndexError''), k)
     else let k1 = (if dget (mq_data k) c = None then snd (mq_recreate_collection c (int (length (hd vecs))) ''Cosine'' k) else k);
              d = foldl (\<lambda>d (p, v). dset p v d) (mq_store c k1) (zip ids vecs)
          in (if length vecs < length ids then Inl (OtherError ''IndexError'') else Inr (), k1\<lparr>mq_data := dset c d (mq_data k1)\<rparr>))"

definition mq_delete_points :: "string \<Rightarrow> string list \<Rightarrow> mem_qdrant \<Rightarrow> unit res \<times> mem_qdrant" where
  "mq_delete_points c ids k =
    (Inr (), if dget (mq_data k) c = None then k
             else k\<lparr>mq_data := dset c (foldl (\<lambda>d p. ddel p d) (mq_store c k) ids) (mq_data k)\<rparr>)"

definition mq_count_points :: "string \<Rightarrow> mem_qdrant \<Rightarrow> int res" where
  "mq_count_points c k = Inr (int (length (mq_store c k)))"

definition mq_get_point_vector :: "string \<Rightarrow> string \<Rightarrow> mem_qdrant \<Rightarrow> f32 list option res" where
  "mq_get_point_vector c p k = Inr (dget (mq_store c k) p)"

definition mem_qdrant_client :: "mem_qdrant qdrant_client" where
  "mem_qdrant_client = \<lparr>qc_upsert = mq_upsert_points, qc_delete = mq_delete_points, qc_recreate = mq_recreate_collection,
     qc_count = mq_count_points, qc_get = mq_get_point_vector\<rparr>"

subsection \<open>The official client\<close>

datatype distance = COSINE | EUCLID | DOT

datatype sdk_vector = Plain "f32 list" | Named "(string \<times> f32 list) list" | NoVector

record 'k qdrant_sdk =
  sk_recreate :: "string \<Rightarrow> int \<Rightarrow> distance \<Rightarrow> 'k \<Rightarrow> unit res \<times> 'k"
  sk_upsert :: "string \<Rightarrow> (int \<times> f32 list \<times> json) list \<Rightarrow> 'k \<Rightarrow> unit res \<times> 'k"
  sk_delete :: "string \<Rightarrow> int list \<Rightarrow> 'k \<Rightarrow> unit res \<times> 'k"
  sk_count :: "string \<Rightarrow> 'k \<Rightarrow> int option res"
  sk_retrieve :: "string \<Rightarrow> int list \<Rightarrow> 'k \<Rightarrow> sdk_vector list res"

text \<open>\<open>str.isdigit\<close> on the range includes the superscripts 178, 179 and 185, which \<open>int\<close> refuses.\<close>

definition py_isdigit :: "string \<Rightarrow> bool" where
  "py_isdigit s \<longleftrightarrow> s \<noteq> [] \<and> list_all (\<lambda>c. (48 \<le> (of_char c :: nat) \<and> (of_char c :: nat) \<le> 57) \<or> (of_char c :: nat) \<in> {178, 179, 185}) s"

fun digits_val :: "nat \<Rightarrow> string \<Rightarrow> nat res" where
  "digits_val acc [] = Inr acc"
| "digits_val acc (c # cs) =
    (if 48 \<le> (of_char c :: nat) \<and> (of_char c :: nat) \<le> 57 then digits_val (10 * acc + (of_char c - 48)) cs
     else Inl (ValueError ''invalid literal for int() with base 10''))"

text \<open>\<open>hash\<close> of a string is the parameter \<open>h\<close>: it differs from process to process unless \<open>PYTHONHASHSEED\<close> is set.\<close>

definition point_id :: "(string \<Rightarrow> int) \<Rightarrow> string \<Rightarrow> int res" where
  "point_id h s = (if py_isdigit s then (case digits_val 0 s of Inl e \<Rightarrow> Inl e | Inr n \<Rightarrow> Inr (int n)) else Inr (\<bar>h s\<bar> mod (2 ^ 63 - 1)))"

definition distance_of :: "string \<Rightarrow> distance" where
  "distance_of d = (let t = py_lower d in if t = ''euclid'' then EUCLID else if t = ''dot'' then DOT else COSINE)"

definition sdk_recreate_collection :: "'k qdrant_sdk \<Rightarrow> string \<Rightarrow> int \<Rightarrow> string \<Rightarrow> 'k \<Rightarrow> unit res \<times> 'k" where
  "sdk_recreate_collection K c d distance k = sk_recreate K c d (distance_of distance) k"

definition sdk_point :: "(string \<Rightarrow> int) \<Rightarrow> f32 list list \<Rightarrow> json list option \<Rightarrow> nat \<times> string \<Rightarrow> (int \<times> f32 list \<times> json) res" where
  "sdk_point h vecs payloads ip =
    (case ip of (i, p) \<Rightarrow>
      if (case payloads of None \<Rightarrow> False | Some js \<Rightarrow> length js \<le> i) then Inl (OtherError ''IndexError'')
      else bind_res (point_id h p) (\<lambda>q.
        if length vecs \<le> i then Inl (OtherError ''IndexError'')
        else Inr (q, vecs ! i, case payloads of None \<Rightarrow> JObj [] | Some js \<Rightarrow> js ! i)))"

definition sdk_upsert_points ::
  "'k qdrant_sdk \<Rightarrow> (string \<Rightarrow> int) \<Rightarrow> string \<Rightarrow> string list \<Rightarrow> f32 list list \<Rightarrow> json list option \<Rightarrow> 'k \<Rightarrow> unit res \<times> 'k" where
  "sdk_upsert_points K h c ids vecs payloads k =
    (case map_res (sdk_point h vecs payloads) (enumerate 0 ids) of Inl e \<Rightarrow> (Inl e, k) | Inr ps \<Rightarrow> sk_upsert K c ps k)"

definition sdk_delete_points :: "'k qdrant_sdk \<Rightarrow> (string \<Rightarrow> int) \<Rightarrow> string \<Rightarrow> string list \<Rightarrow> 'k \<Rightarrow> unit res \<times> 'k" where
  "sdk_delete_points K h c ids k = (case map_res (point_id h) ids of Inl e \<Rightarrow> (Inl e, k) | Inr ps \<Rightarrow> sk_delete K c ps k)"

text \<open>A response without a count counts as 0.\<close>

definition sdk_count_points :: "'k qdrant_sdk \<Rightarrow> string \<Rightarrow> 'k \<Rightarrow> int res" where
  "sdk_count_points K c k = bind_res (sk_count K c k) (\<lambda>n. Inr (case n of None \<Rightarrow> 0 | Some i \<Rightarrow> i))"

definition sdk_get_point_vector :: "'k qdrant_sdk \<Rightarrow> (string \<Rightarrow> int) \<Rightarrow> string \<Rightarrow> string \<Rightarrow> 'k \<Rightarrow> f32 list option res" where
  "sdk_get_point_vector K h c p k =
    bind_res (point_id h p) (\<lambda>q. bind_res (sk_retrieve K c [q] k) (\<lambda>pts.
      case pts of
        [] \<Rightarrow> Inr None
      | Plain v # _ \<Rightarrow> Inr (Some v)
      | Named [] # _ \<Rightarrow> Inl (OtherError ''StopIteration'')
      | Named ((_, v) # _) # _ \<Rightarrow> Inr (Some v)
      | NoVector # _ \<Rightarrow> Inr None))"

definition sdk_qdrant_client :: "'k qdrant_sdk \<Rightarrow> (string \<Rightarrow> int) \<Rightarrow> 'k qdrant_client" where
  "sdk_qdrant_client K h = \<lparr>qc_upsert = sdk_upsert_points K h, qc_delete = sdk_delete_points K h,
     qc_recreate = sdk_recreate_collection K, qc_count = sdk_count_points K, qc_get = sdk_get_point_vector K h\<rparr>"

section \<open>The adapter\<close>

record 'c qdrant_adapter =
  qd_collection :: string
  qd_distance :: string
  qd_store :: mstore
  qd_exts :: "(int, string) dict"
  qd_client :: 'c

text \<open>
  The constructor. The client is the one that was given, or one that connects to a URL, or the in-memory one; \<open>qd_init\<close> gets it as \<open>k\<close>.
\<close>

definition qd_choose_client :: "'c option \<Rightarrow> string option \<Rightarrow> bool \<Rightarrow> (string \<Rightarrow> 'c) \<Rightarrow> 'c \<Rightarrow> 'c res" where
  "qd_choose_client client url available connect in_memory =
    (case client of
       Some k \<Rightarrow> Inr k
     | None \<Rightarrow> (case url of
         Some u \<Rightarrow> if available then Inr (connect u) else Inl (OtherError ''qdrant-client required for URL mode. pip install qdrant-client'')
       | None \<Rightarrow> Inr in_memory))"

definition qd_init ::
  "'c qdrant_client \<Rightarrow> 'c \<Rightarrow> int \<Rightarrow> string \<Rightarrow> string \<Rightarrow> bool \<Rightarrow> id_registry \<Rightarrow> 'c qdrant_adapter res \<times> id_registry" where
  "qd_init C k dm collection distance ensure r =
    (if dm \<le> 0 then (Inl (ValueError ''dim must be positive''), r)
     else case ensure_collection collection r of
       (Inl e, r1) \<Rightarrow> (Inl e, r1)
     | (Inr _, r1) \<Rightarrow>
         (case (if ensure then qc_recreate C collection dm distance k else (Inr (), k)) of
            (Inl e, _) \<Rightarrow> (Inl e, r1)
          | (Inr _, k1) \<Rightarrow>
              (Inr \<lparr>qd_collection = collection, qd_distance = distance, qd_store = ms_new (nat dm), qd_exts = [], qd_client = k1\<rparr>, r1)))"

fun qd_register_rows ::
  "string \<Rightarrow> (string \<times> f32 list) list \<Rightarrow> id_registry \<times> mstore \<times> (int, string) dict
    \<Rightarrow> int list res \<times> id_registry \<times> mstore \<times> (int, string) dict" where
  "qd_register_rows c [] rsx = (Inr [], rsx)"
| "qd_register_rows c ((ext, row) # rest) (r, s, x) =
    (case register c ext None r of
       (Inl e, r1) \<Rightarrow> (Inl e, r1, s, x)
     | (Inr l, r1) \<Rightarrow>
         let s1 = put_row l row s;
             x1 = dset l ext x;
             s2 = undelete l s1
         in (case qd_register_rows c rest (r1, s2, x1) of
               (Inl e, rsx) \<Rightarrow> (Inl e, rsx)
             | (Inr ls, rsx) \<Rightarrow> (Inr (l # ls), rsx)))"

definition qd_add ::
  "'c qdrant_client \<Rightarrow> string option \<Rightarrow> json list option \<Rightarrow> string list \<Rightarrow> np_array \<Rightarrow> id_registry \<times> 'c qdrant_adapter
    \<Rightarrow> int list res \<times> id_registry \<times> 'c qdrant_adapter" where
  "qd_add C collection payloads ids vecs ra =
    (case ra of (r, a) \<Rightarrow>
     let coll = (case collection of Some c \<Rightarrow> if c = [] then qd_collection a else c | None \<Rightarrow> qd_collection a) in
     case check_shapes (ms_dim (qd_store a)) ids vecs of
       Inl e \<Rightarrow> (Inl e, r, a)
     | Inr rows \<Rightarrow>
         (case qd_register_rows coll (zip ids rows) (r, qd_store a, qd_exts a) of
            (Inl e, r1, s1, x1) \<Rightarrow> (Inl e, r1, a\<lparr>qd_store := s1, qd_exts := x1\<rparr>)
          | (Inr labels, r1, s1, x1) \<Rightarrow>
              let a1 = a\<lparr>qd_store := s1, qd_exts := x1\<rparr>
              in if rows = [] then (Inl (ValueError ''need at least one array to stack''), r1, a1)
                 else (case qc_upsert C coll ids rows payloads (qd_client a) of
                         (Inl e, k1) \<Rightarrow> (Inl e, r1, a1\<lparr>qd_client := k1\<rparr>)
                       | (Inr _, k1) \<Rightarrow> (Inr labels, r1, a1\<lparr>qd_client := k1\<rparr>))))"

text \<open>The id of a label: from the dict, else from the registry \<open>rg\<close>, else the label as a string.\<close>

definition qd_point_of :: "id_registry \<Rightarrow> string \<Rightarrow> int \<Rightarrow> (int, string) dict \<Rightarrow> string \<times> (int, string) dict" where
  "qd_point_of rg collection label x =
    (case dget x label of
       Some e \<Rightarrow> (e, x)
     | None \<Rightarrow> (case external_of collection label rg of Inr e \<Rightarrow> (e, dset label e x) | Inl _ \<Rightarrow> (int_str label, x)))"

definition qd_hard_delete_label ::
  "'c qdrant_client \<Rightarrow> id_registry \<Rightarrow> string \<Rightarrow> int \<Rightarrow> int \<Rightarrow> 'c qdrant_adapter \<Rightarrow> backend_erase_result res \<times> 'c qdrant_adapter" where
  "qd_hard_delete_label C rg collection label max_m a =
    (case dget (ms_row_of (qd_store a)) label of
       None \<Rightarrow> (Inr \<lparr>br_success = False, br_label = label, br_bytes_wiped = 0, br_message = Some ''unknown label'', br_compacted = False\<rparr>, a)
     | Some i \<Rightarrow>
         if length (ms_rows (qd_store a)) \<le> i then (Inl (OtherError ''IndexError''), a)
         else
         let (ext, x1) = qd_point_of rg collection label (qd_exts a);
             a1 = a\<lparr>qd_store := mark_deleted label (wipe_row label (qd_store a)), qd_exts := x1\<rparr>
         in (case qc_delete C (if collection = [] then qd_collection a else collection) [ext] (qd_client a) of
               (Inl e, k1) \<Rightarrow>
                 (Inr \<lparr>br_success = False, br_label = label, br_bytes_wiped = row_bytes_of (qd_store a),
                       br_message = Some (''zeroed+qdrant_error('' @ exn_str e @ '')''), br_compacted = False\<rparr>, a1\<lparr>qd_client := k1\<rparr>)
             | (Inr _, k1) \<Rightarrow>
                 (Inr \<lparr>br_success = True, br_label = label, br_bytes_wiped = row_bytes_of (qd_store a),
                       br_message = Some ''zeroed+qdrant_delete'', br_compacted = False\<rparr>, a1\<lparr>qd_client := k1\<rparr>)))"

definition qd_compact :: "'c qdrant_client \<Rightarrow> 'c qdrant_adapter \<Rightarrow> int res \<times> 'c qdrant_adapter" where
  "qd_compact C a =
    (let pts = map (\<lambda>(lab, row). (case dget (qd_exts a) lab of Some e \<Rightarrow> e | None \<Rightarrow> int_str lab, row)) (live_items (qd_store a))
     in case qc_recreate C (qd_collection a) (int (ms_dim (qd_store a))) (qd_distance a) (qd_client a) of
          (Inl e, k1) \<Rightarrow> (Inl e, a\<lparr>qd_client := k1\<rparr>)
        | (Inr _, k1) \<Rightarrow>
            (case (if pts = [] then (Inr (), k1) else qc_upsert C (qd_collection a) (map fst pts) (map snd pts) None k1) of
               (Inl e, k2) \<Rightarrow> (Inl e, a\<lparr>qd_client := k2\<rparr>)
             | (Inr _, k2) \<Rightarrow> (Inr (int (length pts)), a\<lparr>qd_client := k2\<rparr>)))"

definition qdrant_backend ::
  "'c qdrant_client \<Rightarrow> id_registry \<Rightarrow> ('c qdrant_adapter \<Rightarrow> string \<Rightarrow> bytes option) \<Rightarrow> 'c qdrant_adapter backend" where
  "qdrant_backend C rg files = \<lparr>
     bk_hard_delete = qd_hard_delete_label C rg,
     bk_verify_zeroed = (\<lambda>c l a. ms_verify_zeroed l (qd_store a)),
     bk_get_vector = Some (\<lambda>l a. ms_get_vector l (qd_store a)),
     bk_compact = Some (qd_compact C),
     bk_num_vectors = Some (\<lambda>a. int (length (ms_rows (qd_store a)))),
     bk_heal_mirror = False, bk_persistence = None, bk_files = files\<rparr>"

section \<open>The contracts\<close>

lemma qd_compact_store: "qd_compact C a = (r, a') \<Longrightarrow> qd_store a' = qd_store a \<and> qd_exts a' = qd_exts a \<and> qd_collection a' = qd_collection a"
  by (auto simp: qd_compact_def Let_def split: prod.splits sum.splits if_splits)

lemma qd_delete_store:
  "qd_hard_delete_label C rg c l m a = (r, a') \<Longrightarrow>
    qd_store a' = qd_store a \<or> qd_store a' = wipe_row l (qd_store a)
    \<or> ms_has (qd_store a) l \<and> qd_store a' = mark_deleted l (wipe_row l (qd_store a))"
  by (auto simp: qd_hard_delete_label_def Let_def ms_has_def split: option.splits prod.splits sum.splits if_splits)

interpretation qdrant: matrix_backend "qdrant_backend C rg files" qd_store
  for C :: "'c qdrant_client" and rg files
  by unfold_locales (auto simp: qdrant_backend_def dest: qd_delete_store qd_compact_store)

lemma qd_rows_points: "qd_register_rows c rows rsx = point_rows c rows rsx"
  by (induction c rows rsx rule: point_rows.induct) (auto simp: Let_def split: prod.splits sum.splits)

subsection \<open>The in-memory client\<close>

definition mq_points :: "string \<Rightarrow> mem_qdrant \<Rightarrow> string \<Rightarrow> f32 list option" where
  "mq_points c k p = dget (mq_store c k) p"

lemma mq_upsert:
  assumes "length ids = length vecs" "vecs \<noteq> []"
  shows "\<exists>k'. mq_upsert_points c ids vecs pl k = (Inr (), k') \<and> mq_points c k' = mq_points c k ++ map_of (rev (zip ids vecs))"
proof -
  let ?k1 = "if dget (mq_data k) c = None then snd (mq_recreate_collection c (int (length (hd vecs))) ''Cosine'' k) else k"
  have "mq_store c ?k1 = mq_store c k"
    by (simp add: mq_store_def mq_recreate_collection_def)
  then have "dget (foldl (\<lambda>d (p, v). dset p v d) (mq_store c ?k1) (zip ids vecs)) = mq_points c k ++ map_of (rev (zip ids vecs))"
    by (simp add: dget_foldl_dset mq_points_def [abs_def])
  then show ?thesis using assms by (simp add: mq_upsert_points_def Let_def mq_points_def [abs_def] mq_store_def)
qed

lemma mq_delete: "\<exists>k'. mq_delete_points c ids k = (Inr (), k') \<and> mq_points c k' = (\<lambda>p. if p \<in> set ids then None else mq_points c k p)"
  by (auto simp: mq_delete_points_def mq_points_def [abs_def] mq_store_def dget_foldl_ddel fun_eq_iff)

lemma mq_recreate: "\<exists>k'. mq_recreate_collection c d ds k = (Inr (), k') \<and> mq_points c k' = Map.empty"
  by (auto simp: mq_recreate_collection_def mq_points_def [abs_def] mq_store_def fun_eq_iff)

subsection \<open>The adapter over it\<close>

abbreviation qdm_backend :: "id_registry \<Rightarrow> (mem_qdrant qdrant_adapter \<Rightarrow> string \<Rightarrow> bytes option) \<Rightarrow> mem_qdrant qdrant_adapter backend" where
  "qdm_backend rg files \<equiv> qdrant_backend mem_qdrant_client rg files"

definition qdm_served :: "string \<Rightarrow> mem_qdrant qdrant_adapter \<Rightarrow> string \<Rightarrow> f32 list option" where
  "qdm_served c a = mq_points c (qd_client a)"

definition qdm_good :: "string \<Rightarrow> mem_qdrant qdrant_adapter \<Rightarrow> bool" where
  "qdm_good c a \<longleftrightarrow> qd_collection a = c \<and> c \<noteq> []"

lemma qdm_client_simps [simp]:
  "qc_upsert mem_qdrant_client = mq_upsert_points" "qc_delete mem_qdrant_client = mq_delete_points"
  "qc_recreate mem_qdrant_client = mq_recreate_collection"
  by (simp_all add: mem_qdrant_client_def)

lemma qdrant_backend_simps:
  "bk_hard_delete (qdrant_backend C rg files) = qd_hard_delete_label C rg" "bk_compact (qdrant_backend C rg files) = Some (qd_compact C)"
  by (simp_all add: qdrant_backend_def)

lemma qdm_erase:
  assumes "qdm_good coll a" "ms_ok (qd_store a)" "dget (qd_exts a) l = Some e" "ms_has (qd_store a) l"
    "qd_hard_delete_label mem_qdrant_client rg coll l m a = (r, a')"
  shows "qdm_good coll a' \<and> qd_store a' = mark_deleted l (wipe_row l (qd_store a)) \<and> qd_exts a' = qd_exts a
    \<and> qdm_served coll a' = (qdm_served coll a)(e := None)"
proof -
  obtain i where i: "dget (ms_row_of (qd_store a)) l = Some i" "i < length (ms_rows (qd_store a))"
    using assms(2,4) ms_row_bound by (auto simp: ms_has_def)
  obtain k' where k: "mq_delete_points coll [e] (qd_client a) = (Inr (), k')"
    "mq_points coll k' = (\<lambda>p. if p \<in> set [e] then None else mq_points coll (qd_client a) p)"
    using mq_delete by blast
  have "a' = a\<lparr>qd_store := mark_deleted l (wipe_row l (qd_store a)), qd_client := k'\<rparr>"
    using assms(1,3,5) i k(1) by (simp add: qd_hard_delete_label_def qd_point_of_def qdm_good_def)
  then show ?thesis using assms(1) k(2) by (auto simp: qdm_good_def qdm_served_def fun_eq_iff)
qed

lemma qdm_compact:
  assumes "qdm_good coll a" "qd_compact mem_qdrant_client a = (r, a')"
  shows "qdm_good coll a' \<and> qd_exts a' = qd_exts a \<and> qdm_served coll a' = map_of (rev (live_points (qd_store a) (qd_exts a)))"
proof -
  let ?pts = "live_points (qd_store a) (qd_exts a)"
  have pts: "map (\<lambda>(lab, row). (case dget (qd_exts a) lab of Some e \<Rightarrow> e | None \<Rightarrow> int_str lab, row)) (live_items (qd_store a)) = ?pts"
    by (simp add: live_points_def ext_of_def)
  have c: "qd_collection a = coll" using assms(1) by (simp add: qdm_good_def)
  obtain k1 where k1: "mq_recreate_collection coll (int (ms_dim (qd_store a))) (qd_distance a) (qd_client a) = (Inr (), k1)" "mq_points coll k1 = Map.empty"
    using mq_recreate by blast
  show ?thesis
  proof (cases "?pts = []")
    case True
    then have "a' = a\<lparr>qd_client := k1\<rparr>" using assms(2) k1(1) c by (simp add: qd_compact_def pts Let_def)
    then show ?thesis using True assms(1) k1(2) by (simp add: qdm_good_def qdm_served_def)
  next
    case False
    obtain k2 where k2: "mq_upsert_points coll (map fst ?pts) (map snd ?pts) None k1 = (Inr (), k2)"
      "mq_points coll k2 = mq_points coll k1 ++ map_of (rev (zip (map fst ?pts) (map snd ?pts)))"
      using mq_upsert [of "map fst ?pts" "map snd ?pts" coll None k1] False by auto
    have "a' = a\<lparr>qd_client := k2\<rparr>" using assms(2) k1(1) k2(1) c False by (simp add: qd_compact_def pts Let_def)
    then show ?thesis using assms(1) k1(2) k2(2) by (simp add: qdm_good_def qdm_served_def zip_map_fst_snd)
  qed
qed

lemma qdm_add:
  assumes "qdm_good coll a" "check_shapes (ms_dim (qd_store a)) ids vecs = Inr rows" "rows \<noteq> []"
    "point_rows coll (zip ids rows) (g, qd_store a, qd_exts a) = (Inr ls, g', s', x')"
  shows "\<exists>a'. qd_add mem_qdrant_client None pl ids vecs (g, a) = (Inr ls, g', a') \<and> qdm_good coll a' \<and> qd_store a' = s' \<and> qd_exts a' = x'
    \<and> qdm_served coll a' = qdm_served coll a ++ map_of (rev (zip ids rows))"
proof -
  have len: "length ids = length rows" using assms(2) by (auto simp: check_shapes_def split: prod.splits if_splits)
  have c: "qd_collection a = coll" using assms(1) by (simp add: qdm_good_def)
  obtain k' where k: "mq_upsert_points coll ids rows pl (qd_client a) = (Inr (), k')"
    "mq_points coll k' = mq_points coll (qd_client a) ++ map_of (rev (zip ids rows))"
    using mq_upsert [OF len assms(3)] by blast
  have "qd_add mem_qdrant_client None pl ids vecs (g, a) = (Inr ls, g', a\<lparr>qd_store := s', qd_exts := x', qd_client := k'\<rparr>)"
    using assms(2-4) k(1) c by (simp add: qd_add_def qd_rows_points Let_def)
  then show ?thesis using assms(1) k(2) by (auto simp: qdm_good_def qdm_served_def)
qed

interpretation qdm: point_adapter "qdm_backend rg files" qd_store qd_exts "qdm_served coll" "qdm_good coll" coll "qd_add mem_qdrant_client None pl"
  for rg files coll pl
proof unfold_locales
  fix w l e m r w'
  assume "qdm_good coll w" "ms_ok (qd_store w)" "dget (qd_exts w) l = Some e" "ms_has (qd_store w) l"
    "bk_hard_delete (qdm_backend rg files) coll l m w = (r, w')"
  then show "qdm_good coll w' \<and> qd_store w' = mark_deleted l (wipe_row l (qd_store w)) \<and> qd_exts w' = qd_exts w
      \<and> qdm_served coll w' = (qdm_served coll w)(e := None)"
    unfolding qdrant_backend_simps by (rule qdm_erase)
next
  fix w l m r w'
  assume "\<not> ms_has (qd_store w) l" "bk_hard_delete (qdm_backend rg files) coll l m w = (r, w')"
  then show "w' = w \<and> (\<exists>br. r = Inr br \<and> \<not> br_success br)"
    unfolding qdrant_backend_simps by (auto simp: qd_hard_delete_label_def ms_has_def)
next
  fix w f r' w'
  assume "qdm_good coll w" "bk_compact (qdm_backend rg files) = Some f" "f w = (r', w')"
  then show "qdm_good coll w' \<and> qd_exts w' = qd_exts w \<and> qdm_served coll w' = map_of (rev (live_points (qd_store w) (qd_exts w)))"
    unfolding qdrant_backend_simps using qdm_compact by blast
next
  fix w ids vecs rows g ls g' s' x'
  assume "qdm_good coll w" "check_shapes (ms_dim (qd_store w)) ids vecs = Inr rows" "rows \<noteq> []"
    "point_rows coll (zip ids rows) (g, qd_store w, qd_exts w) = (Inr ls, g', s', x')"
  then show "\<exists>w'. qd_add mem_qdrant_client None pl ids vecs (g, w) = (Inr ls, g', w') \<and> qdm_good coll w' \<and> qd_store w' = s' \<and> qd_exts w' = x'
      \<and> qdm_served coll w' = qdm_served coll w ++ map_of (rev (zip ids rows))"
    by (rule qdm_add)
qed

section \<open>Properties\<close>

text \<open>A service over a new adapter.\<close>

lemma qdm_start:
  assumes "qd_init mem_qdrant_client k dm c distance True r = (Inr a, r1)" "reg_ok r" "py_strip c \<noteq> []"
  shows "point_inv qd_store qd_exts (qdm_served c) (qdm_good c) c (service_over r1 a) \<and> qdm_served c a = Map.empty \<and> ms_dim (qd_store a) = nat dm"
proof -
  obtain k1 where k1: "mq_recreate_collection c dm distance k = (Inr (), k1)" "mq_points c k1 = Map.empty" using mq_recreate by blast
  obtain q r0 where e: "ensure_collection c r = (q, r0)" by fastforce
  have "\<exists>u. q = Inr u" using e assms(3) by (auto simp: ensure_collection_def norm_collection_def Let_def)
  then have u: "ensure_collection c r = (q, r1)"
    and a: "a = \<lparr>qd_collection = c, qd_distance = distance, qd_store = ms_new (nat dm), qd_exts = [], qd_client = k1\<rparr>"
    using assms(1) k1(1) e by (auto simp: qd_init_def split: if_splits)
  have "reg_ok r1" using reg_step_ok [OF assms(2), of "EnsureOp c"] u by simp
  moreover have "c \<noteq> []" using assms(3) by (auto simp: py_strip_def)
  ultimately show ?thesis using assms(3) k1(2)
    by (auto simp: a point_inv_def service_over_def qdm_good_def qdm_served_def intro!: served_invI)
      (auto simp: ms_new_def ms_has_def live_def)
qed

text \<open>
  C29: Refinement: the erasure service over the Qdrant adapter with the in-memory client implements a map from ids to vectors. From a new adapter,
  after any sequence of adds (clean ids, rows of the right width that are not zero) and deletes (any ids, known or not, any options), the
  points served from the collection are those of the map on which an add sets its ids and a delete removes its ids, however often and for whatever
  reason the deletes compacted.
\<close>

theorem qdrant_service_is_a_map:
  assumes "qd_init mem_qdrant_client k dm c distance True r = (Inr a, r1)" "reg_ok r" "py_strip c \<noteq> []"
    and "list_all (point_op_ok (nat dm)) ops"
    and "s = foldl (\<lambda>s op. point_step (qdm_backend rg files) (qd_add mem_qdrant_client None pl) c op s) (service_over r1 a) ops"
  shows "mq_points c (qd_client (sv_world s)) = foldl (\<lambda>f op. map_step op f) Map.empty ops"
proof -
  have st: "point_inv qd_store qd_exts (qdm_served c) (qdm_good c) c (service_over r1 a)" "qdm_served c a = Map.empty" "ms_dim (qd_store a) = nat dm"
    using qdm_start [OF assms(1-3)] by blast+
  have w: "sv_world (service_over r1 a) = a" by (simp add: service_over_def)
  have "list_all (point_op_ok (ms_dim (qd_store (sv_world (service_over r1 a))))) ops" using assms(4) by (simp add: w st(3))
  from qdm.point_run_ok [OF st(1) this assms(5)] show ?thesis
    by (simp add: w st(2)) (simp add: qdm_served_def)
qed

definition demo_qd_new :: "mem_qdrant qdrant_adapter res \<times> id_registry" where
  "demo_qd_new = qd_init mem_qdrant_client \<lparr>mq_data = [], mq_dims = []\<rparr> 2 ''users'' ''Cosine'' True empty_registry"

definition demo_qd_service :: "mem_qdrant qdrant_adapter service" where
  "demo_qd_service = service_over (snd demo_qd_new) (projr (fst demo_qd_new))"

definition demo_qd_ops :: "point_op list" where
  "demo_qd_ops = [PAdd [''alice'', ''bob''] (Arr2 2 [[1, 2], [3, 4]]),
     PDelete demo_config demo_senv ['' alice '', ''zed''] 16 (Some (CStr ''always'')) None None]"

lemma demo_qd_facts: "\<not> isl (fst demo_qd_new)" "py_strip ''users'' = ''users''" "list_all (point_op_ok 2) demo_qd_ops"
  "clean_ids ['' alice '', ''zed''] = [''alice'', ''zed'']"
  by code_simp+

lemma demo_qd_init:
  "qd_init mem_qdrant_client \<lparr>mq_data = [], mq_dims = []\<rparr> 2 ''users'' ''Cosine'' True empty_registry = (Inr (projr (fst demo_qd_new)), snd demo_qd_new)"
  using demo_qd_facts(1) by (cases "fst demo_qd_new") (auto simp: demo_qd_new_def prod_eq_iff)

lemma qdrant_service_is_a_map_witness:
  "mq_points ''users'' (qd_client (sv_world (foldl (\<lambda>s op. point_step (qdm_backend empty_registry (\<lambda>_ _. None))
       (qd_add mem_qdrant_client None None) ''users'' op s) demo_qd_service demo_qd_ops))) = [''bob'' \<mapsto> [3, 4]]"
proof -
  have c: "py_strip ''users'' \<noteq> []" by (simp add: demo_qd_facts(2))
  have ops: "list_all (point_op_ok (nat 2)) demo_qd_ops" using demo_qd_facts(3) by simp
  have "foldl (\<lambda>f op. map_step op f) Map.empty demo_qd_ops = [''bob'' \<mapsto> [3, 4]]"
    by (auto simp: demo_qd_ops_def demo_qd_facts(4) fun_eq_iff map_add_def)
  then show ?thesis
    using qdrant_service_is_a_map [OF demo_qd_init reg_ok_empty c ops refl, of "empty_registry" "\<lambda>_ _. None" None]
    by (simp add: demo_qd_service_def)
qed

text \<open>Adding an id in another spelling, and deleting it.\<close>

definition respelled_adds :: "mem_qdrant qdrant_adapter service" where
  "respelled_adds = foldl (\<lambda>s op. point_step (qdm_backend empty_registry (\<lambda>_ _. None)) (qd_add mem_qdrant_client None None) ''users'' op s)
     demo_qd_service [PAdd [''alice''] (Arr1 [1, 2]), PAdd ['' alice ''] (Arr1 [3, 4])]"

definition respelled_loop :: "exn option \<times> mem_qdrant qdrant_adapter service \<times> batch" where
  "respelled_loop = erase_loop (qdm_backend empty_registry (\<lambda>_ _. None)) demo_config True False ''users'' 16 [''alice'']
     (respelled_adds, empty_batch [])"

lemma respelled_run:
  "fst respelled_loop = None" "bt_labels (snd (snd respelled_loop)) = [0]" "bt_errors (snd (snd respelled_loop)) = []"
  "mq_get_point_vector ''users'' ''alice'' (qd_client (sv_world (fst (snd respelled_loop)))) = Inr (Some [1, 2])"
  "mq_count_points ''users'' (qd_client (sv_world respelled_adds)) = Inr 2"
  by code_simp+

text \<open>
  The point of an id is stored as the id was spelled, while the registry strips it: after adding \<open>alice\<close> and then \<open>' alice '\<close>
  (one registry entry, two points), a delete of \<open>alice\<close> without compaction reports complete and leaves the first vector served under \<open>alice\<close>.
\<close>

theorem respelled_point_survives:
  "\<exists>r s'. delete (qdm_backend empty_registry (\<lambda>_ _. None)) demo_config demo_senv ''users'' [''alice''] None None 16 True
      (Some (CStr ''never'')) (Some ''off'') None respelled_adds = (Inr r, s')
    \<and> rc_status r = complete \<and> rc_labels r = [0]
    \<and> mq_get_point_vector ''users'' ''alice'' (qd_client (sv_world s')) = Inr (Some [1, 2])"
proof -
  obtain s1 bt1 where l: "respelled_loop = (None, s1, bt1)" using respelled_run(1) by (metis prod.collapse)
  have ids: "clean_ids [''alice''] = [''alice'']" by code_simp
  have "erase_loop (qdm_backend empty_registry (\<lambda>_ _. None)) demo_config True False ''users'' 16 (clean_ids [''alice''])
     (respelled_adds, empty_batch []) = (None, s1, bt1)" using l unfolding respelled_loop_def ids .
  from uncompacted_delete [OF this, of demo_senv None None None] obtain r s' where
    d: "delete (qdm_backend empty_registry (\<lambda>_ _. None)) demo_config demo_senv ''users'' [''alice''] None None 16 True
      (Some (CStr ''never'')) (Some ''off'') None respelled_adds = (Inr r, s')"
    "rc_labels r = bt_labels bt1" "sv_world s' = sv_world s1"
    "rc_status r = derive_status (int (length (clean_ids [''alice'']))) (int (length (bt_labels bt1))) (bt_errors bt1) ''off'' None False" by blast
  have b: "bt_labels bt1 = [0]" "bt_errors bt1 = []" using respelled_run(2,3) unfolding l by simp_all
  have "rc_status r = complete" unfolding d(4) b ids by (simp add: derive_status_complete_iff)
  moreover have "mq_get_point_vector ''users'' ''alice'' (qd_client (sv_world s1)) = Inr (Some [1, 2])" using respelled_run(4) unfolding l by simp
  ultimately show ?thesis using d b(1) by auto
qed

text \<open>Numeric ids with leading zeros are one point of the official client.\<close>

lemma leading_zero_same_point: "py_isdigit s \<Longrightarrow> point_id h (CHR ''0'' # s) = point_id h s"
  by (simp add: point_id_def py_isdigit_def)

end
