(* ===== verification/WeaviateAdapter.thy ===== *)
theory WeaviateAdapter
  imports PointStore
begin

text \<open>
  \<open>integrations/weaviate_adapter.py\<close>: the in-memory client and the adapter over any client (the parameter \<open>C\<close>). All objects are in one class,
  whatever collection an id belongs to.
\<close>

section \<open>Clients\<close>

text \<open>\<open>WeaviateClientProtocol\<close>.\<close>

record 'c weaviate_client =
  wc_ensure :: "string \<Rightarrow> int \<Rightarrow> 'c \<Rightarrow> unit res \<times> 'c"
  wc_upsert :: "string \<Rightarrow> string list \<Rightarrow> f32 list list \<Rightarrow> json list option \<Rightarrow> 'c \<Rightarrow> unit res \<times> 'c"
  wc_delete :: "string \<Rightarrow> string list \<Rightarrow> 'c \<Rightarrow> unit res \<times> 'c"
  wc_clear :: "string \<Rightarrow> 'c \<Rightarrow> unit res \<times> 'c"
  wc_count :: "string \<Rightarrow> 'c \<Rightarrow> int res"

record mem_weaviate =
  mw_objs :: "(string, (string, f32 list) dict) dict"
  mw_dims :: "(string, int) dict"

definition mw_store :: "string \<Rightarrow> mem_weaviate \<Rightarrow> (string, f32 list) dict" where
  "mw_store c k = (case dget (mw_objs k) c of None \<Rightarrow> [] | Some d \<Rightarrow> d)"

definition mw_ensure_class :: "string \<Rightarrow> int \<Rightarrow> mem_weaviate \<Rightarrow> unit res \<times> mem_weaviate" where
  "mw_ensure_class c d k = (Inr (), k\<lparr>mw_objs := dsetdefault c [] (mw_objs k), mw_dims := dset c d (mw_dims k)\<rparr>)"

definition mw_upsert_objects ::
  "string \<Rightarrow> string list \<Rightarrow> f32 list list \<Rightarrow> json list option \<Rightarrow> mem_weaviate \<Rightarrow> unit res \<times> mem_weaviate" where
  "mw_upsert_objects c ids vecs properties k =
    (if vecs = [] then (Inl (OtherError ''IndexError''), k)
     else let k1 = snd (mw_ensure_class c (int (length (hd vecs))) k);
              d = foldl (\<lambda>d (p, v). dset p v d) (mw_store c k1) (zip ids vecs)
          in (if length vecs < length ids then Inl (OtherError ''IndexError'') else Inr (), k1\<lparr>mw_objs := dset c d (mw_objs k1)\<rparr>))"

definition mw_delete_objects :: "string \<Rightarrow> string list \<Rightarrow> mem_weaviate \<Rightarrow> unit res \<times> mem_weaviate" where
  "mw_delete_objects c ids k =
    (Inr (), if dget (mw_objs k) c = None then k
             else k\<lparr>mw_objs := dset c (foldl (\<lambda>d p. ddel p d) (mw_store c k) ids) (mw_objs k)\<rparr>)"

definition mw_clear_class :: "string \<Rightarrow> mem_weaviate \<Rightarrow> unit res \<times> mem_weaviate" where
  "mw_clear_class c k =
    (let d = (case dget (mw_dims k) c of None \<Rightarrow> 0 | Some n \<Rightarrow> n);
         k1 = k\<lparr>mw_objs := dset c [] (mw_objs k)\<rparr>
     in (Inr (), if d \<noteq> 0 then k1\<lparr>mw_dims := dset c d (mw_dims k1)\<rparr> else k1))"

definition mw_count :: "string \<Rightarrow> mem_weaviate \<Rightarrow> int res" where
  "mw_count c k = Inr (int (length (mw_store c k)))"

definition mem_weaviate_client :: "mem_weaviate weaviate_client" where
  "mem_weaviate_client = \<lparr>wc_ensure = mw_ensure_class, wc_upsert = mw_upsert_objects, wc_delete = mw_delete_objects,
     wc_clear = mw_clear_class, wc_count = mw_count\<rparr>"

section \<open>The adapter\<close>

record 'c weaviate_adapter =
  wv_collection :: string
  wv_class_name :: string
  wv_store :: mstore
  wv_exts :: "(int, string) dict"
  wv_client :: 'c

text \<open>\<open>str.upper\<close> of one character of the range; of 181 and 255 the capital letter is outside the range.\<close>

definition upper_char :: "char \<Rightarrow> string" where
  "upper_char ch =
    (let n = (of_char ch :: nat)
     in if (97 \<le> n \<and> n \<le> 122) \<or> (224 \<le> n \<and> n \<le> 254 \<and> n \<noteq> 247) then [char_of (n - 32)]
        else if n = 223 then ''SS'' else [ch])"

definition class_name_of :: "string \<Rightarrow> string" where
  "class_name_of collection = (case collection of [] \<Rightarrow> ''Document'' | ch # rest \<Rightarrow> upper_char ch @ rest)"

definition wv_init ::
  "'c weaviate_client \<Rightarrow> 'c \<Rightarrow> int \<Rightarrow> string \<Rightarrow> id_registry \<Rightarrow> 'c weaviate_adapter res \<times> id_registry" where
  "wv_init C k dm collection r =
    (if dm \<le> 0 then (Inl (ValueError ''dim must be positive''), r)
     else case ensure_collection collection r of
       (Inl e, r1) \<Rightarrow> (Inl e, r1)
     | (Inr _, r1) \<Rightarrow>
         (case wc_ensure C (class_name_of collection) dm k of
            (Inl e, _) \<Rightarrow> (Inl e, r1)
          | (Inr _, k1) \<Rightarrow>
              (Inr \<lparr>wv_collection = collection, wv_class_name = class_name_of collection, wv_store = ms_new (nat dm), wv_exts = [],
                    wv_client = k1\<rparr>, r1)))"

fun wv_register_rows ::
  "string \<Rightarrow> (string \<times> f32 list) list \<Rightarrow> id_registry \<times> mstore \<times> (int, string) dict
    \<Rightarrow> int list res \<times> id_registry \<times> mstore \<times> (int, string) dict" where
  "wv_register_rows c [] rsx = (Inr [], rsx)"
| "wv_register_rows c ((ext, row) # rest) (r, s, x) =
    (case register c ext None r of
       (Inl e, r1) \<Rightarrow> (Inl e, r1, s, x)
     | (Inr l, r1) \<Rightarrow>
         let s1 = put_row l row s;
             x1 = dset l ext x;
             s2 = undelete l s1
         in (case wv_register_rows c rest (r1, s2, x1) of
               (Inl e, rsx) \<Rightarrow> (Inl e, rsx)
             | (Inr ls, rsx) \<Rightarrow> (Inr (l # ls), rsx)))"

definition wv_add ::
  "'c weaviate_client \<Rightarrow> string option \<Rightarrow> json list option \<Rightarrow> string list \<Rightarrow> np_array \<Rightarrow> id_registry \<times> 'c weaviate_adapter
    \<Rightarrow> int list res \<times> id_registry \<times> 'c weaviate_adapter" where
  "wv_add C collection properties ids vecs ra =
    (case ra of (r, a) \<Rightarrow>
     let coll = (case collection of Some c \<Rightarrow> if c = [] then wv_collection a else c | None \<Rightarrow> wv_collection a) in
     case check_shapes (ms_dim (wv_store a)) ids vecs of
       Inl e \<Rightarrow> (Inl e, r, a)
     | Inr rows \<Rightarrow>
         (case wv_register_rows coll (zip ids rows) (r, wv_store a, wv_exts a) of
            (Inl e, r1, s1, x1) \<Rightarrow> (Inl e, r1, a\<lparr>wv_store := s1, wv_exts := x1\<rparr>)
          | (Inr labels, r1, s1, x1) \<Rightarrow>
              let a1 = a\<lparr>wv_store := s1, wv_exts := x1\<rparr>
              in if rows = [] then (Inl (ValueError ''need at least one array to stack''), r1, a1)
                 else (case wc_upsert C (wv_class_name a) ids rows properties (wv_client a) of
                         (Inl e, k1) \<Rightarrow> (Inl e, r1, a1\<lparr>wv_client := k1\<rparr>)
                       | (Inr _, k1) \<Rightarrow> (Inr labels, r1, a1\<lparr>wv_client := k1\<rparr>))))"

definition wv_hard_delete_label ::
  "'c weaviate_client \<Rightarrow> string \<Rightarrow> int \<Rightarrow> int \<Rightarrow> 'c weaviate_adapter \<Rightarrow> backend_erase_result res \<times> 'c weaviate_adapter" where
  "wv_hard_delete_label C collection label max_m a =
    (case dget (ms_row_of (wv_store a)) label of
       None \<Rightarrow> (Inr \<lparr>br_success = False, br_label = label, br_bytes_wiped = 0, br_message = Some ''unknown label'', br_compacted = False\<rparr>, a)
     | Some i \<Rightarrow>
         if length (ms_rows (wv_store a)) \<le> i then (Inl (OtherError ''IndexError''), a)
         else
         let ext = (case dget (wv_exts a) label of Some e \<Rightarrow> e | None \<Rightarrow> int_str label);
             a1 = a\<lparr>wv_store := mark_deleted label (wipe_row label (wv_store a))\<rparr>
         in (case wc_delete C (wv_class_name a) [ext] (wv_client a) of
               (Inl e, k1) \<Rightarrow>
                 (Inr \<lparr>br_success = False, br_label = label, br_bytes_wiped = row_bytes_of (wv_store a),
                       br_message = Some (''zeroed+weaviate_error('' @ exn_str e @ '')''), br_compacted = False\<rparr>, a1\<lparr>wv_client := k1\<rparr>)
             | (Inr _, k1) \<Rightarrow>
                 (Inr \<lparr>br_success = True, br_label = label, br_bytes_wiped = row_bytes_of (wv_store a),
                       br_message = Some ''zeroed+weaviate_delete'', br_compacted = False\<rparr>, a1\<lparr>wv_client := k1\<rparr>)))"

definition wv_compact :: "'c weaviate_client \<Rightarrow> 'c weaviate_adapter \<Rightarrow> int res \<times> 'c weaviate_adapter" where
  "wv_compact C a =
    (let pts = map (\<lambda>(lab, row). (case dget (wv_exts a) lab of Some e \<Rightarrow> e | None \<Rightarrow> int_str lab, row)) (live_items (wv_store a))
     in case wc_clear C (wv_class_name a) (wv_client a) of
          (Inl e, k1) \<Rightarrow> (Inl e, a\<lparr>wv_client := k1\<rparr>)
        | (Inr _, k1) \<Rightarrow>
        (case wc_ensure C (wv_class_name a) (int (ms_dim (wv_store a))) k1 of
          (Inl e, k2) \<Rightarrow> (Inl e, a\<lparr>wv_client := k2\<rparr>)
        | (Inr _, k2) \<Rightarrow>
            (case (if pts = [] then (Inr (), k2) else wc_upsert C (wv_class_name a) (map fst pts) (map snd pts) None k2) of
               (Inl e, k3) \<Rightarrow> (Inl e, a\<lparr>wv_client := k3\<rparr>)
             | (Inr _, k3) \<Rightarrow> (Inr (int (length pts)), a\<lparr>wv_client := k3\<rparr>))))"

definition weaviate_backend ::
  "'c weaviate_client \<Rightarrow> ('c weaviate_adapter \<Rightarrow> string \<Rightarrow> bytes option) \<Rightarrow> 'c weaviate_adapter backend" where
  "weaviate_backend C files = \<lparr>
     bk_hard_delete = wv_hard_delete_label C,
     bk_verify_zeroed = (\<lambda>c l a. ms_verify_zeroed l (wv_store a)),
     bk_get_vector = Some (\<lambda>l a. ms_get_vector l (wv_store a)),
     bk_compact = Some (wv_compact C),
     bk_num_vectors = Some (\<lambda>a. int (length (ms_rows (wv_store a)))),
     bk_heal_mirror = False, bk_persistence = None, bk_files = files\<rparr>"

section \<open>The contracts\<close>

lemma wv_compact_store: "wv_compact C a = (r, a') \<Longrightarrow> wv_store a' = wv_store a"
  by (auto simp: wv_compact_def Let_def split: prod.splits sum.splits if_splits)

lemma wv_delete_store:
  "wv_hard_delete_label C c l m a = (r, a') \<Longrightarrow>
    wv_store a' = wv_store a \<or> wv_store a' = wipe_row l (wv_store a)
    \<or> ms_has (wv_store a) l \<and> wv_store a' = mark_deleted l (wipe_row l (wv_store a))"
  by (auto simp: wv_hard_delete_label_def Let_def ms_has_def split: option.splits prod.splits sum.splits if_splits)

interpretation weaviate: matrix_backend "weaviate_backend C files" wv_store
  for C :: "'c weaviate_client" and files
  by unfold_locales (auto simp: weaviate_backend_def dest: wv_delete_store wv_compact_store)

lemma wv_rows_points: "wv_register_rows c rows rsx = point_rows c rows rsx"
  by (induction c rows rsx rule: point_rows.induct) (auto simp: Let_def split: prod.splits sum.splits)

definition mw_points :: "string \<Rightarrow> mem_weaviate \<Rightarrow> string \<Rightarrow> f32 list option" where
  "mw_points c k p = dget (mw_store c k) p"

lemma mw_upsert:
  assumes "length ids = length vecs" "vecs \<noteq> []"
  shows "\<exists>k'. mw_upsert_objects c ids vecs pl k = (Inr (), k') \<and> mw_points c k' = mw_points c k ++ map_of (rev (zip ids vecs))"
proof -
  let ?k1 = "snd (mw_ensure_class c (int (length (hd vecs))) k)"
  have "mw_store c ?k1 = mw_store c k" by (simp add: mw_store_def mw_ensure_class_def split: option.splits)
  then have "dget (foldl (\<lambda>d (p, v). dset p v d) (mw_store c ?k1) (zip ids vecs)) = mw_points c k ++ map_of (rev (zip ids vecs))"
    by (simp add: dget_foldl_dset mw_points_def [abs_def])
  then show ?thesis using assms by (simp add: mw_upsert_objects_def Let_def mw_points_def [abs_def] mw_store_def)
qed

lemma mw_delete: "\<exists>k'. mw_delete_objects c ids k = (Inr (), k') \<and> mw_points c k' = (\<lambda>p. if p \<in> set ids then None else mw_points c k p)"
  by (auto simp: mw_delete_objects_def mw_points_def [abs_def] mw_store_def dget_foldl_ddel fun_eq_iff)

lemma mw_clear: "\<exists>k'. mw_clear_class c k = (Inr (), k') \<and> mw_points c k' = Map.empty"
  by (auto simp: mw_clear_class_def mw_points_def [abs_def] mw_store_def fun_eq_iff Let_def)

lemma mw_ensure: "\<exists>k'. mw_ensure_class c d k = (Inr (), k') \<and> mw_points c k' = mw_points c k"
  by (auto simp: mw_ensure_class_def mw_points_def [abs_def] mw_store_def fun_eq_iff split: option.splits)

section \<open>The adapter over the in-memory client\<close>

abbreviation wvm_backend :: "(mem_weaviate weaviate_adapter \<Rightarrow> string \<Rightarrow> bytes option) \<Rightarrow> mem_weaviate weaviate_adapter backend" where
  "wvm_backend files \<equiv> weaviate_backend mem_weaviate_client files"

definition wvm_served :: "mem_weaviate weaviate_adapter \<Rightarrow> string \<Rightarrow> f32 list option" where
  "wvm_served a = mw_points (wv_class_name a) (wv_client a)"

definition wvm_good :: "string \<Rightarrow> mem_weaviate weaviate_adapter \<Rightarrow> bool" where
  "wvm_good c a \<longleftrightarrow> wv_collection a = c"

lemma wvm_client_simps [simp]:
  "wc_upsert mem_weaviate_client = mw_upsert_objects" "wc_delete mem_weaviate_client = mw_delete_objects"
  "wc_clear mem_weaviate_client = mw_clear_class" "wc_ensure mem_weaviate_client = mw_ensure_class"
  by (simp_all add: mem_weaviate_client_def)

lemma weaviate_backend_simps:
  "bk_hard_delete (weaviate_backend C files) = wv_hard_delete_label C" "bk_compact (weaviate_backend C files) = Some (wv_compact C)"
  by (simp_all add: weaviate_backend_def)

lemma wvm_erase:
  assumes "wvm_good coll a" "ms_ok (wv_store a)" "dget (wv_exts a) l = Some e" "ms_has (wv_store a) l"
    "wv_hard_delete_label mem_weaviate_client c l m a = (r, a')"
  shows "wvm_good coll a' \<and> wv_store a' = mark_deleted l (wipe_row l (wv_store a)) \<and> wv_exts a' = wv_exts a
    \<and> wvm_served a' = (wvm_served a)(e := None)"
proof -
  obtain i where i: "dget (ms_row_of (wv_store a)) l = Some i" "i < length (ms_rows (wv_store a))"
    using assms(2,4) ms_row_bound by (auto simp: ms_has_def)
  obtain k' where k: "mw_delete_objects (wv_class_name a) [e] (wv_client a) = (Inr (), k')"
    "mw_points (wv_class_name a) k' = (\<lambda>p. if p \<in> set [e] then None else mw_points (wv_class_name a) (wv_client a) p)"
    using mw_delete by blast
  have "a' = a\<lparr>wv_store := mark_deleted l (wipe_row l (wv_store a)), wv_client := k'\<rparr>"
    using assms(3,5) i k(1) by (simp add: wv_hard_delete_label_def)
  then show ?thesis using assms(1) k(2) by (auto simp: wvm_good_def wvm_served_def fun_eq_iff)
qed

lemma wvm_compact:
  assumes "wvm_good coll a" "wv_compact mem_weaviate_client a = (r, a')"
  shows "wvm_good coll a' \<and> wv_exts a' = wv_exts a \<and> wvm_served a' = map_of (rev (live_points (wv_store a) (wv_exts a)))"
proof -
  let ?pts = "live_points (wv_store a) (wv_exts a)" and ?c = "wv_class_name a"
  have pts: "map (\<lambda>(lab, row). (case dget (wv_exts a) lab of Some e \<Rightarrow> e | None \<Rightarrow> int_str lab, row)) (live_items (wv_store a)) = ?pts"
    by (simp add: live_points_def ext_of_def)
  obtain k0 where k0: "mw_clear_class ?c (wv_client a) = (Inr (), k0)" "mw_points ?c k0 = Map.empty"
    using mw_clear by blast
  obtain k1 where k1: "mw_ensure_class ?c (int (ms_dim (wv_store a))) k0 = (Inr (), k1)" "mw_points ?c k1 = Map.empty"
    using mw_ensure [of ?c _ k0] k0(2) by auto
  show ?thesis
  proof (cases "?pts = []")
    case True
    then have "a' = a\<lparr>wv_client := k1\<rparr>" using assms(2) k0(1) k1(1) by (simp add: wv_compact_def pts Let_def)
    then show ?thesis using True assms(1) k1(2) by (simp add: wvm_good_def wvm_served_def)
  next
    case False
    obtain k2 where k2: "mw_upsert_objects ?c (map fst ?pts) (map snd ?pts) None k1 = (Inr (), k2)"
      "mw_points ?c k2 = mw_points ?c k1 ++ map_of (rev (zip (map fst ?pts) (map snd ?pts)))"
      using mw_upsert [of "map fst ?pts" "map snd ?pts" ?c None k1] False by auto
    have "a' = a\<lparr>wv_client := k2\<rparr>" using assms(2) k0(1) k1(1) k2(1) False by (simp add: wv_compact_def pts Let_def)
    then show ?thesis using assms(1) k1(2) k2(2) by (simp add: wvm_good_def wvm_served_def zip_map_fst_snd)
  qed
qed

lemma wvm_add:
  assumes "wvm_good coll a" "check_shapes (ms_dim (wv_store a)) ids vecs = Inr rows" "rows \<noteq> []"
    "point_rows coll (zip ids rows) (g, wv_store a, wv_exts a) = (Inr ls, g', s', x')"
  shows "\<exists>a'. wv_add mem_weaviate_client None pl ids vecs (g, a) = (Inr ls, g', a') \<and> wvm_good coll a' \<and> wv_store a' = s' \<and> wv_exts a' = x'
    \<and> wvm_served a' = wvm_served a ++ map_of (rev (zip ids rows))"
proof -
  have len: "length ids = length rows" using assms(2) by (auto simp: check_shapes_def split: prod.splits if_splits)
  have c: "wv_collection a = coll" using assms(1) by (simp add: wvm_good_def)
  obtain k' where k: "mw_upsert_objects (wv_class_name a) ids rows pl (wv_client a) = (Inr (), k')"
    "mw_points (wv_class_name a) k' = mw_points (wv_class_name a) (wv_client a) ++ map_of (rev (zip ids rows))"
    using mw_upsert [OF len assms(3)] by blast
  have "wv_add mem_weaviate_client None pl ids vecs (g, a) = (Inr ls, g', a\<lparr>wv_store := s', wv_exts := x', wv_client := k'\<rparr>)"
    using assms(2-4) k(1) c by (simp add: wv_add_def wv_rows_points Let_def)
  then show ?thesis using assms(1) k(2) by (auto simp: wvm_good_def wvm_served_def)
qed

interpretation wvm: point_adapter "wvm_backend files" wv_store wv_exts wvm_served "wvm_good coll" coll "wv_add mem_weaviate_client None pl"
  for files coll pl
proof unfold_locales
  fix w l e m r w'
  assume "wvm_good coll w" "ms_ok (wv_store w)" "dget (wv_exts w) l = Some e" "ms_has (wv_store w) l"
    "bk_hard_delete (wvm_backend files) coll l m w = (r, w')"
  then show "wvm_good coll w' \<and> wv_store w' = mark_deleted l (wipe_row l (wv_store w)) \<and> wv_exts w' = wv_exts w
      \<and> wvm_served w' = (wvm_served w)(e := None)"
    unfolding weaviate_backend_simps by (rule wvm_erase)
next
  fix w l m r w'
  assume "\<not> ms_has (wv_store w) l" "bk_hard_delete (wvm_backend files) coll l m w = (r, w')"
  then show "w' = w \<and> (\<exists>br. r = Inr br \<and> \<not> br_success br)"
    unfolding weaviate_backend_simps by (auto simp: wv_hard_delete_label_def ms_has_def)
next
  fix w f r' w'
  assume "wvm_good coll w" "bk_compact (wvm_backend files) = Some f" "f w = (r', w')"
  then show "wvm_good coll w' \<and> wv_exts w' = wv_exts w \<and> wvm_served w' = map_of (rev (live_points (wv_store w) (wv_exts w)))"
    unfolding weaviate_backend_simps using wvm_compact by blast
next
  fix w ids vecs rows g ls g' s' x'
  assume "wvm_good coll w" "check_shapes (ms_dim (wv_store w)) ids vecs = Inr rows" "rows \<noteq> []"
    "point_rows coll (zip ids rows) (g, wv_store w, wv_exts w) = (Inr ls, g', s', x')"
  then show "\<exists>w'. wv_add mem_weaviate_client None pl ids vecs (g, w) = (Inr ls, g', w') \<and> wvm_good coll w' \<and> wv_store w' = s' \<and> wv_exts w' = x'
      \<and> wvm_served w' = wvm_served w ++ map_of (rev (zip ids rows))"
    by (rule wvm_add)
qed

section \<open>Properties\<close>

lemma wvm_start:
  assumes "wv_init mem_weaviate_client \<lparr>mw_objs = [], mw_dims = []\<rparr> dm c r = (Inr a, r1)" "reg_ok r" "py_strip c \<noteq> []"
  shows "point_inv wv_store wv_exts wvm_served (wvm_good c) c (service_over r1 a) \<and> wvm_served a = Map.empty \<and> ms_dim (wv_store a) = nat dm
    \<and> wv_class_name a = class_name_of c"
proof -
  let ?k = "\<lparr>mw_objs = [], mw_dims = []\<rparr>"
  have e0: "mw_points (class_name_of c) ?k = Map.empty" by (simp add: mw_points_def [abs_def] mw_store_def fun_eq_iff)
  obtain k1 where k1: "mw_ensure_class (class_name_of c) dm ?k = (Inr (), k1)" "mw_points (class_name_of c) k1 = Map.empty"
    using mw_ensure [of "class_name_of c" dm ?k] unfolding e0 by blast
  obtain q r0 where e: "ensure_collection c r = (q, r0)" by fastforce
  have "\<exists>u. q = Inr u" using e assms(3) by (auto simp: ensure_collection_def norm_collection_def Let_def)
  then have u: "ensure_collection c r = (q, r1)"
    and a: "a = \<lparr>wv_collection = c, wv_class_name = class_name_of c, wv_store = ms_new (nat dm), wv_exts = [], wv_client = k1\<rparr>"
    using assms(1) k1(1) e by (auto simp: wv_init_def split: if_splits)
  have "reg_ok r1" using reg_step_ok [OF assms(2), of "EnsureOp c"] u by simp
  then show ?thesis using assms(3) k1(2)
    by (auto simp: a point_inv_def service_over_def wvm_good_def wvm_served_def intro!: served_invI)
      (auto simp: ms_new_def ms_has_def live_def)
qed

text \<open>
  C30: Equivalence with a dictionary: the erasure service over the Weaviate adapter with a new in-memory client serves, after any sequence of
  adds (clean ids, rows of the right width that are not zero) and deletes (any ids, any options), exactly the objects of a map on which an add sets its
  ids and a delete removes its ids; compactions are not visible.
\<close>

theorem weaviate_service_is_a_map:
  assumes "wv_init mem_weaviate_client \<lparr>mw_objs = [], mw_dims = []\<rparr> dm c r = (Inr a, r1)" "reg_ok r" "py_strip c \<noteq> []"
    and "list_all (point_op_ok (nat dm)) ops"
    and "s = foldl (\<lambda>s op. point_step (wvm_backend files) (wv_add mem_weaviate_client None pl) c op s) (service_over r1 a) ops"
  shows "wvm_served (sv_world s) = foldl (\<lambda>f op. map_step op f) Map.empty ops"
proof -
  have st: "point_inv wv_store wv_exts wvm_served (wvm_good c) c (service_over r1 a)" "wvm_served a = Map.empty" "ms_dim (wv_store a) = nat dm"
    using wvm_start [OF assms(1-3)] by blast+
  have w: "sv_world (service_over r1 a) = a" by (simp add: service_over_def)
  have "list_all (point_op_ok (ms_dim (wv_store (sv_world (service_over r1 a))))) ops" using assms(4) by (simp add: w st(3))
  from wvm.point_run_ok [OF st(1) this assms(5)] show ?thesis by (simp add: w st(2))
qed

definition demo_wv_new :: "mem_weaviate weaviate_adapter res \<times> id_registry" where
  "demo_wv_new = wv_init mem_weaviate_client \<lparr>mw_objs = [], mw_dims = []\<rparr> 2 ''users'' empty_registry"

definition demo_wv_ops :: "point_op list" where
  "demo_wv_ops = [PAdd [''alice'', ''bob''] (Arr2 2 [[1, 2], [3, 4]]), PAdd [''bob''] (Arr1 [5, 6]),
     PDelete demo_config demo_senv ['' alice '', ''zed''] 16 (Some (CStr ''always'')) None None]"

lemma demo_wv_facts: "\<not> isl (fst demo_wv_new)" "py_strip ''users'' = ''users''" "list_all (point_op_ok 2) demo_wv_ops"
  "clean_ids ['' alice '', ''zed''] = [''alice'', ''zed'']" "class_name_of ''users'' = ''Users''"
  by code_simp+

lemma demo_wv_init:
  "wv_init mem_weaviate_client \<lparr>mw_objs = [], mw_dims = []\<rparr> 2 ''users'' empty_registry = (Inr (projr (fst demo_wv_new)), snd demo_wv_new)"
  using demo_wv_facts(1) by (cases "fst demo_wv_new") (auto simp: demo_wv_new_def prod_eq_iff)

lemma weaviate_service_is_a_map_witness:
  "wvm_served (sv_world (foldl (\<lambda>s op. point_step (wvm_backend (\<lambda>_ _. None)) (wv_add mem_weaviate_client None None) ''users'' op s)
     (service_over (snd demo_wv_new) (projr (fst demo_wv_new))) demo_wv_ops)) = [''bob'' \<mapsto> [5, 6]]"
proof -
  have c: "py_strip ''users'' \<noteq> []" by (simp add: demo_wv_facts(2))
  have ops: "list_all (point_op_ok (nat 2)) demo_wv_ops" using demo_wv_facts(3) by simp
  have "foldl (\<lambda>f op. map_step op f) Map.empty demo_wv_ops = [''bob'' \<mapsto> [5, 6]]"
    by (auto simp: demo_wv_ops_def demo_wv_facts(4) fun_eq_iff map_add_def)
  then show ?thesis
    using weaviate_service_is_a_map [OF demo_wv_init reg_ok_empty c ops refl, of "\<lambda>_ _. None" None] by simp
qed

end
