(* ===== verification/RecallBounds.thy ===== *)
theory RecallBounds
  imports Complex_Main Prelude
begin

text \<open>
  \<open>compliance/recall_bounds.py\<close>: the search for unreachable nodes, the bound of its Theorem 2 and the comparisons. Floats of ratios and
  recalls are rational numbers (the code rounds them). In the exact-neighbour search the distances that numpy computes for a query (\<open>dists\<close>), and
  \<open>np.argpartition\<close> and \<open>np.argsort\<close>, are parameters; what is used of the last two is their documentation (\<open>numpy_order\<close>).
\<close>

section \<open>Bounds and comparisons\<close>

record fragmentation_bound =
  fb_n_active :: int
  fb_n_unreachable :: int
  fb_recall_at_1_upper_bound :: rat

definition from_counts :: "int \<Rightarrow> int \<Rightarrow> fragmentation_bound" where
  "from_counts n_active n_unreachable =
    (if n_active \<le> 0 then \<lparr>fb_n_active = 0, fb_n_unreachable = 0, fb_recall_at_1_upper_bound = 0\<rparr>
     else let u = min n_unreachable n_active
          in \<lparr>fb_n_active = n_active, fb_n_unreachable = u, fb_recall_at_1_upper_bound = 1 - of_int u / of_int n_active\<rparr>)"

record recall_comparison =
  rcm_delete_fraction :: rat
  rcm_recall_soft :: rat
  rcm_recall_unhealed :: rat
  rcm_recall_healed :: rat
  rcm_unreach_unhealed :: rat
  rcm_unreach_healed :: rat

definition healed_dominates_unhealed_recall :: "rat \<Rightarrow> recall_comparison \<Rightarrow> bool" where
  "healed_dominates_unhealed_recall tol c \<longleftrightarrow> rcm_recall_unhealed c \<le> rcm_recall_healed c + tol"

definition healed_dominates_unhealed_reach :: "rat \<Rightarrow> recall_comparison \<Rightarrow> bool" where
  "healed_dominates_unhealed_reach tol c \<longleftrightarrow> rcm_unreach_healed c \<le> rcm_unreach_unhealed c + tol"

definition soft_is_upper_envelope :: "rat \<Rightarrow> recall_comparison \<Rightarrow> bool" where
  "soft_is_upper_envelope tol c \<longleftrightarrow> rcm_recall_healed c \<le> rcm_recall_soft c + tol"

section \<open>Recall\<close>

text \<open>The non-negative ones of the first \<open>k\<close> entries, as a set.\<close>

definition top_set :: "int \<Rightarrow> int list \<Rightarrow> int set" where
  "top_set k xs = set (filter (\<lambda>x. 0 \<le> x) (py_take k xs))"

definition query_scores :: "int list list \<Rightarrow> int list list \<Rightarrow> int \<Rightarrow> rat list" where
  "query_scores predicted ground_truth k =
    map (\<lambda>(pred, gt). of_nat (card (top_set k pred \<inter> top_set k gt)) / of_nat (card (top_set k gt)))
      (filter (\<lambda>(pred, gt). top_set k gt \<noteq> {}) (zip predicted ground_truth))"

definition exact_recall_at_k :: "int list list \<Rightarrow> int list list \<Rightarrow> int \<Rightarrow> rat" where
  "exact_recall_at_k predicted ground_truth k =
    (let scores = query_scores predicted ground_truth k
     in if scores = [] then 0 else sum_list scores / of_nat (length scores))"

text \<open>\<open>fmt\<close> is the formatting of a float with four digits.\<close>

definition assert_theorem2_bound :: "(rat \<Rightarrow> string) \<Rightarrow> rat \<Rightarrow> int \<Rightarrow> int \<Rightarrow> rat \<Rightarrow> fragmentation_bound res" where
  "assert_theorem2_bound fmt recall_at_1 n_active n_unreachable tol =
    (let bound = from_counts n_active n_unreachable
     in if fb_recall_at_1_upper_bound bound + tol < recall_at_1
        then Inl (OtherError (''recall@1='' @ fmt recall_at_1 @ '' exceeds fragmentation bound '' @ fmt (fb_recall_at_1_upper_bound bound)
               @ '' (unreachable='' @ int_str n_unreachable @ ''/'' @ int_str n_active @ '')''))
        else Inr bound)"

section \<open>The search\<close>

definition active_of :: "bool list \<Rightarrow> int list" where
  "active_of flags = map int (filter (\<lambda>i. flags ! i) [0..<length flags])"

definition adj_at :: "int list list \<Rightarrow> int \<Rightarrow> int list" where
  "adj_at adj u = (if u < int (length adj) then adj ! nat u else [])"

text \<open>The loop; the list \<open>st\<close> is the stack with its top first. Every turn shortens the stack or sees one more active node.\<close>

function search_loop :: "int list list \<Rightarrow> int list \<Rightarrow> int set \<Rightarrow> int list \<Rightarrow> int set" where
  "search_loop adj act seen [] = seen"
| "search_loop adj act seen (u # st) =
    (if u \<in> seen \<or> u \<notin> set act then search_loop adj act seen st
     else let seen1 = insert u seen
          in search_loop adj act seen1 (rev (filter (\<lambda>v. v \<in> set act \<and> v \<notin> seen1) (adj_at adj u)) @ st))"
  by pat_completeness auto
termination
proof (relation "measures [\<lambda>(adj, act, seen, st). card (set act - seen), \<lambda>(adj, act, seen, st). length st]")
  fix adj act seen st and u :: int and seen1 :: "int set"
  assume "\<not> (u \<in> seen \<or> u \<notin> set act)" "seen1 = insert u seen"
  then have "set act - seen1 \<subset> set act - seen" by blast
  then have "card (set act - seen1) < card (set act - seen)" by (simp add: psubset_card_mono)
  then show "((adj, act, seen1, rev (filter (\<lambda>v. v \<in> set act \<and> v \<notin> seen1) (adj_at adj u)) @ st), (adj, act, seen, u # st))
      \<in> measures [\<lambda>(adj, act, seen, st). card (set act - seen), \<lambda>(adj, act, seen, st). length st]" by simp
qed simp_all

text \<open>\<open>next(iter(active))\<close> picks some element of a set; \<open>pick\<close> says which.\<close>

definition start_node :: "(int list \<Rightarrow> int) \<Rightarrow> int list \<Rightarrow> int \<Rightarrow> int" where
  "start_node pick act entry = (if entry \<in> set act then entry else pick act)"

definition bfs_unreachable_fraction :: "(int list \<Rightarrow> int) \<Rightarrow> int list list \<Rightarrow> bool list \<Rightarrow> int \<Rightarrow> rat \<times> int \<times> int" where
  "bfs_unreachable_fraction pick adjacency flags entry =
    (let act = active_of flags
     in if act = [] then (1, 0, 0)
        else let seen = search_loop adjacency act {} [start_node pick act entry];
                 n_act = int (card (set act));
                 n_reach = int (card seen)
             in (of_int (n_act - n_reach) / of_int n_act, n_reach, n_act))"

section \<open>The search finds what is reachable\<close>

text \<open>The edges between active nodes, and the nodes reachable from a start.\<close>

definition active_edges :: "int list list \<Rightarrow> int set \<Rightarrow> (int \<times> int) set" where
  "active_edges adj A = {(u, v). u \<in> A \<and> v \<in> A \<and> v \<in> set (adj_at adj u)}"

definition reachable_from :: "int list list \<Rightarrow> int set \<Rightarrow> int \<Rightarrow> int set" where
  "reachable_from adj A s = {v. (s, v) \<in> (active_edges adj A)\<^sup>*}"

lemma search_loop_seen: "seen \<subseteq> search_loop adj act seen st"
  by (induction adj act seen st rule: search_loop.induct) (auto simp: Let_def)

lemma search_loop_stack: "v \<in> set st \<Longrightarrow> v \<in> set act \<Longrightarrow> v \<in> search_loop adj act seen st"
proof (induction adj act seen st rule: search_loop.induct)
  case (2 adj act seen u st)
  show ?case
  proof (cases "u \<in> seen \<or> u \<notin> set act")
    case True
    then show ?thesis using 2 search_loop_seen [of seen adj act st] by auto
  next
    case False
    let ?r = "rev (filter (\<lambda>v. v \<in> set act \<and> v \<notin> insert u seen) (adj_at adj u)) @ st"
    have "insert u seen \<subseteq> search_loop adj act (insert u seen) ?r" by (rule search_loop_seen)
    then show ?thesis using False 2 by (auto simp: Let_def)
  qed
qed simp

text \<open>Nothing but reachable nodes, and closed under edges once the stack is empty.\<close>

lemma search_loop_sound:
  assumes "seen \<subseteq> reachable_from adj (set act) s" "set st \<subseteq> reachable_from adj (set act) s"
  shows "search_loop adj act seen st \<subseteq> reachable_from adj (set act) s"
  using assms
proof (induction adj act seen st rule: search_loop.induct)
  case (2 adj act seen u st)
  show ?case
  proof (cases "u \<in> seen \<or> u \<notin> set act")
    case True
    then show ?thesis using 2 by simp
  next
    case False
    have u: "u \<in> reachable_from adj (set act) s" using 2(4) by simp
    have "v \<in> reachable_from adj (set act) s" if "v \<in> set (adj_at adj u)" "v \<in> set act" for v
    proof -
      have "(u, v) \<in> active_edges adj (set act)" using that False by (simp add: active_edges_def)
      then show ?thesis using u unfolding reachable_from_def by (auto intro: rtrancl_into_rtrancl)
    qed
    then show ?thesis using 2(2) [OF False refl] 2(3,4) False u by (auto simp: Let_def)
  qed
qed simp

lemma search_loop_closed:
  assumes "\<forall>u\<in>seen. \<forall>v. (u, v) \<in> active_edges adj (set act) \<longrightarrow> v \<in> seen \<union> set st"
    and "u \<in> search_loop adj act seen st" "(u, v) \<in> active_edges adj (set act)"
  shows "v \<in> search_loop adj act seen st"
  using assms
proof (induction adj act seen st rule: search_loop.induct)
  case (1 adj act seen)
  then show ?case by auto
next
  case (2 adj act seen w st)
  show ?case
  proof (cases "w \<in> seen \<or> w \<notin> set act")
    case True
    have "\<forall>u\<in>seen. \<forall>v. (u, v) \<in> active_edges adj (set act) \<longrightarrow> v \<in> seen \<union> set st"
      using 2(3) True by (auto simp: active_edges_def)
    then show ?thesis using 2(1) [OF True] 2(4,5) True by simp
  next
    case False
    let ?r = "rev (filter (\<lambda>v. v \<in> set act \<and> v \<notin> insert w seen) (adj_at adj w)) @ st"
    have "\<forall>u\<in>insert w seen. \<forall>v. (u, v) \<in> active_edges adj (set act) \<longrightarrow> v \<in> insert w seen \<union> set ?r"
      using 2(3) by (auto simp: active_edges_def)
    then show ?thesis using 2(2) [OF False refl] 2(4,5) False by (simp add: Let_def)
  qed
qed

lemma search_reaches:
  assumes "s \<in> set act"
  shows "search_loop adj act {} [s] = reachable_from adj (set act) s"
proof
  show "search_loop adj act {} [s] \<subseteq> reachable_from adj (set act) s"
    by (rule search_loop_sound) (auto simp: reachable_from_def)
  show "reachable_from adj (set act) s \<subseteq> search_loop adj act {} [s]"
  proof
    fix v assume "v \<in> reachable_from adj (set act) s"
    then have "(s, v) \<in> (active_edges adj (set act))\<^sup>*" by (simp add: reachable_from_def)
    then show "v \<in> search_loop adj act {} [s]"
    proof (induction rule: rtrancl_induct)
      case base
      show ?case by (rule search_loop_stack) (use assms in simp_all)
    next
      case (step y z)
      show ?case by (rule search_loop_closed [OF _ step(3,2)]) simp
    qed
  qed
qed

lemma reachable_active: "s \<in> A \<Longrightarrow> reachable_from adj A s \<subseteq> A"
proof
  fix v assume s: "s \<in> A" and "v \<in> reachable_from adj A s"
  then have "(s, v) \<in> (active_edges adj A)\<^sup>*" by (simp add: reachable_from_def)
  then show "v \<in> A" using s by (induction rule: rtrancl_induct) (auto simp: active_edges_def)
qed

lemma distinct_active: "distinct (active_of flags)"
  by (simp add: active_of_def distinct_map)

lemma active_nonneg: "v \<in> set (active_of flags) \<Longrightarrow> 0 \<le> v"
  by (auto simp: active_of_def)

lemma start_active: "act \<noteq> [] \<Longrightarrow> pick act \<in> set act \<Longrightarrow> start_node pick act entry \<in> set act"
  by (simp add: start_node_def)

lemma reachable_mono: "\<forall>u. set (adj_at adj u) \<subseteq> set (adj_at adj' u) \<Longrightarrow> reachable_from adj A s \<subseteq> reachable_from adj' A s"
proof -
  assume "\<forall>u. set (adj_at adj u) \<subseteq> set (adj_at adj' u)"
  then have "active_edges adj A \<subseteq> active_edges adj' A" by (auto simp: active_edges_def)
  then have "(active_edges adj A)\<^sup>* \<subseteq> (active_edges adj' A)\<^sup>*" by (rule rtrancl_mono)
  then show ?thesis unfolding reachable_from_def by blast
qed

lemma reach_counts:
  assumes "active_of flags \<noteq> []" "pick (active_of flags) \<in> set (active_of flags)"
  shows "bfs_unreachable_fraction pick adjacency flags entry
    = (of_nat (card (set (active_of flags) - reachable_from adjacency (set (active_of flags)) (start_node pick (active_of flags) entry)))
         / of_nat (card (set (active_of flags))),
       int (card (reachable_from adjacency (set (active_of flags)) (start_node pick (active_of flags) entry))), int (card (set (active_of flags))))"
proof -
  define A where "A = set (active_of flags)"
  define R where "R = reachable_from adjacency A (start_node pick (active_of flags) entry)"
  have s: "start_node pick (active_of flags) entry \<in> A" using start_active [where act = "active_of flags" and pick = pick, OF assms] by (simp add: A_def)
  have R: "search_loop adjacency (active_of flags) {} [start_node pick (active_of flags) entry] = R"
    using search_reaches s unfolding A_def R_def by blast
  have sub: "R \<subseteq> A" unfolding R_def by (rule reachable_active [OF s])
  then have "card (A - R) = card A - card R" "card R \<le> card A" by (simp_all add: A_def card_Diff_subset finite_subset card_mono)
  then have "of_int (int (card A) - int (card R)) = (of_nat (card (A - R)) :: rat)" by (simp add: of_nat_diff)
  then show ?thesis using assms(1) R unfolding bfs_unreachable_fraction_def Let_def A_def [symmetric] R_def [symmetric] by simp
qed

section \<open>Properties\<close>

text \<open>
  C31: The search is equivalent to its specification: for a non-empty set of active nodes it returns the share of active nodes that no path of active
  nodes leads to from the start, the number of those that are reached, and the number of active nodes.
\<close>

theorem search_is_reachability:
  assumes "active_of flags \<noteq> []" "pick (active_of flags) \<in> set (active_of flags)"
    and "A = set (active_of flags)" "R = reachable_from adjacency A (start_node pick (active_of flags) entry)"
  shows "bfs_unreachable_fraction pick adjacency flags entry
    = (of_nat (card (A - R)) / of_nat (card A), int (card R), int (card A))"
  unfolding assms(3,4) by (rule reach_counts [where flags = flags and pick = pick, OF assms(1,2)])

lemma search_is_reachability_witness:
  "bfs_unreachable_fraction hd [[1], [0], [1]] [True, True, True, False] 1
    = (of_nat (card ({0, 1, 2} - reachable_from [[1], [0], [1]] {0, 1, 2} 1)) / of_nat (card {0, 1, 2 :: int}),
       int (card (reachable_from [[1], [0], [1]] {0, 1, 2} 1)), int (card {0, 1, 2 :: int}))"
proof -
  have a: "active_of [True, True, True, False] = [0, 1, 2]" by code_simp
  have s: "start_node hd [0, 1, 2] 1 = 1" by (simp add: start_node_def)
  have h: "active_of [True, True, True, False] \<noteq> []" "hd (active_of [True, True, True, False]) \<in> set (active_of [True, True, True, False])"
    "{0, 1, 2} = set (active_of [True, True, True, False])" "reachable_from [[1], [0], [1]] {0, 1, 2} 1
      = reachable_from [[1], [0], [1]] {0, 1, 2} (start_node hd (active_of [True, True, True, False]) 1)"
    by (simp_all add: a s)
  show ?thesis by (rule search_is_reachability [where pick = hd and flags = "[True, True, True, False]", OF h])
qed

text \<open>
  The bound that the module calls Theorem 2 holds for every search that returns only nodes with a path from the start: with every active node
  once as a query and itself as exact answer, recall at 1 is at most one minus the unreachable share, so \<open>assert_theorem2_bound\<close> on the counts
  of the search does not raise.
\<close>

theorem fragmentation_bound_holds:
  assumes "active_of flags \<noteq> []" "pick (active_of flags) \<in> set (active_of flags)" "length preds = length (active_of flags)"
    and "bfs_unreachable_fraction pick adjacency flags entry = (fr, n_reach, n_act)"
    and "\<forall>p\<in>set preds. set p \<subseteq> reachable_from adjacency (set (active_of flags)) (start_node pick (active_of flags) entry)"
    and "0 \<le> tol"
  shows "exact_recall_at_k preds (map (\<lambda>t. [t]) (active_of flags)) 1 \<le> 1 - fr
    \<and> assert_theorem2_bound fmt (exact_recall_at_k preds (map (\<lambda>t. [t]) (active_of flags)) 1) n_act (n_act - n_reach) tol
        = Inr \<lparr>fb_n_active = n_act, fb_n_unreachable = n_act - n_reach, fb_recall_at_1_upper_bound = 1 - fr\<rparr>"
proof -
  let ?act = "active_of flags"
  define A where "A = set ?act"
  define R where "R = reachable_from adjacency A (start_node pick ?act entry)"
  have run: "fr = of_nat (card (A - R)) / of_nat (card A)" "n_reach = int (card R)" "n_act = int (card A)"
    using reach_counts [where flags = flags and pick = pick, OF assms(1,2), of adjacency entry] assms(4) by (simp_all add: A_def R_def)
  have "start_node pick ?act entry \<in> A" using start_active [where act = "active_of flags" and pick = pick, OF assms(1,2)] A_def by simp
  then have sub: "R \<subseteq> A" unfolding R_def by (rule reachable_active)
  have fin: "finite A" by (simp add: A_def)
  have cA: "card A = length ?act" unfolding A_def by (rule distinct_card [OF distinct_active])
  have pos: "0 < card A" using assms(1) by (simp add: cA)
  have cR: "card R \<le> card A" by (rule card_mono [OF fin sub])
  have diff: "card (A - R) = card A - card R" using sub fin by (simp add: card_Diff_subset finite_subset)
  have top: "top_set 1 [t] = {t}" if "0 \<le> t" for t using that by (simp add: top_set_def py_take_def)
  let ?gts = "map (\<lambda>t. [t]) ?act"
  let ?f = "\<lambda>(pred, t). of_nat (card (top_set 1 pred \<inter> {t})) :: rat"
  have pairs: "filter (\<lambda>(pred, gt). top_set 1 gt \<noteq> {}) (zip preds ?gts) = map (\<lambda>(pred, t). (pred, [t])) (zip preds ?act)"
  proof -
    have "zip preds ?gts = map (\<lambda>(pred, t). (pred, [t])) (zip preds ?act)" by (rule zip_map2)
    moreover have "filter (\<lambda>(pred, gt). top_set 1 gt \<noteq> {}) (map (\<lambda>(pred, t). (pred, [t])) (zip preds ?act))
        = map (\<lambda>(pred, t). (pred, [t])) (zip preds ?act)"
      by (rule filter_True) (auto simp: top active_nonneg dest: set_zip_rightD)
    ultimately show ?thesis by simp
  qed
  have scores: "query_scores preds ?gts 1 = map ?f (zip preds ?act)"
    unfolding query_scores_def pairs map_map by (rule map_cong) (auto simp: top active_nonneg dest: set_zip_rightD)
  have le: "?f (pred, t) \<le> (if t \<in> R then 1 else 0)" if "(pred, t) \<in> set (zip preds ?act)" for pred t
  proof -
    have "pred \<in> set preds" using that by (rule set_zip_leftD)
    then have "set pred \<subseteq> R" using assms(5) by (simp add: R_def A_def)
    then have "top_set 1 pred \<subseteq> R" using set_py_take [of 1 pred] by (auto simp: top_set_def)
    moreover have "card (top_set 1 pred \<inter> {t}) \<le> 1" using card_mono [of "{t}" "top_set 1 pred \<inter> {t}"] by simp
    ultimately show ?thesis by auto
  qed
  have "sum_list (map ?f (zip preds ?act)) \<le> sum_list (map (\<lambda>(pred, t). if t \<in> R then 1 else 0 :: rat) (zip preds ?act))"
    by (rule sum_list_mono) (use le in auto)
  also have "\<dots> = sum_list (map (\<lambda>t. if t \<in> R then 1 else 0 :: rat) (map snd (zip preds ?act)))"
    by (simp add: comp_def case_prod_unfold)
  also have "map snd (zip preds ?act) = ?act" using assms(3) by simp
  also have "sum_list (map (\<lambda>t. if t \<in> R then 1 else 0 :: rat) ?act) = (\<Sum>t\<in>A. if t \<in> R then 1 else 0)"
    unfolding A_def by (rule sum_list_distinct_conv_sum_set [OF distinct_active])
  also have "\<dots> = of_nat (card R)" using fin sub by (simp add: sum.If_cases Int_absorb1)
  finally have "sum_list (query_scores preds ?gts 1) \<le> of_nat (card R)" unfolding scores .
  moreover have "length (query_scores preds ?gts 1) = card A" unfolding scores using assms(3) by (simp add: cA)
  ultimately have "exact_recall_at_k preds ?gts 1 \<le> of_nat (card R) / of_nat (card A)"
    using pos by (auto simp: exact_recall_at_k_def Let_def divide_right_mono)
  also have "\<dots> = 1 - fr" using pos cR by (simp add: run(1) diff of_nat_diff field_simps)
  finally have rec: "exact_recall_at_k preds ?gts 1 \<le> 1 - fr" .
  have fc: "from_counts n_act (n_act - n_reach) = \<lparr>fb_n_active = n_act, fb_n_unreachable = n_act - n_reach, fb_recall_at_1_upper_bound = 1 - fr\<rparr>"
    using pos cR by (simp add: from_counts_def run diff of_nat_diff)
  show ?thesis using rec assms(6) by (simp add: assert_theorem2_bound_def fc)
qed

lemma fragmentation_bound_holds_witness:
  "exact_recall_at_k [[0], [0], [1]] [[0], [1], [2]] 1 \<le> 1 - (1 / 3 :: rat)"
proof -
  have a: "active_of [True, True, True, False] = [0, 1, 2]" by code_simp
  have s: "start_node hd [0, 1, 2] 0 = 0" by (simp add: start_node_def)
  have b: "bfs_unreachable_fraction hd [[1], [0], [1]] [True, True, True, False] 0 = (1 / 3, 2, 3)" by code_simp
  have "search_loop [[1], [0], [1]] [0, 1, 2] {} [0] = {0, 1}" by code_simp
  then have "reachable_from [[1], [0], [1]] {0, 1, 2} 0 = {0, 1}" using search_reaches [of 0 "[0, 1, 2]" "[[1], [0], [1]]"] by simp
  then have r: "\<forall>p\<in>set [[0], [0], [1]]. set p \<subseteq> reachable_from [[1], [0], [1]] (set (active_of [True, True, True, False]))
      (start_node hd (active_of [True, True, True, False]) 0)" by (simp add: a s)
  have h: "active_of [True, True, True, False] \<noteq> []" "hd (active_of [True, True, True, False]) \<in> set (active_of [True, True, True, False])"
    "length [[0], [0], [1 :: int]] = length (active_of [True, True, True, False])" by (simp_all add: a)
  have "(0 :: rat) \<le> 0" by simp
  from fragmentation_bound_holds [where pick = hd and flags = "[True, True, True, False]", OF h b r this]
  show ?thesis unfolding a by simp
qed

text \<open>Repairs that only add edges never make more nodes unreachable.\<close>

lemma more_edges_reach_more:
  assumes "active_of flags \<noteq> []" "pick (active_of flags) \<in> set (active_of flags)" "\<forall>u. set (adj_at adj u) \<subseteq> set (adj_at adj' u)"
  shows "fst (bfs_unreachable_fraction pick adj' flags entry) \<le> fst (bfs_unreachable_fraction pick adj flags entry)"
proof -
  let ?A = "set (active_of flags)" and ?s = "start_node pick (active_of flags) entry"
  have "card (?A - reachable_from adj' ?A ?s) \<le> card (?A - reachable_from adj ?A ?s)"
    by (rule card_mono) (use reachable_mono [OF assms(3), of ?A ?s] in auto)
  then show ?thesis unfolding reach_counts [where flags = flags and pick = pick, OF assms(1,2)] by (simp add: divide_right_mono)
qed

section \<open>Exact neighbours\<close>

definition bruteforce_row :: "('v list \<Rightarrow> 'v \<Rightarrow> 'd list) \<Rightarrow> ('d list \<Rightarrow> int \<Rightarrow> nat list) \<Rightarrow> ('d list \<Rightarrow> nat list) \<Rightarrow> 'v list \<Rightarrow> int list \<Rightarrow> int \<Rightarrow> 'v \<Rightarrow> int list" where
  "bruteforce_row dists argpartition argsort active active_idx k q =
    (let dist = dists active q;
         n = min k (int (length active_idx));
         part = py_take n (argpartition dist (n - 1));
         ord = map (\<lambda>i. part ! i) (argsort (map (\<lambda>i. dist ! i) part))
     in map (\<lambda>i. active_idx ! i) ord)"

definition bruteforce_topk ::
  "('v list \<Rightarrow> 'v \<Rightarrow> 'd list) \<Rightarrow> ('d list \<Rightarrow> int \<Rightarrow> nat list) \<Rightarrow> ('d list \<Rightarrow> nat list) \<Rightarrow> 'v list \<Rightarrow> 'v list \<Rightarrow> int \<Rightarrow> bool list \<Rightarrow> int list list res" where
  "bruteforce_topk dists argpartition argsort data queries k active_mask =
    (let active_idx = active_of active_mask in
     if k < 0 \<and> active_idx = [] then Inl (ValueError ''negative dimensions are not allowed'')
     else if active_idx = [] then Inr (map (\<lambda>q. replicate (nat k) (-1)) queries)
     else if \<exists>i\<in>set active_idx. int (length data) \<le> i then Inl (OtherError ''IndexError'')
     else if k < 0 then Inl (ValueError ''negative dimensions are not allowed'')
     else Inr (map (bruteforce_row dists argpartition argsort (map (\<lambda>i. data ! nat i) active_idx) active_idx k) queries))"

definition numpy_order :: "('v list \<Rightarrow> 'v \<Rightarrow> ('d :: linorder) list) \<Rightarrow> ('d list \<Rightarrow> int \<Rightarrow> nat list) \<Rightarrow> ('d list \<Rightarrow> nat list) \<Rightarrow> bool" where
  "numpy_order dists argpartition argsort \<longleftrightarrow>
    (\<forall>rows q. length (dists rows q) = length rows)
    \<and> (\<forall>ds n. 0 < n \<and> n \<le> length ds \<longrightarrow> (let p = argpartition ds (int n - 1) in
        distinct p \<and> set p = {..<length ds} \<and> (\<forall>i\<in>set (take n p). \<forall>j\<in>set (drop n p). ds ! i \<le> ds ! j)))
    \<and> (\<forall>ds. distinct (argsort ds) \<and> set (argsort ds) = {..<length ds} \<and> sorted (map (\<lambda>i. ds ! i) (argsort ds)))"

lemma numpy_orderD:
  assumes "numpy_order dists ap asrt"
  shows "length (dists rows q) = length rows"
    and "0 < n \<Longrightarrow> n \<le> length ds \<Longrightarrow> distinct (ap ds (int n - 1)) \<and> set (ap ds (int n - 1)) = {..<length ds}
      \<and> (\<forall>i\<in>set (take n (ap ds (int n - 1))). \<forall>j\<in>set (drop n (ap ds (int n - 1))). ds ! i \<le> ds ! j)"
    and "distinct (asrt ds) \<and> set (asrt ds) = {..<length ds} \<and> sorted (map (\<lambda>i. ds ! i) (asrt ds))"
  using assms unfolding numpy_order_def Let_def by blast+

text \<open>The answer for a query: the \<open>k\<close> active rows nearest to it (all, when there are fewer), nearest first.\<close>

lemma bruteforce_row_nearest:
  assumes "numpy_order dists ap asrt" and "length active = length active_idx" and "active_idx \<noteq> []" and "0 < k"
  shows "\<exists>ord. bruteforce_row dists ap asrt active active_idx k q = map (\<lambda>i. active_idx ! i) ord \<and> distinct ord
    \<and> int (length ord) = min k (int (length active_idx)) \<and> set ord \<subseteq> {..<length active_idx} \<and> sorted (map (\<lambda>i. dists active q ! i) ord)
    \<and> (\<forall>i\<in>set ord. \<forall>j<length active_idx. j \<notin> set ord \<longrightarrow> dists active q ! i \<le> dists active q ! j)"
proof -
  define n where "n = nat (min k (int (length active_idx)))"
  let ?ds = "dists active q"
  let ?p = "ap ?ds (int n - 1)"
  let ?part = "take n ?p"
  let ?a = "asrt (map (\<lambda>i. ?ds ! i) ?part)"
  let ?o = "map (\<lambda>i. ?part ! i) ?a"
  have l: "length ?ds = length active_idx" using numpy_orderD(1) [OF assms(1)] assms(2) by simp
  have n: "0 < n" "n \<le> length ?ds" "int n = min k (int (length active_idx))" using assms(3,4) l by (simp_all add: n_def)
  have p: "distinct ?p" "set ?p = {..<length ?ds}" "\<forall>i\<in>set ?part. \<forall>j\<in>set (drop n ?p). ?ds ! i \<le> ?ds ! j"
    using numpy_orderD(2) [OF assms(1) n(1,2)] by blast+
  have lp: "length ?p = length ?ds" using distinct_card [OF p(1)] p(2) by simp
  then have lpart: "length ?part = n" using n(2) by simp
  have a: "distinct ?a" "set ?a = {..<length ?part}" "sorted (map (\<lambda>i. map (\<lambda>i. ?ds ! i) ?part ! i) ?a)"
    using numpy_orderD(3) [OF assms(1), of "map (\<lambda>i. ?ds ! i) ?part"] by simp_all
  have "set ?o = set (map ((!) ?part) [0..<length ?part])" by (simp only: set_map a(2) set_upt atLeast0LessThan)
  then have so: "set ?o = set ?part" by (simp only: map_nth)
  have "inj_on (\<lambda>i. ?part ! i) (set ?a)" 
    unfolding a(2) by (rule inj_on_nth [OF distinct_take [OF p(1)]]) simp
  then have d: "distinct ?o" using a(1) by (simp add: distinct_map)
  have "length ?a = n" using distinct_card [OF a(1)] a(2) lpart by simp
  then have lo: "int (length ?o) = min k (int (length active_idx))" using n(3) by simp
  have "map (\<lambda>i. map (\<lambda>i. ?ds ! i) ?part ! i) ?a = map (\<lambda>i. ?ds ! i) ?o" using a(2) by (simp add: comp_def)
  from a(3) [unfolded this] have s: "sorted (map (\<lambda>i. ?ds ! i) ?o)" .
  have sub: "set ?o \<subseteq> {..<length active_idx}" using so p(2) l set_take_subset [of n ?p] by auto
  have out: "\<forall>i\<in>set ?o. \<forall>j<length active_idx. j \<notin> set ?o \<longrightarrow> ?ds ! i \<le> ?ds ! j"
  proof (intro ballI allI impI)
    fix i j assume i: "i \<in> set ?o" "j < length active_idx" "j \<notin> set ?o"
    have "j \<in> set ?p" using i(2) l p(2) by simp
    then have "j \<in> set ?part \<union> set (drop n ?p)" by (metis append_take_drop_id set_append)
    then have "j \<in> set (drop n ?p)" using i(3) unfolding so by blast
    moreover have "i \<in> set ?part" using i(1) unfolding so .
    ultimately show "?ds ! i \<le> ?ds ! j" using p(3) by blast
  qed
  have "bruteforce_row dists ap asrt active active_idx k q = map (\<lambda>i. active_idx ! i) ?o"
    using n(1) by (simp add: bruteforce_row_def Let_def py_take_def n(3) [symmetric])
  then show ?thesis using d lo sub s out by blast
qed

text \<open>Measured against itself, the exact search has recall one.\<close>

lemma bruteforce_recall_one:
  assumes "bruteforce_topk dists ap asrt data queries k flags = Inr gts" and "numpy_order dists ap asrt"
    and "active_of flags \<noteq> []" and "0 < k" and "queries \<noteq> []"
  shows "exact_recall_at_k gts gts k = 1"
proof -
  let ?act = "active_of flags"
  let ?row = "bruteforce_row dists ap asrt (map (\<lambda>i. data ! nat i) ?act) ?act k"
  have g: "gts = map ?row queries" using assms(1,3,4) by (auto simp: bruteforce_topk_def Let_def split: if_splits)
  have t: "top_set k (?row q) \<noteq> {}" for q
  proof -
    obtain ord where o: "?row q = map (\<lambda>i. ?act ! i) ord" "int (length ord) = min k (int (length ?act))" "set ord \<subseteq> {..<length ?act}"
      using bruteforce_row_nearest [OF assms(2) _ assms(3,4), of "map (\<lambda>i. data ! nat i) ?act" q] by auto
    have "0 < int (length ?act)" using assms(3) by simp
    then have "0 < int (length ord)" unfolding o(2) using assms(4) by linarith
    then have "ord \<noteq> []" by simp
    then have h: "hd ord < length ?act" "?row q \<noteq> []" "hd (?row q) = ?act ! hd ord"
      using subsetD [OF o(3) hd_in_set] o(1) \<open>ord \<noteq> []\<close> by (simp_all add: hd_map)
    have "hd (?row q) \<in> set (py_take k (?row q))" using assms(4) h(2) by (cases "?row q"; cases "nat k") (auto simp: py_take_def)
    moreover have "0 \<le> hd (?row q)" using h active_nonneg [of "?act ! hd ord" flags] by simp
    ultimately show ?thesis by (auto simp: top_set_def)
  qed
  have c: "(of_nat (card (top_set k (?row q))) :: rat) \<noteq> 0" for q using t by (simp add: top_set_def)
  have "zip gts gts = map (\<lambda>q. (?row q, ?row q)) queries" by (simp add: g zip_map1 zip_map2 zip_same_conv_map comp_def)
  then have "query_scores gts gts k = map (\<lambda>q. 1) queries" using t c by (simp add: query_scores_def comp_def)
  then show ?thesis using assms(5) by (simp add: exact_recall_at_k_def sum_list_triv)
qed

end
