(* ===== verification/VendorAttach.thy ===== *)
theory VendorAttach
  imports NativeBackend
begin

text \<open>
  \<open>integrations/vendor_attach.py\<close>, with \<open>attach_index\<close> and \<open>load_adjacency\<close> of \<open>src/hnsw_helper.hpp\<close>: erasing in buffers that somebody else
  holds. Memory is a store of buffers by address, an array is an address with its flags, so two arrays with one address are two views of the same
  floats. The buffer of an array of another element type holds its elements as \<open>np.float32\<close> converts them; arrays are
  writable and of rank 1 or 2, and an array without rows has width 0.
\<close>

section \<open>Arrays over a store\<close>

record py_array =
  pa_addr :: nat
  pa_f32 :: bool
  pa_contig :: bool
  pa_rank1 :: bool

record vmem =
  vm_bufs :: "(nat, f32 list list) dict"
  vm_next :: nat

definition buf :: "vmem \<Rightarrow> nat \<Rightarrow> f32 list list" where
  "buf mem a = (case dget (vm_bufs mem) a of None \<Rightarrow> [] | Some rows \<Rightarrow> rows)"

definition put_buf :: "nat \<Rightarrow> f32 list list \<Rightarrow> vmem \<Rightarrow> vmem" where
  "put_buf a rows mem = mem\<lparr>vm_bufs := dset a rows (vm_bufs mem)\<rparr>"

definition row_width :: "f32 list list \<Rightarrow> nat" where
  "row_width rows = (case rows of [] \<Rightarrow> 0 | v # _ \<Rightarrow> length v)"

text \<open>Indexing by a Python int: negative indices count from the end.\<close>

definition np_index :: "nat \<Rightarrow> int \<Rightarrow> nat option" where
  "np_index n i = (if 0 \<le> i \<and> i < int n then Some (nat i) else if - int n \<le> i \<and> i < 0 then Some (nat (int n + i)) else None)"

text \<open>\<open>as_c_float32_matrix\<close>: the array itself or a reshaped view of it, or a copy in new memory.\<close>

definition as_c_float32_matrix :: "py_array \<Rightarrow> vmem \<Rightarrow> py_array \<times> vmem" where
  "as_c_float32_matrix v mem =
    (if pa_f32 v \<and> pa_contig v then (v\<lparr>pa_rank1 := False\<rparr>, mem)
     else (\<lparr>pa_addr = vm_next mem, pa_f32 = True, pa_contig = True, pa_rank1 = False\<rparr>,
           (put_buf (vm_next mem) (buf mem (pa_addr v)) mem)\<lparr>vm_next := Suc (vm_next mem)\<rparr>))"

section \<open>The native index over foreign memory\<close>

text \<open>An attached index reads and writes the buffer; its own rows do not count.\<close>

record vendor_proxy =
  vp_index :: hnsw_index
  vp_addr :: "nat option"

definition vp_view :: "vmem \<Rightarrow> vendor_proxy \<Rightarrow> hnsw_index" where
  "vp_view mem p = (case vp_addr p of None \<Rightarrow> vp_index p | Some a \<Rightarrow> (vp_index p)\<lparr>hx_rows := buf mem a\<rparr>)"

definition vp_write :: "hnsw_index \<Rightarrow> vendor_proxy \<Rightarrow> vmem \<Rightarrow> vendor_proxy \<times> vmem" where
  "vp_write ix p mem = (p\<lparr>vp_index := ix\<rparr>, case vp_addr p of None \<Rightarrow> mem | Some a \<Rightarrow> put_buf a (hx_rows ix) mem)"

definition attach_index :: "nat \<Rightarrow> nat \<Rightarrow> nat \<Rightarrow> vendor_proxy \<Rightarrow> vendor_proxy res" where
  "attach_index a d n p =
    (if 0 < n \<and> d = 0 then Inl (ValueError ''attach_index: dimensions must be > 0 when num_elements > 0'')
     else Inr \<lparr>vp_index = \<lparr>hx_dim = d, hx_rows = [], hx_adj = replicate n [], hx_entry = (if 0 < n then 0 else -1)\<rparr>, vp_addr = Some a\<rparr>)"

definition load_adjacency :: "int list list list \<Rightarrow> vmem \<Rightarrow> vendor_proxy \<Rightarrow> vendor_proxy res" where
  "load_adjacency adj mem p =
    (let n = length (hx_rows (vp_view mem p)) in
     if n = 0 then Inl (RuntimeError ''load_adjacency: no index loaded; call load_index first'')
     else if length adj \<noteq> n
     then Inl (ValueError (''load_adjacency: outer length must equal num_elements ('' @ nat_str n @ ''), got '' @ nat_str (length adj)))
     else case find (\<lambda>nb. nb < 0 \<or> int n \<le> nb) (concat (concat adj)) of
            Some nb \<Rightarrow> Inl (OtherError (''load_adjacency: neighbor label '' @ int_str nb @ '' out of range [0, '' @ nat_str n @ '')''))
          | None \<Rightarrow> Inr (p\<lparr>vp_index := (vp_index p)\<lparr>hx_adj := map (map (map nat)) adj\<rparr>\<rparr>))"

definition attach_numpy_to_proxy ::
  "bool \<Rightarrow> vendor_proxy \<Rightarrow> py_array \<Rightarrow> int list list list option \<Rightarrow> vmem \<Rightarrow> (py_array \<times> vendor_proxy) res \<times> vmem" where
  "attach_numpy_to_proxy healer_available p vectors adjacency mem =
    (if \<not> healer_available then (Inl (OtherError ''hnsw_healer native module required''), mem)
     else case as_c_float32_matrix vectors mem of (mat, mem1) \<Rightarrow>
       let rows = buf mem1 (pa_addr mat) in
       (case attach_index (pa_addr mat) (row_width rows) (length rows) p of
          Inl e \<Rightarrow> (Inl e, mem1)
        | Inr p1 \<Rightarrow>
            (case adjacency of
               None \<Rightarrow> (Inr (mat, p1), mem1)
             | Some adj \<Rightarrow> (case load_adjacency adj mem1 p1 of Inl e \<Rightarrow> (Inl e, mem1) | Inr p2 \<Rightarrow> (Inr (mat, p2), mem1)))))"

section \<open>Sessions\<close>

record vendor_session =
  vs_proxy :: vendor_proxy
  vs_matrix :: py_array
  vs_owns_copy :: bool

definition new_proxy :: vendor_proxy where
  "new_proxy = \<lparr>vp_index = empty_index, vp_addr = None\<rparr>"

text \<open>\<open>mat is not vectors\<close>: the array object is kept only when nothing had to be done.\<close>

definition from_numpy ::
  "bool \<Rightarrow> py_array \<Rightarrow> int list list list option \<Rightarrow> vendor_proxy option \<Rightarrow> vmem \<Rightarrow> vendor_session res \<times> vmem" where
  "from_numpy healer_available vectors adjacency proxy mem =
    (if \<not> healer_available then (Inl (OtherError ''hnsw_healer native module required''), mem)
     else case as_c_float32_matrix vectors mem of (mat, mem1) \<Rightarrow>
       let same_object = (mat = vectors);
           owns = (\<not> same_object \<and> pa_addr mat \<noteq> pa_addr vectors)
       in (case attach_numpy_to_proxy healer_available (case proxy of None \<Rightarrow> new_proxy | Some p \<Rightarrow> p) mat adjacency mem1 of
             (Inl e, mem2) \<Rightarrow> (Inl e, mem2)
           | (Inr (attached, p), mem2) \<Rightarrow>
               (Inr \<lparr>vs_proxy = p, vs_matrix = attached, vs_owns_copy = (owns \<or> \<not> same_object)\<rparr>, mem2)))"

text \<open>
  A native call on a proxy, and the three calls: \<open>busy\<close> is lock contention. The argument \<open>max_m\<close> must fit a C \<open>int\<close>.
\<close>

definition vp_call :: "(hnsw_index \<Rightarrow> 'r res \<times> hnsw_index) \<Rightarrow> vendor_proxy \<Rightarrow> vmem \<Rightarrow> 'r res \<times> vendor_proxy \<times> vmem" where
  "vp_call f p mem = (case f (vp_view mem p) of (r, ix) \<Rightarrow> (r, vp_write ix p mem))"

definition call_overwrite :: "bool \<Rightarrow> int \<Rightarrow> hnsw_index \<Rightarrow> unit res \<times> hnsw_index" where
  "call_overwrite busy lab ix =
    (if busy then (Inl (LockContentionError ''stripe lock timeout''), ix)
     else case overwrite_vector ix lab of Inl e \<Rightarrow> (Inl e, ix) | Inr ix1 \<Rightarrow> (Inr (), ix1))"

definition call_heal :: "'d fp \<Rightarrow> bool \<Rightarrow> int \<Rightarrow> int \<Rightarrow> hnsw_index \<Rightarrow> unit res \<times> hnsw_index" where
  "call_heal f busy lab max_m ix =
    (if max_m < - (2 ^ 31) \<or> 2 ^ 31 \<le> max_m then (Inl (TypeError ''incompatible function arguments''), ix)
     else if busy then (Inl (LockContentionError ''stripe lock timeout''), ix)
     else case heal_graph_structure f ix lab max_m of Inl e \<Rightarrow> (Inl e, ix) | Inr (_, _, ix1) \<Rightarrow> (Inr (), ix1))"

text \<open>The native erase and its fallback; \<open>pv_busy v tick i\<close> is the contention in the i-th call.\<close>

definition heal_in_place ::
  "'d penv \<Rightarrow> nat \<Rightarrow> int \<Rightarrow> int \<Rightarrow> vendor_proxy \<Rightarrow> vmem \<Rightarrow> unit res \<times> vendor_proxy \<times> vmem" where
  "heal_in_place v tick lab max_m p mem =
    (case vp_call (native_erase (pv_fp v) (pv_ms v tick) (pv_busy v tick 0) lab max_m) p mem of
       (Inr _, p1, mem1) \<Rightarrow> (Inr (), p1, mem1)
     | (Inl _, p1, mem1) \<Rightarrow>
         (case vp_call (call_overwrite (pv_busy v tick 1 \<noteq> None) lab) p1 mem1 of
            (Inl e, p2, mem2) \<Rightarrow> (Inl e, p2, mem2)
          | (Inr _, p2, mem2) \<Rightarrow> vp_call (call_heal (pv_fp v) (pv_busy v tick 2 \<noteq> None) lab max_m) p2 mem2))"

definition hard_delete_row ::
  "'d penv \<Rightarrow> nat \<Rightarrow> int \<Rightarrow> int \<Rightarrow> vendor_session \<Rightarrow> vmem \<Rightarrow> int res \<times> vendor_session \<times> vmem" where
  "hard_delete_row v tick lab max_m ses mem =
    (let a = pa_addr (vs_matrix ses); rows = buf mem a in
     case np_index (length rows) lab of
       None \<Rightarrow> (Inl (OtherError ''IndexError''), ses, mem)
     | Some i \<Rightarrow>
         let mem1 = put_buf a (rows[i := zero_row (row_width rows)]) mem;
             wiped = 4 * int (row_width rows)
         in if is_loaded (vp_view mem1 (vs_proxy ses))
            then (case heal_in_place v tick lab max_m (vs_proxy ses) mem1 of
                    (Inl e, p1, mem2) \<Rightarrow> (Inl e, ses\<lparr>vs_proxy := p1\<rparr>, mem2)
                  | (Inr _, p1, mem2) \<Rightarrow> (Inr wiped, ses\<lparr>vs_proxy := p1\<rparr>, mem2))
            else (Inr wiped, ses, mem1))"

definition vs_verify_zeroed :: "int \<Rightarrow> vendor_session \<Rightarrow> vmem \<Rightarrow> bool res" where
  "vs_verify_zeroed lab ses mem =
    (let rows = buf mem (pa_addr (vs_matrix ses)) in
     case np_index (length rows) lab of None \<Rightarrow> Inl (OtherError ''IndexError'') | Some i \<Rightarrow> Inr (all_zero (rows ! i)))"

section \<open>Shared memory\<close>

text \<open>The segments of the operating system by number, and their names; a segment outlives its name. A bank is one process's view of a segment.\<close>

record shm_os =
  so_names :: "(string, nat) dict"
  so_segs :: "(nat, f32 list) dict"
  so_next :: nat

record vector_bank =
  vb_name :: string
  vb_n :: nat
  vb_d :: nat
  vb_seg :: nat
  vb_created :: bool
  vb_closed :: bool

definition bank_init :: "string \<Rightarrow> nat \<Rightarrow> nat \<Rightarrow> bool \<Rightarrow> shm_os \<Rightarrow> vector_bank res \<times> shm_os" where
  "bank_init name n d create os =
    (if create then
       (if n * d = 0 then (Inl (ValueError ''size must be a positive number different from zero''), os)
        else case dget (so_names os) name of
          Some _ \<Rightarrow> (Inl (OSError ''File exists''), os)
        | None \<Rightarrow>
            (Inr \<lparr>vb_name = name, vb_n = n, vb_d = d, vb_seg = so_next os, vb_created = True, vb_closed = False\<rparr>,
             os\<lparr>so_names := dset name (so_next os) (so_names os), so_segs := dset (so_next os) (replicate (n * d) 0) (so_segs os),
                so_next := Suc (so_next os)\<rparr>))
     else case dget (so_names os) name of
       None \<Rightarrow> (Inl (FileNotFoundError name), os)
     | Some g \<Rightarrow>
         if length (case dget (so_segs os) g of None \<Rightarrow> [] | Some xs \<Rightarrow> xs) < n * d
         then (Inl (TypeError ''buffer is too small for requested array''), os)
         else (Inr \<lparr>vb_name = name, vb_n = n, vb_d = d, vb_seg = g, vb_created = False, vb_closed = False\<rparr>, os))"

definition seg_of :: "shm_os \<Rightarrow> vector_bank \<Rightarrow> f32 list" where
  "seg_of os b = (case dget (so_segs os) (vb_seg b) of None \<Rightarrow> [] | Some xs \<Rightarrow> xs)"

definition bank_row :: "shm_os \<Rightarrow> vector_bank \<Rightarrow> nat \<Rightarrow> f32 list" where
  "bank_row os b i = take (vb_d b) (drop (i * vb_d b) (seg_of os b))"

definition set_row :: "vector_bank \<Rightarrow> nat \<Rightarrow> f32 list \<Rightarrow> shm_os \<Rightarrow> shm_os" where
  "set_row b i row os =
    os\<lparr>so_segs := dset (vb_seg b) (take (i * vb_d b) (seg_of os b) @ row @ drop (Suc i * vb_d b) (seg_of os b)) (so_segs os)\<rparr>"

text \<open>Assigning to a row: the vector has the width of the row, or one element, which is repeated. A closed bank has no memory.\<close>

definition write_row :: "int \<Rightarrow> f32 list \<Rightarrow> vector_bank \<Rightarrow> shm_os \<Rightarrow> unit res \<times> shm_os" where
  "write_row lab vec b os =
    (if vb_closed b then (Inl Unmodelled, os)
     else case np_index (vb_n b) lab of
       None \<Rightarrow> (Inl (OtherError ''IndexError''), os)
     | Some i \<Rightarrow>
         if length vec = vb_d b then (Inr (), set_row b i vec os)
         else if length vec = 1 then (Inr (), set_row b i (replicate (vb_d b) (hd vec)) os)
         else (Inl (ValueError ''could not broadcast input array''), os))"

definition bank_zero_row :: "int \<Rightarrow> vector_bank \<Rightarrow> shm_os \<Rightarrow> int res \<times> shm_os" where
  "bank_zero_row lab b os =
    (if vb_closed b then (Inl Unmodelled, os)
     else case np_index (vb_n b) lab of
       None \<Rightarrow> (Inl (OtherError ''IndexError''), os)
     | Some i \<Rightarrow> (Inr (4 * int (vb_d b)), set_row b i (zero_row (vb_d b)) os))"

definition bank_close :: "vector_bank \<Rightarrow> vector_bank" where
  "bank_close b = b\<lparr>vb_closed := True\<rparr>"

definition bank_unlink :: "vector_bank \<Rightarrow> shm_os \<Rightarrow> shm_os" where
  "bank_unlink b os = (if vb_created b then os\<lparr>so_names := ddel (vb_name b) (so_names os)\<rparr> else os)"

section \<open>Importers\<close>

text \<open>\<open>fetch\<close> and \<open>reconstruct\<close> of the vendor index are parameters; \<open>inner\<close> is the wrapped index, if there is one.\<close>

definition hnswlib_export :: "(int list \<Rightarrow> f32 list list res) \<Rightarrow> int list \<Rightarrow> f32 list list res" where
  "hnswlib_export fetch labels = fetch labels"

definition faiss_export :: "(nat \<Rightarrow> f32 list res) \<Rightarrow> (nat \<Rightarrow> f32 list res) option \<Rightarrow> nat \<Rightarrow> f32 list list res" where
  "faiss_export reconstruct inner n =
    map_res (\<lambda>i. case reconstruct i of
        Inr v \<Rightarrow> Inr v
      | Inl e \<Rightarrow> (case inner of None \<Rightarrow> Inl e | Some rec2 \<Rightarrow> rec2 i)) [0..<n]"

section \<open>Erasing where the vectors live\<close>

text \<open>Wiping a zeroed row writes nothing, so after the write through the array the native calls keep the buffer.\<close>

definition zeroed_at :: "hnsw_index \<Rightarrow> int \<Rightarrow> bool" where
  "zeroed_at ix q \<longleftrightarrow> (0 \<le> q \<longrightarrow> q < int (num_elements ix) \<longrightarrow> hx_rows ix ! nat q = zero_row (hx_dim ix))"

abbreviation same_rows :: "hnsw_index \<Rightarrow> hnsw_index \<Rightarrow> bool" where
  "same_rows ix ix' \<equiv> hx_rows ix' = hx_rows ix \<and> hx_dim ix' = hx_dim ix"

lemma overwrite_zeroed: "overwrite_vector ix q = Inr ix' \<Longrightarrow> zeroed_at ix q \<Longrightarrow> ix' = ix"
  by (auto simp: overwrite_vector_def ensure_node_def zeroed_at_def split: if_splits)
    (metis list_update_id hnsw_index.surjective hnsw_index.update_convs(2))

lemma heal_same_rows: "heal_graph_structure f ix q m = Inr (r, a, ix') \<Longrightarrow> same_rows ix ix'"
  by (auto simp: heal_graph_structure_def Let_def split: if_splits)

lemma native_zeroed: "native_erase f ms busy q m ix = (r, ix') \<Longrightarrow> zeroed_at ix q \<Longrightarrow> same_rows ix ix'"
  by (auto simp: native_erase_def erase_node_def dest: overwrite_zeroed heal_same_rows
      split: option.splits if_splits sum.splits contention.splits)

lemma native_negative: "native_erase f ms busy q m ix = (r, ix') \<Longrightarrow> q < 0 \<Longrightarrow> \<exists>e. r = Inl e"
  by (auto simp: native_erase_def erase_node_def overwrite_vector_def ensure_node_def
      split: option.splits contention.splits if_splits)

text \<open>A session attached to the buffer of its matrix, whose rows all have the width the index was given.\<close>

definition attached :: "vendor_session \<Rightarrow> vmem \<Rightarrow> bool" where
  "attached ses mem \<longleftrightarrow>
    vp_addr (vs_proxy ses) = Some (pa_addr (vs_matrix ses))
    \<and> (let rows = buf mem (pa_addr (vs_matrix ses)) in
        rows \<noteq> [] \<and> hx_dim (vp_index (vs_proxy ses)) = row_width rows \<and> (\<forall>r\<in>set rows. length r = row_width rows))"

definition same_bufs :: "vmem \<Rightarrow> vmem \<Rightarrow> bool" where
  "same_bufs mem mem' \<longleftrightarrow> (\<forall>a. buf mem' a = buf mem a)"

lemma row_width_hd: "xs \<noteq> [] \<Longrightarrow> \<forall>r\<in>set xs. length r = d \<Longrightarrow> row_width xs = d"
  by (cases xs) (simp_all add: row_width_def)

lemma buf_put [simp]: "buf (put_buf a rows mem) b = (if b = a then rows else buf mem b)"
  by (simp add: buf_def put_buf_def)

lemma buf_next [simp]: "buf (mem\<lparr>vm_next := n\<rparr>) a = buf mem a"
  by (simp add: buf_def)

lemma view_simps [simp]:
  "vp_addr p = Some a \<Longrightarrow> vp_view mem p = (vp_index p)\<lparr>hx_rows := buf mem a\<rparr>"
  "vp_addr p = Some a \<Longrightarrow> vp_write ix p mem = (p\<lparr>vp_index := ix\<rparr>, put_buf a (hx_rows ix) mem)"
  by (simp_all add: vp_view_def vp_write_def)

text \<open>What a call that keeps the rows keeps of the proxy and its memory.\<close>

definition calm :: "(vendor_proxy \<times> vmem) \<Rightarrow> (vendor_proxy \<times> vmem) \<Rightarrow> bool" where
  "calm = (\<lambda>(p, mem) (p', mem'). same_bufs mem mem' \<and> vp_addr p' = vp_addr p \<and> hx_dim (vp_index p') = hx_dim (vp_index p))"

lemma calm_refl: "calm x x"
  by (cases x) (simp add: calm_def same_bufs_def)

lemma calm_trans: "calm x y \<Longrightarrow> calm y z \<Longrightarrow> calm x z"
  by (cases x; cases y; cases z) (simp add: calm_def same_bufs_def)

lemma calm_view:
  assumes "calm (p, mem) (p', mem')" and "vp_addr p = Some a"
  shows "same_rows (vp_view mem p) (vp_view mem' p')" and "zeroed_at (vp_view mem' p') q \<longleftrightarrow> zeroed_at (vp_view mem p) q"
  using assms by (simp_all add: calm_def same_bufs_def zeroed_at_def num_elements_def)

lemma vp_call_calm:
  assumes c: "vp_call f p mem = (r, p', mem')" and a: "vp_addr p = Some a"
    and f: "\<And>r ix'. f (vp_view mem p) = (r, ix') \<Longrightarrow> same_rows (vp_view mem p) ix'"
  shows "calm (p, mem) (p', mem')"
proof -
  obtain r1 ix1 where o: "f (vp_view mem p) = (r1, ix1)" by fastforce
  have "r = r1" "p' = p\<lparr>vp_index := ix1\<rparr>" "mem' = put_buf a (hx_rows ix1) mem" using c o a by (simp_all add: vp_call_def)
  then show ?thesis using f [OF o] a by (simp add: calm_def same_bufs_def)
qed

lemma vp_call_result: "vp_call f p mem = (r, p', mem') \<Longrightarrow> \<exists>ix'. f (vp_view mem p) = (r, ix')"
  by (auto simp: vp_call_def split: prod.splits)

lemma overwrite_call_rows: "call_overwrite busy q ix = (r, ix') \<Longrightarrow> zeroed_at ix q \<Longrightarrow> same_rows ix ix'"
  by (auto simp: call_overwrite_def dest: overwrite_zeroed split: if_splits sum.splits)

lemma heal_call_rows: "call_heal f busy q m ix = (r, ix') \<Longrightarrow> same_rows ix ix'"
  by (auto simp: call_heal_def dest: heal_same_rows split: if_splits sum.splits)

lemma call_overwrite_negative: "call_overwrite busy q ix = (r, ix') \<Longrightarrow> q < 0 \<Longrightarrow> \<exists>e. r = Inl e"
  by (auto simp: call_overwrite_def overwrite_vector_def ensure_node_def split: if_splits)

lemma heal_in_place_calm:
  assumes h: "heal_in_place v tick q m p mem = (r, p', mem')" and a: "vp_addr p = Some a" and z: "zeroed_at (vp_view mem p) q"
  shows "calm (p, mem) (p', mem') \<and> (q < 0 \<longrightarrow> (\<exists>e. r = Inl e))"
proof -
  obtain r1 p1 m1 where c1: "vp_call (native_erase (pv_fp v) (pv_ms v tick) (pv_busy v tick 0) q m) p mem = (r1, p1, m1)"
    by (rule prod_cases3)
  have k1: "calm (p, mem) (p1, m1)" by (rule vp_call_calm [OF c1 a]) (rule native_zeroed [OF _ z])
  have r1: "\<exists>e. r1 = Inl e" if "q < 0" using vp_call_result [OF c1] that by (blast dest: native_negative)
  show ?thesis
  proof (cases r1)
    case (Inr x)
    then show ?thesis using h c1 k1 r1 by (auto simp: heal_in_place_def)
  next
    case (Inl x)
    have a1: "vp_addr p1 = Some a" using k1 a by (simp add: calm_def)
    have z1: "zeroed_at (vp_view m1 p1) q" using calm_view(2) [OF k1 a] z by simp
    obtain r2 p2 m2 where c2: "vp_call (call_overwrite (pv_busy v tick 1 \<noteq> None) q) p1 m1 = (r2, p2, m2)" by (rule prod_cases3)
    have k2: "calm (p, mem) (p2, m2)"
      by (rule calm_trans [OF k1 vp_call_calm [OF c2 a1]]) (rule overwrite_call_rows [OF _ z1])
    have r2: "\<exists>e. r2 = Inl e" if "q < 0" using vp_call_result [OF c2] that by (blast dest: call_overwrite_negative)
    have a2: "vp_addr p2 = Some a" using k2 a by (simp add: calm_def)
    show ?thesis
    proof (cases r2)
      case (Inl y)
      then show ?thesis using h c1 c2 \<open>r1 = Inl x\<close> k2 by (auto simp: heal_in_place_def)
    next
      case (Inr y)
      then have "vp_call (call_heal (pv_fp v) (pv_busy v tick 2 \<noteq> None) q m) p2 m2 = (r, p', mem')"
        using h c1 c2 Inl by (simp add: heal_in_place_def)
      then have "calm (p2, m2) (p', mem')" by (rule vp_call_calm [OF _ a2]) (rule heal_call_rows)
      then show ?thesis using calm_trans [OF k2] r2 Inr by blast
    qed
  qed
qed

text \<open>
  A hard delete of any row that exists, in any environment: the buffer of the session's matrix differs in that row only, which is
  zero, and no other buffer differs, also when the native calls fail. With a negative label they always fail.
\<close>

lemma hard_delete_row_effect:
  assumes at: "attached ses mem" and i: "np_index (length (buf mem (pa_addr (vs_matrix ses)))) lab = Some i"
  shows "\<exists>r ses' mem'. hard_delete_row v tick lab m ses mem = (r, ses', mem') \<and> vs_matrix ses' = vs_matrix ses
    \<and> (\<forall>a. buf mem' a = (if a = pa_addr (vs_matrix ses)
          then (buf mem a)[i := zero_row (row_width (buf mem a))] else buf mem a))
    \<and> attached ses' mem' \<and> (lab < 0 \<longrightarrow> (\<exists>e. r = Inl e))"
proof -
  let ?a = "pa_addr (vs_matrix ses)" and ?p = "vs_proxy ses"
  let ?rows = "buf mem ?a"
  let ?new = "?rows[i := zero_row (row_width ?rows)]"
  let ?mem1 = "put_buf ?a ?new mem"
  have p: "vp_addr ?p = Some ?a" and ne: "?rows \<noteq> []" and d: "hx_dim (vp_index ?p) = row_width ?rows"
    and u: "\<forall>r\<in>set ?rows. length r = row_width ?rows"
    using at by (simp_all add: attached_def Let_def)
  have il: "i < length ?rows" and nat: "0 \<le> lab \<Longrightarrow> i = nat lab" using i by (auto simp: np_index_def split: if_splits)
  have u1: "\<forall>r\<in>set ?new. length r = row_width ?rows"
    using u by (auto dest!: set_update_subset_insert [THEN subsetD])
  then have w: "row_width ?new = row_width ?rows" using ne by (simp add: row_width_hd)
  have z: "zeroed_at (vp_view ?mem1 ?p) lab" using p d il nat by (simp add: zeroed_at_def num_elements_def)
  obtain r p1 mem2 where h: "heal_in_place v tick lab m ?p ?mem1 = (r, p1, mem2)" by (rule prod_cases3)
  note k = heal_in_place_calm [OF h p z]
  have "attached (ses\<lparr>vs_proxy := p1\<rparr>) mem2"
    using k p d ne u1 w by (simp add: attached_def calm_def same_bufs_def)
  moreover have "is_loaded (vp_view ?mem1 ?p)" using p ne by (simp add: is_loaded_def)
  ultimately show ?thesis
    using i h k by (auto simp: hard_delete_row_def Let_def calm_def same_bufs_def split: sum.splits)
qed

text \<open>What \<open>from_numpy\<close> builds: an attached session on a well-formed index, over the array itself where that is possible.\<close>

lemma load_adjacency_index:
  assumes "load_adjacency adj mem p = Inr p'" and "vp_addr p = Some a"
  shows "vp_addr p' = Some a \<and> vp_index p' = (vp_index p)\<lparr>hx_adj := map (map (map nat)) adj\<rparr> \<and> length adj = length (buf mem a)
    \<and> (\<forall>node\<in>set adj. \<forall>layer\<in>set node. \<forall>nb\<in>set layer. nat nb < length (buf mem a))"
  using assms by (auto simp: load_adjacency_def Let_def find_None_iff not_less not_le split: if_splits option.splits) (metis nat_less_iff)

definition mem_ok :: "py_array \<Rightarrow> vmem \<Rightarrow> bool" where
  "mem_ok v mem \<longleftrightarrow> pa_addr v < vm_next mem \<and> buf mem (pa_addr v) \<noteq> []
     \<and> (\<forall>r\<in>set (buf mem (pa_addr v)). length r = row_width (buf mem (pa_addr v)))"

text \<open>The array whose memory the erasure will reach.\<close>

definition live_addr :: "py_array \<Rightarrow> vmem \<Rightarrow> nat" where
  "live_addr v mem = (if pa_f32 v \<and> pa_contig v then pa_addr v else vm_next mem)"

lemma as_c_twice:
  assumes "as_c_float32_matrix v mem = (mat, mem1)"
  shows "as_c_float32_matrix mat mem1 = (mat, mem1)"
  using assms by (auto simp: as_c_float32_matrix_def split: if_splits)

lemma as_c_result:
  assumes "as_c_float32_matrix v mem = (mat, mem1)"
  shows "pa_addr mat = live_addr v mem \<and> buf mem1 (live_addr v mem) = buf mem (pa_addr v)
    \<and> (\<forall>a. a \<noteq> vm_next mem \<longrightarrow> buf mem1 a = buf mem a) \<and> (pa_f32 v \<and> pa_contig v \<longrightarrow> mem1 = mem)"
  using assms by (auto simp: as_c_float32_matrix_def live_addr_def split: if_splits)

lemma from_numpy_session:
  assumes f: "from_numpy True v adj proxy mem = (Inr ses, mem1)" and m: "mem_ok v mem"
  shows "attached ses mem1 \<and> pa_addr (vs_matrix ses) = live_addr v mem \<and> buf mem1 (live_addr v mem) = buf mem (pa_addr v)
    \<and> (\<forall>a. a \<noteq> vm_next mem \<longrightarrow> buf mem1 a = buf mem a) \<and> (pa_f32 v \<and> pa_contig v \<longrightarrow> mem1 = mem)
    \<and> index_ok (vp_view mem1 (vs_proxy ses)) \<and> (vs_owns_copy ses \<longleftrightarrow> \<not> (pa_f32 v \<and> pa_contig v \<and> \<not> pa_rank1 v))"
proof -
  obtain mat memc where c: "as_c_float32_matrix v mem = (mat, memc)" by fastforce
  let ?p0 = "case proxy of None \<Rightarrow> new_proxy | Some p \<Rightarrow> p"
  let ?rows = "buf memc (pa_addr mat)"
  have run: "(case attach_index (pa_addr mat) (row_width ?rows) (length ?rows) ?p0 of
          Inl e \<Rightarrow> (Inl e, memc)
        | Inr p1 \<Rightarrow>
            (case adj of
               None \<Rightarrow> (Inr (mat, p1), memc)
             | Some adj \<Rightarrow> (case load_adjacency adj memc p1 of Inl e \<Rightarrow> (Inl e, memc) | Inr p2 \<Rightarrow> (Inr (mat, p2), memc))))
      = (Inr (vs_matrix ses, vs_proxy ses), mem1)" and own: "vs_owns_copy ses = (\<not> mat = v)"
    using f unfolding from_numpy_def attach_numpy_to_proxy_def c as_c_twice [OF c]
    by (auto simp: Let_def as_c_twice [OF c] split: sum.splits option.splits)
  have r: "?rows = buf mem (pa_addr v)" and pm: "pa_addr mat = live_addr v mem" using as_c_result [OF c] by auto
  have un: "?rows \<noteq> []" "\<forall>r\<in>set ?rows. length r = row_width ?rows" using m r by (simp_all add: mem_ok_def)
  have d: "0 < row_width ?rows" using run un(1) by (cases "row_width ?rows") (auto simp: attach_index_def)
  let ?ix = "\<lparr>hx_dim = row_width ?rows, hx_rows = [], hx_adj = replicate (length ?rows) [], hx_entry = 0\<rparr>"
  have at: "attach_index (pa_addr mat) (row_width ?rows) (length ?rows) ?p0 = Inr \<lparr>vp_index = ?ix, vp_addr = Some (pa_addr mat)\<rparr>"
    using d un(1) by (simp add: attach_index_def)
  have base: "mem1 = memc \<and> vs_matrix ses = mat \<and> vp_addr (vs_proxy ses) = Some (pa_addr mat)
      \<and> (\<exists>g. vp_index (vs_proxy ses) = ?ix\<lparr>hx_adj := g\<rparr> \<and> length g = length ?rows
          \<and> list_all (list_all (list_all (\<lambda>nb. nb < length ?rows))) g)"
  proof (cases adj)
    case None
    then have "vs_proxy ses = \<lparr>vp_index = ?ix, vp_addr = Some (pa_addr mat)\<rparr>" "mem1 = memc" "vs_matrix ses = mat"
      using run at by auto
    then show ?thesis by (intro conjI exI [of _ "replicate (length ?rows) []"]) (simp_all add: list_all_iff)
  next
    case (Some g)
    then have l: "load_adjacency g memc \<lparr>vp_index = ?ix, vp_addr = Some (pa_addr mat)\<rparr> = Inr (vs_proxy ses)"
      and e: "mem1 = memc" "vs_matrix ses = mat"
      using run at by (auto split: sum.splits)
    from load_adjacency_index [OF l, of "pa_addr mat"] e show ?thesis
      by (intro conjI exI [of _ "map (map (map nat)) g"]) (auto simp: list_all_iff)
  qed
  have "index_ok (vp_view mem1 (vs_proxy ses))"
    using base un d by (auto simp: index_ok_def list_all_iff)
  moreover have "attached ses mem1" using base un by (auto simp: attached_def Let_def)
  moreover have "vs_owns_copy ses \<longleftrightarrow> \<not> (pa_f32 v \<and> pa_contig v \<and> \<not> pa_rank1 v)"
    using c m unfolding own by (cases v) (auto simp: as_c_float32_matrix_def mem_ok_def split: if_splits)
  ultimately show ?thesis using base as_c_result [OF c] r by auto
qed

text \<open>Without contention the native erase succeeds on the row that was just wiped.\<close>

lemma hard_delete_row_succeeds:
  assumes at: "attached ses mem" and ok: "index_ok (vp_view mem (vs_proxy ses))"
    and l: "0 \<le> lab" "lab < int (length (buf mem (pa_addr (vs_matrix ses))))" "lab < 2 ^ 63" and m: "0 < m" "m < 2 ^ 31"
    and b: "pv_busy v tick 0 = None"
  shows "\<exists>ses' mem'. hard_delete_row v tick lab m ses mem
    = (Inr (4 * int (row_width (buf mem (pa_addr (vs_matrix ses))))), ses', mem')"
proof -
  let ?a = "pa_addr (vs_matrix ses)" and ?p = "vs_proxy ses"
  let ?rows = "buf mem ?a"
  let ?new = "?rows[nat lab := zero_row (row_width ?rows)]"
  let ?mem1 = "put_buf ?a ?new mem"
  have p: "vp_addr ?p = Some ?a" and ne: "?rows \<noteq> []" and d: "hx_dim (vp_index ?p) = row_width ?rows"
    using at by (simp_all add: attached_def Let_def)
  have v: "vp_view ?mem1 ?p = (vp_index ?p)\<lparr>hx_rows := ?new\<rparr>" using p by simp
  have ok1: "index_ok (vp_view ?mem1 ?p)"
    using ok p d unfolding v by (auto simp: index_ok_def list_all_iff dest!: set_update_subset_insert [THEN subsetD])
  have q: "ensure_node (vp_view ?mem1 ?p) lab = Inr (nat lab)"
    unfolding v by (rule ensure_node_in) (use ne l in \<open>simp_all add: is_loaded_def num_elements_def\<close>)
  obtain x ix where "erase_node (pv_fp v) (pv_ms v tick) lab m (vp_view ?mem1 ?p) = (Inr x, ix)"
    using erase_node_ok [OF ok1 q m l(3), of "pv_fp v" "pv_ms v tick"] by blast
  then have "native_erase (pv_fp v) (pv_ms v tick) (pv_busy v tick 0) lab m (vp_view ?mem1 ?p) = (Inr x, ix)"
    using b by (simp add: native_erase_def)
  moreover have "np_index (length ?rows) lab = Some (nat lab)" using l by (simp add: np_index_def)
  moreover have "is_loaded (vp_view ?mem1 ?p)" using p ne by (simp add: is_loaded_def)
  ultimately show ?thesis by (simp add: hard_delete_row_def heal_in_place_def vp_call_def Let_def split: prod.split)
qed

section \<open>Rows of a shared segment\<close>

lemma cut_nth:
  assumes "i < n" "j < n" "length xs = n * d" "length row = d"
  shows "take d (drop (j * d) (take (i * d) xs @ row @ drop (Suc i * d) xs)) = (if j = i then row else take d (drop (j * d) xs))"
proof -
  have b: "Suc i * d \<le> length xs" "Suc j * d \<le> length xs" using assms by (simp_all add: mult_le_mono1 del: mult_Suc)
  define ys where "ys = take (i * d) xs @ row @ drop (Suc i * d) xs"
  have ly: "length ys = length xs" using b assms(4) by (simp add: ys_def)
  have nth: "ys ! (j * d + k) = (if j = i then row ! k else xs ! (j * d + k))" if k: "k < d" for k
  proof (cases j i rule: linorder_cases)
    case less
    then have "Suc j * d \<le> i * d" by (intro mult_le_mono1) simp
    then have "j * d + k < i * d" using k by simp
    then show ?thesis using less b by (simp add: nth_append ys_def)
  next
    case equal
    then show ?thesis using k b assms(4) by (simp add: nth_append ys_def)
  next
    case greater
    then have g: "Suc i * d \<le> j * d" by (intro mult_le_mono1) simp
    have "\<not> j * d + k < i * d" "\<not> j * d + k - i * d < d" "j * d + k - i * d - d = j * d + k - Suc i * d" using g by auto
    then show ?thesis using greater g b assms(4) by (simp add: nth_append min_absorb2 ys_def)
  qed
  have lj: "length (take d (drop (j * d) ys)) = d" "length (take d (drop (j * d) xs)) = d" using b ly by auto
  have le: "j * d \<le> length ys" "j * d \<le> length xs" using b ly by auto
  have "take d (drop (j * d) ys) = (if j = i then row else take d (drop (j * d) xs))"
    by (rule nth_equalityI) (use lj assms(4) nth le in auto)
  then show ?thesis by (simp only: ys_def)
qed

text \<open>Two open banks of one segment, of one shape.\<close>

definition shares :: "shm_os \<Rightarrow> vector_bank \<Rightarrow> vector_bank \<Rightarrow> bool" where
  "shares os b c \<longleftrightarrow> vb_seg b = vb_seg c \<and> vb_n b = vb_n c \<and> vb_d b = vb_d c \<and> \<not> vb_closed b \<and> \<not> vb_closed c
     \<and> length (seg_of os b) = vb_n b * vb_d b"

lemma set_row_seen:
  assumes "shares os b c" and "i < vb_n b" and "length row = vb_d b"
  shows "shares (set_row b i row os) b c"
    and "j < vb_n b \<Longrightarrow> bank_row (set_row b i row os) c j = (if j = i then row else bank_row os b j)"
proof -
  have s: "seg_of (set_row b i row os) c = take (i * vb_d b) (seg_of os b) @ row @ drop (Suc i * vb_d b) (seg_of os b)"
    using assms(1) by (simp add: seg_of_def set_row_def shares_def)
  have e: "seg_of os' c = seg_of os' b" for os' using assms(1) by (simp add: seg_of_def shares_def)
  have l: "length (seg_of os b) = vb_n b * vb_d b" and d: "vb_d c = vb_d b" using assms(1) by (simp_all add: shares_def)
  have "Suc i * vb_d b \<le> vb_n b * vb_d b" using assms(2) by (intro mult_le_mono1) simp
  then have "length (seg_of (set_row b i row os) c) = vb_n b * vb_d b" using assms(3) l unfolding s by simp
  then show "shares (set_row b i row os) b c" using assms(1) e by (simp add: shares_def)
  assume "j < vb_n b"
  then show "bank_row (set_row b i row os) c j = (if j = i then row else bank_row os b j)"
    using cut_nth [OF assms(2) _ l assms(3), of j] unfolding bank_row_def s d by simp
qed

lemma shares_sym: "shares os b c \<Longrightarrow> shares os c b"
  by (auto simp: shares_def seg_of_def)

lemma opened_shares:
  assumes "bank_init name n d True os = (Inr b, os1)" and "bank_init name n d False os1 = (Inr c, os2)"
  shows "os2 = os1 \<and> shares os1 b c \<and> vb_n b = n \<and> vb_d b = d"
  using assms by (auto simp: bank_init_def shares_def seg_of_def split: if_splits option.splits)

lemma np_index_less: "np_index n k = Some i \<Longrightarrow> i < n"
  by (auto simp: np_index_def split: if_splits)

section \<open>Properties\<close>

text \<open>
  C33: erasing through a vendor session erases in the caller's own memory: when \<open>InPlaceVendorSession.from_numpy\<close> accepts a C-contiguous
  float32 array, it allocates nothing, and \<open>hard_delete_row\<close> of a row of it, without lock contention, returns the bytes of the row; in the
  caller's buffer that row is now zero and every other row as before, no other buffer has changed, and \<open>verify_zeroed\<close> answers True. When the array
  had to be copied, the same happens to the copy, and the caller's buffer keeps its vectors.
\<close>

theorem erases_in_the_callers_buffer:
  assumes "from_numpy True v adj proxy mem = (Inr ses, mem1)" and "mem_ok v mem"
    and "0 \<le> lab" "lab < int (length (buf mem (pa_addr v)))" "lab < 2 ^ 63" and "0 < m" "m < 2 ^ 31" and "pv_busy env tick 0 = None"
  shows "(pa_f32 v \<and> pa_contig v \<longrightarrow> mem1 = mem \<and> live_addr v mem = pa_addr v)
    \<and> (\<exists>ses' mem'. hard_delete_row env tick lab m ses mem1 = (Inr (4 * int (row_width (buf mem (pa_addr v)))), ses', mem')
        \<and> buf mem' (live_addr v mem) = (buf mem (pa_addr v))[nat lab := zero_row (row_width (buf mem (pa_addr v)))]
        \<and> (\<forall>a. a \<noteq> live_addr v mem \<longrightarrow> a \<noteq> vm_next mem \<longrightarrow> buf mem' a = buf mem a)
        \<and> vs_verify_zeroed lab ses' mem' = Inr True)"
proof -
  note f = from_numpy_session [OF assms(1,2)]
  have at: "attached ses mem1" and ok: "index_ok (vp_view mem1 (vs_proxy ses))" and pa: "pa_addr (vs_matrix ses) = live_addr v mem"
    and bl: "buf mem1 (live_addr v mem) = buf mem (pa_addr v)" and bo: "\<And>a. a \<noteq> vm_next mem \<Longrightarrow> buf mem1 a = buf mem a"
    and same: "pa_f32 v \<and> pa_contig v \<longrightarrow> mem1 = mem"
    using f by auto
  have i: "np_index (length (buf mem (pa_addr v))) lab = Some (nat lab)" using assms(3,4) by (simp add: np_index_def)
  obtain ses' mem' where s: "hard_delete_row env tick lab m ses mem1 = (Inr (4 * int (row_width (buf mem (pa_addr v)))), ses', mem')"
    using hard_delete_row_succeeds [OF at ok assms(3) _ assms(5-8)] assms(4) pa bl by auto
  from hard_delete_row_effect [OF at, of lab "nat lab" env tick m] i pa bl s
  have e: "vs_matrix ses' = vs_matrix ses" "\<forall>a. buf mem' a = (if a = live_addr v mem
          then (buf mem1 a)[nat lab := zero_row (row_width (buf mem1 a))] else buf mem1 a)" by auto
  have "vs_verify_zeroed lab ses' mem' = Inr True"
    using e pa bl i assms(3,4) by (simp add: vs_verify_zeroed_def)
  then show ?thesis using s e(2) bl bo same by (auto simp: live_addr_def)
qed

definition demo_mem :: vmem where
  "demo_mem = \<lparr>vm_bufs = [(0, [[1, 2], [3, 4], [5, 6]]), (1, [[7, 8]])], vm_next = 2\<rparr>"

definition demo_array :: py_array where
  "demo_array = \<lparr>pa_addr = 0, pa_f32 = True, pa_contig = True, pa_rank1 = False\<rparr>"

definition calm_env :: "nat penv" where
  "calm_env = demo_env\<lparr>pv_busy := \<lambda>_ _. None\<rparr>"

lemma demo_mem_ok: "mem_ok demo_array demo_mem" "buf demo_mem (pa_addr demo_array) = [[1, 2], [3, 4], [5, 6]]"
  "buf demo_mem 1 = [[7, 8]]" "vm_next demo_mem = 2" "live_addr demo_array demo_mem = 0"
  by (simp_all add: mem_ok_def buf_def demo_mem_def demo_array_def row_width_def dget_def live_addr_def)

abbreviation demo_session :: "vendor_session res \<times> vmem" where
  "demo_session \<equiv> from_numpy True demo_array (Some [[[1, 2]], [[0]], [[0, 1]]]) None demo_mem"

lemma demo_session_ok: "\<exists>ses. demo_session = (Inr ses, demo_mem)"
  by (simp add: from_numpy_def as_c_float32_matrix_def demo_array_def attach_numpy_to_proxy_def attach_index_def load_adjacency_def
      demo_mem_def buf_def dget_def row_width_def vp_view_def Let_def)

lemma erases_in_the_callers_buffer_witness:
  "\<exists>ses ses' mem'. demo_session = (Inr ses, demo_mem) \<and> hard_delete_row calm_env 0 1 16 ses demo_mem = (Inr 8, ses', mem')
    \<and> buf mem' 0 = [[1, 2], [0, 0], [5, 6]] \<and> buf mem' 1 = [[7, 8]] \<and> vs_verify_zeroed 1 ses' mem' = Inr True"
proof -
  obtain ses where s: "demo_session = (Inr ses, demo_mem)" using demo_session_ok by blast
  from erases_in_the_callers_buffer [OF s demo_mem_ok(1), of 1 16 calm_env 0] s demo_mem_ok show ?thesis
    by (auto simp: calm_env_def row_width_def zero_row_def numeral_2_eq_2)
qed

text \<open>
  a negative label erases another row and reports an error: numpy counts it from the end while the native index refuses it. For every
  label from minus the number of rows to -1, \<open>hard_delete_row\<close> of an attached session raises, in every environment, and the row at
  that distance from the end is zero, in the buffer the application holds.
\<close>

theorem negative_label_wipes_and_raises:
  assumes "attached ses mem" and "- int (length (buf mem (pa_addr (vs_matrix ses)))) \<le> lab" and "lab < 0"
  shows "\<exists>e ses' mem'. hard_delete_row v tick lab m ses mem = (Inl e, ses', mem')
    \<and> buf mem' (pa_addr (vs_matrix ses)) = (let rows = buf mem (pa_addr (vs_matrix ses)) in
         rows[nat (int (length rows) + lab) := zero_row (row_width rows)])"
proof -
  let ?rows = "buf mem (pa_addr (vs_matrix ses))"
  have "np_index (length ?rows) lab = Some (nat (int (length ?rows) + lab))" using assms(2,3) by (simp add: np_index_def)
  from hard_delete_row_effect [OF assms(1) this, of v tick m] assms(3) show ?thesis by (auto simp: Let_def)
qed

lemma negative_label_wipes_and_raises_witness:
  "\<exists>ses e ses' mem'. demo_session = (Inr ses, demo_mem) \<and> hard_delete_row calm_env 0 (-1) 16 ses demo_mem = (Inl e, ses', mem')
    \<and> buf mem' 0 = [[1, 2], [3, 4], [0, 0]]"
proof -
  obtain ses where s: "demo_session = (Inr ses, demo_mem)" using demo_session_ok by blast
  have f: "attached ses demo_mem" "pa_addr (vs_matrix ses) = 0"
    using from_numpy_session [OF s demo_mem_ok(1)] demo_mem_ok by auto
  have b: "buf demo_mem 0 = [[1, 2], [3, 4], [5, 6]]" using demo_mem_ok(2) by (simp add: demo_array_def)
  from negative_label_wipes_and_raises [OF f(1), of "-1" calm_env 0 16] s f(2) b show ?thesis
    by (auto simp: Let_def row_width_def zero_row_def numeral_2_eq_2)
qed

text \<open>
  a wipe in shared memory reaches every process: when one process creates a bank, a second opens it by name, the first writes a vector of
  the row's width and the second zeroes that row, then the second saw the vector in between and the first sees the zero row afterwards; every
  other row stays as it was when the bank was opened.
\<close>

theorem shared_wipe_reaches_every_process:
  assumes "bank_init name n d True os = (Inr b, os1)" and "bank_init name n d False os1 = (Inr c, os2)"
    and "np_index n lab = Some i" and "length vec = d"
  shows "\<exists>os3 os4. write_row lab vec b os2 = (Inr (), os3) \<and> bank_row os3 c i = vec
    \<and> bank_zero_row lab c os3 = (Inr (4 * int d), os4) \<and> bank_row os4 b i = zero_row d
    \<and> (\<forall>j<n. j \<noteq> i \<longrightarrow> bank_row os4 b j = bank_row os2 b j)"
proof -
  have o: "os2 = os1" "shares os2 b c" "vb_n b = n" "vb_d b = d" "vb_n c = n" "vb_d c = d" "\<not> vb_closed b" "\<not> vb_closed c"
    using opened_shares [OF assms(1,2)] by (auto simp: shares_def)
  have i: "i < n" by (rule np_index_less [OF assms(3)])
  let ?os3 = "set_row b i vec os2"
  note w = set_row_seen [OF o(2), of i vec]
  have s3: "shares ?os3 c b" by (rule shares_sym [OF w(1)]) (use i o assms(4) in simp_all)
  have r3: "bank_row ?os3 c j = (if j = i then vec else bank_row os2 b j)" if "j < n" for j
    using w(2) [of j] that i o assms(4) by simp
  have r4: "bank_row (set_row c i (zero_row d) ?os3) b j = (if j = i then zero_row d else bank_row ?os3 c j)" if "j < n" for j
    using set_row_seen(2) [OF s3, of i "zero_row d" j] that i o by simp
  show ?thesis
    using o i assms(3,4) r3 r4 by (intro exI [of _ ?os3] exI [of _ "set_row c i (zero_row d) ?os3"]) (simp add: write_row_def bank_zero_row_def)
qed

definition no_shm :: shm_os where
  "no_shm = \<lparr>so_names = [], so_segs = [], so_next = 0\<rparr>"

lemma shared_wipe_reaches_every_process_witness:
  "\<exists>b os1 c os2 os3 os4. bank_init ''bank'' 3 2 True no_shm = (Inr b, os1) \<and> bank_init ''bank'' 3 2 False os1 = (Inr c, os2)
    \<and> write_row 1 [7, 8] b os2 = (Inr (), os3) \<and> bank_row os3 c 1 = [7, 8]
    \<and> bank_zero_row 1 c os3 = (Inr 8, os4) \<and> bank_row os4 b 1 = [0, 0]"
proof -
  obtain b os1 where b: "bank_init ''bank'' 3 2 True no_shm = (Inr b, os1)" by (simp add: bank_init_def no_shm_def)
  then obtain c where c: "bank_init ''bank'' 3 2 False os1 = (Inr c, os1)"
    by (auto simp: bank_init_def no_shm_def dget_def dset_def)
  have i: "np_index 3 1 = Some 1" by (simp add: np_index_def)
  have v: "length [7, 8 :: f32] = 2" by simp
  show ?thesis
    using shared_wipe_reaches_every_process [OF b c i v] b c by (auto simp: zero_row_def numeral_2_eq_2)
qed

end
