(* ===== verification/NativeSearch.thy ===== *)
theory NativeSearch
  imports Ring "HOL-Library.Multiset"
begin

text \<open>
  The search of the native index: \<open>search_knn\<close> with \<open>greedy_update_locked\<close> and \<open>base_layer_search_locked\<close> of \<open>src/hnsw_helper.hpp\<close>, and its
  binding in \<open>src/healer.cpp\<close>. As in HnswIndex a call runs alone, and a lock timeout is an outcome that the environment chooses. The
  binding checks only that the query is not empty; a query that is shorter than a row is read beyond its end, which has no value here.
\<close>

section \<open>Definitions\<close>

record 'd search_hit =
  sh_node :: nat
  sh_distance :: 'd

text \<open>
  What the C++ library leaves open: which of several worst hits is the top of a priority queue, and the order of equal hits after \<open>std::sort\<close>.
\<close>

record 'd cpp_std =
  cs_top :: "'d search_hit list \<Rightarrow> 'd search_hit"
  cs_sort :: "'d search_hit list \<Rightarrow> 'd search_hit list"

definition std_ok :: "'d fp \<Rightarrow> 'd cpp_std \<Rightarrow> bool" where
  "std_ok f C \<longleftrightarrow>
    (\<forall>xs. xs \<noteq> [] \<longrightarrow> cs_top C xs \<in> set xs \<and> (\<forall>h\<in>set xs. \<not> fp_less f (sh_distance (cs_top C xs)) (sh_distance h)))
    \<and> (\<forall>xs. mset (cs_sort C xs) = mset xs \<and> sorted_wrt (\<lambda>a b. \<not> fp_less f (sh_distance b) (sh_distance a)) (cs_sort C xs))"

definition distance_query :: "'d fp \<Rightarrow> hnsw_index \<Rightarrow> f32 list \<Rightarrow> nat \<Rightarrow> 'd" where
  "distance_query f ix q n = fp_l2 f (take (hx_dim ix) q) (hx_rows ix ! n)"

text \<open>The loop moves to the first neighbour that is nearer; without one it stops.\<close>

partial_function (option) greedy_update :: "'d fp \<Rightarrow> hnsw_index \<Rightarrow> f32 list \<Rightarrow> nat \<Rightarrow> nat \<Rightarrow> nat option" where
  "greedy_update f ix q L cur =
    (case find (\<lambda>nb. nb < num_elements ix \<and> fp_less f (distance_query f ix q nb) (distance_query f ix q cur)) (nbrs_at (hx_adj ix) cur L) of
       None \<Rightarrow> Some cur
     | Some nb \<Rightarrow> greedy_update f ix q L nb)"

text \<open>From the top layer down to layer 1.\<close>

fun greedy_descend :: "'d fp \<Rightarrow> hnsw_index \<Rightarrow> f32 list \<Rightarrow> nat \<Rightarrow> nat \<Rightarrow> nat option" where
  "greedy_descend f ix q 0 cur = Some cur"
| "greedy_descend f ix q (Suc L) cur =
    (case greedy_update f ix q (Suc L) cur of None \<Rightarrow> None | Some c \<Rightarrow> greedy_descend f ix q L c)"

record 'd base_state =
  bs_best :: "'d search_hit list"
  bs_visited :: "nat set"
  bs_frontier :: "nat list"

definition hit_of :: "'d fp \<Rightarrow> hnsw_index \<Rightarrow> f32 list \<Rightarrow> nat \<Rightarrow> 'd search_hit" where
  "hit_of f ix q n = \<lparr>sh_node = n, sh_distance = distance_query f ix q n\<rparr>"

definition visit_neighbor :: "'d fp \<Rightarrow> 'd cpp_std \<Rightarrow> hnsw_index \<Rightarrow> f32 list \<Rightarrow> nat \<Rightarrow> 'd base_state \<Rightarrow> nat \<Rightarrow> 'd base_state" where
  "visit_neighbor f C ix q ef s nb =
    (if num_elements ix \<le> nb then s
     else if nb \<in> bs_visited s then s
     else
       let s1 = s\<lparr>bs_visited := insert nb (bs_visited s)\<rparr>;
           h = hit_of f ix q nb
       in if length (bs_best s) < ef \<or> fp_less f (sh_distance h) (sh_distance (cs_top C (bs_best s)))
          then let best1 = bs_best s @ [h]
               in s1\<lparr>bs_best := (if ef < length best1 then remove1 (cs_top C best1) best1 else best1),
                     bs_frontier := bs_frontier s @ [nb]\<rparr>
          else s1)"

text \<open>Every turn takes a node from the frontier; a node that enters it has just been visited for the first time.\<close>

definition unvisited :: "hnsw_index \<Rightarrow> 'd base_state \<Rightarrow> nat" where
  "unvisited ix s = card ({..<num_elements ix} - bs_visited s)"

lemma visit_measure:
  "unvisited ix (visit_neighbor f C ix q ef s nb) + length (bs_frontier (visit_neighbor f C ix q ef s nb)) \<le> unvisited ix s + length (bs_frontier s)"
proof -
  have "Suc (card ({..<num_elements ix} - insert nb (bs_visited s))) = card ({..<num_elements ix} - bs_visited s)"
    if "nb < num_elements ix" "nb \<notin> bs_visited s"
  proof -
    have "{..<num_elements ix} - insert nb (bs_visited s) = ({..<num_elements ix} - bs_visited s) - {nb}" by blast
    then show ?thesis using that by (simp only:) (rule card_Suc_Diff1; simp)
  qed
  then show ?thesis by (auto simp: visit_neighbor_def unvisited_def Let_def)
qed

lemma visits_measure:
  "unvisited ix (foldl (visit_neighbor f C ix q ef) s nbs) + length (bs_frontier (foldl (visit_neighbor f C ix q ef) s nbs))
    \<le> unvisited ix s + length (bs_frontier s)"
proof (induction nbs arbitrary: s)
  case (Cons nb nbs)
  from visit_measure [of ix f C q ef s nb] Cons.IH [of "visit_neighbor f C ix q ef s nb"] show ?case by auto
qed simp

function base_search :: "'d fp \<Rightarrow> 'd cpp_std \<Rightarrow> hnsw_index \<Rightarrow> f32 list \<Rightarrow> nat \<Rightarrow> 'd base_state \<Rightarrow> 'd base_state" where
  "base_search f C ix q ef s =
    (case bs_frontier s of
       [] \<Rightarrow> s
     | u # rest \<Rightarrow> base_search f C ix q ef (foldl (visit_neighbor f C ix q ef) (s\<lparr>bs_frontier := rest\<rparr>) (nbrs_at (hx_adj ix) u 0)))"
  by pat_completeness auto
termination
proof (relation "measure (\<lambda>(f, C, ix, q, ef, s). unvisited ix s + length (bs_frontier s))")
  fix f :: "'d fp" and C :: "'d cpp_std" and ix q ef and s :: "'d base_state" and u rest
  assume "bs_frontier s = u # rest"
  then show "((f, C, ix, q, ef, foldl (visit_neighbor f C ix q ef) (s\<lparr>bs_frontier := rest\<rparr>) (nbrs_at (hx_adj ix) u 0)), f, C, ix, q, ef, s)
      \<in> measure (\<lambda>(f, C, ix, q, ef, s). unvisited ix s + length (bs_frontier s))"
    using visits_measure [of ix f C q ef "s\<lparr>bs_frontier := rest\<rparr>" "nbrs_at (hx_adj ix) u 0"] by (simp add: unvisited_def)
qed simp

declare base_search.simps [simp del]

text \<open>The result: the kept hits in ascending order, at most \<open>k\<close>.\<close>

definition base_layer_search :: "'d fp \<Rightarrow> 'd cpp_std \<Rightarrow> hnsw_index \<Rightarrow> f32 list \<Rightarrow> nat \<Rightarrow> nat \<Rightarrow> 'd search_hit list" where
  "base_layer_search f C ix q entry k =
    take k (cs_sort C (bs_best (base_search f C ix q (max k 16)
      \<lparr>bs_best = [hit_of f ix q entry], bs_visited = {entry}, bs_frontier = [entry]\<rparr>)))"

definition search_start :: "hnsw_index \<Rightarrow> int \<Rightarrow> nat" where
  "search_start ix entry =
    (let cur = (if entry < 0 then hx_entry ix else entry)
     in if cur < 0 \<or> int (num_elements ix) \<le> cur then 0 else nat cur)"

definition top_layer :: "hnsw_index \<Rightarrow> nat \<Rightarrow> nat" where
  "top_layer ix c = (if c < length (hx_adj ix) \<and> hx_adj ix ! c \<noteq> [] then length (hx_adj ix ! c) - 1 else 0)"

text \<open>\<open>None\<close> would be a descent that never ends; \<open>busy\<close> is a lock that is not released in time.\<close>

definition search_knn ::
  "'d fp \<Rightarrow> 'd cpp_std \<Rightarrow> bool \<Rightarrow> hnsw_index \<Rightarrow> f32 list \<Rightarrow> int \<Rightarrow> int \<Rightarrow> 'd search_hit list res option" where
  "search_knn f C busy ix q k entry =
    (if k < 0 \<or> 2 ^ 64 \<le> k \<or> entry < - (2 ^ 63) \<or> 2 ^ 63 \<le> entry then Some (Inl (TypeError ''incompatible function arguments''))
     else if q = [] then Some (Inl (ValueError ''search_knn: empty query''))
     else if k = 0 then Some (Inr [])
     else if \<not> is_loaded ix then Some (Inl (RuntimeError ''search_knn: no index loaded; call load_index first''))
     else if busy then Some (Inl (LockContentionError ''stripe lock timeout''))
     else if length q < hx_dim ix then Some (Inl Unmodelled)
     else let c0 = search_start ix entry in
       case greedy_descend f ix q (top_layer ix c0) c0 of
         None \<Rightarrow> None
       | Some c \<Rightarrow> Some (Inr (base_layer_search f C ix q c (nat k))))"

section \<open>Nodes that a search can see\<close>

text \<open>A set of nodes that no link leaves: a search that starts in it stays in it.\<close>

definition links_closed :: "hnsw_index \<Rightarrow> nat set \<Rightarrow> bool" where
  "links_closed ix P \<longleftrightarrow> (\<forall>u\<in>P. \<forall>L. \<forall>v\<in>set (nbrs_at (hx_adj ix) u L). v < num_elements ix \<longrightarrow> v \<in> P)"

lemma find_SomeD: "find P xs = Some x \<Longrightarrow> x \<in> set xs \<and> P x"
  by (induction xs) (auto split: if_splits)

lemma greedy_update_closed:
  assumes "greedy_update f ix q L c = Some d" and "c < num_elements ix" and "links_closed ix P" and "c \<in> P"
  shows "d < num_elements ix \<and> d \<in> P"
proof -
  have "c < num_elements ix \<longrightarrow> c \<in> P \<longrightarrow> d < num_elements ix \<and> d \<in> P"
  proof (rule greedy_update.raw_induct [OF _ assms(1), where P = "\<lambda>f i q L c d. i = ix \<longrightarrow> c < num_elements i \<longrightarrow> c \<in> P \<longrightarrow> d < num_elements i \<and> d \<in> P",
        THEN mp, OF _ refl])
    fix g f' i q' L' c' d'
    assume step: "\<And>f i q L c d. g f i q L c = Some d \<Longrightarrow> i = ix \<longrightarrow> c < num_elements i \<longrightarrow> c \<in> P \<longrightarrow> d < num_elements i \<and> d \<in> P"
      and r: "(case find (\<lambda>nb. nb < num_elements i \<and> fp_less f' (distance_query f' i q' nb) (distance_query f' i q' c')) (nbrs_at (hx_adj i) c' L') of
          None \<Rightarrow> Some c' | Some nb \<Rightarrow> g f' i q' L' nb) = Some (d' :: nat)"
    show "i = ix \<longrightarrow> c' < num_elements i \<longrightarrow> c' \<in> P \<longrightarrow> d' < num_elements i \<and> d' \<in> P"
      using r step assms(3) by (auto simp: links_closed_def dest!: find_SomeD split: option.splits)
  qed
  then show ?thesis using assms(2,4) by blast
qed

lemma greedy_descend_closed:
  "greedy_descend f ix q L c = Some d \<Longrightarrow> c < num_elements ix \<Longrightarrow> links_closed ix P \<Longrightarrow> c \<in> P \<Longrightarrow> d < num_elements ix \<and> d \<in> P"
  by (induction L arbitrary: c) (auto dest: greedy_update_closed split: option.splits)

text \<open>What holds of the hits and of the search state at every turn.\<close>

definition hits_ok :: "'d fp \<Rightarrow> hnsw_index \<Rightarrow> f32 list \<Rightarrow> nat set \<Rightarrow> 'd search_hit list \<Rightarrow> bool" where
  "hits_ok f ix q P hs \<longleftrightarrow> distinct (map sh_node hs)
    \<and> (\<forall>h\<in>set hs. h = hit_of f ix q (sh_node h) \<and> sh_node h < num_elements ix \<and> sh_node h \<in> P)"

definition base_inv :: "'d fp \<Rightarrow> hnsw_index \<Rightarrow> f32 list \<Rightarrow> nat set \<Rightarrow> 'd base_state \<Rightarrow> bool" where
  "base_inv f ix q P s \<longleftrightarrow> bs_best s \<noteq> [] \<and> hits_ok f ix q P (bs_best s) \<and> sh_node ` set (bs_best s) \<subseteq> bs_visited s
    \<and> set (bs_frontier s) \<subseteq> P"

lemma sh_node_hit [simp]: "sh_node (hit_of f ix q n) = n" "sh_distance (hit_of f ix q n) = distance_query f ix q n"
  by (simp_all add: hit_of_def)

lemma hits_ok_add: "hits_ok f ix q P hs \<Longrightarrow> n \<notin> sh_node ` set hs \<Longrightarrow> n < num_elements ix \<Longrightarrow> n \<in> P \<Longrightarrow> hits_ok f ix q P (hs @ [hit_of f ix q n])"
  by (auto simp: hits_ok_def)

lemma hits_ok_sub: "hits_ok f ix q P hs \<Longrightarrow> mset hs' \<subseteq># mset hs \<Longrightarrow> hits_ok f ix q P hs'"
proof -
  assume h: "hits_ok f ix q P hs" and m: "mset hs' \<subseteq># mset hs"
  let ?xs = "map sh_node hs'" and ?ys = "map sh_node hs"
  have "mset ?xs \<subseteq># mset ?ys" using m by (simp add: image_mset_subseteq_mono)
  then have le: "count (mset ?xs) a \<le> count (mset ?ys) a" for a by (rule mset_subset_eq_count)
  have one: "count (mset ?ys) a \<le> 1" for a
    using h distinct_count_atmost_1 [of ?ys] unfolding hits_ok_def by (metis le_numeral_extra(4) zero_le_one)
  have "count (mset ?xs) a = (if a \<in> set ?xs then 1 else 0)" for a
  proof (cases "a \<in> set ?xs")
    case True
    then have "0 < count (mset ?xs) a" by (simp only: count_greater_zero_iff set_mset_mset)
    with le [of a] one [of a] have "count (mset ?xs) a = 1" by linarith
    then show ?thesis using True by (simp only: if_True)
  next
    case False
    then have "a \<notin># mset ?xs" by (simp only: set_mset_mset not_False_eq_True)
    then show ?thesis using False by (simp only: not_in_iff if_False)
  qed
  then have "distinct ?xs" unfolding distinct_count_atmost_1 by blast
  then show ?thesis using h set_mset_mono [OF m] by (auto simp: hits_ok_def)
qed

lemma visit_inv:
  assumes "base_inv f ix q P s" and "nb < num_elements ix \<longrightarrow> nb \<in> P" and "1 < ef"
  shows "base_inv f ix q P (visit_neighbor f C ix q ef s nb)"
proof (cases "nb < num_elements ix \<and> nb \<notin> bs_visited s")
  case True
  let ?b = "bs_best s @ [hit_of f ix q nb]"
  let ?r = "if ef < length ?b then remove1 (cs_top C ?b) ?b else ?b"
  have b: "hits_ok f ix q P ?b" using assms(1,2) True by (intro hits_ok_add) (auto simp: base_inv_def)
  then have r: "hits_ok f ix q P ?r" by (rule hits_ok_sub) (simp add: diff_subset_eq_self)
  have ne: "?r \<noteq> []" using assms(3) length_remove1 [of "cs_top C ?b" ?b] by (auto split: if_splits)
  have sub: "set ?r \<subseteq> set ?b" using set_remove1_subset by (auto split: if_splits dest: subsetD [OF set_remove1_subset])
  have "sh_node ` set ?b \<subseteq> insert nb (bs_visited s)" using assms(1) by (auto simp: base_inv_def)
  with image_mono [OF sub, of sh_node] have "sh_node ` set ?r \<subseteq> insert nb (bs_visited s)" by (rule order_trans)
  then show ?thesis
    using assms(1,2) True r ne by (auto simp: base_inv_def visit_neighbor_def Let_def simp del: remove1_append)
qed (use assms(1) in \<open>auto simp: visit_neighbor_def\<close>)

lemma visits_inv:
  "base_inv f ix q P s \<Longrightarrow> \<forall>nb\<in>set nbs. nb < num_elements ix \<longrightarrow> nb \<in> P \<Longrightarrow> 1 < ef \<Longrightarrow> base_inv f ix q P (foldl (visit_neighbor f C ix q ef) s nbs)"
proof (induction nbs arbitrary: s)
  case (Cons nb nbs)
  from visit_inv [OF Cons.prems(1) _ Cons.prems(3), of nb C] Cons.prems(2) Cons.IH Cons.prems(3) show ?case by simp
qed simp

lemma base_search_inv:
  "links_closed ix P \<Longrightarrow> 1 < ef \<Longrightarrow> base_inv f ix q P s \<Longrightarrow> base_inv f ix q P (base_search f C ix q ef s)"
proof (induction f C ix q ef s rule: base_search.induct)
  case (1 f C ix q ef s)
  show ?case
  proof (cases "bs_frontier s")
    case Nil
    then show ?thesis using 1 by (simp add: base_search.simps)
  next
    case (Cons u rest)
    have "base_inv f ix q P (s\<lparr>bs_frontier := rest\<rparr>)" "u \<in> P" using 1(4) Cons by (auto simp: base_inv_def)
    then show ?thesis
      using 1(1) [OF Cons] 1(2,3) visits_inv [of f ix q P "s\<lparr>bs_frontier := rest\<rparr>" "nbrs_at (hx_adj ix) u 0" ef C] Cons
      by (subst base_search.simps) (auto simp: links_closed_def)
  qed
qed

section \<open>The descent ends\<close>

text \<open>The comparison of distances is a strict order; that of IEEE doubles is one, also with NaN.\<close>

definition fp_order :: "'d fp \<Rightarrow> bool" where
  "fp_order f \<longleftrightarrow> (\<forall>a. \<not> fp_less f a a) \<and> (\<forall>a b c. fp_less f a b \<longrightarrow> fp_less f b c \<longrightarrow> fp_less f a c)"

lemma greedy_update_ends: "fp_order f \<Longrightarrow> \<exists>d. greedy_update f ix q L c = Some d"
proof (induction "card {n. n < num_elements ix \<and> fp_less f (distance_query f ix q n) (distance_query f ix q c)}" arbitrary: c rule: less_induct)
  case less
  let ?near = "\<lambda>c. {n. n < num_elements ix \<and> fp_less f (distance_query f ix q n) (distance_query f ix q c)}"
  show ?case
  proof (cases "find (\<lambda>nb. nb < num_elements ix \<and> fp_less f (distance_query f ix q nb) (distance_query f ix q c)) (nbrs_at (hx_adj ix) c L)")
    case None
    then show ?thesis by (simp add: greedy_update.simps)
  next
    case (Some nb)
    then have nb: "nb \<in> ?near c" by (auto dest: find_SomeD)
    have tr: "fp_less f a (distance_query f ix q nb) \<Longrightarrow> fp_less f a (distance_query f ix q c)" for a
      using nb less.prems unfolding fp_order_def by blast
    moreover have "nb \<notin> ?near nb" using less.prems by (simp add: fp_order_def)
    ultimately have "?near nb \<subset> ?near c" using nb by blast
    then have "card (?near nb) < card (?near c)" by (intro psubset_card_mono) simp_all
    from less.hyps [OF this less.prems] show ?thesis using Some by (subst greedy_update.simps) simp
  qed
qed

lemma greedy_descend_ends: "fp_order f \<Longrightarrow> \<exists>d. greedy_descend f ix q L c = Some d"
proof (induction L arbitrary: c)
  case (Suc L)
  obtain d where "greedy_update f ix q (Suc L) c = Some d" using greedy_update_ends [OF Suc.prems] by blast
  then show ?case using Suc.IH [OF Suc.prems, of d] by simp
qed simp

section \<open>What a search returns\<close>

lemma search_start_bound: "is_loaded ix \<Longrightarrow> search_start ix e < num_elements ix"
  by (auto simp: search_start_def Let_def is_loaded_def num_elements_def)

lemma base_layer_ok:
  assumes "std_ok f C" and "links_closed ix P" and "c < num_elements ix" and "c \<in> P" and "0 < k"
  shows "hits_ok f ix q P (base_layer_search f C ix q c k) \<and> length (base_layer_search f C ix q c k) \<le> k
    \<and> base_layer_search f C ix q c k \<noteq> []
    \<and> sorted_wrt (\<lambda>a b. \<not> fp_less f (sh_distance b) (sh_distance a)) (base_layer_search f C ix q c k)"
proof -
  let ?s = "base_search f C ix q (max k 16) \<lparr>bs_best = [hit_of f ix q c], bs_visited = {c}, bs_frontier = [c]\<rparr>"
  have "base_inv f ix q P ?s"
    by (rule base_search_inv [OF assms(2)]) (use assms(3,4) in \<open>simp_all add: base_inv_def hits_ok_def\<close>)
  then have b: "bs_best ?s \<noteq> []" "hits_ok f ix q P (bs_best ?s)" by (simp_all add: base_inv_def)
  let ?o = "cs_sort C (bs_best ?s)"
  have m: "mset ?o = mset (bs_best ?s)" and so: "sorted_wrt (\<lambda>a b. \<not> fp_less f (sh_distance b) (sh_distance a)) ?o"
    using assms(1) by (simp_all add: std_ok_def)
  have "mset (take k ?o) \<subseteq># mset (bs_best ?s)"
    unfolding m [symmetric] by (metis append_take_drop_id mset_append mset_subset_eq_add_left)
  then have "hits_ok f ix q P (take k ?o)" by (rule hits_ok_sub [OF b(2)])
  moreover have "?o \<noteq> []" using m b(1) by (metis mset_zero_iff)
  ultimately show ?thesis using so assms(5) by (simp add: base_layer_search_def sorted_wrt_take)
qed

text \<open>A search that returns without error, seen from its start.\<close>

lemma search_knn_hits:
  assumes "search_knn f C busy ix q k e = Some (Inr hs)" and "std_ok f C" and "links_closed ix P" and "search_start ix e \<in> P"
  shows "hits_ok f ix q P hs \<and> int (length hs) \<le> k \<and> sorted_wrt (\<lambda>a b. \<not> fp_less f (sh_distance b) (sh_distance a)) hs
    \<and> (0 < k \<longrightarrow> hs \<noteq> [])"
proof (cases "k = 0")
  case True
  then show ?thesis using assms(1) by (auto simp: search_knn_def hits_ok_def split: if_splits)
next
  case False
  then obtain c where c: "greedy_descend f ix q (top_layer ix (search_start ix e)) (search_start ix e) = Some c"
    and hs: "hs = base_layer_search f C ix q c (nat k)" and k: "0 < k" and ld: "is_loaded ix"
    using assms(1) by (auto simp: search_knn_def Let_def split: if_splits option.splits)
  have "c < num_elements ix \<and> c \<in> P" by (rule greedy_descend_closed [OF c search_start_bound [OF ld] assms(3,4)])
  then show ?thesis using base_layer_ok [OF assms(2,3), of c "nat k" q] k unfolding hs by (simp add: le_nat_iff)
qed

section \<open>Links after a repair\<close>

definition unlisted :: "nat \<Rightarrow> nat list list list \<Rightarrow> bool" where
  "unlisted w adj \<longleftrightarrow> (\<forall>v L. w \<notin> set (nbrs_at adj v L))"

definition links_within :: "nat \<Rightarrow> nat list list list \<Rightarrow> nat list list list \<Rightarrow> bool" where
  "links_within w a b \<longleftrightarrow> (\<forall>L. set (nbrs_at b w L) \<subseteq> set (nbrs_at a w L))"

lemma links_within_trans: "links_within w a b \<Longrightarrow> links_within w b c \<Longrightarrow> links_within w a c"
  unfolding links_within_def by blast

lemma grows_spares: "grows m Q a b \<Longrightarrow> w \<notin> Q \<Longrightarrow> unlisted w a \<Longrightarrow> unlisted w b \<and> links_within w a b"
  unfolding grows_def unlisted_def links_within_def by (fastforce split: if_splits)

lemma heal_layers_spare:
  assumes "length (hs_adj h) = length rows" "q < length rows" "\<forall>v\<in>set region. v < length rows" and "unlisted w (hs_adj h)"
  shows "unlisted w (hs_adj (foldl (heal_layer f rows q region mm) h [0..<n]))
    \<and> links_within w (hs_adj h) (hs_adj (foldl (heal_layer f rows q region mm) h [0..<n]))"
proof (induction n)
  case 0
  then show ?case using assms(4) by (simp add: links_within_def)
next
  case (Suc n)
  let ?h = "foldl (heal_layer f rows q region mm) h [0..<n]"
  have "grows (nat mm) {u. u < length rows \<and> u \<noteq> q} (hs_adj h) (hs_adj ?h)"
    using heal_layers_ok [OF assms(1-3), where mm = mm and f = f and n = n] by simp
  then have len: "length (hs_adj ?h) = length rows" using grows_length assms(1) by metis
  have g: "grows (nat mm) {u \<in> set (nbrs_at (hs_adj ?h) q n). u < length rows \<and> u \<noteq> q} (hs_adj ?h) (hs_adj (heal_layer f rows q region mm ?h n))"
    using heal_layer_ok [OF len assms(2,3), where mm = mm and f = f and L = n] by blast
  show ?case
    using grows_spares [OF g, of w] Suc.IH by (auto intro: links_within_trans simp: unlisted_def)
qed

text \<open>
  What \<open>erase_node\<close> does to the links: nobody that did not list the node lists it afterwards; a node that nobody lists stays so and gains no links;
  the entry point moves only if it was erased.
\<close>

definition entry_after :: "nat \<Rightarrow> nat \<Rightarrow> int \<Rightarrow> int" where
  "entry_after N q e = (if e = int q then (if q \<noteq> 0 then 0 else if 1 < N then 1 else -1) else e)"

lemma heal_graph_links:
  assumes ok: "index_ok ix" and q: "ensure_node ix node = Inr q" and h: "heal_graph_structure f ix node m = Inr (r, a, ix')"
  shows "(\<forall>v L. q \<in> set (nbrs_at (hx_adj ix') v L) \<longrightarrow> v \<noteq> q \<and> q \<in> set (nbrs_at (hx_adj ix) v L))
    \<and> (\<forall>w. w \<noteq> q \<longrightarrow> unlisted w (hx_adj ix) \<longrightarrow> unlisted w (hx_adj ix') \<and> links_within w (hx_adj ix) (hx_adj ix'))
    \<and> hx_entry ix' = entry_after (num_elements ix) q (hx_entry ix)"
proof -
  let ?N = "length (hx_rows ix)" and ?adj = "hx_adj ix"
  define region where "region = collect_heal_region ?N ?adj q"
  define layers where "layers = foldl max 0 (map (\<lambda>n. length (?adj ! n)) (q # region))"
  define h0 where "h0 = \<lparr>hs_adj = ?adj, hs_removed = 0, hs_added = 0\<rparr>"
  define hh where "hh = foldl (heal_layer f (hx_rows ix) q region m) h0 [0..<layers]"
  have qN: "q < ?N" "int q = node" using q by (auto simp: ensure_node_def num_elements_def is_loaded_def split: if_splits)
  have len: "length ?adj = ?N" using ok by (simp add: index_ok_def)
  have reg: "\<forall>v\<in>set region. v < ?N" unfolding region_def using qN region_bounds by blast
  have l0: "length (hs_adj h0) = ?N" using len by (simp add: h0_def)
  have out: "hx_adj ix' = (hs_adj hh)[q := map (\<lambda>_. []) (hs_adj hh ! q)]" "hx_entry ix' = entry_after (num_elements ix) q (hx_entry ix)"
    using h q qN(2) by (auto simp: heal_graph_structure_def Let_def region_def [symmetric] layers_def [symmetric, simplified]
        h0_def [symmetric] hh_def [symmetric] entry_after_def num_elements_def split: if_splits)
  have g: "grows (nat m) {u. u < ?N \<and> u \<noteq> q} ?adj (hs_adj hh)"
    using heal_layers_ok [OF l0 qN(1) reg, where mm = m and f = f and n = layers] by (simp add: hh_def h0_def)
  have lh: "length (hs_adj hh) = ?N" using grows_length [OF g] len by simp
  have nb: "nbrs_at (hx_adj ix') v L = (if v = q then [] else nbrs_at (hs_adj hh) v L)" for v L
    unfolding out(1) using wipe_lists lh qN by simp
  have "q \<in> set (nbrs_at ?adj v L)" if "q \<in> set (nbrs_at (hs_adj hh) v L)" for v L
  proof -
    have "set (nbrs_at (hs_adj hh) v L) \<subseteq> set (nbrs_at ?adj v L) \<union> {u. u < ?N \<and> u \<noteq> q}"
      using g unfolding grows_def by (fastforce split: if_splits)
    then show ?thesis using that by blast
  qed
  moreover have "unlisted w (hx_adj ix') \<and> links_within w ?adj (hx_adj ix')" if "w \<noteq> q" "unlisted w ?adj" for w
  proof -
    have "unlisted w (hs_adj h0)" using that by (simp add: h0_def)
    from heal_layers_spare [OF l0 qN(1) reg this, where mm = m and f = f and n = layers] show ?thesis
      by (simp add: unlisted_def links_within_def nb that(1) hh_def [symmetric]) (simp add: h0_def)
  qed
  ultimately show ?thesis using out(2) by (auto simp: nb split: if_splits)
qed

text \<open>Everybody who lists the node is in its two-hop region; then nobody lists it after the erase.\<close>

definition in_links_near :: "hnsw_index \<Rightarrow> nat \<Rightarrow> bool" where
  "in_links_near ix q \<longleftrightarrow> (\<forall>v L. q \<in> set (nbrs_at (hx_adj ix) v L) \<longrightarrow> v \<in> set (collect_heal_region (num_elements ix) (hx_adj ix) q))"

lemma erase_node_links:
  assumes ok: "index_ok ix" and q: "q < num_elements ix" "int q < 2 ^ 63" and m: "0 < m" "m < 2 ^ 31"
  shows "\<exists>r ix'. erase_node f ms (int q) m ix = (Inr r, ix') \<and> er_success r \<and> index_ok ix' \<and> num_elements ix' = num_elements ix
    \<and> hx_dim ix' = hx_dim ix \<and> hx_rows ix' = (hx_rows ix)[q := zero_row (hx_dim ix)]
    \<and> hx_entry ix' = entry_after (num_elements ix) q (hx_entry ix) \<and> (\<forall>L. nbrs_at (hx_adj ix') q L = [])
    \<and> (in_links_near ix q \<longrightarrow> unlisted q (hx_adj ix'))
    \<and> (\<forall>w. w \<noteq> q \<longrightarrow> unlisted w (hx_adj ix) \<longrightarrow> unlisted w (hx_adj ix') \<and> links_within w (hx_adj ix) (hx_adj ix'))"
proof -
  have ld: "is_loaded ix" using q(1) by (auto simp: is_loaded_def num_elements_def)
  have en: "ensure_node ix (int q) = Inr q" using ensure_node_in [OF ld, of "int q"] q(1) by simp
  obtain ix1 where w: "overwrite_vector ix (int q) = Inr ix1" "index_ok ix1" "ensure_node ix1 (int q) = Inr q"
    "hx_rows ix1 = (hx_rows ix)[q := zero_row (hx_dim ix)]" "hx_dim ix1 = hx_dim ix" "hx_adj ix1 = hx_adj ix"
    using overwrite_ok [OF ok en] by blast
  have e1: "hx_entry ix1 = hx_entry ix" using w(1) by (auto simp: overwrite_vector_def en)
  obtain r a ix' where h: "heal_graph_structure f ix1 (int q) m = Inr (r, a, ix')"
    "hx_rows ix' = hx_rows ix1" "hx_dim ix' = hx_dim ix1" "index_ok ix'" "cut_out q ix1 ix'"
    using heal_graph_ok [OF w(2,3) m(1), of f 0] by blast
  have n: "num_elements ix1 = num_elements ix" using w(4) by (simp add: num_elements_def)
  note l = heal_graph_links [OF w(2,3) h(1), unfolded n w(6) e1]
  have "unlisted q (hx_adj ix')" if near: "in_links_near ix q"
  proof -
    have "q \<notin> set (nbrs_at (hx_adj ix') v L)" for v L
    proof
      assume i: "q \<in> set (nbrs_at (hx_adj ix') v L)"
      then have "q \<in> set (nbrs_at (hx_adj ix) v L)" using l by blast
      then have "v \<in> set (collect_heal_region (length (hx_rows ix1)) (hx_adj ix1) q)"
        unfolding n [unfolded num_elements_def [of ix1]] w(6) using near unfolding in_links_near_def by blast
      then show False using h(5) i by (simp add: cut_out_def)
    qed
    then show ?thesis by (simp add: unlisted_def)
  qed
  moreover have "erase_node f ms (int q) m ix = (Inr \<lparr>er_success = True, er_node_id = int q, er_bytes_wiped = int (hx_dim ix * 4),
      er_message = ''vector zeroed; graph healed (removed='' @ int_str r @ '', added='' @ int_str a @ '', '' @ ms @ '' ms)''\<rparr>, ix')"
    using w(1) h(1) q(2) m by (simp add: erase_node_def)
  ultimately show ?thesis using h w(4,5) l n by (simp add: num_elements_def cut_out_def)
qed

section \<open>The ring\<close>

definition ring_nbrs :: "nat \<Rightarrow> nat \<Rightarrow> nat list" where
  "ring_nbrs n i = map nat [(int i - 1) mod int n, (int i + 1) mod int n, (int i + 2) mod int n]"

lemma set_neighbors_links:
  assumes "set_neighbors ix (int i) 0 nbrs = Inr ix'" and "i < length (hx_adj ix)"
  shows "nbrs_at (hx_adj ix') v L = (if v = i \<and> L = 0 then map nat nbrs else nbrs_at (hx_adj ix) v L)
    \<and> length (hx_adj ix') = length (hx_adj ix) \<and> hx_entry ix' = hx_entry ix"
proof -
  have "hx_adj ix' = put_nbrs i 0 (map nat nbrs) (ensure_layer_slot i 0 (hx_adj ix))" "hx_entry ix' = hx_entry ix"
    using assms(1) by (auto simp: set_neighbors_def ensure_node_def split: sum.splits if_splits)
  then show ?thesis using ensure_slot [OF assms(2), of 0] assms(2) by (simp add: nbrs_at_put)
qed

lemma link_ring_links:
  "link_ring n is ix = (Inr (), ix') \<Longrightarrow> set is \<subseteq> {..<length (hx_adj ix)} \<Longrightarrow>
    nbrs_at (hx_adj ix') v L = (if v \<in> set is \<and> L = 0 then ring_nbrs n v else nbrs_at (hx_adj ix) v L) \<and> hx_entry ix' = hx_entry ix"
proof (induction "is" arbitrary: ix)
  case (Cons i "is")
  then obtain ix1 where s: "set_neighbors ix (int i) 0 [(int i - 1) mod int n, (int i + 1) mod int n, (int i + 2) mod int n] = Inr ix1"
    and r: "link_ring n is ix1 = (Inr (), ix')" by (auto split: sum.splits)
  have i: "i < length (hx_adj ix)" using Cons.prems(2) by simp
  note k = set_neighbors_links [OF s i]
  have sub: "set is \<subseteq> {..<length (hx_adj ix1)}" using Cons.prems(2) k by simp
  show ?case using Cons.IH [OF r sub] k by (auto simp: ring_nbrs_def)
qed simp

lemma load_ring_links:
  assumes "load_ring rows d ix0 = (Inr (), ix)"
  shows "nbrs_at (hx_adj ix) v L = (if v < length rows \<and> L = 0 then ring_nbrs (length rows) v else [])
    \<and> hx_entry ix = (if rows = [] then -1 else 0)"
proof -
  obtain ix1 where l: "load_index rows d = Inr ix1" and r: "link_ring (length rows) [0..<length rows] ix1 = (Inr (), ix)"
    using assms by (auto simp: load_ring_def split: sum.splits)
  have a: "hx_adj ix1 = replicate (length rows) []" "hx_entry ix1 = (if rows = [] then -1 else 0)"
    using l by (auto simp: load_index_def split: if_splits)
  have "nbrs_at (hx_adj ix1) v L = []" by (cases "v < length rows") (simp_all add: a(1) nbrs_at_def)
  moreover have "set [0..<length rows] \<subseteq> {..<length (hx_adj ix1)}" using a(1) by auto
  ultimately show ?thesis using link_ring_links [OF r, of v L] a(2) by auto
qed

lemma region_one: "v \<in> set (nbrs_at adj q L) \<Longrightarrow> v < N \<Longrightarrow> v \<in> set (collect_heal_region N adj q)"
  by (auto simp: collect_heal_region_def Let_def set_foldl_add_unique nbrs_at_def split: if_splits intro!: bexI [of _ "adj ! q ! L"])

lemma foldl_add_unique_hd: "us \<noteq> [] \<Longrightarrow> foldl (add_unique N) us xs \<noteq> [] \<and> hd (foldl (add_unique N) us xs) = hd us"
  by (induction xs arbitrary: us) (auto simp: add_unique_def)

lemma nbrs_concat: "v \<in> set (nbrs_at adj q L) \<Longrightarrow> q < length adj \<and> v \<in> set (concat (adj ! q))"
  by (force simp: nbrs_at_def split: if_splits)

lemma region_two:
  assumes "u \<in> set (nbrs_at adj q L)" "u < N" "u \<noteq> q" and "v \<in> set (nbrs_at adj u M)" "v < N"
  shows "v \<in> set (collect_heal_region N adj q)"
proof -
  let ?one = "foldl (add_unique N) [q] (concat (adj ! q))"
  have "u \<in> set ?one" using nbrs_concat [OF assms(1)] assms(2) by (simp only: set_foldl_add_unique) simp
  moreover have "?one \<noteq> []" "hd ?one = q" using foldl_add_unique_hd [of "[q]" N] by auto
  ultimately have "u \<in> set (tl ?one)" using assms(3) by (cases ?one) auto
  then have "v \<in> set (concat (map (\<lambda>u. concat (adj ! u)) (tl ?one)))" using nbrs_concat [OF assms(4)] by auto
  then show ?thesis using assms(5) by (simp only: collect_heal_region_def Let_def set_foldl_add_unique) blast
qed

lemma ring_in_links_near:
  assumes "load_ring rows d ix0 = (Inr (), ix)" and "q < length rows" and "num_elements ix = length rows"
  shows "in_links_near ix q"
  unfolding in_links_near_def
proof (intro allI impI)
  fix v L assume m: "q \<in> set (nbrs_at (hx_adj ix) v L)"
  let ?n = "length rows"
  let ?R = "collect_heal_region (num_elements ix) (hx_adj ix) q"
  have nb: "nbrs_at (hx_adj ix) w 0 = ring_nbrs ?n w" if "w < ?n" for w using load_ring_links [OF assms(1), of w 0] that by simp
  have v: "v < ?n" "q \<in> set (ring_nbrs ?n v)" using m load_ring_links [OF assms(1), of v L] by (auto split: if_splits)
  have iv: "int v mod int ?n = int v" using v(1) by simp
  have n0: "0 < int ?n" using v(1) by linarith
  consider "int q = (int v - 1) mod int ?n" | "int q = (int v + 1) mod int ?n" | "int q = (int v + 2) mod int ?n"
    using v(2) n0 by (auto simp: ring_nbrs_def)
  then show "v \<in> set ?R"
  proof cases
    case 1
    then have "(int q + 1) mod int ?n = int v" using iv by (simp add: mod_simps)
    then have "v \<in> set (ring_nbrs ?n q)" by (auto simp: ring_nbrs_def)
    then show ?thesis using region_one [of v _ q 0] nb [OF assms(2)] v(1) assms(3) by simp
  next
    case 2
    then have "(int q - 1) mod int ?n = int v" using iv by (simp add: mod_simps)
    then have "v \<in> set (ring_nbrs ?n q)" by (auto simp: ring_nbrs_def)
    then show ?thesis using region_one [of v _ q 0] nb [OF assms(2)] v(1) assms(3) by simp
  next
    case 3
    define u where "u = nat ((int q - 1) mod int ?n)"
    have iu: "int u = (int q - 1) mod int ?n" using n0 by (simp add: u_def)
    have u: "u < ?n" using pos_mod_bound [OF n0, of "int q - 1"] iu by linarith
    have "(int u - 1) mod int ?n = int v" using 3 iv iu by (simp add: mod_simps)
    then have vu: "v \<in> set (nbrs_at (hx_adj ix) u 0)" unfolding nb [OF u] by (auto simp: ring_nbrs_def)
    have uq: "u \<in> set (nbrs_at (hx_adj ix) q 0)" unfolding nb [OF assms(2)] by (simp add: ring_nbrs_def u_def)
    show ?thesis
    proof (cases "u = q")
      case True
      then show ?thesis using region_one [of v _ q 0] vu v(1) assms(3) by simp
    next
      case False
      then show ?thesis using region_two [OF uq _ False vu] u v(1) assms(3) by simp
    qed
  qed
qed

section \<open>Properties\<close>

text \<open>Arguments that the binding takes, with a query that has all its components.\<close>

definition query_ok :: "hnsw_index \<Rightarrow> f32 list \<Rightarrow> int \<Rightarrow> int \<Rightarrow> bool" where
  "query_ok ix q k e \<longleftrightarrow> q \<noteq> [] \<and> hx_dim ix \<le> length q \<and> 0 < k \<and> k < 2 ^ 64 \<and> - (2 ^ 63) \<le> e \<and> e < 2 ^ 63"

lemma search_knn_returns:
  assumes "fp_order f" and "is_loaded ix" and "query_ok ix q k e"
  shows "\<exists>hs. search_knn f C False ix q k e = Some (Inr hs)"
proof -
  obtain c where "greedy_descend f ix q (top_layer ix (search_start ix e)) (search_start ix e) = Some c"
    using greedy_descend_ends [OF assms(1)] by blast
  then show ?thesis using assms(2,3) by (auto simp: search_knn_def query_ok_def Let_def)
qed

definition graph_links :: "hnsw_index \<Rightarrow> (nat \<times> nat) set" where
  "graph_links ix = {(u, v). v < num_elements ix \<and> (\<exists>L. v \<in> set (nbrs_at (hx_adj ix) u L))}"


lemma demo_fp_order: "fp_order demo_fp"
  by (auto simp: fp_order_def demo_fp_def)

definition demo_std :: "nat cpp_std" where
  "demo_std = \<lparr>cs_top = (\<lambda>xs. hd (rev (sort_key sh_distance xs))), cs_sort = sort_key sh_distance\<rparr>"

lemma demo_std_ok: "std_ok demo_fp demo_std"
proof -
  have top: "hd (rev (sort_key sh_distance xs)) \<in> set xs \<and> (\<forall>h\<in>set xs. sh_distance h \<le> sh_distance (hd (rev (sort_key sh_distance xs))))"
    if "xs \<noteq> []" for xs :: "nat search_hit list"
  proof -
    let ?ys = "sort_key sh_distance xs"
    have ne: "?ys \<noteq> []" using that by (metis length_sort length_0_conv)
    have l: "hd (rev ?ys) = last ?ys" by (simp add: hd_rev)
    have "sh_distance h \<le> sh_distance (last ?ys)" if hm: "h \<in> set ?ys" for h
    proof -
      obtain i where i: "i < length ?ys" "h = ?ys ! i" using hm unfolding in_set_conv_nth by blast
      have "sorted (map sh_distance ?ys)" by simp
      from sorted_nth_mono [OF this, of i "length ?ys - 1"] i show ?thesis by (simp add: last_conv_nth [OF ne])
    qed
    moreover have "last ?ys \<in> set ?ys" using ne by (rule last_in_set)
    ultimately show ?thesis unfolding l by simp
  qed
  have "sorted_wrt (\<lambda>a b. sh_distance a \<le> sh_distance b) (sort_key sh_distance xs)" for xs :: "nat search_hit list"
    using sorted_sort_key [of sh_distance xs] by (simp add: sorted_map)
  then show ?thesis using top by (simp add: std_ok_def demo_std_def demo_fp_def not_less)
qed


text \<open>
  an erased node is not found: on a well-formed index with at least two rows, when every node that lists the node is within two hops of it,
  \<open>erase_node\<close> succeeds, and no search afterwards, from the entry point of the index or from another node, returns the node, while
  every such search with a sound query still returns hits. The neighbours that the service gives every row at ingest fulfil the condition
  (\<open>ring_in_links_near\<close>).
\<close>

theorem erased_node_not_found:
  assumes "index_ok ix" and "0 \<le> hx_entry ix" and "2 \<le> num_elements ix" and "q < num_elements ix" "int q < 2 ^ 63"
    and "0 < m" "m < 2 ^ 31" and "in_links_near ix q" and "std_ok f C" and "fp_order f"
    and "query_ok ix query k e" and "e < 0 \<or> e < int (num_elements ix) \<and> e \<noteq> int q"
  shows "\<exists>r ix' hs. erase_node f ms (int q) m ix = (Inr r, ix') \<and> search_knn f C False ix' query k e = Some (Inr hs)
    \<and> hs \<noteq> [] \<and> q \<notin> sh_node ` set hs"
proof -
  obtain r ix' where er: "erase_node f ms (int q) m ix = (Inr r, ix')" "index_ok ix'" "num_elements ix' = num_elements ix"
    "hx_dim ix' = hx_dim ix" "hx_entry ix' = entry_after (num_elements ix) q (hx_entry ix)" "unlisted q (hx_adj ix')"
    using erase_node_links [OF assms(1,4-7), of f ms] assms(8) by blast
  have ld: "is_loaded ix'" using er(3) assms(3) by (auto simp: is_loaded_def num_elements_def)
  have qo: "query_ok ix' query k e" using assms(11) er(4) by (simp add: query_ok_def)
  obtain hs where s: "search_knn f C False ix' query k e = Some (Inr hs)" using search_knn_returns [OF assms(10) ld qo] by blast
  have "hx_entry ix < int (num_elements ix)" using assms(1) by (simp add: index_ok_def num_elements_def)
  then have "search_start ix' e \<noteq> q"
    using er(3,5) assms(2-4,12) by (auto simp: search_start_def Let_def entry_after_def nat_eq_iff split: if_splits)
  moreover have "links_closed ix' (- {q})" using er(6) by (auto simp: links_closed_def unlisted_def)
  ultimately have "hits_ok f ix' query (- {q}) hs" "hs \<noteq> []"
    using search_knn_hits [OF s assms(9), of "- {q}"] qo by (auto simp: query_ok_def)
  then show ?thesis using er(1) s by (auto simp: hits_ok_def)
qed

definition demo_rows :: "f32 list list" where
  "demo_rows = [[1, 2], [3, 4], [5, 6], [7, 8], [9, 10]]"

lemma demo_ring: "\<exists>ix. load_ring demo_rows 2 empty_index = (Inr (), ix) \<and> index_ok ix \<and> num_elements ix = 5 \<and> hx_dim ix = 2
  \<and> hx_rows ix = demo_rows"
  using load_ring_ok [of demo_rows 2 empty_index] by (auto simp: demo_rows_def ready_def num_elements_def)

lemma erased_node_not_found_witness:
  "\<exists>ix r ix' hs. load_ring demo_rows 2 empty_index = (Inr (), ix) \<and> erase_node demo_fp ''0.1'' 0 16 ix = (Inr r, ix')
    \<and> search_knn demo_fp demo_std False ix' [1, 2] 3 (-1) = Some (Inr hs) \<and> hs \<noteq> [] \<and> 0 \<notin> sh_node ` set hs"
proof -
  obtain ix where ix: "load_ring demo_rows 2 empty_index = (Inr (), ix)" "index_ok ix" "num_elements ix = 5" "hx_dim ix = 2"
    using demo_ring by blast
  have e: "hx_entry ix = 0" using load_ring_links [OF ix(1)] by (simp add: demo_rows_def)
  have n: "in_links_near ix 0" by (rule ring_in_links_near [OF ix(1)]) (simp_all add: demo_rows_def ix(3))
  have qo: "query_ok ix [1, 2] 3 (-1)" by (simp add: query_ok_def ix(4))
  from erased_node_not_found [OF ix(2) _ _ _ _ _ _ n demo_std_ok demo_fp_order qo, of 16 "''0.1''"] e ix(1,3) show ?thesis by auto
qed

text \<open>
  C38: erasing can leave a search that finds nothing but an erased row: load any two or more rows as the service does, erase node 1 and then
  node 0; the entry point moves to node 1, whose links are gone, and from then on every default search returns exactly one hit,
  the erased node 1 with its zero row, whatever is left in the index.
\<close>

theorem erased_entry_blinds_search:
  assumes "load_ring rows d ix0 = (Inr (), ix)" and "index_ok ix" and "num_elements ix = length rows" and "2 \<le> length rows"
    and "0 < m" "m < 2 ^ 31" and "std_ok f C" and "fp_order f" and "query_ok ix query k (-1)"
  shows "\<exists>r1 ix1 r2 ix2. erase_node f ms 1 m ix = (Inr r1, ix1) \<and> erase_node f ms 0 m ix1 = (Inr r2, ix2)
    \<and> hx_rows ix2 ! 1 = zero_row (hx_dim ix)
    \<and> search_knn f C False ix2 query k (-1) = Some (Inr [\<lparr>sh_node = 1, sh_distance = fp_l2 f (take (hx_dim ix) query) (zero_row (hx_dim ix))\<rparr>])"
proof -
  have n1: "1 < num_elements ix" using assms(3,4) by simp
  have near: "in_links_near ix 1" by (rule ring_in_links_near [OF assms(1) _ assms(3)]) (use assms(4) in simp)
  have e0: "hx_entry ix = 0" using load_ring_links [OF assms(1)] assms(4) by auto
  obtain r1 ix1 where a: "erase_node f ms (int 1) m ix = (Inr r1, ix1)" "index_ok ix1" "num_elements ix1 = num_elements ix"
    "hx_dim ix1 = hx_dim ix" "hx_rows ix1 = (hx_rows ix)[1 := zero_row (hx_dim ix)]" "hx_entry ix1 = 0"
    "\<forall>L. nbrs_at (hx_adj ix1) 1 L = []" "unlisted 1 (hx_adj ix1)"
    using erase_node_links [OF assms(2) n1 _ assms(5,6), of f ms] near e0 by (auto simp: entry_after_def)
  obtain r2 ix2 where b: "erase_node f ms (int 0) m ix1 = (Inr r2, ix2)" "num_elements ix2 = num_elements ix" "hx_dim ix2 = hx_dim ix"
    "hx_rows ix2 = (hx_rows ix1)[0 := zero_row (hx_dim ix)]" "hx_entry ix2 = 1" "\<forall>L. nbrs_at (hx_adj ix2) 1 L = []"
    using erase_node_links [OF a(2), of 0 m f ms] a(3,4,6,7,8) n1 assms(5,6) by (auto simp: entry_after_def links_within_def)
  have row: "hx_rows ix2 ! 1 = zero_row (hx_dim ix)" using b(4) a(5) n1 by (simp add: num_elements_def)
  have ld: "is_loaded ix2" using b(2) n1 by (auto simp: is_loaded_def num_elements_def)
  have qo: "query_ok ix2 query k (-1)" using assms(9) b(3) by (simp add: query_ok_def)
  obtain hs where s: "search_knn f C False ix2 query k (-1) = Some (Inr hs)" using search_knn_returns [OF assms(8) ld qo] by blast
  have st: "search_start ix2 (-1) \<in> {1}" using b(2,5) n1 by (simp add: search_start_def)
  have "links_closed ix2 {1}" using b(6) by (simp add: links_closed_def)
  from search_knn_hits [OF s assms(7) this st] qo have h: "hits_ok f ix2 query {1} hs" "hs \<noteq> []" by (simp_all add: query_ok_def)
  have all: "\<forall>h\<in>set hs. h = hit_of f ix2 query 1" using h(1) unfolding hits_ok_def by (metis singletonD)
  moreover have "distinct (map sh_node hs)" using h(1) by (simp add: hits_ok_def)
  ultimately have "hs = [hit_of f ix2 query 1]" using h(2) by (cases hs rule: list.exhaust; cases "tl hs") auto
  then show ?thesis using a(1) b(1,3) row s by (simp add: hit_of_def distance_query_def)
qed

lemma erased_entry_blinds_search_witness:
  "\<exists>ix r1 ix1 r2 ix2. load_ring demo_rows 2 empty_index = (Inr (), ix) \<and> erase_node demo_fp ''0.1'' 1 16 ix = (Inr r1, ix1)
    \<and> erase_node demo_fp ''0.1'' 0 16 ix1 = (Inr r2, ix2)
    \<and> search_knn demo_fp demo_std False ix2 [5, 6] 3 (-1) = Some (Inr [\<lparr>sh_node = 1, sh_distance = 11\<rparr>])"
proof -
  obtain ix where ix: "load_ring demo_rows 2 empty_index = (Inr (), ix)" "index_ok ix" "num_elements ix = 5" "hx_dim ix = 2"
    using demo_ring by blast
  have qo: "query_ok ix [5, 6] 3 (-1)" by (simp add: query_ok_def ix(4))
  have l: "fp_l2 demo_fp (take 2 [5, 6]) (zero_row 2) = 11" by code_simp
  from erased_entry_blinds_search [OF ix(1,2) _ _ _ _ demo_std_ok demo_fp_order qo, of 16 "''0.1''"] ix(1,3,4) l show ?thesis
    by (auto simp: demo_rows_def)
qed

text \<open>Without the condition on the links an erased node can still be found: node 0 lists node 1, node 1 lists nobody, so the repair does not see node 0.\<close>

lemma one_way_link_is_found:
  "case erase_node demo_fp ''0.1'' 1 16 \<lparr>hx_dim = 1, hx_rows = [[1], [2]], hx_adj = [[[1]], [[]]], hx_entry = 0\<rparr> of
     (Inl _, _) \<Rightarrow> False
   | (Inr _, ix') \<Rightarrow> hx_rows ix' = [[1], [0]]
       \<and> map_option (map_sum (\<lambda>_. ()) (map sh_node)) (search_knn demo_fp demo_std False ix' [0] 1 (-1)) = Some (Inr [1])"
  by code_simp

end
