(* ===== verification/StripeLocks.thy ===== *)
theory StripeLocks
  imports Prelude
begin

text \<open>
  \<open>src/neighborhood_locks.hpp\<close>: the striped reader/writer locks under which native calls of several threads run. The guards and the search
  cursor are states of a thread, and an \<open>inductive\<close> relation has one rule for each attempt of a thread to take a lock, for the timeout
  of the attempt, and for each release. A mutex names the threads that hold it, where the C++ type only counts them. The lock
  of the whole index (\<open>structure_mu_\<close>), which every native call takes before any stripe, is not part of the model.
\<close>

section \<open>Stripes\<close>

definition pool_size :: "nat \<Rightarrow> nat" where
  "pool_size n = (if 0 < n then n else 1)"

definition stripe_of :: "nat \<Rightarrow> int \<Rightarrow> nat" where
  "stripe_of pool node = nat (if node < 0 then - node else node) mod pool"

definition unique_stripes :: "nat \<Rightarrow> int list \<Rightarrow> nat list" where
  "unique_stripes pool nodes = remdups_adj (sort (map (stripe_of pool) nodes))"

lemma unique_stripes_ok: "sorted_wrt (<) (unique_stripes pool nodes) \<and> set (unique_stripes pool nodes) = stripe_of pool ` set nodes"
proof -
  have "sorted xs \<Longrightarrow> sorted_wrt (<) (remdups_adj xs)" for xs :: "nat list"
    by (induction xs rule: remdups_adj.induct) (auto simp: less_le)
  then show ?thesis by (simp add: unique_stripes_def)
qed

section \<open>Mutexes and guards\<close>

type_synonym tid = nat

record rw_mutex =
  mu_writer :: "tid option"
  mu_readers :: "tid set"

definition free_mutex :: rw_mutex where
  "free_mutex = \<lparr>mu_writer = None, mu_readers = {}\<rparr>"

definition try_lock :: "tid \<Rightarrow> rw_mutex \<Rightarrow> rw_mutex option" where
  "try_lock i m = (if mu_writer m = None \<and> mu_readers m = {} then Some (m\<lparr>mu_writer := Some i\<rparr>) else None)"

definition try_lock_shared :: "tid \<Rightarrow> rw_mutex \<Rightarrow> rw_mutex option" where
  "try_lock_shared i m = (if mu_writer m = None then Some (m\<lparr>mu_readers := insert i (mu_readers m)\<rparr>) else None)"

definition unlock :: "rw_mutex \<Rightarrow> rw_mutex" where
  "unlock m = m\<lparr>mu_writer := None\<rparr>"

definition unlock_shared :: "tid \<Rightarrow> rw_mutex \<Rightarrow> rw_mutex" where
  "unlock_shared i m = m\<lparr>mu_readers := mu_readers m - {i}\<rparr>"

text \<open>
  What a thread is doing: inside the constructor of an \<open>ExclusiveGuard\<close> with the stripes still to lock and those locked, with a complete guard,
  inside the constructor of a \<open>SharedGuard\<close>, with a shared stripe (guard or cursor), in \<open>advance\<close> of a cursor that holds one stripe and asks for
  another, or after a \<open>LockTimeoutError\<close>.
\<close>

datatype thread = Idle | Locking "nat list" "nat list" | Exclusive "nat list" | Entering nat | Shared nat | Advancing nat nat | TimedOut

record lock_state =
  ls_stripes :: "nat \<Rightarrow> rw_mutex"
  ls_threads :: "tid \<Rightarrow> thread"

definition start_state :: lock_state where
  "start_state = \<lparr>ls_stripes = (\<lambda>_. free_mutex), ls_threads = (\<lambda>_. Idle)\<rparr>"

definition put_thread :: "tid \<Rightarrow> thread \<Rightarrow> lock_state \<Rightarrow> lock_state" where
  "put_thread i t s = s\<lparr>ls_threads := (ls_threads s)(i := t)\<rparr>"

definition put_stripe :: "nat \<Rightarrow> rw_mutex \<Rightarrow> lock_state \<Rightarrow> lock_state" where
  "put_stripe x m s = s\<lparr>ls_stripes := (ls_stripes s)(x := m)\<rparr>"

text \<open>\<open>ExclusiveGuard::release\<close> unlocks in reverse order.\<close>

definition release_all :: "nat list \<Rightarrow> lock_state \<Rightarrow> lock_state" where
  "release_all locked s = foldl (\<lambda>s x. put_stripe x (unlock (ls_stripes s x)) s) s (rev locked)"

definition release_shared :: "tid \<Rightarrow> nat \<Rightarrow> lock_state \<Rightarrow> lock_state" where
  "release_shared i x s = put_stripe x (unlock_shared i (ls_stripes s x)) s"

text \<open>One step of thread \<open>i\<close>. \<open>try_lock_for\<close> can fail while another thread holds the stripe, and the standard lets it fail spuriously.\<close>

inductive lock_step :: "nat \<Rightarrow> lock_state \<Rightarrow> tid \<Rightarrow> lock_state \<Rightarrow> bool" for pool where
  ask_exclusive: "ls_threads s i = Idle \<Longrightarrow> lock_step pool s i (put_thread i (Locking (unique_stripes pool nodes) []) s)"
| lock_next: "ls_threads s i = Locking (x # xs) locked \<Longrightarrow> try_lock i (ls_stripes s x) = Some m \<Longrightarrow>
    lock_step pool s i (put_thread i (Locking xs (locked @ [x])) (put_stripe x m s))"
| lock_timeout: "ls_threads s i = Locking (x # xs) locked \<Longrightarrow> lock_step pool s i (put_thread i TimedOut (release_all locked s))"
| lock_done: "ls_threads s i = Locking [] locked \<Longrightarrow> lock_step pool s i (put_thread i (Exclusive locked) s)"
| release: "ls_threads s i = Exclusive locked \<Longrightarrow> lock_step pool s i (put_thread i Idle (release_all locked s))"
| ask_shared: "ls_threads s i = Idle \<Longrightarrow> lock_step pool s i (put_thread i (Entering (stripe_of pool node)) s)"
| lock_shared: "ls_threads s i = Entering x \<Longrightarrow> try_lock_shared i (ls_stripes s x) = Some m \<Longrightarrow>
    lock_step pool s i (put_thread i (Shared x) (put_stripe x m s))"
| shared_timeout: "ls_threads s i = Entering x \<Longrightarrow> lock_step pool s i (put_thread i TimedOut s)"
| advance_same: "ls_threads s i = Shared x \<Longrightarrow> stripe_of pool node = x \<Longrightarrow> lock_step pool s i s"
| advance: "ls_threads s i = Shared x \<Longrightarrow> stripe_of pool node \<noteq> x \<Longrightarrow>
    lock_step pool s i (put_thread i (Advancing x (stripe_of pool node)) s)"
| hand_over: "ls_threads s i = Advancing x y \<Longrightarrow> try_lock_shared i (ls_stripes s y) = Some m \<Longrightarrow>
    lock_step pool s i (put_thread i (Shared y) (release_shared i x (put_stripe y m s)))"
| advance_timeout: "ls_threads s i = Advancing x y \<Longrightarrow> lock_step pool s i (put_thread i TimedOut (release_shared i x s))"
| leave: "ls_threads s i = Shared x \<Longrightarrow> lock_step pool s i (put_thread i Idle (release_shared i x s))"
| handled: "ls_threads s i = TimedOut \<Longrightarrow> lock_step pool s i (put_thread i Idle s)"

inductive lock_reachable :: "nat \<Rightarrow> lock_state \<Rightarrow> bool" for pool where
  start: "lock_reachable pool start_state"
| step: "lock_reachable pool s \<Longrightarrow> lock_step pool s i s' \<Longrightarrow> lock_reachable pool s'"

section \<open>Who holds what\<close>

fun exclusive_held :: "thread \<Rightarrow> nat set" where
  "exclusive_held (Locking xs locked) = set locked"
| "exclusive_held (Exclusive locked) = set locked"
| "exclusive_held _ = {}"

fun shared_held :: "thread \<Rightarrow> nat set" where
  "shared_held (Shared x) = {x}"
| "shared_held (Advancing x y) = {x}"
| "shared_held _ = {}"

fun in_order :: "thread \<Rightarrow> bool" where
  "in_order (Locking xs locked) = sorted_wrt (<) (locked @ xs)"
| "in_order (Exclusive locked) = sorted_wrt (<) locked"
| "in_order (Advancing x y) = (x \<noteq> y)"
| "in_order _ = True"

definition lock_inv :: "lock_state \<Rightarrow> bool" where
  "lock_inv s \<longleftrightarrow> (\<forall>x i. mu_writer (ls_stripes s x) = Some i \<longleftrightarrow> x \<in> exclusive_held (ls_threads s i))
     \<and> (\<forall>x i. i \<in> mu_readers (ls_stripes s x) \<longleftrightarrow> x \<in> shared_held (ls_threads s i))
     \<and> (\<forall>x. mu_writer (ls_stripes s x) \<noteq> None \<longrightarrow> mu_readers (ls_stripes s x) = {})
     \<and> (\<forall>i. in_order (ls_threads s i))"

lemma put_thread_simps [simp]:
  "ls_threads (put_thread i t s) = (ls_threads s)(i := t)" "ls_stripes (put_thread i t s) = ls_stripes s"
  by (simp_all add: put_thread_def)

lemma put_stripe_simps [simp]:
  "ls_threads (put_stripe x m s) = ls_threads s" "ls_stripes (put_stripe x m s) = (ls_stripes s)(x := m)"
  by (simp_all add: put_stripe_def)

lemma release_shared_simps [simp]:
  "ls_threads (release_shared i x s) = ls_threads s"
  "ls_stripes (release_shared i x s) = (ls_stripes s)(x := unlock_shared i (ls_stripes s x))"
  by (simp_all add: release_shared_def)

lemma release_all_simps [simp]:
  "ls_threads (release_all xs s) = ls_threads s"
  "ls_stripes (release_all xs s) y = (if y \<in> set xs then unlock (ls_stripes s y) else ls_stripes s y)"
proof -
  have "ls_threads (foldl (\<lambda>s x. put_stripe x (unlock (ls_stripes s x)) s) s ys) = ls_threads s
    \<and> ls_stripes (foldl (\<lambda>s x. put_stripe x (unlock (ls_stripes s x)) s) s ys) y = (if y \<in> set ys then unlock (ls_stripes s y) else ls_stripes s y)" for ys
    by (induction ys arbitrary: s) (auto simp: unlock_def)
  from this [of "rev xs"] show "ls_threads (release_all xs s) = ls_threads s"
    "ls_stripes (release_all xs s) y = (if y \<in> set xs then unlock (ls_stripes s y) else ls_stripes s y)"
    by (simp_all add: release_all_def)
qed

lemma lock_inv_parts:
  assumes "lock_inv s"
  shows "mu_writer (ls_stripes s x) = Some i \<longleftrightarrow> x \<in> exclusive_held (ls_threads s i)"
    "i \<in> mu_readers (ls_stripes s x) \<longleftrightarrow> x \<in> shared_held (ls_threads s i)"
    "mu_writer (ls_stripes s x) \<noteq> None \<Longrightarrow> mu_readers (ls_stripes s x) = {}"
    "in_order (ls_threads s i)"
  using assms unfolding lock_inv_def by blast+

lemma lock_inv_step:
  assumes "lock_step pool s i s'" and "lock_inv s"
  shows "lock_inv s'"
  using assms
proof (induction rule: lock_step.induct)
  case (ask_exclusive s i nodes)
  then show ?case using unique_stripes_ok [of pool nodes] by (auto simp: lock_inv_def)
next
  case (lock_next s i x xs locked m)
  note p = lock_inv_parts [OF lock_next(3)]
  have m: "mu_writer (ls_stripes s x) = None" "mu_readers (ls_stripes s x) = {}" "m = (ls_stripes s x)\<lparr>mu_writer := Some i\<rparr>"
    using lock_next(2) by (auto simp: try_lock_def split: if_splits)
  have o: "sorted_wrt (<) (locked @ x # xs)" using p(4) [of i] lock_next(1) by simp
  have n: "x \<notin> exclusive_held (ls_threads s j)" for j using p(1) [of x j] m(1) by simp
  show ?case
    using lock_next(1,3) m o n by (auto simp: lock_inv_def)
next
  case (lock_timeout s i x xs locked)
  note p = lock_inv_parts [OF lock_timeout(2)]
  have own: "y \<in> set locked \<Longrightarrow> mu_writer (ls_stripes s y) = Some i" for y using p(1) [of y i] lock_timeout(1) by simp
  then have other: "y \<in> set locked \<Longrightarrow> y \<in> exclusive_held (ls_threads s j) \<Longrightarrow> j = i" for y j using p(1) by (metis option.inject)
  show ?case using lock_timeout own by (auto simp: lock_inv_def unlock_def dest: other)
next
  case (lock_done s i locked)
  then show ?case using lock_inv_parts(4) [OF lock_done(2), of i] by (auto simp: lock_inv_def)
next
  case (release s i locked)
  note p = lock_inv_parts [OF release(2)]
  have own: "y \<in> set locked \<Longrightarrow> mu_writer (ls_stripes s y) = Some i" for y using p(1) [of y i] release(1) by simp
  then have other: "y \<in> set locked \<Longrightarrow> y \<in> exclusive_held (ls_threads s j) \<Longrightarrow> j = i" for y j using p(1) by (metis option.inject)
  show ?case using release own by (auto simp: lock_inv_def unlock_def dest: other)
next
  case (lock_shared s i x m)
  note p = lock_inv_parts [OF lock_shared(3)]
  have m: "mu_writer (ls_stripes s x) = None" using lock_shared(2) by (auto simp: try_lock_shared_def split: if_splits)
  have n: "x \<notin> exclusive_held (ls_threads s j)" for j using p(1) [of x j] m by simp
  show ?case using lock_shared m n p(1,2) by (auto simp: lock_inv_def try_lock_shared_def)
next
  case (hand_over s i x y m)
  note p = lock_inv_parts [OF hand_over(3)]
  have m: "mu_writer (ls_stripes s y) = None" using hand_over(2) by (auto simp: try_lock_shared_def split: if_splits)
  have n: "y \<notin> exclusive_held (ls_threads s j)" for j using p(1) [of y j] m by simp
  have "x \<noteq> y" using p(4) [of i] hand_over(1) by simp
  then show ?case using hand_over m n p(1,2) by (auto simp: lock_inv_def try_lock_shared_def unlock_shared_def)
qed (auto simp: lock_inv_def unlock_shared_def)

lemma lock_inv_reachable: "lock_reachable pool s \<Longrightarrow> lock_inv s"
proof (induction rule: lock_reachable.induct)
  case start
  show ?case by (simp add: lock_inv_def start_state_def free_mutex_def)
next
  case (step s i s')
  then show ?case using lock_inv_step by blast
qed

section \<open>Who waits for whom\<close>

fun wanted :: "thread \<Rightarrow> nat option" where
  "wanted (Locking (x # xs) locked) = Some x"
| "wanted (Entering x) = Some x"
| "wanted (Advancing x y) = Some y"
| "wanted _ = None"

text \<open>Thread \<open>i\<close> asks for a stripe that \<open>j\<close> holds in a mode that keeps \<open>i\<close> out.\<close>

definition waits_for :: "lock_state \<Rightarrow> (tid \<times> tid) set" where
  "waits_for s = {(i, j). \<exists>x. wanted (ls_threads s i) = Some x
     \<and> (x \<in> exclusive_held (ls_threads s j) \<or> (\<exists>xs locked. ls_threads s i = Locking (x # xs) locked) \<and> x \<in> shared_held (ls_threads s j))}"

fun upward :: "thread \<Rightarrow> bool" where
  "upward (Advancing x y) = (x < y)"
| "upward _ = True"

lemma wanted_above:
  assumes "in_order t" and "upward t" and "wanted t = Some y" and "x \<in> exclusive_held t \<union> shared_held t"
  shows "x < y"
  using assms by (cases t rule: wanted.cases) (auto simp: sorted_wrt_append)

lemma waits_climb:
  assumes inv: "lock_inv s" and up: "\<forall>i. upward (ls_threads s i)" and w: "(i, j) \<in> (waits_for s)\<^sup>+"
  shows "\<exists>x. wanted (ls_threads s i) = Some x \<and> (\<forall>y. wanted (ls_threads s j) = Some y \<longrightarrow> x < y)"
  using w
proof (induction rule: trancl_induct)
  case (base j)
  then show ?case using wanted_above lock_inv_parts(4) [OF inv] up unfolding waits_for_def by blast
next
  case (step j k)
  then obtain x where x: "wanted (ls_threads s i) = Some x" "\<forall>y. wanted (ls_threads s j) = Some y \<longrightarrow> x < y" by blast
  from step(2) obtain y where y: "wanted (ls_threads s j) = Some y" "y \<in> exclusive_held (ls_threads s k) \<union> shared_held (ls_threads s k)"
    unfolding waits_for_def by blast
  have "y < z" if "wanted (ls_threads s k) = Some z" for z
    using wanted_above [OF lock_inv_parts(4) [OF inv] _ that] up y(2) by blast
  then show ?case using x y(1) by (metis order.strict_trans)
qed

section \<open>Properties\<close>

text \<open>
  C34: the locks exclude: in every state that threads can reach by any interleaving of lock attempts, timeouts and releases, a stripe of an
  exclusive guard, complete or under construction, is held by no other thread in any mode, a mutex records exactly the threads that hold
  it, and a thread that is idle or has run into a timeout holds nothing. In particular two threads with complete guards over regions
  of nodes have no node in common.
\<close>

theorem exclusive_guards_exclude:
  assumes "lock_reachable pool s"
  shows "(\<forall>i j x. x \<in> exclusive_held (ls_threads s i) \<and> x \<in> exclusive_held (ls_threads s j) \<union> shared_held (ls_threads s j) \<longrightarrow> i = j)
    \<and> (\<forall>x i. mu_writer (ls_stripes s x) = Some i \<longleftrightarrow> x \<in> exclusive_held (ls_threads s i))
    \<and> (\<forall>x. mu_readers (ls_stripes s x) = {i. x \<in> shared_held (ls_threads s i)})
    \<and> (\<forall>i x. ls_threads s i \<in> {Idle, TimedOut} \<longrightarrow> mu_writer (ls_stripes s x) \<noteq> Some i \<and> i \<notin> mu_readers (ls_stripes s x))
    \<and> (\<forall>i j R Q. ls_threads s i = Exclusive (unique_stripes pool R) \<and> ls_threads s j = Exclusive (unique_stripes pool Q) \<and> i \<noteq> j
        \<longrightarrow> set R \<inter> set Q = {})"
proof -
  note p = lock_inv_parts [OF lock_inv_reachable [OF assms]]
  have ex: "i = j" if "x \<in> exclusive_held (ls_threads s i)" "x \<in> exclusive_held (ls_threads s j) \<union> shared_held (ls_threads s j)" for i j x
  proof -
    have "mu_writer (ls_stripes s x) = Some i" using p(1) that(1) by blast
    moreover from this have "j \<notin> mu_readers (ls_stripes s x)" using p(3) by fastforce
    ultimately show ?thesis using that(2) p(1,2) by (metis UnE option.inject)
  qed
  have dj: "set R \<inter> set Q = {}"
    if "ls_threads s i = Exclusive (unique_stripes pool R)" "ls_threads s j = Exclusive (unique_stripes pool Q)" "i \<noteq> j" for i j R Q
  proof -
    have "n \<notin> set Q" if "n \<in> set R" for n
      using ex [of "stripe_of pool n" i j] unique_stripes_ok [of pool] that \<open>i \<noteq> j\<close> \<open>ls_threads s i = _\<close> \<open>ls_threads s j = _\<close> by auto
    then show ?thesis by blast
  qed
  have idle: "mu_writer (ls_stripes s x) \<noteq> Some i \<and> i \<notin> mu_readers (ls_stripes s x)" if "ls_threads s i \<in> {Idle, TimedOut}" for i x
    using that p(1) [of x i] p(2) [of i x] by auto
  have rd: "mu_readers (ls_stripes s x) = {i. x \<in> shared_held (ls_threads s i)}" for x using p(2) by blast
  have c1: "\<forall>i j x. x \<in> exclusive_held (ls_threads s i) \<and> x \<in> exclusive_held (ls_threads s j) \<union> shared_held (ls_threads s j) \<longrightarrow> i = j"
    by (intro allI impI) (elim conjE, rule ex)
  have c4: "\<forall>i x. ls_threads s i \<in> {Idle, TimedOut} \<longrightarrow> mu_writer (ls_stripes s x) \<noteq> Some i \<and> i \<notin> mu_readers (ls_stripes s x)"
    by (intro allI impI) (rule idle)
  have c5: "\<forall>i j R Q. ls_threads s i = Exclusive (unique_stripes pool R) \<and> ls_threads s j = Exclusive (unique_stripes pool Q) \<and> i \<noteq> j
      \<longrightarrow> set R \<inter> set Q = {}"
    by (intro allI impI) (elim conjE, rule dj)
  have c2: "\<forall>x i. mu_writer (ls_stripes s x) = Some i \<longleftrightarrow> x \<in> exclusive_held (ls_threads s i)" by (intro allI) (rule p(1))
  have c3: "\<forall>x. mu_readers (ls_stripes s x) = {i. x \<in> shared_held (ls_threads s i)}" by (intro allI) (rule rd)
  show ?thesis by (rule conjI [OF c1 conjI [OF c2 conjI [OF c3 conjI [OF c4 c5]]]])
qed

text \<open>
  C35: repairs do not block each other: in every reachable state in which no search cursor is about to step to a lower stripe, the relation
  "waits for a stripe that the other holds" has no cycle, whatever regions are being locked by however many threads, because every guard takes its
  stripes in ascending order; in every group of threads one waits for no other of the group.
\<close>

theorem ordered_locking_has_no_deadlock:
  assumes "lock_reachable pool s" and "\<forall>i. upward (ls_threads s i)"
  shows "acyclic (waits_for s) \<and> (\<forall>T. finite T \<and> T \<noteq> {} \<longrightarrow> (\<exists>i\<in>T. \<forall>j\<in>T. (i, j) \<notin> waits_for s))"
proof -
  have ac: "acyclic (waits_for s)"
  proof (rule acyclicI, intro allI notI)
    fix i assume "(i, i) \<in> (waits_for s)\<^sup>+"
    from waits_climb [OF lock_inv_reachable [OF assms(1)] assms(2) this] show False by force
  qed
  have low: "\<exists>i\<in>T. \<forall>j\<in>T. (i, j) \<notin> waits_for s" if T: "finite T" "T \<noteq> {}" for T
  proof -
    have wf: "wf ((waits_for s \<inter> T \<times> T)\<inverse>)"
      using T(1) ac by (intro finite_acyclic_wf_converse) (auto intro: acyclic_subset)
    obtain k where "k \<in> T" using T(2) by blast
    from wfE_min [OF wf this] obtain i where i: "i \<in> T" "\<And>j. (j, i) \<in> (waits_for s \<inter> T \<times> T)\<inverse> \<Longrightarrow> j \<notin> T" by blast
    have "(i, j) \<notin> waits_for s" if "j \<in> T" for j using i(1) i(2) [of j] that by blast
    then show ?thesis using i(1) by blast
  qed
  show ?thesis by (intro conjI [OF ac] allI impI) (elim conjE, rule low)
qed

section \<open>A search against a repair\<close>

text \<open>Thread 0 searches: it holds the stripe of \<open>u\<close> and steps to \<open>v\<close>. Thread 1 has begun to lock a region with both.\<close>

definition locking_one :: "nat \<Rightarrow> nat list \<Rightarrow> lock_state" where
  "locking_one x xs = put_thread 1 (Locking xs [x]) (put_stripe x (free_mutex\<lparr>mu_writer := Some 1\<rparr>) start_state)"

lemma reach_locking_one:
  assumes "unique_stripes pool nodes = x # xs"
  shows "lock_reachable pool (locking_one x xs)"
proof -
  have 1: "lock_reachable pool (put_thread 1 (Locking (x # xs) []) start_state)"
    using lock_reachable.step [OF lock_reachable.start ask_exclusive [of start_state 1 pool nodes]] assms by (simp add: start_state_def)
  have "lock_step pool (put_thread 1 (Locking (x # xs) []) start_state) 1
      (put_thread 1 (Locking xs ([] @ [x])) (put_stripe x (free_mutex\<lparr>mu_writer := Some 1\<rparr>) (put_thread 1 (Locking (x # xs) []) start_state)))"
    by (rule lock_next) (simp_all add: try_lock_def start_state_def free_mutex_def)
  moreover have "put_thread 1 (Locking xs ([] @ [x])) (put_stripe x (free_mutex\<lparr>mu_writer := Some 1\<rparr>) (put_thread 1 (Locking (x # xs) []) start_state))
      = locking_one x xs"
    by (simp add: locking_one_def put_thread_def put_stripe_def)
  ultimately show ?thesis using lock_reachable.step [OF 1] by simp
qed

lemma blocked_advance_times_out:
  "lock_step pool s i s' \<Longrightarrow> ls_threads s i = Advancing x y \<Longrightarrow> try_lock_shared i (ls_stripes s y) = None \<Longrightarrow> ls_threads s' i = TimedOut"
  by (erule lock_step.cases) auto

lemma blocked_lock_times_out:
  "lock_step pool s i s' \<Longrightarrow> ls_threads s i = Locking (x # xs) locked \<Longrightarrow> try_lock i (ls_stripes s x) = None \<Longrightarrow> ls_threads s' i = TimedOut"
  by (erule lock_step.cases) auto

definition crossing :: "nat \<Rightarrow> nat \<Rightarrow> lock_state" where
  "crossing x y = \<lparr>ls_stripes = (\<lambda>_. free_mutex)(y := free_mutex\<lparr>mu_readers := {0}\<rparr>, x := free_mutex\<lparr>mu_writer := Some 1\<rparr>),
     ls_threads = (\<lambda>_. Idle)(0 := Advancing y x, 1 := Locking [y] [x])\<rparr>"

lemma reach_crossing:
  assumes "stripe_of pool v < stripe_of pool u"
  shows "lock_reachable pool (crossing (stripe_of pool v) (stripe_of pool u))"
proof -
  let ?x = "stripe_of pool v" and ?y = "stripe_of pool u"
  have us: "unique_stripes pool [v, u] = ?x # [?y]" using assms by (simp add: unique_stripes_def)
  let ?s = "locking_one ?x [?y]"
  have t: "ls_threads ?s 0 = Idle" "ls_stripes ?s ?y = free_mutex"
    using assms by (simp_all add: locking_one_def start_state_def)
  have 1: "lock_reachable pool (put_thread 0 (Entering ?y) ?s)"
    using lock_reachable.step [OF reach_locking_one [OF us] ask_shared [OF t(1)]] .
  have 2: "lock_reachable pool (put_thread 0 (Shared ?y) (put_stripe ?y (free_mutex\<lparr>mu_readers := {0}\<rparr>) (put_thread 0 (Entering ?y) ?s)))"
    by (rule lock_reachable.step [OF 1]) (rule lock_shared, simp_all add: t(2) try_lock_shared_def free_mutex_def)
  have 3: "lock_reachable pool (put_thread 0 (Advancing ?y ?x)
      (put_thread 0 (Shared ?y) (put_stripe ?y (free_mutex\<lparr>mu_readers := {0}\<rparr>) (put_thread 0 (Entering ?y) ?s))))"
    by (rule lock_reachable.step [OF 2]) (rule advance, use assms in simp_all)
  moreover have "put_thread 0 (Advancing ?y ?x)
      (put_thread 0 (Shared ?y) (put_stripe ?y (free_mutex\<lparr>mu_readers := {0}\<rparr>) (put_thread 0 (Entering ?y) ?s))) = crossing ?x ?y"
    using assms by (simp add: crossing_def locking_one_def start_state_def put_thread_def put_stripe_def fun_eq_iff)
  ultimately show ?thesis by simp
qed

text \<open>
  C36: a search can block a repair: when a neighbour \<open>v\<close> of \<open>u\<close> has a lower stripe, a search that stands on \<open>u\<close> and steps to \<open>v\<close>, and a repair that locks a
  region with both, reach a state in which each waits for the other; whatever they do next from there is a timeout.
\<close>

theorem cursor_blocks_with_repair:
  assumes "stripe_of pool v < stripe_of pool u"
  shows "\<exists>s. lock_reachable pool s \<and> ls_threads s 0 = Advancing (stripe_of pool u) (stripe_of pool v)
    \<and> ls_threads s 1 = Locking [stripe_of pool u] [stripe_of pool v] \<and> {(0, 1), (1, 0)} \<subseteq> waits_for s
    \<and> {ls_threads s' i |i s'. i \<in> {0, 1} \<and> lock_step pool s i s'} = {TimedOut}"
proof -
  let ?x = "stripe_of pool v" and ?y = "stripe_of pool u"
  let ?s = "crossing ?x ?y"
  have t: "ls_threads ?s 0 = Advancing ?y ?x" "ls_threads ?s 1 = Locking [?y] [?x]" by (simp_all add: crossing_def)
  have m: "try_lock_shared 0 (ls_stripes ?s ?x) = None" "try_lock 1 (ls_stripes ?s ?y) = None"
    using assms by (simp_all add: crossing_def try_lock_shared_def try_lock_def)
  have "ls_threads s' 0 = TimedOut" if "lock_step pool ?s 0 s'" for s' by (rule blocked_advance_times_out [OF that t(1) m(1)])
  moreover have "ls_threads s' 1 = TimedOut" if "lock_step pool ?s 1 s'" for s' by (rule blocked_lock_times_out [OF that t(2) m(2)])
  moreover have "lock_step pool ?s 0 (put_thread 0 TimedOut (release_shared 0 ?y ?s))" by (rule advance_timeout [OF t(1)])
  ultimately have "{ls_threads s' i |i s'. i \<in> {0, 1} \<and> lock_step pool ?s i s'} = {TimedOut}"
    by (auto, metis fun_upd_same put_thread_simps(1))
  moreover have "{(0, 1), (1, 0)} \<subseteq> waits_for ?s" by (auto simp: waits_for_def t [simplified])
  ultimately show ?thesis using reach_crossing [OF assms] t by blast
qed

lemma cursor_blocks_with_repair_witness:
  "\<exists>s. lock_reachable 64 s \<and> ls_threads s 0 = Advancing 5 3 \<and> {(0, 1), (1, 0)} \<subseteq> waits_for s"
proof -
  have n: "stripe_of 64 3 = 3" "stripe_of 64 5 = 5" by code_simp+
  from cursor_blocks_with_repair [of 64 3 5] n show ?thesis by auto
qed

lemma exclusive_guards_exclude_witness:
  "\<exists>s. lock_reachable 64 s \<and> ls_threads s 1 = Locking [5] [3] \<and> mu_writer (ls_stripes s 3) = Some 1"
proof -
  have n: "stripe_of 64 3 = 3" "stripe_of 64 5 = 5" by code_simp+
  have r: "lock_reachable 64 (crossing 3 5)" using reach_crossing [of 64 3 5] n by simp
  from exclusive_guards_exclude [OF r] show ?thesis using r by (intro exI [of _ "crossing 3 5"]) (auto simp: crossing_def)
qed

lemma ordered_locking_has_no_deadlock_witness:
  "\<exists>s. lock_reachable 64 s \<and> ls_threads s 1 = Locking [5] [3] \<and> acyclic (waits_for s)"
proof -
  have us: "unique_stripes 64 [3, 5] = 3 # [5]" by code_simp
  have "\<forall>i. upward (ls_threads (locking_one 3 [5]) i)" by (simp add: locking_one_def start_state_def)
  from ordered_locking_has_no_deadlock [OF reach_locking_one [OF us] this] reach_locking_one [OF us] show ?thesis
    by (intro exI [of _ "locking_one 3 [5]"]) (auto simp: locking_one_def)
qed

end
