(* ===== verification/VaultTransit.thy ===== *)
theory VaultTransit
  imports CryptoShred Access
begin

text \<open>
  The HashiCorp Vault backend of \<open>compliance/kms_backends.py\<close>: keys travel to the transit engine as base64 text with the entity id as context, and
  the ciphertext string is kept as UTF-8 bytes. It is a further instance of the locale \<open>key_service\<close>. The client is a parameter.
\<close>

section \<open>Decoding UTF-8\<close>

text \<open>\<open>decode("utf-8")\<close> on the range of the model.\<close>

fun utf8_decode :: "bytes \<Rightarrow> string res" where
  "utf8_decode [] = Inr []"
| "utf8_decode (b # bs) =
    (if b < 128 then map_sum id ((#) (char_of (unat b))) (utf8_decode bs)
     else case bs of
       [] \<Rightarrow> Inl (ValueError ''unexpected end of data'')
     | c # cs \<Rightarrow>
         if (b = 194 \<or> b = 195) \<and> 128 \<le> c \<and> c < 192
         then map_sum id ((#) (char_of ((unat b - 192) * 64 + (unat c - 128)))) (utf8_decode cs)
         else Inl Unmodelled)"

lemma utf8_Cons: "utf8 (c # s) = utf8_char c @ utf8 s"
  by (simp add: utf8_def)

lemma utf8_decode_char: "utf8_decode (utf8_char c @ bs) = map_sum id ((#) c) (utf8_decode bs)"
proof (cases "(of_char c :: nat) < 128")
  case True
  have "(word_of_nat (of_char c) :: byte) < 128" using True by (simp add: word_less_nat_alt unat_of_nat)
  moreover have "unat (word_of_nat (of_char c) :: byte) = of_char c" using char_bound [of c] by (simp add: unat_of_nat)
  ultimately show ?thesis using True by (simp add: utf8_char_def)
next
  case False
  let ?n = "of_char c :: nat"
  have b: "?n < 256" by (rule char_bound)
  have d: "?n div 64 = 2 \<or> ?n div 64 = 3" using False b by linarith
  have m: "?n mod 64 < 64" by simp
  have u1: "unat (word_of_nat (192 + ?n div 64) :: byte) = 192 + ?n div 64" using d by (auto simp: unat_of_nat)
  have u2: "unat (word_of_nat (128 + ?n mod 64) :: byte) = 128 + ?n mod 64" using m by (simp add: unat_of_nat del: of_nat_add)
  have s1: "(word_of_nat (192 + ?n div 64) :: byte) = 194 \<or> (word_of_nat (192 + ?n div 64) :: byte) = 195" using d by auto
  have s2: "128 \<le> (word_of_nat (128 + ?n mod 64) :: byte)" "(word_of_nat (128 + ?n mod 64) :: byte) < 192"
    using u2 m by (simp_all add: word_le_nat_alt word_less_nat_alt del: of_nat_add)
  have "?n div 64 * 64 + ?n mod 64 = ?n" by simp
  then show ?thesis using False s1 s2 u1 u2 by (auto simp: utf8_char_def Let_def word_less_nat_alt simp del: of_nat_add)
qed

lemma utf8_roundtrip [simp]: "utf8_decode (utf8 s) = Inr s"
  by (induction s) (simp_all add: utf8_Cons utf8_decode_char, simp add: utf8_def)

section \<open>The backend\<close>

record transit_client =
  tc_encrypt :: "string \<Rightarrow> string \<Rightarrow> string res"
  tc_decrypt :: "string \<Rightarrow> string \<Rightarrow> string res"

text \<open>The address and the token that the client is made with.\<close>

definition vt_address :: "environ \<Rightarrow> string option \<Rightarrow> string option \<Rightarrow> string \<times> string option" where
  "vt_address env url token =
    ((case url of Some (u # us) \<Rightarrow> u # us | _ \<Rightarrow> env_get env ''VAULT_ADDR'' ''http://127.0.0.1:8200''),
     (case token of Some (t # ts) \<Rightarrow> Some (t # ts) | _ \<Rightarrow> env ''VAULT_TOKEN''))"

text \<open>The state is the deny list.\<close>

type_synonym vault_transit = "string list"

definition vt_init :: "bool \<Rightarrow> vault_transit res" where
  "vt_init hvac_available = (if hvac_available then Inr [] else Inl (OtherError ''hvac required: pip install hvac''))"

definition vt_context :: "string \<Rightarrow> string" where
  "vt_context eid = b64encode (utf8 eid)"

definition vt_wrap_dek :: "transit_client \<Rightarrow> string \<Rightarrow> bytes \<Rightarrow> bytes \<Rightarrow> vault_transit \<Rightarrow> bytes res \<times> vault_transit" where
  "vt_wrap_dek c eid dek nonce k =
    (if eid \<in> set k then (Inl (shredded_error eid), k)
     else (map_sum id utf8 (tc_encrypt c (b64encode dek) (vt_context eid)), k))"

definition vt_unwrap_dek :: "transit_client \<Rightarrow> string \<Rightarrow> bytes \<Rightarrow> vault_transit \<Rightarrow> bytes res" where
  "vt_unwrap_dek c eid wrapped k =
    (if eid \<in> set k then Inl (shredded_error eid)
     else bind_res (utf8_decode wrapped) (\<lambda>ct. bind_res (tc_decrypt c ct (vt_context eid)) b64decode))"

definition vt_destroy_entity_key :: "string \<Rightarrow> vault_transit \<Rightarrow> vault_transit" where
  "vt_destroy_entity_key eid k = List.insert eid k"

definition vt_ops :: "transit_client \<Rightarrow> vault_transit kms_ops" where
  "vt_ops c = \<lparr>km_wrap = vt_wrap_dek c, km_unwrap = vt_unwrap_dek c, km_destroy = (\<lambda>e k. (Inr (), vt_destroy_entity_key e k))\<rparr>"

text \<open>The transit engine opens what it sealed under the same context.\<close>

definition transit_ok :: "transit_client \<Rightarrow> bool" where
  "transit_ok c \<longleftrightarrow> (\<forall>p x. \<exists>w. tc_encrypt c p x = Inr w \<and> tc_decrypt c w x = Inr p)"

interpretation transit: key_service vt_ops transit_ok "\<lambda>_. True" "\<lambda>k e. e \<in> set k"
proof unfold_locales
  fix a and k :: vault_transit and e d n
  assume a: "transit_ok a" "e \<notin> set k"
  then obtain w where "tc_encrypt a (b64encode d) (vt_context e) = Inr w" "tc_decrypt a w (vt_context e) = Inr (b64encode d)"
    unfolding transit_ok_def by blast
  then show "\<exists>w k'. km_wrap (vt_ops a) e d n k = (Inr w, k') \<and> km_unwrap (vt_ops a) e w k' = Inr d
      \<and> (\<forall>e' w'. e' \<noteq> e \<longrightarrow> km_unwrap (vt_ops a) e' w' k' = km_unwrap (vt_ops a) e' w' k)"
    using a by (simp add: vt_ops_def vt_wrap_dek_def vt_unwrap_dek_def)
qed (auto simp: fun_eq_iff vt_ops_def vt_wrap_dek_def vt_unwrap_dek_def vt_destroy_entity_key_def split: if_splits)

text \<open>
  a vault over the transit engine decrypts what it encrypted: for a client that opens what it sealed under the same context, what is
  encrypted for an entity is decrypted to the plaintext, through base64, the ciphertext text and its UTF-8 bytes; once the entity is shredded,
  neither encrypting nor decrypting works for it, and other entities are not affected.
\<close>

theorem transit_vault_roundtrip:
  assumes "transit_ok c" and "aead_ok ae" and "vault_inv (vt_ops c) (\<lambda>_. True) s"
    and "length d = 32" "length n = 12" "length n' = 12"
    and "kv_encrypt (vt_ops c) ae d n n' e p ad s = (Inr blob, s1)"
  shows "kv_decrypt (vt_ops c) ae e blob ad s1 = Inr p
    \<and> (\<forall>now e'. case kv_shred (vt_ops c) now e' s1 of (r, s2) \<Rightarrow>
        (py_strip e' = py_strip e \<longrightarrow> (\<exists>x. kv_decrypt (vt_ops c) ae e blob ad s2 = Inl x) \<and> (\<exists>x. fst (kv_provision (vt_ops c) d n e s2) = Inl x))
        \<and> (py_strip e' \<noteq> py_strip e \<longrightarrow> kv_decrypt (vt_ops c) ae e blob ad s2 = Inr p))"
proof -
  note r = transit.encrypt_decrypt [OF assms]
  have "case kv_shred (vt_ops c) now e' s1 of (r, s2) \<Rightarrow>
        (py_strip e' = py_strip e \<longrightarrow> (\<exists>x. kv_decrypt (vt_ops c) ae e blob ad s2 = Inl x) \<and> (\<exists>x. fst (kv_provision (vt_ops c) d n e s2) = Inl x))
        \<and> (py_strip e' \<noteq> py_strip e \<longrightarrow> kv_decrypt (vt_ops c) ae e blob ad s2 = Inr p)" for now e'
  proof -
    obtain q s2 where sh: "kv_shred (vt_ops c) now e' s1 = (q, s2)" by fastforce
    have "py_strip e' \<in> set (kv_kms s2)" using transit.shred_keeps [OF sh] by (metis fun_upd_same)
    then have "(\<exists>x. kv_decrypt (vt_ops c) ae e blob ad s2 = Inl x) \<and> (\<exists>x. fst (kv_provision (vt_ops c) d n e s2) = Inl x)"
      if "py_strip e' = py_strip e"
      using transit.dead_entity_fails [where s = s2 and e = e and a = c] that by auto
    moreover have "kv_decrypt (vt_ops c) ae e blob ad s2 = Inr p" if ne: "py_strip e' \<noteq> py_strip e"
      using conjunct2 [OF r] sh ne
      by (auto simp: kv_shred_def Let_def kv_decrypt_def vt_ops_def vt_unwrap_dek_def vt_destroy_entity_key_def
          split: if_splits option.splits)
    ultimately show ?thesis using sh by simp
  qed
  then show ?thesis using conjunct2 [OF r] by (intro conjI allI)
qed

definition demo_transit :: transit_client where
  "demo_transit = \<lparr>tc_encrypt = (\<lambda>p x. Inr (''vault:v1:'' @ p)), tc_decrypt = (\<lambda>w x. Inr (drop 9 w))\<rparr>"

lemma transit_vault_roundtrip_witness:
  "\<exists>blob s1. kv_encrypt (vt_ops demo_transit) demo_aead (replicate 32 1) (replicate 12 2) (replicate 12 3) ''eve'' [1, 2] [] (kv_init []) = (Inr blob, s1)
    \<and> kv_decrypt (vt_ops demo_transit) demo_aead ''eve'' blob [] s1 = Inr [1, 2]"
proof -
  have t: "transit_ok demo_transit" by (simp add: transit_ok_def demo_transit_def)
  have i: "vault_inv (vt_ops demo_transit) (\<lambda>_. True) (kv_init [])" by (simp add: vault_inv_def kv_init_def)
  have st: "py_strip ''eve'' = ''eve''" by code_simp
  obtain blob s1 where e: "kv_encrypt (vt_ops demo_transit) demo_aead (replicate 32 1) (replicate 12 2) (replicate 12 3) ''eve'' [1, 2] [] (kv_init []) = (Inr blob, s1)"
    by (simp add: kv_encrypt_def kv_provision_def kv_init_def st vt_ops_def vt_wrap_dek_def demo_transit_def Let_def)
  have len: "length (replicate 32 (1 :: byte)) = 32" "length (replicate 12 (2 :: byte)) = 12" "length (replicate 12 (3 :: byte)) = 12" by simp_all
  from e conjunct1 [OF transit_vault_roundtrip [OF t demo_aead_ok i len e]] show ?thesis by (intro exI conjI)
qed

end
