(* ===== verification/Metrics.thy ===== *)
theory Metrics
  imports Prelude Complex_Main
begin

text \<open>
  \<open>api/metrics.py\<close>: the registry of counters, gauges and timers of a process, its snapshot and its text format. Floats are rational numbers; how
  they are written is a parameter (\<open>fl\<close> with a number of digits, \<open>fs\<close> as Python prints them). The service counts on its own
  fields (\<open>sv_counters\<close>) what it counts here.
\<close>

section \<open>The registry\<close>

record timer_agg =
  ta_count :: int
  ta_total_ms :: rat
  ta_max_ms :: rat

definition ta_new :: timer_agg where
  "ta_new = \<lparr>ta_count = 0, ta_total_ms = 0, ta_max_ms = 0\<rparr>"

definition ta_observe :: "rat \<Rightarrow> timer_agg \<Rightarrow> timer_agg" where
  "ta_observe ms t = \<lparr>ta_count = ta_count t + 1, ta_total_ms = ta_total_ms t + ms, ta_max_ms = (if ta_max_ms t < ms then ms else ta_max_ms t)\<rparr>"

definition ta_mean_ms :: "timer_agg \<Rightarrow> rat" where
  "ta_mean_ms t = (if ta_count t \<noteq> 0 then ta_total_ms t / of_int (ta_count t) else 0)"

record metrics =
  mx_counters :: "(string, rat) dict"
  mx_timers :: "(string, timer_agg) dict"
  mx_gauges :: "(string, rat) dict"
  mx_started_unix :: rat

definition mx_new :: "rat \<Rightarrow> metrics" where
  "mx_new now = \<lparr>mx_counters = [], mx_timers = [], mx_gauges = [], mx_started_unix = now\<rparr>"

definition mx_inc :: "string \<Rightarrow> rat \<Rightarrow> metrics \<Rightarrow> metrics" where
  "mx_inc k n m = m\<lparr>mx_counters := dset k ((case dget (mx_counters m) k of None \<Rightarrow> 0 | Some v \<Rightarrow> v) + n) (mx_counters m)\<rparr>"

definition mx_set_gauge :: "string \<Rightarrow> rat \<Rightarrow> metrics \<Rightarrow> metrics" where
  "mx_set_gauge k v m = m\<lparr>mx_gauges := dset k v (mx_gauges m)\<rparr>"

definition mx_observe_ms :: "string \<Rightarrow> rat \<Rightarrow> metrics \<Rightarrow> metrics" where
  "mx_observe_ms k ms m =
    m\<lparr>mx_timers := dset k (ta_observe ms (case dget (mx_timers m) k of None \<Rightarrow> ta_new | Some t \<Rightarrow> t)) (mx_timers m)\<rparr>"

text \<open>The context manager: what it measures is observed also when its body raised, and the exception goes on.\<close>

definition time_block :: "string \<Rightarrow> rat \<Rightarrow> rat \<Rightarrow> 'a res \<Rightarrow> metrics \<Rightarrow> 'a res \<times> metrics" where
  "time_block k t0 t1 result m = (result, mx_observe_ms k ((t1 - t0) * 1000) m)"

record timer_stats =
  ts_count :: int
  ts_total_ms :: rat
  ts_mean_ms :: rat
  ts_max_ms :: rat

record metrics_snapshot =
  ss_uptime_s :: rat
  ss_counters :: "(string, rat) dict"
  ss_gauges :: "(string, rat) dict"
  ss_timers_ms :: "(string, timer_stats) dict"

definition stats_of :: "timer_agg \<Rightarrow> timer_stats" where
  "stats_of t = \<lparr>ts_count = ta_count t, ts_total_ms = ta_total_ms t, ts_mean_ms = ta_mean_ms t, ts_max_ms = ta_max_ms t\<rparr>"

definition mx_snapshot :: "rat \<Rightarrow> metrics \<Rightarrow> metrics_snapshot" where
  "mx_snapshot now m = \<lparr>ss_uptime_s = now - mx_started_unix m, ss_counters = mx_counters m, ss_gauges = mx_gauges m,
     ss_timers_ms = map (\<lambda>(k, t). (k, stats_of t)) (mx_timers m)\<rparr>"

section \<open>The text format\<close>

definition prom_name :: "string \<Rightarrow> string" where
  "prom_name = map (\<lambda>c. if c = CHR ''.'' \<or> c = CHR ''-'' then CHR ''_'' else c)"

definition counter_line :: "(rat \<Rightarrow> string) \<Rightarrow> string \<times> rat \<Rightarrow> string" where
  "counter_line fs = (\<lambda>(k, v). ''hnsw_healer_'' @ prom_name k @ ''_total '' @ fs v)"

definition gauge_line :: "(rat \<Rightarrow> string) \<Rightarrow> string \<times> rat \<Rightarrow> string" where
  "gauge_line fs = (\<lambda>(k, v). ''hnsw_healer_'' @ prom_name k @ '' '' @ fs v)"

definition timer_lines :: "(nat \<Rightarrow> rat \<Rightarrow> string) \<Rightarrow> string \<times> timer_stats \<Rightarrow> string list" where
  "timer_lines fl = (\<lambda>(k, t). let p = ''hnsw_healer_'' @ prom_name k in
     [p @ ''_count '' @ int_str (ts_count t), p @ ''_sum_ms '' @ fl 6 (ts_total_ms t), p @ ''_max_ms '' @ fl 6 (ts_max_ms t)])"

definition prometheus_lines :: "(nat \<Rightarrow> rat \<Rightarrow> string) \<Rightarrow> (rat \<Rightarrow> string) \<Rightarrow> metrics_snapshot \<Rightarrow> string list" where
  "prometheus_lines fl fs snap =
    [''# HELP hnsw_healer_info HNSW Healer process metrics'', ''# TYPE hnsw_healer_info gauge'', ''hnsw_healer_info{version=\"0.3.0\"} 1'',
     ''hnsw_healer_uptime_seconds '' @ fl 3 (ss_uptime_s snap)]
    @ map (counter_line fs) (sort_key fst (ss_counters snap)) @ map (gauge_line fs) (sort_key fst (ss_gauges snap))
    @ concat (map (timer_lines fl) (sort_key fst (ss_timers_ms snap)))"

definition prometheus_text :: "(nat \<Rightarrow> rat \<Rightarrow> string) \<Rightarrow> (rat \<Rightarrow> string) \<Rightarrow> rat \<Rightarrow> metrics \<Rightarrow> string" where
  "prometheus_text fl fs now m = join_with [CHR 0x0A] (prometheus_lines fl fs (mx_snapshot now m)) @ [CHR 0x0A]"

section \<open>What a timer says\<close>

text \<open>After observing some times: their number, their sum, and their maximum, or zero when none is positive.\<close>

lemma observed:
  "foldl (\<lambda>t x. ta_observe x t) t0 xs = \<lparr>ta_count = ta_count t0 + int (length xs), ta_total_ms = ta_total_ms t0 + sum_list xs,
     ta_max_ms = foldl max (ta_max_ms t0) xs\<rparr>"
  by (induction xs arbitrary: t0) (simp_all add: ta_observe_def max_def)

lemma observe_many:
  "xs \<noteq> [] \<Longrightarrow> dget (mx_timers (foldl (\<lambda>m x. mx_observe_ms k x m) m xs)) k
     = Some (foldl (\<lambda>t x. ta_observe x t) (case dget (mx_timers m) k of None \<Rightarrow> ta_new | Some t \<Rightarrow> t) xs)"
proof (induction xs arbitrary: m)
  case (Cons x xs)
  show ?case
  proof (cases "xs = []")
    case False
    from Cons.IH [OF this, of "mx_observe_ms k x m"] show ?thesis by (simp add: mx_observe_ms_def)
  qed (simp add: mx_observe_ms_def)
qed simp

lemma foldl_max_bound: "(\<forall>x\<in>set xs. x \<le> foldl max a xs) \<and> (a :: rat) \<le> foldl max a xs"
  by (induction xs arbitrary: a) (auto, meson max.cobounded2 order_trans, meson max.cobounded1 order_trans)

lemma sum_list_le: "\<forall>x\<in>set xs. x \<le> (b :: rat) \<Longrightarrow> sum_list xs \<le> of_nat (length xs) * b"
proof (induction xs)
  case (Cons a xs)
  then have "sum_list xs \<le> of_nat (length xs) * b" and "a \<le> b" by simp_all
  then show ?case by (simp add: algebra_simps)
qed simp

lemma mean_le_max:
  assumes "xs \<noteq> []" and "dget (mx_timers m) k = None"
    and "dget (mx_timers (foldl (\<lambda>m x. mx_observe_ms k x m) m xs)) k = Some t"
  shows "ta_count t = int (length xs) \<and> ta_total_ms t = sum_list xs \<and> ta_mean_ms t \<le> ta_max_ms t"
proof -
  have t: "t = \<lparr>ta_count = int (length xs), ta_total_ms = sum_list xs, ta_max_ms = foldl max 0 xs\<rparr>"
    using observe_many [OF assms(1), of k m] assms(2,3) by (simp add: observed ta_new_def)
  have "sum_list xs \<le> of_nat (length xs) * foldl max 0 xs" using foldl_max_bound [of xs 0] by (intro sum_list_le) blast
  then have "sum_list xs / of_nat (length xs) \<le> foldl max 0 xs" using assms(1) by (simp add: divide_le_eq mult.commute)
  then show ?thesis using assms(1) unfolding t by (simp add: ta_mean_ms_def)
qed

text \<open>Different names can have one series: the two counters below are written as two samples of one name.\<close>

lemma names_collide:
  "map (counter_line fs) (sort_key fst [(''a.b'', 1), (''a-b'', 2)]) = [''hnsw_healer_a_b_total '' @ fs 2, ''hnsw_healer_a_b_total '' @ fs 1]"
  by (simp add: counter_line_def prom_name_def)

end
