(* ===== verification/JsonText.thy ===== *)
theory JsonText
  imports CompactPolicy
begin

text \<open>
  The text of JSON values, as \<open>json.dumps\<close> with compact separators writes it and \<open>json.loads\<close> reads it. The files of the program are written
  this way; the receipt log is modelled on this text. How a float is written and read is a parameter (\<open>fl\<close>, \<open>pf\<close>); \<open>NaN\<close>,
  infinities, escapes beyond Latin-1, nesting beyond the stack and integers of more than 4300 digits are outside the model, and a \<open>JSONDecodeError\<close> (a \<open>ValueError\<close>) has its position left out.
\<close>

section \<open>Writing\<close>

definition esc_char :: "char \<Rightarrow> string" where
  "esc_char c = (let n = of_char c :: nat in
     if n = 34 \<or> n = 92 then [CHR 0x5C, c]
     else if n = 8 then [CHR 0x5C, CHR ''b'']
     else if n = 9 then [CHR 0x5C, CHR ''t'']
     else if n = 10 then [CHR 0x5C, CHR ''n'']
     else if n = 12 then [CHR 0x5C, CHR ''f'']
     else if n = 13 then [CHR 0x5C, CHR ''r'']
     else if n < 32 \<or> 126 < n then [CHR 0x5C, CHR ''u'', CHR ''0'', CHR ''0'', hex_digit (n div 16), hex_digit (n mod 16)]
     else [c])"

definition json_str :: "string \<Rightarrow> string" where
  "json_str s = [CHR 0x22] @ concat (map esc_char s) @ [CHR 0x22]"

fun dumps :: "(64 word \<Rightarrow> string) \<Rightarrow> json \<Rightarrow> string" where
  "dumps fl JNull = ''null''"
| "dumps fl (JBool b) = (if b then ''true'' else ''false'')"
| "dumps fl (JInt i) = int_str i"
| "dumps fl (JFloat x) = fl x"
| "dumps fl (JStr s) = json_str s"
| "dumps fl (JList xs) = ''['' @ join_with '','' (map (dumps fl) xs) @ '']''"
| "dumps fl (JObj kvs) = ''{'' @ join_with '','' (map (\<lambda>kv. json_str (fst kv) @ '':'' @ dumps fl (snd kv)) kvs) @ ''}''"

section \<open>Reading\<close>

definition decode_error :: exn where
  "decode_error = ValueError ''JSONDecodeError''"

definition out_of_fuel :: exn where
  "out_of_fuel = OtherError ''out of fuel''"

definition skip_ws :: "string \<Rightarrow> string" where
  "skip_ws = dropWhile (\<lambda>c. c = CHR '' '' \<or> c = CHR 0x09 \<or> c = CHR 0x0A \<or> c = CHR 0x0D)"

definition hex_val :: "char \<Rightarrow> nat option" where
  "hex_val c = (let n = of_char c :: nat in
     if 48 \<le> n \<and> n \<le> 57 then Some (n - 48) else if 97 \<le> n \<and> n \<le> 102 then Some (n - 87)
     else if 65 \<le> n \<and> n \<le> 70 then Some (n - 55) else None)"

definition unescape :: "char \<Rightarrow> char option" where
  "unescape c = (if c = CHR 0x22 \<or> c = CHR 0x5C \<or> c = CHR ''/'' then Some c
     else if c = CHR ''b'' then Some (CHR 0x08) else if c = CHR ''t'' then Some (CHR 0x09)
     else if c = CHR ''n'' then Some (CHR 0x0A) else if c = CHR ''f'' then Some (CHR 0x0C)
     else if c = CHR ''r'' then Some (CHR 0x0D) else None)"

definition hex4 :: "char \<Rightarrow> char \<Rightarrow> char \<Rightarrow> char \<Rightarrow> nat option" where
  "hex4 a b c d = (case (hex_val a, hex_val b, hex_val c, hex_val d) of
     (Some w, Some x, Some y, Some z) \<Rightarrow> Some (((w * 16 + x) * 16 + y) * 16 + z) | _ \<Rightarrow> None)"

text \<open>The characters of a string after its opening quote, and the rest.\<close>

fun json_chars :: "string \<Rightarrow> (string \<times> string) res" where
  "json_chars [] = Inl decode_error"
| "json_chars (c # r) =
    (if c = CHR 0x22 then Inr ([], r)
     else if c = CHR 0x5C then
       (case r of
          [] \<Rightarrow> Inl decode_error
        | e # r1 \<Rightarrow>
            (case unescape e of
               Some d \<Rightarrow> map_sum id (apfst (Cons d)) (json_chars r1)
             | None \<Rightarrow>
                 if e \<noteq> CHR ''u'' then Inl decode_error
                 else case r1 of
                   h1 # h2 # h3 # h4 # r2 \<Rightarrow>
                     (case hex4 h1 h2 h3 h4 of
                        None \<Rightarrow> Inl decode_error
                      | Some n \<Rightarrow> if 256 \<le> n then Inl Unmodelled else map_sum id (apfst (Cons (char_of n))) (json_chars r2))
                 | _ \<Rightarrow> Inl decode_error))
     else if (of_char c :: nat) < 32 then Inl decode_error
     else map_sum id (apfst (Cons c)) (json_chars r))"

text \<open>Numbers: an integer part, a fraction and an exponent, each as long as it goes.\<close>

definition scan_digits :: "string \<Rightarrow> string \<times> string" where
  "scan_digits s = (takeWhile is_digit s, dropWhile is_digit s)"

definition minus_first :: "string \<Rightarrow> bool" where
  "minus_first s \<longleftrightarrow> s \<noteq> [] \<and> hd s = CHR ''-''"

definition after_minus :: "string \<Rightarrow> string" where
  "after_minus s = (if minus_first s then tl s else s)"

definition scan_int :: "string \<Rightarrow> (bool \<times> string \<times> string) option" where
  "scan_int s =
    (case after_minus s of
       [] \<Rightarrow> None
     | c # r \<Rightarrow>
         if c = CHR ''0'' then Some (minus_first s, [c], r)
         else if is_digit c then Some (minus_first s, fst (scan_digits (c # r)), snd (scan_digits (c # r)))
         else None)"

definition scan_frac :: "string \<Rightarrow> string \<times> string" where
  "scan_frac s = (case s of
     c # r \<Rightarrow> if c = CHR ''.'' \<and> fst (scan_digits r) \<noteq> [] then (c # fst (scan_digits r), snd (scan_digits r)) else ([], s)
   | [] \<Rightarrow> ([], s))"

definition exp_sign :: "string \<Rightarrow> string" where
  "exp_sign r = (if r \<noteq> [] \<and> (hd r = CHR ''+'' \<or> hd r = CHR ''-'') then [hd r] else [])"

definition scan_exp :: "string \<Rightarrow> string \<times> string" where
  "scan_exp s = (case s of
     c # r \<Rightarrow>
       if (c = CHR ''e'' \<or> c = CHR ''E'') \<and> fst (scan_digits (drop (length (exp_sign r)) r)) \<noteq> []
       then (c # exp_sign r @ fst (scan_digits (drop (length (exp_sign r)) r)), snd (scan_digits (drop (length (exp_sign r)) r)))
       else ([], s)
   | [] \<Rightarrow> ([], s))"

definition json_number :: "(string \<Rightarrow> 64 word) \<Rightarrow> string \<Rightarrow> (json \<times> string) res" where
  "json_number pf s =
    (case scan_int s of
       None \<Rightarrow> Inl (if 2 \<le> length s \<and> take 2 s = ''-I'' then Unmodelled else decode_error)
     | Some (neg, ds, r) \<Rightarrow>
         (let (fr, r1) = scan_frac r; (ex, r2) = scan_exp r1
          in if fr = [] \<and> ex = [] then Inr (JInt ((if neg then -1 else 1) * int (digits_val ds)), r2)
             else Inr (JFloat (pf ((if neg then ''-'' else []) @ ds @ fr @ ex)), r2)))"

definition literal :: "string \<Rightarrow> json \<Rightarrow> string \<Rightarrow> (json \<times> string) res" where
  "literal w j s = (if take (length w) s = w then Inr (j, drop (length w) s) else Inl decode_error)"

text \<open>Pairs become a dict: the place of the first, the value of the last of equal keys.\<close>

definition build_obj :: "(string \<times> json) list \<Rightarrow> json" where
  "build_obj kvs = JObj (foldl (\<lambda>d kv. dset (fst kv) (snd kv) d) [] kvs)"

text \<open>The recursive descent; every call that is not for a shorter text is followed by one that is, so fuel of twice the length is enough.\<close>

fun json_value :: "(string \<Rightarrow> 64 word) \<Rightarrow> nat \<Rightarrow> string \<Rightarrow> (json \<times> string) res"
  and json_elements :: "(string \<Rightarrow> 64 word) \<Rightarrow> nat \<Rightarrow> string \<Rightarrow> (json list \<times> string) res"
  and json_members :: "(string \<Rightarrow> 64 word) \<Rightarrow> nat \<Rightarrow> string \<Rightarrow> ((string \<times> json) list \<times> string) res" where
  "json_value pf 0 s = Inl out_of_fuel"
| "json_value pf (Suc n) s =
    (case s of
       [] \<Rightarrow> Inl decode_error
     | c # r \<Rightarrow>
         if c = CHR 0x22 then map_sum id (apfst JStr) (json_chars r)
         else if c = CHR ''{'' then
           (case skip_ws r of
              [] \<Rightarrow> Inl decode_error
            | d # r1 \<Rightarrow> if d = CHR ''}'' then Inr (JObj [], r1) else map_sum id (apfst build_obj) (json_members pf n (d # r1)))
         else if c = CHR ''['' then
           (case skip_ws r of
              [] \<Rightarrow> Inl decode_error
            | d # r1 \<Rightarrow> if d = CHR '']'' then Inr (JList [], r1) else map_sum id (apfst JList) (json_elements pf n (d # r1)))
         else if c = CHR ''n'' then literal ''null'' JNull s
         else if c = CHR ''t'' then literal ''true'' (JBool True) s
         else if c = CHR ''f'' then literal ''false'' (JBool False) s
         else if c = CHR ''N'' \<or> c = CHR ''I'' then Inl Unmodelled
         else json_number pf s)"
| "json_elements pf 0 s = Inl out_of_fuel"
| "json_elements pf (Suc n) s =
    bind_res (json_value pf n s) (\<lambda>(v, r).
      case skip_ws r of
        [] \<Rightarrow> Inl decode_error
      | d # r1 \<Rightarrow>
          if d = CHR '']'' then Inr ([v], r1)
          else if d = CHR '','' then map_sum id (apfst (Cons v)) (json_elements pf n (skip_ws r1))
          else Inl decode_error)"
| "json_members pf 0 s = Inl out_of_fuel"
| "json_members pf (Suc n) s =
    (case s of
       [] \<Rightarrow> Inl decode_error
     | c # r \<Rightarrow>
         if c \<noteq> CHR 0x22 then Inl decode_error
         else bind_res (json_chars r) (\<lambda>(k, r1).
           case skip_ws r1 of
             [] \<Rightarrow> Inl decode_error
           | d # r2 \<Rightarrow>
               if d \<noteq> CHR '':'' then Inl decode_error
               else bind_res (json_value pf n (skip_ws r2)) (\<lambda>(v, r3).
                 case skip_ws r3 of
                   [] \<Rightarrow> Inl decode_error
                 | e # r4 \<Rightarrow>
                     if e = CHR ''}'' then Inr ([(k, v)], r4)
                     else if e = CHR '','' then map_sum id (apfst (Cons (k, v))) (json_members pf n (skip_ws r4))
                     else Inl decode_error)))"

definition loads :: "(string \<Rightarrow> 64 word) \<Rightarrow> string \<Rightarrow> json res" where
  "loads pf s =
    bind_res (json_value pf (2 * length s + 1) (skip_ws s)) (\<lambda>(v, r). if skip_ws r = [] then Inr v else Inl decode_error)"

section \<open>Strings and numbers read back\<close>

lemma char_code: "(of_char c :: nat) = n \<Longrightarrow> c = char_of n"
  by auto

lemma code_bound: "\<not> 256 \<le> (of_char c :: nat)"
  using nat_of_char_less_256 [of c] by linarith

lemma hex_digits: "d < 16 \<Longrightarrow> hex_val (hex_digit d) = Some d \<and> 32 \<le> (of_char (hex_digit d) :: nat) \<and> (of_char (hex_digit d) :: nat) < 127"
  by (auto simp: hex_val_def hex_digit_def Let_def)

lemma esc_u: "hex4 (CHR ''0'') (CHR ''0'') (hex_digit (of_char c div 16)) (hex_digit (of_char c mod 16)) = Some (of_char c)"
proof -
  have z: "hex_val (CHR ''0'') = Some 0" by code_simp
  have "(of_char c :: nat) div 16 < 16" using code_bound [of c] by linarith
  then show ?thesis using hex_digits [of "of_char c div 16"] hex_digits [of "of_char c mod 16"] by (simp add: hex4_def z)
qed

lemma esc_cases:
  obtains (plain) "esc_char c = [c]" "c \<noteq> CHR 0x22" "c \<noteq> CHR 0x5C" "\<not> (of_char c :: nat) < 32"
  | (short) e where "esc_char c = [CHR 0x5C, e]" "unescape e = Some c"
  | (hex) h1 h2 h3 h4 where "esc_char c = [CHR 0x5C, CHR ''u'', h1, h2, h3, h4]" "hex4 h1 h2 h3 h4 = Some (of_char c)"
proof -
  have u: "unescape (CHR 0x22) = Some (CHR 0x22)" "unescape (CHR 0x5C) = Some (CHR 0x5C)" "unescape (CHR ''b'') = Some (CHR 0x08)"
    "unescape (CHR ''t'') = Some (CHR 0x09)" "unescape (CHR ''n'') = Some (CHR 0x0A)" "unescape (CHR ''f'') = Some (CHR 0x0C)"
    "unescape (CHR ''r'') = Some (CHR 0x0D)" by code_simp+
  let ?n = "of_char c :: nat"
  have c: "?n = 34 \<Longrightarrow> c = CHR 0x22" "?n = 92 \<Longrightarrow> c = CHR 0x5C" "?n = 8 \<Longrightarrow> c = CHR 0x08" "?n = 9 \<Longrightarrow> c = CHR 0x09"
    "?n = 10 \<Longrightarrow> c = CHR 0x0A" "?n = 12 \<Longrightarrow> c = CHR 0x0C" "?n = 13 \<Longrightarrow> c = CHR 0x0D"
    by (drule char_code, simp, code_simp)+
  consider "?n \<in> {34, 92, 8, 9, 10, 12, 13}" | "?n \<notin> {34, 92, 8, 9, 10, 12, 13}" "?n < 32 \<or> 126 < ?n"
    | "?n \<notin> {34, 92, 8, 9, 10, 12, 13}" "\<not> ?n < 32" "\<not> 126 < ?n" by blast
  then show thesis
  proof cases
    case 1
    then show ?thesis using c u by (intro short [of "last (esc_char c)"]) (auto simp: esc_char_def)
  next
    case 2
    then show ?thesis using esc_u [of c] by (intro hex) (auto simp: esc_char_def Let_def)
  next
    case 3
    then show ?thesis by (intro plain) (auto simp: esc_char_def)
  qed
qed

definition printable :: "char \<Rightarrow> bool" where
  "printable c = (let n = of_char c :: nat in 32 \<le> n \<and> n < 127)"

lemma esc_printable: "list_all printable (esc_char c)"
proof -
  have "(of_char c :: nat) div 16 < 16" using code_bound [of c] by linarith
  then show ?thesis
    using hex_digits [of "of_char c div 16"] hex_digits [of "of_char c mod 16"] by (auto simp: esc_char_def printable_def Let_def)
qed

lemma json_chars_esc: "json_chars (esc_char c @ s) = map_sum id (apfst (Cons c)) (json_chars s)"
proof -
  have u: "unescape (CHR ''u'') = None" by code_simp
  show ?thesis by (cases c rule: esc_cases) (use code_bound [of c] in \<open>simp_all add: u\<close>)
qed

lemma json_chars_str: "json_chars (concat (map esc_char s) @ [CHR 0x22] @ r) = Inr (s, r)"
  by (induction s) (simp_all add: json_chars_esc)

lemma digit_char_digit: "d < 10 \<Longrightarrow> is_digit (digit_char d) \<and> of_char (digit_char d) - 48 = d"
  by (auto simp: is_digit_def digit_char_def Let_def)

lemma digits_val_snoc: "digits_val (ds @ [c]) = 10 * digits_val ds + (of_char c - 48)"
  by (simp add: digits_val_def)

lemma nat_str_digits: "list_all is_digit (nat_str n) \<and> nat_str n \<noteq> [] \<and> digits_val (nat_str n) = n \<and> (0 < n \<longrightarrow> hd (nat_str n) \<noteq> CHR ''0'')"
proof (induction n rule: nat_str.induct)
  case (1 n)
  show ?case
  proof (cases "n < 10")
    case True
    then have "nat_str n = [digit_char n]" by (subst nat_str.simps) simp
    moreover have "digit_char n \<noteq> CHR ''0''" if "0 < n"
    proof
      assume "digit_char n = CHR ''0''"
      then have "(of_char (digit_char n) :: nat) = 48" by simp
      then show False using True that by (simp add: digit_char_def)
    qed
    ultimately show ?thesis using True digit_char_digit [of n] by (simp add: digits_val_def)
  next
    case False
    then have e: "nat_str n = nat_str (n div 10) @ [digit_char (n mod 10)]" by (subst nat_str.simps) simp
    show ?thesis using 1 [OF False] False digit_char_digit [of "n mod 10"] unfolding e by (simp add: digits_val_snoc)
  qed
qed

text \<open>After a number of a text stands its end, a comma or a bracket.\<close>

definition number_ends :: "string \<Rightarrow> bool" where
  "number_ends r \<longleftrightarrow> r = [] \<or> \<not> is_digit (hd r) \<and> hd r \<noteq> CHR ''.'' \<and> hd r \<noteq> CHR ''e'' \<and> hd r \<noteq> CHR ''E''"

lemma scan_digits_append:
  "list_all is_digit ds \<Longrightarrow> r = [] \<or> \<not> is_digit (hd r) \<Longrightarrow> scan_digits (ds @ r) = (ds, r)"
  by (cases r) (auto simp: scan_digits_def list_all_iff takeWhile_append dropWhile_append)

lemma no_frac_exp: "number_ends r \<Longrightarrow> scan_frac r = ([], r) \<and> scan_exp r = ([], r)"
  by (cases r) (auto simp: number_ends_def scan_frac_def scan_exp_def)

lemma scan_int_str:
  assumes "r = [] \<or> \<not> is_digit (hd r)"
  shows "scan_int (int_str i @ r) = Some (i < 0, nat_str (nat \<bar>i\<bar>), r)"
proof -
  let ?n = "nat \<bar>i\<bar>"
  note d = nat_str_digits [of ?n]
  have i: "int_str i = (if i < 0 then ''-'' else []) @ nat_str ?n" by (simp add: int_str_def)
  obtain c cs where c: "nat_str ?n = c # cs" using d by (cases "nat_str ?n") auto
  have cd: "is_digit c" "list_all is_digit cs" using d c by simp_all
  have m: "c \<noteq> CHR ''-''" using cd(1) by (auto simp: is_digit_def)
  have z: "cs = []" if "c = CHR ''0''"
  proof -
    have "?n = 0" using d c that by auto
    moreover have "nat_str 0 = [digit_char 0]" by (subst nat_str.simps) simp
    ultimately show ?thesis using c by simp
  qed
  have g: "scan_digits (c # cs @ r) = (c # cs, r)" using scan_digits_append [of "c # cs" r] cd assms by simp
  have "after_minus (int_str i @ r) = c # cs @ r" "minus_first (int_str i @ r) = (i < 0)" using m by (simp_all add: i c after_minus_def minus_first_def)
  then show ?thesis using z cd(1) g by (simp add: scan_int_def c)
qed

lemma json_number_int: "number_ends r \<Longrightarrow> json_number pf (int_str i @ r) = Inr (JInt i, r)"
  using scan_int_str [of r i] no_frac_exp [of r] nat_str_digits [of "nat \<bar>i\<bar>"]
  by (auto simp: json_number_def number_ends_def)

text \<open>A way to write a float that reads back, as Python writes finite floats.\<close>

definition float_text :: "(64 word \<Rightarrow> string) \<Rightarrow> (string \<Rightarrow> 64 word) \<Rightarrow> 64 word \<Rightarrow> bool" where
  "float_text fl pf x \<longleftrightarrow> list_all printable (fl x) \<and> fl x \<noteq> [] \<and> (is_digit (hd (fl x)) \<or> hd (fl x) = CHR ''-'')
     \<and> (\<forall>r. number_ends r \<longrightarrow> json_number pf (fl x @ r) = Inr (JFloat x, r))"

text \<open>Values that JSON has: floats that read back, and objects with distinct keys.\<close>

fun json_ok :: "(64 word \<Rightarrow> string) \<Rightarrow> (string \<Rightarrow> 64 word) \<Rightarrow> json \<Rightarrow> bool" where
  "json_ok fl pf (JFloat x) = float_text fl pf x"
| "json_ok fl pf (JList xs) = (\<forall>x\<in>set xs. json_ok fl pf x)"
| "json_ok fl pf (JObj kvs) = (distinct (map fst kvs) \<and> (\<forall>kv\<in>set kvs. json_ok fl pf (snd kv)))"
| "json_ok fl pf j = True"

lemma build_distinct: "distinct (map fst kvs) \<Longrightarrow> build_obj kvs = JObj kvs"
proof -
  have "distinct (map fst (d @ kvs)) \<Longrightarrow> foldl (\<lambda>d kv. dset (fst kv) (snd kv) d) d kvs = d @ kvs" for d :: "(string \<times> json) list"
  proof (induction kvs arbitrary: d)
    case (Cons kv kvs)
    have "dget d (fst kv) = None" using Cons.prems by (auto simp: dget_def map_of_eq_None_iff)
    then show ?case using Cons by (simp add: dset_new)
  qed simp
  from this [of "[]"] show "distinct (map fst kvs) \<Longrightarrow> build_obj kvs = JObj kvs" by (simp add: build_obj_def)
qed

section \<open>The round trip\<close>

lemma skip_ws_id: "s = [] \<or> printable (hd s) \<and> hd s \<noteq> CHR '' '' \<Longrightarrow> skip_ws s = s"
  by (cases s) (auto simp: skip_ws_def printable_def)

lemma skip_ws_append: "skip_ws r = d # r1 \<Longrightarrow> skip_ws (r @ x) = d # r1 @ x"
  by (induction r) (auto simp: skip_ws_def split: if_splits)

lemma skip_ws_length: "length (skip_ws r) \<le> length r"
  by (simp add: skip_ws_def length_dropWhile_le)

lemma digit_printable: "is_digit c \<Longrightarrow> printable c \<and> c \<noteq> CHR '' ''"
  by (auto simp: is_digit_def printable_def Let_def)

lemma int_str_start: "is_digit (hd (int_str i)) \<or> hd (int_str i) = CHR ''-''" "int_str i \<noteq> []" "list_all printable (int_str i)"
proof -
  have p: "printable (CHR ''-'')" by code_simp
  note d = nat_str_digits [of "nat \<bar>i\<bar>"]
  have i: "int_str i = (if i < 0 then ''-'' else []) @ nat_str (nat \<bar>i\<bar>)" by (simp add: int_str_def)
  obtain c cs where c: "nat_str (nat \<bar>i\<bar>) = c # cs" using d by (cases "nat_str (nat \<bar>i\<bar>)") auto
  show "is_digit (hd (int_str i)) \<or> hd (int_str i) = CHR ''-''" "int_str i \<noteq> []" using d c by (auto simp: i)
  show "list_all printable (int_str i)" using d p digit_printable by (auto simp: i list_all_iff)
qed

lemma join_printable: "list_all printable sep \<Longrightarrow> \<forall>x\<in>set xs. list_all printable x \<Longrightarrow> list_all printable (join_with sep xs)"
  by (induction sep xs rule: join_with.induct) auto

lemma json_str_printable: "list_all printable (json_str s)"
proof -
  have "printable (CHR 0x22)" by code_simp
  moreover have "list_all printable (concat (map esc_char s))" by (induction s) (simp_all add: esc_printable)
  ultimately show ?thesis by (simp add: json_str_def)
qed

lemma dumps_printable: "json_ok fl pf j \<Longrightarrow> list_all printable (dumps fl j)"
proof (induction j)
  case JNull
  show ?case by code_simp
next
  case (JBool b)
  have "list_all printable ''true''" "list_all printable ''false''" by code_simp+
  then show ?case by simp
next
  case (JList xs)
  have p: "printable (CHR ''['')" "printable (CHR '']'')" "printable (CHR '','')" by code_simp+
  have "list_all printable (join_with '','' (map (dumps fl) xs))" using JList p by (intro join_printable) auto
  then show ?case using p by simp
next
  case (JObj kvs)
  have p: "printable (CHR ''{'')" "printable (CHR ''}'')" "printable (CHR '','')" "printable (CHR '':'')" by code_simp+
  have "list_all printable (json_str (fst kv) @ '':'' @ dumps fl (snd kv))" if "kv \<in> set kvs" for kv
    using JObj.IH [OF that, of "snd kv"] JObj.prems that p json_str_printable by (cases kv) auto
  then have "list_all printable (join_with '','' (map (\<lambda>kv. json_str (fst kv) @ '':'' @ dumps fl (snd kv)) kvs))"
    using p by (intro join_printable) auto
  then show ?case using p by simp
qed (simp_all add: int_str_start json_str_printable float_text_def)

lemma digit_not_start:
  "is_digit c \<or> c = CHR ''-'' \<Longrightarrow> c \<noteq> CHR 0x22 \<and> c \<noteq> CHR ''{'' \<and> c \<noteq> CHR ''['' \<and> c \<noteq> CHR '']'' \<and> c \<noteq> CHR ''n'' \<and> c \<noteq> CHR ''t''
    \<and> c \<noteq> CHR ''f'' \<and> c \<noteq> CHR ''N'' \<and> c \<noteq> CHR ''I''"
  by (auto simp: is_digit_def Let_def)

lemma dumps_start:
  assumes "json_ok fl pf j"
  shows "dumps fl j \<noteq> [] \<and> printable (hd (dumps fl j)) \<and> hd (dumps fl j) \<noteq> CHR '' '' \<and> hd (dumps fl j) \<noteq> CHR '']''"
proof -
  have ne: "dumps fl j \<noteq> []" using assms int_str_start(2) by (cases j) (auto simp: json_str_def float_text_def)
  then have p: "printable (hd (dumps fl j))" using dumps_printable [OF assms] by (cases "dumps fl j") auto
  have n: "c \<noteq> CHR '' '' \<and> c \<noteq> CHR '']''" if "is_digit c \<or> c = CHR ''-''" for c
  proof -
    have "c \<noteq> CHR '' ''" using that digit_printable [of c] by blast
    then show ?thesis using digit_not_start [OF that] by blast
  qed
  have i: "hd (int_str i) \<noteq> CHR '' '' \<and> hd (int_str i) \<noteq> CHR '']''" for i by (rule n) (rule int_str_start(1))
  have f: "hd (fl x) \<noteq> CHR '' '' \<and> hd (fl x) \<noteq> CHR '']''" if "float_text fl pf x" for x by (rule n) (use that in \<open>simp add: float_text_def\<close>)
  have "hd (dumps fl j) \<noteq> CHR '' '' \<and> hd (dumps fl j) \<noteq> CHR '']''"
    using assms by (cases j) (simp_all add: json_str_def i f)
  then show ?thesis using ne p by blast
qed

lemma skip_ws_dumps: "json_ok fl pf j \<Longrightarrow> skip_ws (dumps fl j @ r) = dumps fl j @ r"
  using dumps_start [of fl pf j] by (intro skip_ws_id) auto

lemma number_start:
  assumes "is_digit (hd s) \<or> hd s = CHR ''-''" and "s \<noteq> []"
  shows "json_value pf (Suc n) (s @ r) = json_number pf (s @ r)"
proof -
  obtain c t where s: "s = c # t" using assms(2) by (cases s) auto
  have "c \<noteq> CHR 0x22" "c \<noteq> CHR ''{''" "c \<noteq> CHR ''[''" "c \<noteq> CHR ''n''" "c \<noteq> CHR ''t''" "c \<noteq> CHR ''f''" "c \<noteq> CHR ''N''" "c \<noteq> CHR ''I''"
    using digit_not_start [of c] assms(1) s by auto
  then show ?thesis by (simp add: s)
qed

definition reads_back :: "(64 word \<Rightarrow> string) \<Rightarrow> (string \<Rightarrow> 64 word) \<Rightarrow> json \<Rightarrow> bool" where
  "reads_back fl pf j \<longleftrightarrow> (\<forall>n r. 2 * length (dumps fl j) < n \<longrightarrow> number_ends r \<longrightarrow> json_value pf n (dumps fl j @ r) = Inr (j, r))"

lemma reads_backD: "reads_back fl pf j \<Longrightarrow> 2 * length (dumps fl j) < n \<Longrightarrow> number_ends r \<Longrightarrow> json_value pf n (dumps fl j @ r) = Inr (j, r)"
  by (simp only: reads_back_def)

lemma reads_backI: "(\<And>m r. json_value pf (Suc m) (dumps fl j @ r) = Inr (j, r)) \<Longrightarrow> reads_back fl pf j"
  unfolding reads_back_def by (metis gr0_implies_Suc less_nat_zero_code neq0_conv)

lemma skip_ws_char: "c \<noteq> CHR '' '' \<Longrightarrow> printable c \<Longrightarrow> skip_ws (c # r) = c # r"
  by (rule skip_ws_id) simp

lemma punctuation: "printable (CHR '','')" "printable (CHR '']'')" "printable (CHR ''}'')" "printable (CHR '':'')" "printable (CHR 0x22)"
  "number_ends (CHR '','' # r)" "number_ends (CHR '']'' # r)" "number_ends (CHR ''}'' # r)"
proof -
  show "printable (CHR '','')" "printable (CHR '']'')" "printable (CHR ''}'')" "printable (CHR '':'')" "printable (CHR 0x22)" by code_simp+
  have "\<not> is_digit (CHR '','')" "\<not> is_digit (CHR '']'')" "\<not> is_digit (CHR ''}'')" by code_simp+
  then show "number_ends (CHR '','' # r)" "number_ends (CHR '']'' # r)" "number_ends (CHR ''}'' # r)" by (simp_all add: number_ends_def)
qed

lemma elements_dumps:
  assumes "xs \<noteq> []" and "\<forall>x\<in>set xs. reads_back fl pf x \<and> json_ok fl pf x" and "2 * length (join_with '','' (map (dumps fl) xs)) + 2 < n"
  shows "json_elements pf n (join_with '','' (map (dumps fl) xs) @ CHR '']'' # r) = Inr (xs, r)"
  using assms
proof (induction xs arbitrary: n)
  case (Cons x xs)
  obtain m where n: "n = Suc m" using Cons.prems(3) by (cases n) auto
  have x: "reads_back fl pf x" using Cons.prems(2) by simp
  show ?case
  proof (cases xs)
    case Nil
    have "2 * length (dumps fl x) < m" using Cons.prems(3) Nil n by simp
    then have "json_value pf m (dumps fl x @ CHR '']'' # r) = Inr (x, CHR '']'' # r)" using x punctuation by (simp add: reads_back_def)
    then show ?thesis using Nil n skip_ws_char punctuation by simp
  next
    case (Cons y ys)
    let ?t = "join_with '','' (map (dumps fl) xs)"
    have j: "join_with '','' (map (dumps fl) (x # xs)) = dumps fl x @ CHR '','' # ?t" using Cons by simp
    have b: "2 * length (dumps fl x) < m" "2 * length ?t + 2 < m" using Cons.prems(3) n unfolding j by simp_all
    have "json_value pf m (dumps fl x @ CHR '','' # ?t @ CHR '']'' # r) = Inr (x, CHR '','' # ?t @ CHR '']'' # r)"
      using x b(1) punctuation by (simp add: reads_back_def)
    moreover have "skip_ws (?t @ CHR '']'' # r) = ?t @ CHR '']'' # r"
    proof -
      have "?t = dumps fl y @ (if ys = [] then [] else CHR '','' # join_with '','' (map (dumps fl) ys))" using Cons by (cases ys) simp_all
      then show ?thesis using skip_ws_dumps [of fl pf y] Cons.prems(2) Cons by simp
    qed
    moreover have "json_elements pf m (?t @ CHR '']'' # r) = Inr (xs, r)" using Cons.IH [of m] Cons.prems(2) b(2) Cons by simp
    ultimately show ?thesis unfolding j n using skip_ws_char punctuation by simp
  qed
qed simp

abbreviation member_text :: "(64 word \<Rightarrow> string) \<Rightarrow> string \<times> json \<Rightarrow> string" where
  "member_text fl kv \<equiv> json_str (fst kv) @ '':'' @ dumps fl (snd kv)"

lemma member_dumps:
  assumes "reads_back fl pf v" and "json_ok fl pf v" and "2 * length (dumps fl v) < m" and "number_ends r"
  shows "json_members pf (Suc m) (member_text fl (k, v) @ r) =
    (case skip_ws r of
       [] \<Rightarrow> Inl decode_error
     | e # r4 \<Rightarrow> if e = CHR ''}'' then Inr ([(k, v)], r4)
               else if e = CHR '','' then map_sum id (apfst (Cons (k, v))) (json_members pf m (skip_ws r4)) else Inl decode_error)"
proof -
  have "json_chars (concat (map esc_char k) @ CHR 0x22 # CHR '':'' # dumps fl v @ r) = Inr (k, CHR '':'' # dumps fl v @ r)"
    using json_chars_str [of k "CHR '':'' # dumps fl v @ r"] by simp
  moreover have "json_value pf m (dumps fl v @ r) = Inr (v, r)" using assms(1,3,4) by (simp add: reads_back_def)
  ultimately show ?thesis
    using skip_ws_char [of "CHR '':''"] punctuation(4) skip_ws_dumps [OF assms(2)] by (simp add: json_str_def)
qed

lemma members_dumps:
  assumes "kvs \<noteq> []" and "\<forall>kv\<in>set kvs. reads_back fl pf (snd kv) \<and> json_ok fl pf (snd kv)"
    and "2 * length (join_with '','' (map (member_text fl) kvs)) + 2 < n"
  shows "json_members pf n (join_with '','' (map (member_text fl) kvs) @ CHR ''}'' # r) = Inr (kvs, r)"
  using assms
proof (induction kvs arbitrary: n)
  case (Cons kv kvs)
  obtain m where n: "n = Suc m" using Cons.prems(3) by (cases n) auto
  obtain k v where kv: "kv = (k, v)" by fastforce
  have v: "reads_back fl pf v" "json_ok fl pf v" using Cons.prems(2) kv by simp_all
  show ?case
  proof (cases kvs)
    case Nil
    have "2 * length (dumps fl v) < m" using Cons.prems(3) Nil n kv by simp
    from member_dumps [OF v this punctuation(8)] show ?thesis using Nil n kv skip_ws_char punctuation by simp
  next
    case (Cons y ys)
    let ?t = "join_with '','' (map (member_text fl) kvs)"
    have j: "join_with '','' (map (member_text fl) (kv # kvs)) = member_text fl (k, v) @ CHR '','' # ?t" using Cons kv by simp
    have b: "2 * length (dumps fl v) < m" "2 * length ?t + 2 < m" using Cons.prems(3) n unfolding j by simp_all
    have "\<exists>t. ?t = CHR 0x22 # t" using Cons by (cases ys) (simp_all add: json_str_def)
    then have "skip_ws (?t @ CHR ''}'' # r) = ?t @ CHR ''}'' # r" using skip_ws_char [of "CHR 0x22"] punctuation(5) by auto
    moreover have "json_members pf m (?t @ CHR ''}'' # r) = Inr (kvs, r)" using Cons.IH [of m] Cons.prems(2) b(2) Cons by simp
    moreover have "json_members pf n (join_with '','' (map (member_text fl) (kv # kvs)) @ CHR ''}'' # r)
        = json_members pf (Suc m) (member_text fl (k, v) @ (CHR '','' # ?t @ CHR ''}'' # r))"
      unfolding j n by simp
    ultimately show ?thesis
      unfolding member_dumps [OF v b(1) punctuation(6)] using skip_ws_char punctuation kv by simp
  qed
qed simp

lemma json_reads_back: "json_ok fl pf j \<Longrightarrow> reads_back fl pf j"
proof (induction j)
  case JNull
  have "json_value pf (Suc m) (''null'' @ r) = Inr (JNull, r)" for m r by (simp add: literal_def)
  then show ?case by (auto intro!: reads_backI)
next
  case (JBool b)
  have "json_value pf (Suc m) (''true'' @ r) = Inr (JBool True, r)" "json_value pf (Suc m) (''false'' @ r) = Inr (JBool False, r)" for m r
    by (simp_all add: literal_def)
  then show ?case by (cases b) (auto intro!: reads_backI)
next
  case (JInt i)
  show ?case
    unfolding reads_back_def
  proof (intro allI impI)
    fix n r assume "2 * length (dumps fl (JInt i)) < n" "number_ends r"
    then show "json_value pf n (dumps fl (JInt i) @ r) = Inr (JInt i, r)"
      using number_start [OF int_str_start(1,2), of pf "n - 1" i r] json_number_int [of r pf i] by (cases n) simp_all
  qed
next
  case (JFloat x)
  then have f: "float_text fl pf x" by simp
  show ?case
    unfolding reads_back_def
  proof (intro allI impI)
    fix n r assume "2 * length (dumps fl (JFloat x)) < n" "number_ends r"
    then show "json_value pf n (dumps fl (JFloat x) @ r) = Inr (JFloat x, r)"
      using number_start [of "fl x" pf "n - 1" r] f by (cases n) (simp_all add: float_text_def)
  qed
next
  case (JStr s)
  have "json_chars (concat (map esc_char s) @ CHR 0x22 # r) = Inr (s, r)" for r using json_chars_str [of s r] by simp
  then have "json_value pf (Suc m) (json_str s @ r) = Inr (JStr s, r)" for m r by (simp add: json_str_def)
  then show ?case by (auto intro!: reads_backI)
next
  case (JList xs)
  show ?case
    unfolding reads_back_def
  proof (intro allI impI)
    fix n r assume n: "2 * length (dumps fl (JList xs)) < n"
    then obtain m where m: "n = Suc m" by (cases n) auto
    show "json_value pf n (dumps fl (JList xs) @ r) = Inr (JList xs, r)"
    proof (cases xs)
      case Nil
      then show ?thesis using m skip_ws_char punctuation by simp
    next
      case (Cons y ys)
      let ?t = "join_with '','' (map (dumps fl) xs)"
      have y: "json_ok fl pf y" using JList.prems Cons by simp
      have t: "?t = dumps fl y @ (if ys = [] then [] else CHR '','' # join_with '','' (map (dumps fl) ys))" using Cons by (cases ys) simp_all
      obtain c0 cs0 where "dumps fl y = c0 # cs0" using dumps_start [OF y] by (cases "dumps fl y") auto
      then obtain c cs where c: "?t = c # cs" "printable c" "c \<noteq> CHR '' ''" "c = hd (dumps fl y)" using dumps_start [OF y] t by simp
      have "json_elements pf m (?t @ CHR '']'' # r) = Inr (xs, r)"
        using JList n m Cons by (intro elements_dumps) auto
      moreover have "c \<noteq> CHR '']''" using dumps_start [OF y] c(4) by simp
      ultimately show ?thesis using m skip_ws_char [OF c(3,2)] c(1) by simp
    qed
  qed
next
  case (JObj kvs)
  have d: "distinct (map fst kvs)" using JObj.prems by simp
  have ih: "\<forall>kv\<in>set kvs. reads_back fl pf (snd kv) \<and> json_ok fl pf (snd kv)" using JObj by (fastforce simp: snds.simps)
  show ?case
    unfolding reads_back_def
  proof (intro allI impI)
    fix n r assume n: "2 * length (dumps fl (JObj kvs)) < n"
    then obtain m where m: "n = Suc m" by (cases n) auto
    show "json_value pf n (dumps fl (JObj kvs) @ r) = Inr (JObj kvs, r)"
    proof (cases kvs)
      case Nil
      then show ?thesis using m skip_ws_char punctuation by simp
    next
      case (Cons y ys)
      let ?t = "join_with '','' (map (member_text fl) kvs)"
      obtain t where t: "?t = CHR 0x22 # t" using Cons by (cases ys) (simp_all add: json_str_def)
      have "json_members pf m (?t @ CHR ''}'' # r) = Inr (kvs, r)" using n m Cons by (intro members_dumps ih) simp_all
      then show ?thesis using m skip_ws_char [of "CHR 0x22"] punctuation(5) t build_distinct [OF d] by simp
    qed
  qed
qed

lemma loads_dumps:
  assumes "json_ok fl pf j"
  shows "loads pf (dumps fl j) = Inr j"
proof -
  have "json_value pf (2 * length (dumps fl j) + 1) (dumps fl j @ []) = Inr (j, [])"
    by (rule reads_backD [OF json_reads_back [OF assms]]) (simp_all add: number_ends_def)
  then show ?thesis using skip_ws_dumps [OF assms, of "[]"] by (simp add: loads_def skip_ws_def del: json_value.simps)
qed

section \<open>A text that goes on\<close>

text \<open>
  What a parser makes of a text, seen from a longer text: a result whose end is certain stays, and so does an escape out of the model. Together with
  this, a result takes at least one character, the only other errors are decoding errors, and fuel of twice the length is enough.
\<close>

definition more_ok :: "(nat \<Rightarrow> string \<Rightarrow> ('a \<times> string) res) \<Rightarrow> nat \<Rightarrow> nat \<Rightarrow> ('a \<Rightarrow> string \<Rightarrow> bool) \<Rightarrow> nat \<Rightarrow> bool" where
  "more_ok p k b certain n \<longleftrightarrow> (\<forall>s. case p n s of
     Inr (v, r) \<Rightarrow> length r + b \<le> length s \<and> (certain v r \<longrightarrow> (\<forall>m x. n \<le> m \<longrightarrow> p m (s @ x) = Inr (v, r @ x)))
   | Inl e \<Rightarrow> e \<in> {decode_error, out_of_fuel, Unmodelled} \<and> (e = Unmodelled \<longrightarrow> (\<forall>m x. n \<le> m \<longrightarrow> p m (s @ x) = Inl Unmodelled))
       \<and> (2 * length s + k \<le> n \<longrightarrow> e \<noteq> out_of_fuel))"

lemma more_okI:
  assumes "\<And>s v r. p n s = Inr (v, r) \<Longrightarrow> length r + b \<le> length s"
    and "\<And>s v r m x. p n s = Inr (v, r) \<Longrightarrow> certain v r \<Longrightarrow> n \<le> m \<Longrightarrow> p m (s @ x) = Inr (v, r @ x)"
    and "\<And>s e. p n s = Inl e \<Longrightarrow> e \<in> {decode_error, out_of_fuel, Unmodelled}"
    and "\<And>s m x. p n s = Inl Unmodelled \<Longrightarrow> n \<le> m \<Longrightarrow> p m (s @ x) = Inl Unmodelled"
    and "\<And>s. 2 * length s + k \<le> n \<Longrightarrow> p n s \<noteq> Inl out_of_fuel"
  shows "more_ok p k b certain n"
  using assms unfolding more_ok_def by (auto split: sum.splits prod.splits)

lemma more_okD:
  assumes "more_ok p k b certain n"
  shows "p n s = Inr (v, r) \<Longrightarrow> length r + b \<le> length s"
    and "p n s = Inr (v, r) \<Longrightarrow> certain v r \<Longrightarrow> n \<le> m \<Longrightarrow> p m (s @ x) = Inr (v, r @ x)"
    and "p n s = Inl e \<Longrightarrow> e \<in> {decode_error, out_of_fuel, Unmodelled}"
    and "p n s = Inl Unmodelled \<Longrightarrow> n \<le> m \<Longrightarrow> p m (s @ x) = Inl Unmodelled"
    and "2 * length s + k \<le> n \<Longrightarrow> p n s \<noteq> Inl out_of_fuel"
  using assms unfolding more_ok_def by (auto dest!: spec [of _ s] split: sum.splits prod.splits)

lemma exn_distinct [simp]: "decode_error \<noteq> out_of_fuel" "decode_error \<noteq> Unmodelled" "out_of_fuel \<noteq> Unmodelled"
    "out_of_fuel \<noteq> decode_error" "Unmodelled \<noteq> decode_error" "Unmodelled \<noteq> out_of_fuel"
  by (simp_all add: decode_error_def out_of_fuel_def)

lemma four_cases:
  obtains "length xs < 4" | a b c d r where "xs = a # b # c # d # r"
  by (cases xs; cases "tl xs"; cases "tl (tl xs)"; cases "tl (tl (tl xs))") auto

lemma json_chars_more:
  "case json_chars s of
     Inr (t, r) \<Rightarrow> length r < length s \<and> json_chars (s @ x) = Inr (t, r @ x)
   | Inl e \<Rightarrow> e \<in> {decode_error, Unmodelled} \<and> (e = Unmodelled \<longrightarrow> json_chars (s @ x) = Inl Unmodelled)"
proof (induction s rule: length_induct)
  case (1 s)
  show ?case
  proof (cases s)
    case Nil
    then show ?thesis by (simp add: exn_distinct)
  next
    case (Cons c r)
    have ih: "case json_chars t of
        Inr (u, r) \<Rightarrow> length r < length t \<and> json_chars (t @ x) = Inr (u, r @ x)
      | Inl e \<Rightarrow> e \<in> {decode_error, Unmodelled} \<and> (e = Unmodelled \<longrightarrow> json_chars (t @ x) = Inl Unmodelled)"
      if "length t \<le> length r" for t using 1 that Cons by simp
    show ?thesis
    proof (cases "c = CHR 0x22 \<or> c \<noteq> CHR 0x5C")
      case True
      then show ?thesis using ih [of r] Cons by (cases "json_chars r") (auto simp: exn_distinct)
    next
      case False
      then have c: "c \<noteq> CHR 0x22" "c = CHR 0x5C" by auto
      show ?thesis
      proof (cases r)
        case Nil
        then show ?thesis using c Cons by (simp add: exn_distinct)
      next
        case r: (Cons e r1)
        show ?thesis
        proof (cases "unescape e")
          case (Some d)
          then show ?thesis using ih [of r1] c Cons r by (cases "json_chars r1") (auto simp: exn_distinct)
        next
          case None
          consider "e \<noteq> CHR ''u''" | "e = CHR ''u''" "length r1 < 4" | h1 h2 h3 h4 r2 where "e = CHR ''u''" "r1 = h1 # h2 # h3 # h4 # r2"
            by (cases r1 rule: four_cases) auto
          then show ?thesis
          proof cases
            case 1
            then show ?thesis using None c Cons r by (simp add: exn_distinct)
          next
            case 2
            then show ?thesis using None c Cons r by (auto simp: exn_distinct split: list.splits)
          next
            case 3
            then show ?thesis using None c Cons r ih [of r2] by (cases "json_chars r2"; cases "hex4 h1 h2 h3 h4") (auto simp: exn_distinct)
          qed
        qed
      qed
    qed
  qed
qed

lemma scan_digits_more: "scan_digits s = (ds, r) \<Longrightarrow> r \<noteq> [] \<Longrightarrow> scan_digits (s @ x) = (ds, r @ x)"
  by (auto simp: scan_digits_def dropWhile_append takeWhile_append split: if_splits)

lemma scan_digits_length: "length (fst (scan_digits s)) + length (snd (scan_digits s)) = length s"
  by (simp add: scan_digits_def) (metis length_append takeWhile_dropWhile_id)

lemma minus_more: "s \<noteq> [] \<Longrightarrow> minus_first (s @ x) = minus_first s \<and> after_minus (s @ x) = after_minus s @ x"
  by (simp add: minus_first_def after_minus_def)

lemma scan_int_more:
  assumes "scan_int s = Some (neg, ds, r)"
  shows "length r < length s" and "r \<noteq> [] \<Longrightarrow> scan_int (s @ x) = Some (neg, ds, r @ x)"
proof -
  obtain c u where u: "after_minus s = c # u" using assms by (cases "after_minus s") (auto simp: scan_int_def)
  have s: "s \<noteq> []" "length (c # u) \<le> length s" using u by (cases s; auto simp: after_minus_def minus_first_def split: if_splits)+
  have "length (snd (scan_digits (c # u))) < length (c # u)" if "is_digit c"
    using that by (simp add: scan_digits_def le_imp_less_Suc length_dropWhile_le)
  then show "length r < length s" using assms s(2) by (auto simp: scan_int_def u split: if_splits)
  assume r: "r \<noteq> []"
  have "scan_digits (c # u @ x) = (fst (scan_digits (c # u)), snd (scan_digits (c # u)) @ x)" if "snd (scan_digits (c # u)) \<noteq> []"
    using scan_digits_more [of "c # u" "fst (scan_digits (c # u))" "snd (scan_digits (c # u))" x] that by simp
  then show "scan_int (s @ x) = Some (neg, ds, r @ x)"
    using assms r minus_more [OF s(1), of x] by (auto simp: scan_int_def u split: if_splits)
qed

lemma scan_frac_more:
  assumes "scan_frac s = (fr, r)"
  shows "length r \<le> length s" and "r \<noteq> [] \<Longrightarrow> hd r \<noteq> CHR ''.'' \<Longrightarrow> scan_frac (s @ x) = (fr, r @ x)"
  using assms scan_digits_length [of "tl s"] scan_digits_more [of "tl s" "fst (scan_digits (tl s))" r x]
  by (auto simp: scan_frac_def split: list.splits if_splits)

lemma scan_exp_more:
  assumes "scan_exp s = (ex, r)"
  shows "length r \<le> length s" and "r \<noteq> [] \<Longrightarrow> hd r \<noteq> CHR ''e'' \<Longrightarrow> hd r \<noteq> CHR ''E'' \<Longrightarrow> scan_exp (s @ x) = (ex, r @ x)"
proof -
  show "length r \<le> length s"
    using assms scan_digits_length [of "drop (length (exp_sign (tl s))) (tl s)"] by (cases s) (auto simp: scan_exp_def split: if_splits)
  assume r: "r \<noteq> []" "hd r \<noteq> CHR ''e''" "hd r \<noteq> CHR ''E''"
  obtain c u where s: "s = c # u" using assms r(1) by (cases s) (auto simp: scan_exp_def)
  let ?t = "drop (length (exp_sign u)) u"
  show "scan_exp (s @ x) = (ex, r @ x)"
  proof (cases "(c = CHR ''e'' \<or> c = CHR ''E'') \<and> fst (scan_digits ?t) \<noteq> []")
    case True
    then have e: "ex = c # exp_sign u @ fst (scan_digits ?t)" "r = snd (scan_digits ?t)" using assms by (auto simp: scan_exp_def s)
    have u: "u \<noteq> []" using True by (auto simp: scan_digits_def)
    then have g: "exp_sign (u @ x) = exp_sign u" "length (exp_sign u) \<le> length u" by (cases u; simp add: exp_sign_def)+
    have "scan_digits (drop (length (exp_sign u)) (u @ x)) = (fst (scan_digits ?t), r @ x)"
      using scan_digits_more [of ?t "fst (scan_digits ?t)" r x] e(2) r(1) g(2) by simp
    then show ?thesis using True e(1) by (simp add: scan_exp_def s g(1))
  next
    case False
    then have e: "ex = []" "r = c # u" using assms by (auto simp: scan_exp_def s split: if_splits)
    then show ?thesis using r by (simp add: scan_exp_def s)
  qed
qed

lemma json_number_more:
  shows "json_number pf s = Inr (v, r) \<Longrightarrow> length r < length s"
    and "json_number pf s = Inr (v, r) \<Longrightarrow> r \<noteq> [] \<Longrightarrow> number_ends r \<Longrightarrow> json_number pf (s @ x) = Inr (v, r @ x)"
    and "json_number pf s = Inl e \<Longrightarrow> e \<in> {decode_error, Unmodelled}"
    and "json_number pf s = Inl Unmodelled \<Longrightarrow> json_number pf (s @ x) = Inl Unmodelled"
proof -
  assume a: "json_number pf s = Inr (v, r)"
  then obtain neg ds r0 where i: "scan_int s = Some (neg, ds, r0)" by (cases "scan_int s") (auto simp: json_number_def)
  obtain fr r1 where f: "scan_frac r0 = (fr, r1)" by fastforce
  obtain ex r2 where e: "scan_exp r1 = (ex, r2)" by fastforce
  have r: "r = r2" using a i f e by (auto simp: json_number_def split: if_splits)
  note l = scan_int_more(1) [OF i] scan_frac_more(1) [OF f] scan_exp_more(1) [OF e]
  show "length r < length s" using l r by simp
  assume ne: "r \<noteq> []" "number_ends r"
  have h: "hd r2 \<noteq> CHR ''.''" "hd r2 \<noteq> CHR ''e''" "hd r2 \<noteq> CHR ''E''" "\<not> is_digit (hd r2)" "r2 \<noteq> []" using ne r by (auto simp: number_ends_def)
  have ex: "scan_exp (r1 @ x) = (ex, r2 @ x)" by (rule scan_exp_more(2) [OF e h(5,2,3)])
  have "r1 \<noteq> []" "hd r1 \<noteq> CHR ''.''" using e h l by (auto simp: scan_exp_def Let_def split: list.splits if_splits)
  from scan_frac_more(2) [OF f this] have fx: "scan_frac (r0 @ x) = (fr, r1 @ x)" .
  have "r0 \<noteq> []" using \<open>r1 \<noteq> []\<close> l(2) by auto
  from scan_int_more(2) [OF i this] have ix: "scan_int (s @ x) = Some (neg, ds, r0 @ x)" .
  show "json_number pf (s @ x) = Inr (v, r @ x)" using a i f e fx ex ix r by (auto simp: json_number_def split: if_splits)
next
  assume a: "json_number pf s = Inl e"
  then show "e \<in> {decode_error, Unmodelled}" by (auto simp: json_number_def split: option.splits if_splits prod.splits)
next
  assume a: "json_number pf s = Inl Unmodelled"
  then have s: "2 \<le> length s" "take 2 s = ''-I''"
    by (auto simp: json_number_def exn_distinct Let_def split: option.splits if_splits prod.splits)
  then obtain t where t: "s = ''-I'' @ t" by (metis append_take_drop_id)
  have "\<not> is_digit (CHR ''I'')" by code_simp
  then show "json_number pf (s @ x) = Inl Unmodelled" by (simp add: t json_number_def scan_int_def after_minus_def minus_first_def)
qed

definition numeric :: "json \<Rightarrow> bool" where
  "numeric v = (case v of JInt _ \<Rightarrow> True | JFloat _ \<Rightarrow> True | _ \<Rightarrow> False)"

lemma delimiter_ends: "skip_ws r = d # r1 \<Longrightarrow> d = CHR '','' \<or> d = CHR '']'' \<or> d = CHR ''}'' \<Longrightarrow> r \<noteq> [] \<and> number_ends r \<and> length r1 < length r"
proof -
  assume a: "skip_ws r = d # r1" "d = CHR '','' \<or> d = CHR '']'' \<or> d = CHR ''}''"
  have w: "\<not> is_digit (CHR '' '')" "\<not> is_digit (CHR 0x09)" "\<not> is_digit (CHR 0x0A)" "\<not> is_digit (CHR 0x0D)" by code_simp+
  obtain c u where r: "r = c # u" using a(1) by (cases r) (auto simp: skip_ws_def)
  have "c = CHR '' '' \<or> c = CHR 0x09 \<or> c = CHR 0x0A \<or> c = CHR 0x0D \<or> c = d" using a(1) by (auto simp: skip_ws_def r split: if_splits)
  then have "number_ends r" using a(2) w punctuation(6-8) by (auto simp: number_ends_def r)
  moreover have "length r1 < length r" using skip_ws_length [of r] a(1) by simp
  ultimately show ?thesis using r by simp
qed

lemma literal_more:
  shows "literal w j s = Inr (v, r) \<Longrightarrow> w \<noteq> [] \<Longrightarrow> length r < length s"
    and "literal w j s = Inr (v, r) \<Longrightarrow> v = j \<and> literal w j (s @ x) = Inr (v, r @ x)"
    and "literal w j s = Inl e \<Longrightarrow> e = decode_error"
proof -
  assume a: "literal w j s = Inr (v, r)"
  then have t: "take (length w) s = w" "v = j" "r = drop (length w) s" by (auto simp: literal_def split: if_splits)
  have l: "length w \<le> length s" using t(1) by (metis length_take min.cobounded1)
  then show "w \<noteq> [] \<Longrightarrow> length r < length s" using t(3) by (cases w) simp_all
  show "v = j \<and> literal w j (s @ x) = Inr (v, r @ x)" using t l by (simp add: literal_def)
qed (auto simp: literal_def split: if_splits)

text \<open>How the parsers are put together.\<close>

lemma more_fail: "more_ok (\<lambda>n s. Inl decode_error) k b certain n"
  by (rule more_okI) (simp_all add: exn_distinct)

lemma more_ret: "more_ok (\<lambda>n s. Inr (v, s)) k 0 certain n"
  by (rule more_okI) simp_all

lemma more_weaken:
  assumes "more_ok p k b certain n" and "k \<le> k'" and "b' \<le> b" and "\<And>v r. certain' v r \<Longrightarrow> certain v r"
  shows "more_ok p k' b' certain' n"
proof -
  note P = more_okD [OF assms(1)]
  show ?thesis
  proof (rule more_okI)
    show "length r + b' \<le> length s" if "p n s = Inr (v, r)" for s v r using P(1) [OF that] assms(3) by simp
    show "p m (s @ x) = Inr (v, r @ x)" if "p n s = Inr (v, r)" "certain' v r" "n \<le> m" for s v r m x
      by (rule P(2) [OF that(1) assms(4) [OF that(2)] that(3)])
    show "p n s \<noteq> Inl out_of_fuel" if "2 * length s + k' \<le> n" for s by (rule P(5)) (use that assms(2) in simp)
  qed (erule P(3), erule P(4), assumption)
qed

lemma more_map:
  assumes "more_ok p k b certain n" and "\<And>v r. certain' (g v) r \<Longrightarrow> certain v r"
  shows "more_ok (\<lambda>n s. map_sum id (apfst g) (p n s)) k b certain' n"
proof -
  note P = more_okD [OF assms(1)]
  have R: "map_sum id (apfst g) y = Inr (v, r) \<longleftrightarrow> (\<exists>u. y = Inr (u, r) \<and> v = g u)" for y :: "('a \<times> string) res" and v r by (cases y) auto
  have L: "map_sum id (apfst g) y = Inl e \<longleftrightarrow> y = Inl e" for y :: "('a \<times> string) res" and e by (cases y) auto
  show ?thesis
  proof (rule more_okI, unfold R L)
    show "length r + b \<le> length s" if "\<exists>u. p n s = Inr (u, r) \<and> v = g u" for s v r using that P(1) by blast
    show "\<exists>u. p m (s @ x) = Inr (u, r @ x) \<and> v = g u" if e: "\<exists>u. p n s = Inr (u, r) \<and> v = g u" "certain' v r" "n \<le> m" for s v r m x
    proof -
      obtain u where u: "p n s = Inr (u, r)" "v = g u" using e(1) by blast
      have "certain u r" by (rule assms(2)) (use e(2) u(2) in simp)
      from P(2) [OF u(1) this e(3)] u(2) show ?thesis by blast
    qed
    show "p n s \<noteq> Inl out_of_fuel" if "2 * length s + k \<le> n" for s by (rule P(5) [OF that])
  qed (erule P(3), erule P(4), assumption)
qed

lemma more_char:
  assumes "\<And>d. more_ok (h d) k b certain n"
  shows "more_ok (\<lambda>n s. case s of [] \<Rightarrow> Inl decode_error | d # r \<Rightarrow> h d n r) (k - 2) (Suc b) certain n"
proof -
  note H = more_okD [OF assms]
  let ?p = "\<lambda>n s. case s of [] \<Rightarrow> Inl decode_error | d # r \<Rightarrow> h d n r"
  show ?thesis
  proof (rule more_okI)
    show "length r + Suc b \<le> length s" if "?p n s = Inr (v, r)" for s v r using that H(1) [of "hd s" "tl s" v r] by (cases s) simp_all
    show "?p m (s @ x) = Inr (v, r @ x)" if "?p n s = Inr (v, r)" "certain v r" "n \<le> m" for s v r m x
      using that H(2) [of "hd s" "tl s" v r m x] by (cases s) simp_all
    show "e \<in> {decode_error, out_of_fuel, Unmodelled}" if "?p n s = Inl e" for s e using that H(3) [of "hd s" "tl s" e] by (cases s) simp_all
    show "?p m (s @ x) = Inl Unmodelled" if "?p n s = Inl Unmodelled" "n \<le> m" for s m x
      using that H(4) [of "hd s" "tl s" m x] by (cases s) (simp_all add: exn_distinct)
    show "?p n s \<noteq> Inl out_of_fuel" if "2 * length s + (k - 2) \<le> n" for s
      using that H(5) [of "tl s" "hd s"] by (cases s) (simp_all add: exn_distinct)
  qed
qed

lemma more_ws:
  assumes "more_ok p k (Suc b) certain n" and e: "p n [] \<noteq> Inl Unmodelled"
  shows "more_ok (\<lambda>n s. p n (skip_ws s)) k (Suc b) certain n"
proof -
  note P = more_okD [OF assms(1)]
  have ne: "skip_ws (s @ x) = skip_ws s @ x" if "skip_ws s \<noteq> []" for s x
    using that skip_ws_append [of s _ _ x] by (cases "skip_ws s") auto
  have r: "skip_ws s \<noteq> []" if "p n (skip_ws s) = Inr q \<or> p n (skip_ws s) = Inl Unmodelled" for s q
    using that e P(1) [of "[]" "fst q" "snd q"] by auto
  show ?thesis
  proof (rule more_okI)
    fix s v r assume "p n (skip_ws s) = Inr (v, r)"
    then show "length r + Suc b \<le> length s" using P(1) skip_ws_length [of s] order_trans by blast
  next
    fix s v r' m x assume a: "p n (skip_ws s) = Inr (v, r')" "certain v r'" "n \<le> m"
    have "skip_ws s \<noteq> []" by (rule r) (use a(1) in blast)
    from P(2) [OF a] ne [OF this] show "p m (skip_ws (s @ x)) = Inr (v, r' @ x)" by simp
  next
    fix s m x assume a: "p n (skip_ws s) = Inl Unmodelled" "n \<le> m"
    have "skip_ws s \<noteq> []" by (rule r) (use a(1) in blast)
    from P(4) [OF a] ne [OF this] show "p m (skip_ws (s @ x)) = Inl Unmodelled" by simp
  next
    fix s :: string assume "2 * length s + k \<le> n"
    then show "p n (skip_ws s) \<noteq> Inl out_of_fuel" using P(5) [of "skip_ws s"] skip_ws_length [of s] by simp
  qed (erule P(3))
qed

lemma more_bind:
  assumes p: "more_ok p k (Suc b) certain n" and q: "\<And>v. more_ok (q v) k b' certain' n"
    and c: "\<And>v r w. q v n r = Inr w \<or> q v n r = Inl Unmodelled \<Longrightarrow> certain v r"
  shows "more_ok (\<lambda>n s. bind_res (p n s) (\<lambda>(v, r). q v n r)) k (Suc b + b') certain' n"
proof -
  note P = more_okD [OF p] and Q = more_okD [OF q]
  show ?thesis
  proof (rule more_okI)
    fix s v r assume "bind_res (p n s) (\<lambda>(v, r). q v n r) = Inr (v, r)"
    then show "length r + (Suc b + b') \<le> length s" using P(1) [of s] Q(1) by (cases "p n s") fastforce+
  next
    fix s v r m x assume "bind_res (p n s) (\<lambda>(v, r). q v n r) = Inr (v, r)" "certain' v r" "n \<le> m"
    then show "bind_res (p m (s @ x)) (\<lambda>(v, r). q v m r) = Inr (v, r @ x)" using P(2) [of s] Q(2) c by (cases "p n s") fastforce+
  next
    fix s e assume "bind_res (p n s) (\<lambda>(v, r). q v n r) = Inl e"
    then show "e \<in> {decode_error, out_of_fuel, Unmodelled}" using P(3) [of s] Q(3) by (cases "p n s") fastforce+
  next
    fix s m x assume a: "bind_res (p n s) (\<lambda>(v, r). q v n r) = Inl Unmodelled" "n \<le> m"
    then show "bind_res (p m (s @ x)) (\<lambda>(v, r). q v m r) = Inl Unmodelled"
      using P(2,4) [of s] Q(4) c by (cases "p n s") fastforce+
  next
    fix s :: string assume a: "2 * length s + k \<le> n"
    show "bind_res (p n s) (\<lambda>(v, r). q v n r) \<noteq> Inl out_of_fuel"
    proof (cases "p n s")
      case (Inr w)
      obtain v r where w: "w = (v, r)" by fastforce
      have "2 * length r + k \<le> n" using P(1) [of s v r] Inr w a by simp
      then show ?thesis using Q(5) Inr w by simp
    qed (use P(5) [OF a] in simp)
  qed
qed

lemma more_cons:
  assumes "more_ok p k (Suc b) certain n"
  shows "more_ok (\<lambda>n s. p n (d # s)) (k + 2) b certain n"
proof -
  note P = more_okD [OF assms]
  show ?thesis
  proof (rule more_okI)
    show "length r + b \<le> length s" if "p n (d # s) = Inr (v, r)" for s v r using P(1) [OF that] by simp
    show "p m (d # s @ x) = Inr (v, r @ x)" if "p n (d # s) = Inr (v, r)" "certain v r" "n \<le> m" for s v r m x
      using P(2) [OF that, of x] by simp
    show "p m (d # s @ x) = Inl Unmodelled" if "p n (d # s) = Inl Unmodelled" "n \<le> m" for s m x
      using P(4) [OF that, of x] by simp
    show "p n (d # s) \<noteq> Inl out_of_fuel" if "2 * length s + (k + 2) \<le> n" for s by (rule P(5)) (use that in simp)
  qed (erule P(3))
qed

lemma more_if: "(b \<Longrightarrow> more_ok f k l certain n) \<Longrightarrow> (\<not> b \<Longrightarrow> more_ok g k l certain n) \<Longrightarrow> more_ok (\<lambda>n s. if b then f n s else g n s) k l certain n"
  by (cases b) simp_all

lemma more_chars: "more_ok (\<lambda>n. json_chars) k 1 (\<lambda>_ _. True) n"
proof (rule more_okI)
  note C = json_chars_more
  show "length r + 1 \<le> length s" if "json_chars s = Inr (v, r)" for s v r using C [of s "[]"] that by simp
  show "json_chars (s @ x) = Inr (v, r @ x)" if "json_chars s = Inr (v, r)" for s v r x using C [of s x] that by simp
  show "e \<in> {decode_error, out_of_fuel, Unmodelled}" if "json_chars s = Inl e" for s e using C [of s "[]"] that by auto
  show "json_chars (s @ x) = Inl Unmodelled" if "json_chars s = Inl Unmodelled" for s x using C [of s x] that by simp
  show "json_chars s \<noteq> Inl out_of_fuel" for s using C [of s "[]"] by (auto simp: exn_distinct split: sum.splits)
qed

lemma more_literal: "more_ok (\<lambda>n. literal (d # w) j) k 1 (\<lambda>_ _. True) n"
proof (rule more_okI)
  note C = literal_more
  show "length r + 1 \<le> length s" if "literal (d # w) j s = Inr (v, r)" for s v r using C(1) [OF that] by simp
  show "literal (d # w) j (s @ x) = Inr (v, r @ x)" if "literal (d # w) j s = Inr (v, r)" for s v r x using C(2) [OF that] by simp
  show "e \<in> {decode_error, out_of_fuel, Unmodelled}" if "literal (d # w) j s = Inl e" for s e using C(3) [OF that] by simp
  show "literal (d # w) j (s @ x) = Inl Unmodelled" if "literal (d # w) j s = Inl Unmodelled" for s x using C(3) [OF that] by (simp add: exn_distinct)
  show "literal (d # w) j s \<noteq> Inl out_of_fuel" for s using C(3) [of "d # w" j s out_of_fuel] by (auto simp: exn_distinct)
qed

text \<open>Only the end of a number is open: a digit may follow.\<close>

definition settled :: "json \<Rightarrow> string \<Rightarrow> bool" where
  "settled v r \<longleftrightarrow> (numeric v \<longrightarrow> r \<noteq> [] \<and> number_ends r)"

lemma more_number: "more_ok (\<lambda>n. json_number pf) k 1 settled n"
proof (rule more_okI)
  note C = json_number_more
  have N: "numeric v" if "json_number pf s = Inr (v, r)" for s v r
    using that by (auto simp: json_number_def numeric_def split: option.splits prod.splits if_splits)
  show "length r + 1 \<le> length s" if "json_number pf s = Inr (v, r)" for s v r using C(1) [OF that] by simp
  show "json_number pf (s @ x) = Inr (v, r @ x)" if e: "json_number pf s = Inr (v, r)" "settled v r" for s v r x
    using C(2) [OF e(1)] e(2) N [OF e(1)] by (simp add: settled_def)
  show "e \<in> {decode_error, out_of_fuel, Unmodelled}" if "json_number pf s = Inl e" for s e using C(3) [OF that] by auto
  show "json_number pf (s @ x) = Inl Unmodelled" if "json_number pf s = Inl Unmodelled" for s x by (rule C(4) [OF that])
  show "json_number pf s \<noteq> Inl out_of_fuel" for s using C(3) [of pf s out_of_fuel] by auto
qed

lemma more_shift:
  assumes "\<And>n s. f (Suc n) s = g n s" and "more_ok g k b certain n"
  shows "more_ok f (Suc k) b certain (Suc n)"
proof -
  note G = more_okD [OF assms(2)]
  show ?thesis
  proof (rule more_okI, unfold assms(1))
    show "f m (s @ x) = Inr (v, r @ x)" if "g n s = Inr (v, r)" "certain v r" "Suc n \<le> m" for s v r m x
      using G(2) [OF that(1,2), of "m - 1" x] that(3) assms(1) [of "m - 1"] by (cases m) simp_all
    show "f m (s @ x) = Inl Unmodelled" if "g n s = Inl Unmodelled" "Suc n \<le> m" for s m x
      using G(4) [OF that(1), of "m - 1" x] that(2) assms(1) [of "m - 1"] by (cases m) simp_all
    show "g n s \<noteq> Inl out_of_fuel" if "2 * length s + Suc k \<le> Suc n" for s by (rule G(5)) (use that in simp)
  qed (erule G(1), erule G(3))
qed

text \<open>The three parsers together: one character, and what each of its cases reads.\<close>

lemma value_step:
  assumes m: "more_ok (json_members pf) 2 1 (\<lambda>_ _. True) n" and e: "more_ok (json_elements pf) 2 1 (\<lambda>_ _. True) n"
  shows "more_ok (json_value pf) 1 1 settled (Suc n)"
proof -
  let ?open = "\<lambda>q c j f n s. case s of [] \<Rightarrow> Inl decode_error
    | d # r1 \<Rightarrow> if d = c then Inr (j, r1) else map_sum id (apfst f) (q n (d # r1))"
  have bracket: "more_ok (\<lambda>n r. ?open q c j f n (skip_ws r)) 2 0 settled n"
    if q: "more_ok q 2 1 (\<lambda>_ _. True) n" for q :: "nat \<Rightarrow> string \<Rightarrow> ('a \<times> string) res" and c j f
  proof -
    have "more_ok (\<lambda>n s. q n (d # s)) 4 0 (\<lambda>_ _. True) n" for d using more_cons [of q 2 0 _ n d] q by simp
    then have "more_ok (\<lambda>n s. map_sum id (apfst f) (q n (d # s))) 4 0 settled n" for d by (rule more_map) simp
    then have "more_ok (\<lambda>n r. if d = c then Inr (j, r) else map_sum id (apfst f) (q n (d # r))) 4 0 settled n" for d
      by (intro more_if more_ret)
    from more_char [OF this] have "more_ok (?open q c j f) 2 (Suc 0) settled n" by simp
    then have "more_ok (\<lambda>n r. ?open q c j f n (skip_ws r)) 2 (Suc 0) settled n" by (rule more_ws) simp
    then show ?thesis by (rule more_weaken) simp_all
  qed
  have lit: "more_ok (\<lambda>n r. literal (e # w) j (d # r)) 2 0 settled n" for w j d e
    using more_cons [OF more_literal [of e w j 0 n, unfolded One_nat_def], of d] by (rule more_weaken) simp_all
  have num: "more_ok (\<lambda>n r. json_number pf (d # r)) 2 0 settled n" for d
    using more_cons [OF more_number [of pf 0 n, unfolded One_nat_def], of d] by (simp add: numeral_2_eq_2)
  have str: "more_ok (\<lambda>n r. map_sum id (apfst JStr) (json_chars r)) 2 0 settled n"
    by (rule more_weaken [OF more_map [OF more_chars [of 0]]]) simp_all
  have fail: "more_ok (\<lambda>n r. Inl Unmodelled) 2 0 settled n" by (rule more_okI) simp_all
  let ?h = "\<lambda>c n r. if c = CHR 0x22 then map_sum id (apfst JStr) (json_chars r)
      else if c = CHR ''{'' then ?open (json_members pf) (CHR ''}'') (JObj []) build_obj n (skip_ws r)
      else if c = CHR ''['' then ?open (json_elements pf) (CHR '']'') (JList []) JList n (skip_ws r)
      else if c = CHR ''n'' then literal ''null'' JNull (c # r)
      else if c = CHR ''t'' then literal ''true'' (JBool True) (c # r)
      else if c = CHR ''f'' then literal ''false'' (JBool False) (c # r)
      else if c = CHR ''N'' \<or> c = CHR ''I'' then Inl Unmodelled
      else json_number pf (c # r)"
  have "more_ok (?h c) 2 0 settled n" for c
    by (intro more_if str bracket [OF m] bracket [OF e] lit num fail)
  from more_char [OF this] have "more_ok (\<lambda>n s. case s of [] \<Rightarrow> Inl decode_error | c # r \<Rightarrow> ?h c n r) 0 1 settled n" by simp
  from more_shift [OF _ this, of "json_value pf"] show ?thesis by (simp split: list.split)
qed

text \<open>What follows a value in an array or an object, and the closing or the next part.\<close>

abbreviation next_part :: "char \<Rightarrow> 'a \<Rightarrow> (nat \<Rightarrow> string \<Rightarrow> ('a list \<times> string) res) \<Rightarrow> nat \<Rightarrow> string \<Rightarrow> ('a list \<times> string) res" where
  "next_part c v q n r \<equiv> (case skip_ws r of [] \<Rightarrow> Inl decode_error
     | d # r1 \<Rightarrow> if d = c then Inr ([v], r1)
                else if d = CHR '','' then map_sum id (apfst (Cons v)) (q n (skip_ws r1)) else Inl decode_error)"

lemma more_next:
  assumes q: "more_ok q 2 1 (\<lambda>_ _. True) n" "q n [] \<noteq> Inl Unmodelled"
  shows "more_ok (next_part c v q) 0 1 (\<lambda>_ _. True) n"
proof -
  have "more_ok (\<lambda>n s. q n (skip_ws s)) 2 1 (\<lambda>_ _. True) n" using more_ws [of q 2 0] q by simp
  then have "more_ok (\<lambda>n s. map_sum id (apfst (Cons v)) (q n (skip_ws s))) 2 0 (\<lambda>_ _. True) n"
    by (rule more_weaken [OF more_map]) simp_all
  then have "more_ok (\<lambda>n s. if d = c then Inr ([v], s)
      else if d = CHR '','' then map_sum id (apfst (Cons v)) (q n (skip_ws s)) else Inl decode_error) 2 0 (\<lambda>_ _. True) n" for d
    by (intro more_if more_ret more_fail)
  from more_ws [OF more_char [OF this]] show ?thesis by simp
qed

lemma next_part_settled:
  assumes "next_part c v q n r = Inr w \<or> next_part c v q n r = Inl Unmodelled" and "c = CHR '']'' \<or> c = CHR ''}''"
  shows "settled u r"
proof -
  obtain d r1 where "skip_ws r = d # r1" "d = c \<or> d = CHR '',''" using assms(1) by (cases "skip_ws r") (auto split: if_splits)
  then show ?thesis using delimiter_ends [of r d r1] assms(2) by (auto simp: settled_def)
qed

lemma more_value_next:
  assumes v: "more_ok (json_value pf) 1 1 settled n" and q: "more_ok q 2 1 (\<lambda>_ _. True) n" "q n [] \<noteq> Inl Unmodelled"
    and c: "c = CHR '']'' \<or> c = CHR ''}''"
  shows "more_ok (\<lambda>n s. bind_res (json_value pf n s) (\<lambda>(v, r). next_part c (f v) q n r)) 1 2 (\<lambda>_ _. True) n"
proof -
  have n: "more_ok (next_part c (f v) q) 1 1 (\<lambda>_ _. True) n" for v by (rule more_weaken [OF more_next [OF q]]) simp_all
  have "more_ok (\<lambda>n s. bind_res (json_value pf n s) (\<lambda>(v, r). next_part c (f v) q n r)) 1 (Suc 0 + 1) (\<lambda>_ _. True) n"
    by (rule more_bind [OF _ n next_part_settled [OF _ c]]) (use v in simp_all)
  then show ?thesis by (simp add: numeral_2_eq_2)
qed

lemma empty_modelled: "json_elements pf n [] \<noteq> Inl Unmodelled" "json_members pf n [] \<noteq> Inl Unmodelled" "json_value pf n [] \<noteq> Inl Unmodelled"
proof -
  show v: "json_value pf n [] \<noteq> Inl Unmodelled" for n by (cases n) simp_all
  show "json_elements pf n [] \<noteq> Inl Unmodelled"
  proof (cases n)
    case (Suc m)
    then show ?thesis using v [of m] by (cases m) simp_all
  qed simp
  show "json_members pf n [] \<noteq> Inl Unmodelled" by (cases n) simp_all
qed

lemma elements_step:
  assumes v: "more_ok (json_value pf) 1 1 settled n" and e: "more_ok (json_elements pf) 2 1 (\<lambda>_ _. True) n"
  shows "more_ok (json_elements pf) 2 1 (\<lambda>_ _. True) (Suc n)"
proof -
  have "more_ok (\<lambda>n s. bind_res (json_value pf n s) (\<lambda>(v, r). next_part (CHR '']'') v (json_elements pf) n r)) 1 2 (\<lambda>_ _. True) n"
    by (rule more_value_next [OF v e empty_modelled(1)]) simp
  from more_shift [OF _ this, of "json_elements pf"]
  have "more_ok (json_elements pf) 2 2 (\<lambda>_ _. True) (Suc n)" by (simp add: numeral_2_eq_2)
  then show ?thesis by (rule more_weaken) simp_all
qed

lemma members_step:
  assumes v: "more_ok (json_value pf) 1 1 settled n" and m: "more_ok (json_members pf) 2 1 (\<lambda>_ _. True) n"
  shows "more_ok (json_members pf) 2 1 (\<lambda>_ _. True) (Suc n)"
proof -
  let ?v = "\<lambda>k n s. bind_res (json_value pf n s) (\<lambda>(v, r). next_part (CHR ''}'') (k, v) (json_members pf) n r)"
  have e: "?v k n [] \<noteq> Inl Unmodelled" for k
    using more_okD(1) [OF v, of "[]"] empty_modelled(3) [of pf n] by (cases "json_value pf n []") auto
  have "more_ok (?v k) 1 2 (\<lambda>_ _. True) n" for k by (rule more_value_next [OF v m empty_modelled(2)]) simp
  then have "more_ok (\<lambda>n s. ?v k n (skip_ws s)) 1 2 (\<lambda>_ _. True) n" for k using more_ws [of "?v k" 1 1, OF _ e] by (simp add: numeral_2_eq_2)
  then have "more_ok (\<lambda>n s. ?v k n (skip_ws s)) 2 0 (\<lambda>_ _. True) n" for k by (rule more_weaken) simp_all
  then have "more_ok (\<lambda>n r. if d \<noteq> CHR '':'' then Inl decode_error else ?v k n (skip_ws r)) 2 0 (\<lambda>_ _. True) n" for k d
    by (intro more_if more_fail)
  from more_ws [OF more_char [OF this]]
  have "more_ok (\<lambda>n r. case skip_ws r of [] \<Rightarrow> Inl decode_error
      | d # r2 \<Rightarrow> if d \<noteq> CHR '':'' then Inl decode_error else ?v k n (skip_ws r2)) 0 1 (\<lambda>_ _. True) n" (is "more_ok (?c k) _ _ _ _") for k
    by simp
  then have "more_ok (\<lambda>n s. bind_res (json_chars s) (\<lambda>(k, r). ?c k n r)) 0 (Suc 0 + 1) (\<lambda>_ _. True) n"
    by (intro more_bind [where p = "\<lambda>n. json_chars" and certain = "\<lambda>_ _. True"] TrueI more_chars [unfolded One_nat_def])
  then have "more_ok (\<lambda>n s. bind_res (json_chars s) (\<lambda>(k, r). ?c k n r)) 2 0 (\<lambda>_ _. True) n" by (rule more_weaken) simp_all
  then have "more_ok (\<lambda>n r. if c \<noteq> CHR 0x22 then Inl decode_error else bind_res (json_chars r) (\<lambda>(k, r1). ?c k n r1)) 2 0 (\<lambda>_ _. True) n" for c
    by (intro more_if more_fail)
  from more_shift [OF _ more_char [OF this], of "json_members pf"]
  have "more_ok (json_members pf) 1 1 (\<lambda>_ _. True) (Suc n)" by simp
  then show ?thesis by (rule more_weaken) simp_all
qed

lemma parsers_more:
  "more_ok (json_value pf) 1 1 settled n \<and> more_ok (json_elements pf) 2 1 (\<lambda>_ _. True) n \<and> more_ok (json_members pf) 2 1 (\<lambda>_ _. True) n"
proof (induction n)
  case 0
  show ?case by (intro conjI more_okI) simp_all
next
  case (Suc n)
  then show ?case using value_step elements_step members_step by blast
qed

text \<open>Reading ends, with a value or one of two errors, and a dict that is cut off is a decoding error, whatever stands in it.\<close>

lemma loads_errors: "loads pf s = Inl e \<Longrightarrow> e \<in> {decode_error, Unmodelled}"
proof -
  note V = more_okD [OF conjunct1 [OF parsers_more [of pf "2 * length s + 1"]]]
  have "json_value pf (2 * length s + 1) (skip_ws s) \<noteq> Inl out_of_fuel" by (rule V(5)) (use skip_ws_length [of s] in simp)
  then show "loads pf s = Inl e \<Longrightarrow> e \<in> {decode_error, Unmodelled}"
    using V(3) [of "skip_ws s"] by (cases "json_value pf (2 * length s + 1) (skip_ws s)") (auto simp: loads_def split: prod.splits if_splits)
qed

lemma object_value: "json_value pf n (CHR ''{'' # s) = Inr (v, r) \<Longrightarrow> settled v r"
proof -
  assume a: "json_value pf n (CHR ''{'' # s) = Inr (v, r)"
  have m: "map_sum id (apfst build_obj) y = Inr (v, r) \<Longrightarrow> \<exists>kvs. v = JObj kvs" for y :: "((string \<times> json) list \<times> string) res"
    by (cases y) (auto simp: build_obj_def)
  have "\<exists>kvs. v = JObj kvs" using a by (cases n) (auto split: list.splits if_splits dest: m)
  then show ?thesis by (auto simp: settled_def numeric_def)
qed

lemma value_goes_on:
  assumes "json_ok fl pf (JObj kvs)" and "2 * length (dumps fl (JObj kvs)) < n"
  shows "json_value pf n (dumps fl (JObj kvs) @ x) = Inr (JObj kvs, x)"
proof -
  note V = more_okD [OF conjunct1 [OF parsers_more [of pf n]]]
  have "json_value pf n (dumps fl (JObj kvs) @ []) = Inr (JObj kvs, [])"
    by (rule reads_backD [OF json_reads_back [OF assms(1)] assms(2)]) (simp add: number_ends_def)
  from V(2) [OF this, of n x] show ?thesis by (simp add: settled_def numeric_def del: dumps.simps)
qed

lemma loads_torn:
  assumes ok: "json_ok fl pf (JObj kvs)" and t: "dumps fl (JObj kvs) = p @ x" and "p \<noteq> []" and "x \<noteq> []"
  shows "loads pf p = Inl decode_error"
proof -
  let ?n = "2 * length p + 1"
  obtain u where p: "p = CHR ''{'' # u" using t assms(3) by (cases p) auto
  have "printable (CHR ''{'')" by code_simp
  then have w: "skip_ws p = p" using skip_ws_char by (simp add: p)
  note V = more_okD [OF conjunct1 [OF parsers_more [of pf ?n]]]
  have whole: "json_value pf (2 * length (p @ x) + 1) (p @ x) = Inr (JObj kvs, [])"
    using value_goes_on [OF ok, of "2 * length (p @ x) + 1" "[]"] t by (simp del: dumps.simps json_value.simps)
  have le: "?n \<le> 2 * length (p @ x) + 1" by simp
  have "json_value pf ?n p \<noteq> Inr (v, r)" for v r
  proof
    assume a: "json_value pf ?n p = Inr (v, r)"
    have "settled v r" by (rule object_value [of pf ?n u]) (subst p [symmetric], rule a)
    from V(2) [OF a this le, of x] whole assms(4) show False by simp
  qed
  moreover have "json_value pf ?n p \<noteq> Inl Unmodelled" using V(4) [of p, OF _ le, of x] whole by (auto simp del: json_value.simps)
  moreover have "json_value pf ?n p \<noteq> Inl out_of_fuel" by (rule V(5)) simp
  ultimately have "json_value pf ?n p = Inl decode_error" using V(3) [of p] by (cases "json_value pf ?n p") auto
  then show ?thesis by (simp add: loads_def w)
qed

lemma loads_two:
  assumes "json_ok fl pf (JObj kvs)" and "skip_ws x \<noteq> []"
  shows "loads pf (dumps fl (JObj kvs) @ x) = Inl decode_error"
  using value_goes_on [OF assms(1), of "2 * length (dumps fl (JObj kvs) @ x) + 1" x] skip_ws_dumps [OF assms(1), of x] assms(2)
  by (simp add: loads_def del: dumps.simps json_value.simps)

text \<open>Sorting the keys keeps a value one that JSON has.\<close>

lemma sort_keys_ok: "json_ok fl pf j \<Longrightarrow> json_ok fl pf (sort_keys j)"
proof (induction j rule: sort_keys.induct)
  case (2 kvs)
  have "distinct (map fst (sort_key fst (map (\<lambda>kv. (fst kv, sort_keys (snd kv))) kvs)))"
  proof -
    have "mset (map fst (sort_key fst (map (\<lambda>kv. (fst kv, sort_keys (snd kv))) kvs))) = mset (map fst kvs)"
      by (simp add: multiset.map_comp comp_def)
    then show ?thesis using 2(2) by (metis json_ok.simps(3) mset_eq_imp_distinct_iff)
  qed
  moreover have "json_ok fl pf (sort_keys (snd kv))" if "kv \<in> set kvs" for kv
    using 2(1) [OF that] 2(2) that by simp
  ultimately show ?case by auto
qed auto

end
