(* ===== verification/ReceiptLog.thy ===== *)
theory ReceiptLog
  imports JsonText Workflow
begin

text \<open>
  \<open>receipts.jsonl\<close> (\<open>integrations/receipt_log.py\<close>) on its text: the file is \<open>None\<close> or its characters, a receipt is appended as one line of JSON with
  sorted keys, and the lines are read back one by one. The generator \<open>iter_receipts\<close> is the rows it gives and the exception that ends it, if one
  does. The handlers of the HTTP API see the log as the list of these rows (\<open>Api.iter_receipts\<close>); here is why they may, and what a line that was
  cut off does to every reader. The encoding of the file and failing disks are left out.
\<close>

type_synonym log_file = "string option"

definition log_init :: "log_file \<Rightarrow> log_file" where
  "log_init f = (case f of None \<Rightarrow> Some [] | Some t \<Rightarrow> Some t)"

definition log_line :: "(64 word \<Rightarrow> string) \<Rightarrow> json \<Rightarrow> string" where
  "log_line fl receipt = dumps fl (sort_keys receipt)"

definition log_append :: "(64 word \<Rightarrow> string) \<Rightarrow> json \<Rightarrow> log_file \<Rightarrow> log_file" where
  "log_append fl receipt f = Some (case_option [] id f @ log_line fl receipt @ [CHR 0x0A])"

text \<open>The lines of a file opened as text: a line feed or a carriage return ends one; the empty line between the two of a pair is skipped below.\<close>

fun text_lines :: "string \<Rightarrow> string list" where
  "text_lines [] = []"
| "text_lines (c # r) =
    (if c = CHR 0x0A \<or> c = CHR 0x0D then [] # text_lines r
     else case text_lines r of [] \<Rightarrow> [[c]] | l # ls \<Rightarrow> (c # l) # ls)"

fun log_rows :: "(string \<Rightarrow> 64 word) \<Rightarrow> string list \<Rightarrow> json list \<times> exn option" where
  "log_rows pf [] = ([], None)"
| "log_rows pf (l # ls) =
    (let raw = py_strip l in
     if raw = [] then log_rows pf ls
     else case loads pf raw of Inl e \<Rightarrow> ([], Some e) | Inr j \<Rightarrow> apfst (Cons j) (log_rows pf ls))"

definition log_iter :: "(string \<Rightarrow> 64 word) \<Rightarrow> log_file \<Rightarrow> json list \<times> exn option" where
  "log_iter pf f = (case f of None \<Rightarrow> ([], None) | Some t \<Rightarrow> log_rows pf (text_lines t))"

definition log_count :: "(string \<Rightarrow> 64 word) \<Rightarrow> log_file \<Rightarrow> int res" where
  "log_count pf f = (case log_iter pf f of (rows, None) \<Rightarrow> Inr (int (length rows)) | (rows, Some e) \<Rightarrow> Inl e)"

definition row_id :: "json \<Rightarrow> json res" where
  "row_id r = (case r of JObj kvs \<Rightarrow> Inr (get_or kvs ''request_id'' JNull) | _ \<Rightarrow> Inl (OtherError ''AttributeError''))"

text \<open>The comprehension asks each row for its id as it comes, so a row that is no dict fails before a later line does.\<close>

definition log_find :: "(string \<Rightarrow> 64 word) \<Rightarrow> string \<Rightarrow> log_file \<Rightarrow> json list res" where
  "log_find pf rid f = (case log_iter pf f of (rows, e) \<Rightarrow>
     bind_res (map_res (\<lambda>r. bind_res (row_id r) (\<lambda>i. Inr (i, r))) rows) (\<lambda>ps.
       case e of Some x \<Rightarrow> Inl x | None \<Rightarrow> Inr (map snd (filter (\<lambda>p. fst p = JStr rid) ps))))"

section \<open>Lines\<close>

lemma text_lines_line: "list_all printable l \<Longrightarrow> text_lines (l @ CHR 0x0A # t) = l # text_lines t"
  by (induction l) (auto simp: printable_def)

lemma text_lines_rest: "list_all printable l \<Longrightarrow> l \<noteq> [] \<Longrightarrow> text_lines l = [l]"
proof (induction l)
  case (Cons c l)
  then show ?case by (cases l) (auto simp: printable_def)
qed simp

definition whole_lines :: "string \<Rightarrow> bool" where
  "whole_lines t \<longleftrightarrow> t = [] \<or> last t = CHR 0x0A"

lemma text_lines_append: "whole_lines t \<Longrightarrow> text_lines (t @ u) = text_lines t @ text_lines u"
proof (induction t)
  case (Cons c t)
  show ?case
  proof (cases t)
    case Nil
    then show ?thesis using Cons.prems by (simp add: whole_lines_def)
  next
    case (Cons d r)
    then have "text_lines (t @ u) = text_lines t @ text_lines u" using Cons.IH Cons.prems by (simp add: whole_lines_def)
    moreover have "text_lines t \<noteq> []" using Cons by (simp split: list.split)
    ultimately show ?thesis by (auto split: list.split)
  qed
qed simp

lemma log_rows_append:
  "log_rows pf (ls @ ms) = (case log_rows pf ls of (rows, Some e) \<Rightarrow> (rows, Some e) | (rows, None) \<Rightarrow> apfst ((@) rows) (log_rows pf ms))"
  by (induction ls) (auto simp: Let_def apfst_def map_prod_def split: sum.splits prod.splits option.splits)

lemma log_iter_append:
  "whole_lines t \<Longrightarrow> log_iter pf (Some t) = (rows, None) \<Longrightarrow> log_iter pf (Some (t @ u)) = apfst ((@) rows) (log_rows pf (text_lines u))"
  by (simp add: log_iter_def text_lines_append log_rows_append)

section \<open>What is written is read\<close>

text \<open>A receipt the log can hold: a dict whose floats read back.\<close>

definition receipt_ok :: "(64 word \<Rightarrow> string) \<Rightarrow> (string \<Rightarrow> 64 word) \<Rightarrow> json \<Rightarrow> bool" where
  "receipt_ok fl pf r \<longleftrightarrow> json_ok fl pf r \<and> (\<exists>kvs. r = JObj kvs)"

lemma line_object:
  assumes "receipt_ok fl pf r"
  obtains kvs where "sort_keys r = JObj kvs" "json_ok fl pf (JObj kvs)" "log_line fl r = dumps fl (JObj kvs)"
    "list_all printable (log_line fl r)"
proof -
  obtain kvs where "r = JObj kvs" using assms by (auto simp: receipt_ok_def)
  moreover have ok: "json_ok fl pf (sort_keys r)" using assms sort_keys_ok by (simp add: receipt_ok_def)
  ultimately show thesis using dumps_printable [OF ok] that by (simp add: log_line_def del: dumps.simps)
qed

lemma not_space: "\<not> py_isspace (CHR ''{'')" "\<not> py_isspace (CHR ''}'')"
  by (simp_all add: py_isspace_def)

lemma strip_object: "py_strip (dumps fl (JObj kvs)) = dumps fl (JObj kvs)"
  by (simp add: py_strip_def not_space)

text \<open>Stripping the beginning of a line leaves a beginning of the line.\<close>

lemma strip_prefix:
  assumes "p = CHR ''{'' # u"
  obtains w where "p = py_strip p @ w" "py_strip p \<noteq> []"
proof -
  have d: "dropWhile py_isspace p = p" using assms not_space by simp
  have "rev (rev p) = rev (dropWhile py_isspace (rev p)) @ rev (takeWhile py_isspace (rev p))"
    by (metis rev_append takeWhile_dropWhile_id)
  then have "p = py_strip p @ rev (takeWhile py_isspace (rev p))" by (simp add: py_strip_def d)
  moreover have "dropWhile py_isspace (rev p) \<noteq> []"
    using assms not_space by (simp add: dropWhile_append)
  then have "py_strip p \<noteq> []" by (simp add: py_strip_def d)
  ultimately show thesis by (rule that)
qed

lemma line_read:
  assumes "receipt_ok fl pf r"
  shows "log_rows pf (text_lines (log_line fl r @ [CHR 0x0A])) = ([sort_keys r], None)"
proof -
  obtain kvs where k: "sort_keys r = JObj kvs" "json_ok fl pf (JObj kvs)" "log_line fl r = dumps fl (JObj kvs)" "list_all printable (log_line fl r)"
    by (rule line_object [OF assms])
  have "loads pf (log_line fl r) = Inr (sort_keys r)" using loads_dumps [OF k(2)] k(1,3) by (simp del: dumps.simps)
  moreover have "py_strip (log_line fl r) = log_line fl r" by (simp only: k(3) strip_object)
  moreover have "log_line fl r \<noteq> []" by (simp add: k(3))
  ultimately show ?thesis using text_lines_line [OF k(4), of "[]"] by simp
qed

text \<open>A dict that was cut off ends the reading, and so does one with another line behind it.\<close>

lemma torn_line_read:
  assumes "receipt_ok fl pf r" and "0 < k" and "k < length (log_line fl r)"
  shows "log_rows pf (text_lines (take k (log_line fl r))) = ([], Some decode_error)"
proof -
  obtain kvs where k: "sort_keys r = JObj kvs" "json_ok fl pf (JObj kvs)" "log_line fl r = dumps fl (JObj kvs)" "list_all printable (log_line fl r)"
    by (rule line_object [OF assms(1)])
  let ?p = "take k (log_line fl r)"
  have "list_all printable ?p" "?p \<noteq> []" using k(4) assms(2,3) by (auto simp: list_all_iff dest: in_set_takeD)
  then have l: "text_lines ?p = [?p]" by (rule text_lines_rest)
  obtain u where "?p = CHR ''{'' # u" using assms(2) by (cases k) (simp_all add: k(3))
  from strip_prefix [OF this] obtain w where w: "?p = py_strip ?p @ w" "py_strip ?p \<noteq> []" .
  have "dumps fl (JObj kvs) = py_strip ?p @ (w @ drop k (log_line fl r))" using w(1) k(3) by (metis append.assoc append_take_drop_id)
  from loads_torn [OF k(2) this w(2)] assms(3) have "loads pf (py_strip ?p) = Inl decode_error" by simp
  then show ?thesis using w(2) by (simp add: l)
qed

lemma merged_line_read:
  assumes "receipt_ok fl pf r" and "receipt_ok fl pf q"
  shows "log_rows pf (text_lines (log_line fl r @ log_line fl q @ [CHR 0x0A])) = ([], Some decode_error)"
proof -
  obtain kvs where k: "sort_keys r = JObj kvs" "json_ok fl pf (JObj kvs)" "log_line fl r = dumps fl (JObj kvs)" "list_all printable (log_line fl r)"
    by (rule line_object [OF assms(1)])
  obtain lvs where m: "sort_keys q = JObj lvs" "json_ok fl pf (JObj lvs)" "log_line fl q = dumps fl (JObj lvs)" "list_all printable (log_line fl q)"
    by (rule line_object [OF assms(2)])
  have s: "py_strip (log_line fl r @ log_line fl q) = log_line fl r @ log_line fl q"
    by (simp add: py_strip_def not_space k(3) m(3))
  have "skip_ws (log_line fl q) \<noteq> []" using skip_ws_dumps [OF m(2), of "[]"] m(3) by simp
  from loads_two [OF k(2) this] have "loads pf (log_line fl r @ log_line fl q) = Inl decode_error" by (simp only: k(3))
  moreover have "log_line fl r \<noteq> []" by (simp add: k(3))
  ultimately show ?thesis using text_lines_line [of "log_line fl r @ log_line fl q" "[]"] k(4) m(4) s by simp
qed

lemma unended_line_read: "receipt_ok fl pf r \<Longrightarrow> log_rows pf (text_lines (log_line fl r)) = ([sort_keys r], None)"
proof -
  assume ok: "receipt_ok fl pf r"
  obtain kvs where k: "log_line fl r = dumps fl (JObj kvs)" "list_all printable (log_line fl r)" by (rule line_object [OF ok])
  have "text_lines (log_line fl r) = [log_line fl r]" using k by (intro text_lines_rest) simp_all
  then show ?thesis using line_read [OF ok] text_lines_line [OF k(2), of "[]"] by simp
qed

section \<open>The log as its readers see it\<close>

text \<open>What the readers rely on: on a whole log, appending adds one row, and leaves the log whole.\<close>

locale append_log =
  fixes append :: "'r \<Rightarrow> 'f \<Rightarrow> 'f" and iter :: "'f \<Rightarrow> 'r list \<times> exn option" and whole :: "'f \<Rightarrow> bool"
    and good :: "'r \<Rightarrow> bool" and shown :: "'r \<Rightarrow> 'r"
  assumes append_whole: "whole f \<Longrightarrow> good r \<Longrightarrow> whole (append r f)"
    and iter_append: "whole f \<Longrightarrow> good r \<Longrightarrow> iter f = (rows, None) \<Longrightarrow> iter (append r f) = (rows @ [shown r], None)"
begin

lemma history:
  "whole f \<Longrightarrow> iter f = (rows, None) \<Longrightarrow> \<forall>r\<in>set rs. good r \<Longrightarrow>
    whole (fold append rs f) \<and> iter (fold append rs f) = (rows @ map shown rs, None)"
  by (induction rs arbitrary: f rows) (simp_all add: append_whole iter_append)

end

definition log_text :: "log_file \<Rightarrow> string" where
  "log_text f = case_option [] id f"

lemma log_text_append: "log_text (log_append fl r f) = log_text f @ log_line fl r @ [CHR 0x0A]"
  by (simp add: log_text_def log_append_def)

lemma log_iter_text: "log_iter pf (Some (log_text f)) = log_iter pf f"
  by (cases f) (simp_all add: log_text_def log_iter_def)

interpretation tl: append_log "log_append fl" "log_iter pf" "\<lambda>f. whole_lines (log_text f)" "receipt_ok fl pf" sort_keys
proof
  show "whole_lines (log_text (log_append fl r f))" for r f by (simp add: log_text_append whole_lines_def)
  show "log_iter pf (log_append fl r f) = (rows @ [sort_keys r], None)"
    if "whole_lines (log_text f)" "receipt_ok fl pf r" "log_iter pf f = (rows, None)" for f r rows
  proof -
    have "log_append fl r f = Some (log_text f @ log_line fl r @ [CHR 0x0A])" by (simp add: log_append_def log_text_def)
    then show ?thesis using log_iter_append [of "log_text f" pf rows] that line_read [OF that(2)] by (simp add: log_iter_text)
  qed
qed

lemma log_of_receipts:
  assumes "\<forall>r\<in>set rs. receipt_ok fl pf r"
  shows "whole_lines (log_text (fold (log_append fl) rs (log_init None)))"
    and "log_iter pf (fold (log_append fl) rs (log_init None)) = (map sort_keys rs, None)"
proof -
  have "log_iter pf (log_init None) = ([], None)" "whole_lines (log_text (log_init None))"
    by (simp_all add: log_iter_def log_init_def log_text_def whole_lines_def)
  from tl.history [OF this(2,1) assms]
  show "whole_lines (log_text (fold (log_append fl) rs (log_init None)))"
    "log_iter pf (fold (log_append fl) rs (log_init None)) = (map sort_keys rs, None)" by simp_all
qed

lemma log_grows: "\<exists>w. log_text (fold (log_append fl) rs f) = log_text f @ w"
proof (induction rs arbitrary: f)
  case (Cons r rs)
  from Cons.IH [of "log_append fl r f"] show ?case by (auto simp: log_text_append)
qed simp

lemma map_of_values: "map_of (map (\<lambda>kv. (fst kv, f (snd kv))) kvs) k = map_option f (map_of kvs k)"
  by (induction kvs) auto

lemma row_id_sorted:
  assumes "receipt_ok fl pf r"
  shows "\<exists>i. row_id r = Inr i \<and> row_id (sort_keys r) = Inr (sort_keys i)"
proof -
  obtain kvs where r: "r = JObj kvs" "distinct (map fst kvs)" using assms by (auto simp: receipt_ok_def)
  let ?m = "map (\<lambda>kv. (fst kv, sort_keys (snd kv))) kvs"
  have d: "distinct (map fst ?m)" using r(2) by (simp add: comp_def)
  have "mset (map fst (sort_key fst ?m)) = mset (map fst ?m)" by (simp only: mset_map mset_sort)
  from mset_eq_imp_distinct_iff [OF this] d have "distinct (map fst (sort_key fst ?m))" by blast
  then have "map_of (sort_key fst ?m) = map_of ?m" using d map_of_inject_set [of "sort_key fst ?m" ?m] by simp
  then have "dget (sort_key fst ?m) k = map_option sort_keys (dget kvs k)" for k by (simp add: dget_def map_of_values)
  then show ?thesis by (simp add: r(1) row_id_def get_or_def split: option.split)
qed

lemma rows_found:
  assumes "\<forall>r\<in>set rs. receipt_ok fl pf r"
  shows "map_res (\<lambda>r. bind_res (row_id r) (\<lambda>i. Inr (i, r))) (map sort_keys rs)
    = Inr (map (\<lambda>r. (sort_keys (projr (row_id r)), sort_keys r)) rs)"
  using assms
proof (induction rs)
  case (Cons r rs)
  then show ?case using row_id_sorted [of fl pf r] by auto
qed simp

lemma sorted_str: "sort_keys j = JStr s \<longleftrightarrow> j = JStr s"
  by (cases j) simp_all

lemma log_find_rows:
  assumes "log_iter pf f = (map sort_keys rs, e)" and "\<forall>r\<in>set rs. receipt_ok fl pf r"
  shows "log_find pf rid f = (case e of Some x \<Rightarrow> Inl x | None \<Rightarrow> Inr (map sort_keys (filter (\<lambda>r. row_id r = Inr (JStr rid)) rs)))"
proof -
  have "\<forall>r\<in>set rs. (projr (row_id r) = JStr rid) = (row_id r = Inr (JStr rid))"
    using assms(2) row_id_sorted by fastforce
  then have "map snd (filter (\<lambda>p. fst p = JStr rid) (map (\<lambda>r. (sort_keys (projr (row_id r)), sort_keys r)) rs))
      = map sort_keys (filter (\<lambda>r. row_id r = Inr (JStr rid)) rs)"
    by (induction rs) (simp_all add: sorted_str)
  then show ?thesis by (cases e) (simp_all add: log_find_def assms(1) rows_found [OF assms(2)])
qed

section \<open>The properties\<close>

text \<open>C39: The receipts appended to the log, before and after it is opened again, are read back complete and in order, with sorted keys; they are
  counted, each is found under its request id, and what was in the file stays there unchanged.\<close>

theorem receipts_read_back:
  assumes "\<forall>r\<in>set (rs @ qs). receipt_ok fl pf r"
  defines "before \<equiv> fold (log_append fl) rs (log_init None)"
  defines "after \<equiv> fold (log_append fl) qs (log_init before)"
  shows "log_iter pf after = (map sort_keys (rs @ qs), None) \<and> log_count pf after = Inr (int (length (rs @ qs)))
    \<and> log_find pf rid after = Inr (map sort_keys (filter (\<lambda>r. row_id r = Inr (JStr rid)) (rs @ qs)))
    \<and> (\<exists>w. log_text after = log_text before @ w)"
proof -
  have b: "log_init before = before" unfolding before_def by (induction rs rule: rev_induct) (simp_all add: log_init_def log_append_def)
  have af: "after = fold (log_append fl) qs before" by (simp add: after_def b)
  then have "after = fold (log_append fl) (rs @ qs) (log_init None)" by (simp add: before_def)
  with log_of_receipts(2) [OF assms(1)] have a: "log_iter pf after = (map sort_keys (rs @ qs), None)" by simp
  then show ?thesis
    using log_find_rows [OF a assms(1), of rid] log_grows [of fl qs before] by (simp add: log_count_def af)
qed

lemma demo_float: "float_text (\<lambda>_. ''0.5'') (\<lambda>_. x) x"
proof -
  have p: "list_all printable ''0.5''" by code_simp
  have n: "json_number (\<lambda>_. x) (''0.5'' @ r) = Inr (JFloat x, r)" if "number_ends r" for r
  proof -
    have d: "is_digit (CHR ''5'')" "\<not> is_digit (CHR ''-'')" by code_simp+
    have "scan_int (''0.5'' @ r) = Some (False, ''0'', ''.5'' @ r)" by (simp add: scan_int_def after_minus_def minus_first_def)
    moreover have "scan_digits (CHR ''5'' # r) = (''5'', r)" using scan_digits_append [of "''5''" r] that d by (auto simp: number_ends_def)
    then have "scan_frac (''.5'' @ r) = (''.5'', r)" by (simp add: scan_frac_def)
    ultimately show ?thesis using no_frac_exp [OF that] by (simp add: json_number_def)
  qed
  have "is_digit (CHR ''0'')" by code_simp
  then show ?thesis using p n by (simp add: float_text_def)
qed

abbreviation demo_receipt :: "string \<Rightarrow> json" where
  "demo_receipt rid \<equiv> JObj [(''success'', JBool True), (''request_id'', JStr rid), (''labels'', JList [JInt 3]), (''norm'', JFloat 7)]"

lemma demo_receipt_ok: "receipt_ok (\<lambda>_. ''0.5'') (\<lambda>_. 7) (demo_receipt rid)"
  using demo_float [of 7] by (simp add: receipt_ok_def)

theorem receipts_read_back_witness:
  "log_count (\<lambda>_. 7) (fold (log_append (\<lambda>_. ''0.5'')) [demo_receipt ''b''] (log_init (fold (log_append (\<lambda>_. ''0.5'')) [demo_receipt ''a''] (log_init None))))
    = Inr 2"
  using receipts_read_back [of "[demo_receipt ''a'']" "[demo_receipt ''b'']" "\<lambda>_. ''0.5''" "\<lambda>_. 7" "''a''"] demo_receipt_ok by simp

text \<open>C40: A line cut off by a crash: after part of it has been written, every reader gets the earlier receipts and then an exception, and count and
  find fail. When only the line feed is missing, the receipt is still read, but the next append spoils the line, and both receipts are lost.\<close>

theorem torn_receipt_breaks_reading:
  assumes "\<forall>x\<in>set rs. receipt_ok fl pf x" and "receipt_ok fl pf r" and "receipt_ok fl pf q"
  defines "written \<equiv> log_text (fold (log_append fl) rs (log_init None))"
  shows "(0 < k \<and> k < length (log_line fl r) \<longrightarrow>
      log_iter pf (Some (written @ take k (log_line fl r))) = (map sort_keys rs, Some decode_error)
      \<and> log_count pf (Some (written @ take k (log_line fl r))) = Inl decode_error
      \<and> log_find pf rid (Some (written @ take k (log_line fl r))) = Inl decode_error)
    \<and> log_iter pf (Some (written @ log_line fl r)) = (map sort_keys (rs @ [r]), None)
    \<and> log_iter pf (log_append fl q (Some (written @ log_line fl r))) = (map sort_keys rs, Some decode_error)"
proof -
  have w: "whole_lines written" "log_iter pf (Some written) = (map sort_keys rs, None)"
    using log_of_receipts [OF assms(1)] by (simp_all add: written_def log_iter_text)
  note a = log_iter_append [OF w]
  have t: "log_iter pf (Some (written @ take k (log_line fl r))) = (map sort_keys rs, Some decode_error)" if "0 < k" "k < length (log_line fl r)"
    using torn_line_read [OF assms(2) that] by (simp add: a)
  have "log_append fl q (Some (written @ log_line fl r)) = Some (written @ log_line fl r @ log_line fl q @ [CHR 0x0A])" by (simp add: log_append_def)
  then have "log_iter pf (log_append fl q (Some (written @ log_line fl r))) = (map sort_keys rs, Some decode_error)"
    using merged_line_read [OF assms(2,3)] by (simp add: a)
  then show ?thesis
    using t log_find_rows [OF t assms(1), of rid] unended_line_read [OF assms(2)] by (simp add: a log_count_def)
qed

theorem torn_receipt_breaks_reading_witness:
  "log_count (\<lambda>_. 7) (Some (log_text (fold (log_append (\<lambda>_. ''0.5'')) [demo_receipt ''a''] (log_init None)) @ take 5 (log_line (\<lambda>_. ''0.5'') (demo_receipt ''b''))))
    = Inl decode_error"
proof -
  have "5 < length (log_line (\<lambda>_. ''0.5'') (demo_receipt ''b''))" by code_simp
  then show ?thesis
    using torn_receipt_breaks_reading [of "[demo_receipt ''a'']" "\<lambda>_. ''0.5''" "\<lambda>_. 7" "demo_receipt ''b''" "demo_receipt ''c''" 5 "''a''"] demo_receipt_ok
    by (simp del: fold.simps)
qed

section \<open>The receipts of the service\<close>

text \<open>The receipts of the service are ones the log can hold, when the norms in their proofs read back.\<close>

lemma service_receipt_ok:
  assumes "\<forall>p\<in>set (rs_proofs (rc_residual_proof r)). float_text fl pf (rp_original_norm p)"
  shows "receipt_ok fl pf (receipt_json render r)"
  using assms by (auto simp: receipt_ok_def receipt_json_def summary_json_def proof_json_def jopt_def split: option.split)

end
