(* ===== verification/ApiReads.thy ===== *)
theory ApiReads
  imports Api NativeSearch Metrics ReceiptLog
begin

text \<open>
  The handlers of \<open>api/main.py\<close> that do not change what is stored: search, health, metrics, the strategy recommendation and the list of
  tenants; and what a search answers after a delete. Numbers of the process that are not part of its state (lock pool, timeouts, the contention
  counter, timers, the clock) are arguments, as are the conversions to Python floats.
\<close>

section \<open>Search\<close>

record search_request =
  sq_query :: "64 word list"
  sq_k :: int
  sq_entry_node :: int

definition search_request_valid :: "search_request \<Rightarrow> bool" where
  "search_request_valid b \<longleftrightarrow> 1 \<le> sq_k b \<and> sq_k b \<le> 1000"

definition hit_json :: "('d \<Rightarrow> 64 word) \<Rightarrow> 'd search_hit \<Rightarrow> json" where
  "hit_json dbl h = JObj [(''node_id'', JInt (int (sh_node h))), (''distance'', JFloat (dbl (sh_distance h)))]"

text \<open>One attempt of \<open>_search\<close>; a search leaves the index as it is. \<open>Inr None\<close> would be a search that does not return.\<close>

definition search_attempt ::
  "'d fp \<Rightarrow> 'd cpp_std \<Rightarrow> (nat \<Rightarrow> bool) \<Rightarrow> f32 list \<Rightarrow> int \<Rightarrow> int \<Rightarrow> nat \<Rightarrow> hnsw_index \<Rightarrow> 'd search_hit list option res \<times> hnsw_index" where
  "search_attempt f C busy q k entry i ix =
    ((case search_knn f C (busy i) ix q k entry of None \<Rightarrow> Inr None | Some (Inl e) \<Rightarrow> Inl e | Some (Inr hs) \<Rightarrow> Inr (Some hs)), ix)"

text \<open>\<open>busy\<close> says which attempts run into a lock timeout. \<open>None\<close> is a request that is never answered; a query that is shorter than the rows
  is read beyond its end and has no modelled answer.\<close>

definition search_handler ::
  "('d, 'n) api_env \<Rightarrow> 'd cpp_std \<Rightarrow> (nat \<Rightarrow> bool) \<Rightarrow> ('d \<Rightarrow> 64 word) \<Rightarrow> search_request \<Rightarrow> 'n api \<Rightarrow> (reply \<times> 'n api) option" where
  "search_handler a C busy dbl body st =
    (if \<not> index_loaded st then Some (HttpException 409 ''no index loaded'', st)
     else
       case with_lock_retry (pv_attempts (ae_penv a))
              (search_attempt (pv_fp (ae_penv a)) C busy (map (ae_f32 a) (sq_query body)) (sq_k body) (sq_entry_node body))
              (pe_mem (ap_engine st)) of
         (r, _, attempts) \<Rightarrow>
           (let st1 = api_inc ''searches'' 1 st
            in case r of
                 Inl (LockContentionError t) \<Rightarrow> Some (HttpException 503 (''lock contention after retries: '' @ t), st1)
               | Inl (ValueError t) \<Rightarrow> Some (HttpException 400 t, st1)
               | Inl Unmodelled \<Rightarrow> Some (Unhandled Unmodelled, st1)
               | Inl e \<Rightarrow> Some (HttpException 500 (''native search failed: '' @ exn_str e), st1)
               | Inr None \<Rightarrow> None
               | Inr (Some hits) \<Rightarrow>
                   Some (Reply (JObj [(''hits'', JList (map (hit_json dbl) hits)), (''retries'', JInt (max 0 (int attempts - 1)))]), st1)))"

definition search ::
  "('d, 'n) api_env \<Rightarrow> 'd cpp_std \<Rightarrow> (nat \<Rightarrow> bool) \<Rightarrow> ('d \<Rightarrow> 64 word) \<Rightarrow> search_request \<Rightarrow> 'n api \<Rightarrow> (reply \<times> 'n api) option" where
  "search a C busy dbl body st =
    (if search_request_valid body then search_handler a C busy dbl body st
     else Some (HttpException 422 ''Unprocessable Entity'', st))"

section \<open>Health and metrics\<close>

definition bootstrap_json :: "string \<Rightarrow> string \<Rightarrow> bool \<times> hard_delete_result list \<Rightarrow> json" where
  "bootstrap_json index_path wal_path out =
    JObj [(''index_loaded'', JBool (fst out)), (''index_path'', JStr index_path), (''wal_path'', JStr wal_path),
      (''recovered_transactions'', JList (map (\<lambda>r. JObj [(''transaction_id'', JInt (hd_transaction_id r)), (''node_id'', JInt (hd_node_id r)),
         (''message'', jopt JStr (hd_message r))]) (snd out)))]"

text \<open>What \<open>/health\<close> reads beside the state.\<close>

record health_env =
  he_lock_pool_size :: int
  he_lock_timeout_ms :: int
  he_bootstrap :: "(bool \<times> hard_delete_result list) option"
  he_lock_contention :: "int option"

definition counter_json :: "(rat \<Rightarrow> 64 word) \<Rightarrow> int option \<Rightarrow> json" where
  "counter_json dbl c = (case c of None \<Rightarrow> JInt 0 | Some n \<Rightarrow> JFloat (dbl (of_int n)))"

definition health :: "('d, 'n) api_env \<Rightarrow> health_env \<Rightarrow> (rat \<Rightarrow> 64 word) \<Rightarrow> 'n api \<Rightarrow> reply" where
  "health a h dbl st =
    (let ip = ae_dir a @ ''/index.bin''; wp = ae_dir a @ ''/index.wal'' in
     Reply (JObj [(''status'', JStr ''ok''), (''index_loaded'', JBool (index_loaded st)), (''lock_pool_size'', JInt (he_lock_pool_size h)),
       (''lock_timeout_ms'', JInt (he_lock_timeout_ms h)), (''index_path'', JStr ip), (''wal_path'', JStr wp),
       (''bootstrap'', case he_bootstrap h of None \<Rightarrow> JObj [] | Some out \<Rightarrow> bootstrap_json ip wp out), (''api_version'', JStr ''0.3.0''),
       (''multi_tenant'', JBool (multi_tenant_enabled (ae_environ a))),
       (''metrics'', JObj [(''deletes_batches'', counter_json dbl (dget (sv_counters (ap_service st)) ''deletes_batches'')),
          (''lock_contention'', counter_json dbl (he_lock_contention h))])]))"

text \<open>The registry of the process: the counters and gauges that the service keeps, with the timers and the start time given.\<close>

definition process_metrics :: "rat \<Rightarrow> (string, timer_agg) dict \<Rightarrow> 'n api \<Rightarrow> metrics" where
  "process_metrics started timers st = \<lparr>mx_counters = map (\<lambda>(k, n). (k, of_int n)) (sv_counters (ap_service st)), mx_timers = timers,
     mx_gauges = map (\<lambda>(k, n). (k, of_int n)) (sv_gauges (ap_service st)), mx_started_unix = started\<rparr>"

definition metrics_prometheus :: "(nat \<Rightarrow> rat \<Rightarrow> string) \<Rightarrow> (rat \<Rightarrow> string) \<Rightarrow> rat \<Rightarrow> metrics \<Rightarrow> string" where
  "metrics_prometheus fl fs now m = prometheus_text fl fs now m"

definition stats_json_of :: "(rat \<Rightarrow> 64 word) \<Rightarrow> timer_stats \<Rightarrow> json" where
  "stats_json_of dbl t = JObj [(''count'', JInt (ts_count t)), (''total_ms'', JFloat (dbl (ts_total_ms t))),
     (''mean_ms'', JFloat (dbl (ts_mean_ms t))), (''max_ms'', JFloat (dbl (ts_max_ms t)))]"

definition metrics_json :: "(rat \<Rightarrow> 64 word) \<Rightarrow> rat \<Rightarrow> metrics \<Rightarrow> reply" where
  "metrics_json dbl now m =
    (let s = mx_snapshot now m; num = map (\<lambda>(k, v). (k, JFloat (dbl v))) in
     Reply (JObj [(''uptime_s'', JFloat (dbl (ss_uptime_s s))), (''counters'', JObj (num (ss_counters s))), (''gauges'', JObj (num (ss_gauges s))),
       (''timers_ms'', JObj (map (\<lambda>(k, t). (k, stats_json_of dbl t)) (ss_timers_ms s)))]))"

section \<open>Strategy and tenants\<close>

record strategy_request =
  st_delete_count :: int
  st_index_size :: int
  st_supports_compact :: bool
  st_supports_heal :: bool

definition strategy_request_valid :: "strategy_request \<Rightarrow> bool" where
  "strategy_request_valid b \<longleftrightarrow> 0 \<le> st_delete_count b \<and> 0 \<le> st_index_size b"

fun action_str :: "strategy_action \<Rightarrow> string" where
  "action_str wipe_only = ''wipe_only''"
| "action_str wipe_and_heal = ''wipe_and_heal''"
| "action_str wipe_and_compact = ''wipe_and_compact''"
| "action_str wipe_heal_and_compact = ''wipe_heal_and_compact''"
| "action_str full_rebuild_recommended = ''full_rebuild_recommended''"

definition recommendation_dict ::
  "(strategy_details \<Rightarrow> string) \<Rightarrow> (rat \<Rightarrow> 64 word) \<Rightarrow> strategy_recommendation \<Rightarrow> (string \<times> json) list" where
  "recommendation_dict render dbl r = [(''action'', JStr (action_str (sr_action r))), (''reason'', JStr (sr_reason r)),
     (''delete_fraction'', JFloat (dbl (sr_delete_fraction r))), (''prefer_compact'', JBool (sr_prefer_compact r)),
     (''prefer_heal'', JBool (sr_prefer_heal r)), (''prefer_full_rebuild'', JBool (sr_prefer_full_rebuild r)),
     (''details'', JStr (render (sr_details r)))]"

definition recommend_strategy ::
  "environ \<Rightarrow> (strategy_details \<Rightarrow> string) \<Rightarrow> (rat \<Rightarrow> 64 word) \<Rightarrow> strategy_request \<Rightarrow> reply" where
  "recommend_strategy env render dbl body =
    (if \<not> strategy_request_valid body then HttpException 422 ''Unprocessable Entity''
     else
       let r = recommend_default env (st_delete_count body) (st_index_size body) (st_supports_compact body) (st_supports_heal body)
       in Reply (JObj (dset ''suggested_compact_mode'' (JStr (compact_mode_for_recommendation r True)) (recommendation_dict render dbl r))))"

definition tenants_reply :: "environ \<Rightarrow> string list option \<Rightarrow> reply" where
  "tenants_reply env dirs =
    Reply (JObj [(''multi_tenant'', JBool (multi_tenant_enabled env)), (''tenants'', JList (map JStr (list_tenants dirs)))])"

section \<open>What a retried erase does to the links\<close>

text \<open>Only the last attempt touches more than the row.\<close>

definition same_graph :: "hnsw_index \<Rightarrow> hnsw_index \<Rightarrow> bool" where
  "same_graph ix ix' \<longleftrightarrow> hx_adj ix' = hx_adj ix \<and> hx_entry ix' = hx_entry ix \<and> hx_dim ix' = hx_dim ix \<and> num_elements ix' = num_elements ix
    \<and> (index_ok ix \<longrightarrow> index_ok ix')"

lemma overwrite_same_graph: "overwrite_vector ix node = Inr ix1 \<Longrightarrow> same_graph ix ix1"
  by (auto simp: overwrite_vector_def same_graph_def num_elements_def index_ok_def ensure_node_def list_all_iff zero_row_def
      dest!: set_update_subset_insert [THEN subsetD] split: sum.splits if_splits)

lemma native_erase_once:
  assumes "native_erase f ms busy node m ix = (r, ix1)"
  shows "(case r of Inr _ \<Rightarrow> erase_node f ms node m ix = (r, ix1)
    | Inl (LockContentionError _) \<Rightarrow> busy = None \<or> same_graph ix ix1 | Inl _ \<Rightarrow> True)"
  using assms
  by (auto simp: native_erase_def same_graph_def dest: overwrite_same_graph split: option.splits if_splits sum.splits contention.splits exn.splits)

lemma erase_node_no_contention: "erase_node f ms node m ix \<noteq> (Inl (LockContentionError t), ix1)"
  by (auto simp: erase_node_def overwrite_vector_def ensure_node_def heal_graph_structure_def node_error_def Let_def
      split: sum.splits if_splits prod.splits)

lemma retry_last:
  "retry_from (\<lambda>i. native_erase f ms (busy i) node m) i k ix = (Inr r, ix', n) \<Longrightarrow>
     \<exists>ix0. same_graph ix ix0 \<and> erase_node f ms node m ix0 = (Inr r, ix')"
proof (induction k arbitrary: i ix)
  case (Suc k)
  obtain r1 ix1 where one: "native_erase f ms (busy i) node m ix = (r1, ix1)" by fastforce
  note o = native_erase_once [OF one]
  show ?case
  proof (cases r1)
    case (Inr x)
    then have "erase_node f ms node m ix = (Inr r, ix')" using one o Suc.prems by simp
    then show ?thesis by (auto simp: same_graph_def)
  next
    case (Inl x)
    then obtain t where t: "x = LockContentionError t" using one Suc.prems by (cases x) auto
    then have "k \<noteq> 0" "retry_from (\<lambda>i. native_erase f ms (busy i) node m) (Suc i) k ix1 = (Inr r, ix', n)"
      using one Inl Suc.prems by (auto split: if_splits)
    moreover have "busy i \<noteq> None"
      using one Inl t erase_node_no_contention [of f ms node m ix t ix1] by (cases "busy i") (simp_all add: native_erase_def)
    then have "same_graph ix ix1" using o Inl t by auto
    ultimately show ?thesis using Suc.IH [of "Suc i" ix1] by (auto simp: same_graph_def)
  qed
qed simp

lemma hard_delete_last:
  assumes "hard_delete_and_heal v node m rc e = (Inr r, e')"
  shows "\<exists>ms ix0 x. same_graph (pe_mem e) ix0 \<and> erase_node (pv_fp v) ms node m ix0 = (Inr x, pe_mem e')"
proof -
  obtain b e1 x e2 y e3 where s: "begin_step v node m e = (Inr b, e1)" "erase_step v node m e1 = (Inr x, e2)"
    "atomic_flush_index v e2 = (Inr y, e3)" "pe_mem e' = pe_mem e3"
    using assms step_mems(2) by (fastforce simp: hard_delete_and_heal_def split: prod.splits sum.splits if_splits)
  have mem: "pe_mem e1 = pe_mem e" "pe_mem e' = pe_mem e2" using step_mems(1) [OF s(1)] step_mems(3) [OF s(3)] s(4) by simp_all
  obtain ix n where "with_lock_retry (pv_attempts v) (\<lambda>i. native_erase (pv_fp v) (pv_ms v (pe_tick e1)) (pv_busy v (pe_tick e1) i) node m) (pe_mem e1)
      = (Inr x, ix, n)" "pe_mem e2 = ix"
    using s(2) by (auto simp: erase_step_def split: prod.splits)
  from retry_last [OF this(1) [unfolded with_lock_retry_def]] this(2) mem show ?thesis by auto
qed

section \<open>Search through the service\<close>

lemma retry_search:
  assumes "search_knn f C False ix q k e = Some (Inr hs)" and "\<exists>j < n. \<not> busy (i + j)"
    and "search_knn f C True ix q k e = Some (Inl (LockContentionError t))"
  shows "\<exists>c. retry_from (search_attempt f C busy q k e) i n ix = (Inr (Some hs), ix, c)"
  using assms(2)
proof (induction n arbitrary: i)
  case (Suc n)
  show ?case
  proof (cases "busy i")
    case False
    then show ?thesis using assms(1) by (simp add: search_attempt_def)
  next
    case True
    then have more: "\<exists>j < n. \<not> busy (Suc i + j)"
      using Suc.prems by (metis Suc_less_eq add.right_neutral add_Suc_right add_Suc_shift not0_implies_Suc)
    then have "n \<noteq> 0" by auto
    then show ?thesis using Suc.IH [OF more] assms(3) True by (auto simp: search_attempt_def)
  qed
qed simp

text \<open>A query that has all components, and contention that ends in time.\<close>

definition search_clean :: "('d, 'n) api_env \<Rightarrow> (nat \<Rightarrow> bool) \<Rightarrow> nat \<Rightarrow> search_request \<Rightarrow> bool" where
  "search_clean a busy d body \<longleftrightarrow> search_request_valid body \<and> sq_query body \<noteq> [] \<and> d \<le> length (sq_query body)
     \<and> - (2 ^ 63) \<le> sq_entry_node body \<and> sq_entry_node body < 2 ^ 63
     \<and> (\<exists>i < nat (if pv_attempts (ae_penv a) < 1 then 1 else pv_attempts (ae_penv a)). \<not> busy i)"

lemma search_clean_query:
  "search_clean a busy (hx_dim ix) body \<Longrightarrow> query_ok ix (map (ae_f32 a) (sq_query body)) (sq_k body) (sq_entry_node body)"
  by (auto simp: search_clean_def query_ok_def search_request_valid_def)

lemma search_answers:
  assumes "search_clean a busy (hx_dim (pe_mem (ap_engine st))) body" and "index_loaded st"
    and "search_knn (pv_fp (ae_penv a)) C False (pe_mem (ap_engine st)) (map (ae_f32 a) (sq_query body)) (sq_k body) (sq_entry_node body) = Some (Inr hs)"
  shows "\<exists>n. search a C busy dbl body st
    = Some (Reply (JObj [(''hits'', JList (map (hit_json dbl) hs)), (''retries'', JInt n)]), api_inc ''searches'' 1 st)"
proof -
  let ?ix = "pe_mem (ap_engine st)" and ?q = "map (ae_f32 a) (sq_query body)"
  have q: "query_ok ?ix ?q (sq_k body) (sq_entry_node body)" by (rule search_clean_query [OF assms(1)])
  then have bz: "search_knn (pv_fp (ae_penv a)) C True ?ix ?q (sq_k body) (sq_entry_node body) = Some (Inl (LockContentionError ''stripe lock timeout''))"
    using assms(2) by (auto simp: search_knn_def query_ok_def index_loaded_def)
  obtain c where "with_lock_retry (pv_attempts (ae_penv a))
      (search_attempt (pv_fp (ae_penv a)) C busy ?q (sq_k body) (sq_entry_node body)) ?ix = (Inr (Some hs), ?ix, c)"
    using retry_search [OF assms(3) _ bz, of "nat (if pv_attempts (ae_penv a) < 1 then 1 else pv_attempts (ae_penv a))" busy 0] assms(1)
    by (auto simp: with_lock_retry_def search_clean_def)
  then show ?thesis using assms(1,2) by (simp add: search_def search_handler_def search_clean_def Let_def)
qed

section \<open>A deleted row is not found\<close>

lemma raw_delete_graph:
  assumes "benign (ae_penv a)" "engine_ok (ap_engine st)" "delete_request_valid b" "dr_max_m b < 2 ^ 31"
    "dr_node_id b < int (num_elements (pe_mem (ap_engine st)))" "0 < ids_left (ap_engine st)"
  shows "\<exists>j st' ms ix0 x. delete_node a b st = (Reply j, st') \<and> engine_ok (ap_engine st') \<and> same_graph (pe_mem (ap_engine st)) ix0
    \<and> wiped (nat (dr_node_id b)) (pe_mem (ap_engine st)) (pe_mem (ap_engine st'))
    \<and> erase_node (pv_fp (ae_penv a)) ms (dr_node_id b) (dr_max_m b) ix0 = (Inr x, pe_mem (ap_engine st'))"
proof -
  let ?e = "ap_engine st"
  have n: "in_reach (pe_mem ?e) (dr_node_id b) (dr_max_m b)" using assms(3-5) by (simp add: in_reach_def delete_request_valid_def)
  obtain r e' where d: "hard_delete_and_heal (ae_penv a) (dr_node_id b) (dr_max_m b) False ?e = (Inr r, e')" "engine_ok e'"
    "wiped (nat (dr_node_id b)) (pe_mem ?e) (pe_mem e')"
    using hard_delete_ok [OF assms(1,2) n assms(6)] by blast
  obtain ms ix0 x where g: "same_graph (pe_mem ?e) ix0" "erase_node (pv_fp (ae_penv a)) ms (dr_node_id b) (dr_max_m b) ix0 = (Inr x, pe_mem e')"
    using hard_delete_last [OF d(1)] by blast
  have "index_loaded st" using assms(2) by (simp add: index_loaded_def engine_ok_def ready_def)
  then have "\<exists>j st'. delete_node a b st = (Reply j, st') \<and> ap_engine st' = e'"
    using d(1) by (simp add: delete_node_def Let_def api_inc_def metric_inc_def)
  then show ?thesis using d(2,3) g by blast
qed

text \<open>The links after an erase whose retries are over: nothing leads to the erased row any more.\<close>

lemma erased_graph_closed:
  assumes "index_ok ix" "same_graph ix ix0" "erase_node f ms (int q) m ix0 = (Inr x, ix')" "in_links_near ix q" "q < num_elements ix" "int q < 2 ^ 63"
    "0 < m" "m < 2 ^ 31"
  shows "links_closed ix' (- {q}) \<and> hx_entry ix' = entry_after (num_elements ix) q (hx_entry ix) \<and> num_elements ix' = num_elements ix"
proof -
  have g: "index_ok ix0" "num_elements ix0 = num_elements ix" "hx_adj ix0 = hx_adj ix" "hx_entry ix0 = hx_entry ix"
    using assms(1,2) by (simp_all add: same_graph_def)
  have "in_links_near ix0 q" using assms(4) g(2,3) by (simp add: in_links_near_def)
  then show ?thesis
    using erase_node_links [OF g(1), of q m f ms] assms(3,5-8) g(2,4) by (auto simp: links_closed_def unlisted_def)
qed

lemma erased_start:
  assumes "hx_entry ix' = entry_after N q e0" "num_elements ix' = N" "q < N" "2 \<le> N" "0 \<le> e0" "e0 < int N" "e < 0 \<or> e < int N \<and> e \<noteq> int q"
  shows "search_start ix' e \<noteq> q"
  using assms by (auto simp: search_start_def Let_def entry_after_def nat_eq_iff split: if_splits)

text \<open>Any way to erase one row of a freshly loaded index, followed by a search.\<close>

lemma not_found_after:
  assumes f: "fp_order (pv_fp (ae_penv a))" "std_ok (pv_fp (ae_penv a)) C"
    and ld: "load_ring rows d ix0 = (Inr (), ix)" "ready ix" "hx_rows ix = rows" "hx_dim ix = d" "2 \<le> length rows" "length rows < 2 ^ 63"
    and er: "same_graph ix ix1" "erase_node (pv_fp (ae_penv a)) ms (int q) m ix1 = (Inr x, pe_mem (ap_engine st))" "q < length rows" "0 < m" "m < 2 ^ 31"
    and w: "wiped q ix (pe_mem (ap_engine st))" "engine_ok (ap_engine st)"
    and sr: "search_clean a busy d sb" "sq_entry_node sb < 0 \<or> sq_entry_node sb < int (length rows) \<and> sq_entry_node sb \<noteq> int q"
  shows "\<exists>hs n. search a C busy dbl sb st
      = Some (Reply (JObj [(''hits'', JList (map (hit_json dbl) hs)), (''retries'', JInt n)]), api_inc ''searches'' 1 st)
    \<and> hs \<noteq> [] \<and> int (length hs) \<le> sq_k sb
    \<and> (\<forall>h\<in>set hs. sh_node h \<noteq> q \<and> sh_node h < length rows
        \<and> sh_distance h = fp_l2 (pv_fp (ae_penv a)) (take d (map (ae_f32 a) (sq_query sb))) (rows ! sh_node h))"
proof -
  let ?f = "pv_fp (ae_penv a)" and ?q = "map (ae_f32 a) (sq_query sb)" and ?ix2 = "pe_mem (ap_engine st)"
  have N: "num_elements ix = length rows" using ld(3) by (simp add: num_elements_def)
  have ok: "index_ok ix" "is_loaded ?ix2" using ld(2) w(2) by (simp_all add: engine_ok_def ready_def)
  have e0: "hx_entry ix = 0" using load_ring_links [OF ld(1)] ld(5) by (cases rows) auto
  have q63: "int q < 2 ^ 63" using er(3) ld(6) by simp
  have g: "links_closed ?ix2 (- {q})" "hx_entry ?ix2 = entry_after (length rows) q 0" "num_elements ?ix2 = length rows"
    using erased_graph_closed [OF ok(1) er(1,2) ring_in_links_near [OF ld(1) er(3) N] _ q63 er(4,5)] er(3) N e0 by auto
  have start: "search_start ?ix2 (sq_entry_node sb) \<noteq> q" by (rule erased_start [OF g(2,3) er(3) ld(5) _ _ sr(2)]) (simp, use ld(5) in linarith)
  have dim: "hx_dim ?ix2 = d" using w(1) ld(4) by (simp add: wiped_def)
  have sc: "search_clean a busy (hx_dim ?ix2) sb" using sr(1) dim by simp
  obtain hs where s: "search_knn ?f C False ?ix2 ?q (sq_k sb) (sq_entry_node sb) = Some (Inr hs)"
    using search_knn_returns [OF f(1) ok(2) search_clean_query [OF sc]] by blast
  have h: "hits_ok ?f ?ix2 ?q (- {q}) hs" "int (length hs) \<le> sq_k sb" "hs \<noteq> []"
    using search_knn_hits [OF s f(2) g(1)] start sr(1) by (auto simp: search_clean_def search_request_valid_def)
  have row: "hx_rows ?ix2 ! n = rows ! n" if "n \<noteq> q" for n using w(1) ld(3) that by (simp add: wiped_def)
  have hits: "sh_node y \<noteq> q \<and> sh_node y < length rows \<and> sh_distance y = fp_l2 ?f (take d ?q) (rows ! sh_node y)" if "y \<in> set hs" for y
  proof -
    have y: "y = hit_of ?f ?ix2 ?q (sh_node y)" "sh_node y < num_elements ?ix2" "sh_node y \<noteq> q" using h(1) that by (auto simp: hits_ok_def)
    have "sh_distance y = distance_query ?f ?ix2 ?q (sh_node y)" by (subst y(1)) (rule sh_node_hit(2))
    then show ?thesis using y(2,3) g(3) dim row [OF y(3)] by (simp add: distance_query_def)
  qed
  have "index_loaded st" using ok(2) by (simp add: index_loaded_def)
  from search_answers [OF sc this s, of dbl] obtain n where "search a C busy dbl sb st
      = Some (Reply (JObj [(''hits'', JList (map (hit_json dbl) hs)), (''retries'', JInt n)]), api_inc ''searches'' 1 st)" ..
  then show ?thesis using h(2,3) hits by blast
qed


definition demo_search :: search_request where
  "demo_search = \<lparr>sq_query = [1, 2], sq_k = 5, sq_entry_node = -1\<rparr>"

lemma node_one: "n \<noteq> 0 + 0 \<Longrightarrow> n < 0 + 2 \<Longrightarrow> n = (1 :: nat)"
  by simp


section \<open>The receipts on file\<close>

text \<open>The list of receipts that the handlers answer from is what the file holds after the same appends, as long as every norm of a proof reads back.\<close>

lemma receipts_on_file:
  fixes a :: "('d, 'n) api_env" and st :: "'n api"
  assumes "\<forall>r\<in>set (sv_log (ap_service st)). \<forall>p\<in>set (rs_proofs (rc_residual_proof r)). float_text fl pf (rp_original_norm p)"
  defines "file \<equiv> fold (log_append fl) (map (receipt_json (ae_render a)) (sv_log (ap_service st))) (log_init None)"
  shows "log_iter pf file = (iter_receipts a st, None) \<and> log_find pf rid file = Inr (find_by_request_id a rid st)"
proof -
  let ?rs = "map (receipt_json (ae_render a)) (sv_log (ap_service st))"
  have ok: "\<forall>r\<in>set ?rs. receipt_ok fl pf r" using assms(1) service_receipt_ok by auto
  have i: "log_iter pf file = (map sort_keys ?rs, None)" unfolding file_def by (rule log_of_receipts(2) [OF ok])
  have "(row_id r = Inr (JStr rid)) = (json_get (sort_keys r) ''request_id'' = JStr rid)" if e: "r \<in> set ?rs" for r
  proof -
    obtain kvs where r: "r = JObj kvs" using ok e by (auto simp: receipt_ok_def)
    from row_id_sorted [of fl pf r] ok e obtain i where "row_id r = Inr i" "row_id (sort_keys r) = Inr (sort_keys i)" by blast
    then show ?thesis by (auto simp: r row_id_def sorted_str)
  qed
  then have "map sort_keys (filter (\<lambda>r. row_id r = Inr (JStr rid)) ?rs)
      = filter (\<lambda>j. json_get j ''request_id'' = JStr rid) (map sort_keys ?rs)"
    by (simp add: filter_map comp_def cong: filter_cong)
  then show ?thesis using i log_find_rows [OF i ok, of rid] by (simp add: find_by_request_id_def iter_receipts_def comp_def)
qed

end
