(* ===== verification/Spec2Isabelle.thy ===== *)
theory Spec2Isabelle
  imports Prelude Digest Wal HnswIndex Persistence IdRegistry CompactPolicy Residual EraseService NativeBackend Workflow
    Outbox QueueTransports ReplicaFanout CryptoShred Hooks Access Api ChromaHook FaissAdapter QdrantAdapter WeaviateAdapter RecallBounds VendorAttach
    NativeSearch StripeLocks VaultTransit Metrics JsonText ReceiptLog ApiReads
begin

text \<open>
  Verification of the erasure service of this repository: a Python program that deletes embeddings of persons from vector
  indexes in a way that leaves no recoverable copy, survives crashes, and gives signed receipts.

  \<^bold>\<open>The program.\<close> A client registers business ids and loads vectors (\<open>api/main.py\<close>); \<open>integrations/id_registry.py\<close> maps
  each id to a row label of an index. A delete goes through \<open>integrations/erase_service.py\<close>: it resolves the ids, lets a
  backend wipe each row, checks the wipe, may rebuild the index structure (\<open>compact_policy.py\<close>, \<open>delete_strategy.py\<close>), runs
  residual proofs (\<open>compliance/residual.py\<close>), drops the mappings and signs a receipt. The default backend is the native index
  (\<open>src/hnsw_helper.hpp\<close>) with the persistence engine (\<open>api/persistence.py\<close>): a write-ahead log (\<open>api/wal.py\<close>), the wipe in
  memory, an atomic replacement of \<open>index.bin\<close>, a commit record, and recovery at start. Around the service stand erasure tickets
  with optional steps (\<open>integrations/workflow.py\<close>), the hooks that perform the steps (\<open>hooks.py\<close>, \<open>hooks_config.py\<close>), the
  outbox and the fan-out to replicas (\<open>outbox.py\<close>, \<open>replica_fanout.py\<close>), the destruction of per-entity keys
  (\<open>compliance/crypto_shred.py\<close>, \<open>kms_backends.py\<close>), and access control with tenants (\<open>api/auth.py\<close>, \<open>integrations/tenancy.py\<close>).

  \<^bold>\<open>Theories.\<close> Definitions have the names of the code (methods without their class, and with a prefix or suffix where a name
  is taken); a class is a record of its attributes, a method a function from the state to the result and the new state, a
  raised exception the left side of a sum (\<open>exn\<close> in Prelude).
  \<^item> Prelude: exceptions, strings, slices, little-endian packing, float32 bit patterns, JSON values, dicts.
  \<^item> Digest: SHA-256 and HMAC from their standards.
  \<^item> Wal: the log on the byte level: append, scan, recovery of the counter; a torn tail, checksums, fresh ids.
  \<^item> HnswIndex: the native index: rows, adjacency, file format, wipe and MN-RU repair. NativeSearch: its search (\<open>search_knn\<close>): greedy descent,
    the loop on the base layer, which nodes a search can see. StripeLocks: the striped locks of concurrent native calls
    (\<open>src/neighborhood_locks.hpp\<close>) as an \<open>inductive\<close> step relation over threads.
  \<^item> Persistence: the lock retry, the durable delete, the flush, bootstrap and replay, with failing file operations and crashes
    between any two steps (\<open>crash_disk\<close>). The locale \<open>erasable_index\<close> is what the engine needs of the index.
  \<^item> IdRegistry, CompactPolicy, Residual: the registry with its two directions, when to rebuild, and what a proof checks.
  \<^item> EraseService: the batch delete over any backend; the locale \<open>hard_delete_backend\<close> is the contract of a backend.
  \<^item> NativeBackend: that contract for the native index with the engine; what a receipt means for memory and \<open>index.bin\<close>.
  \<^item> Ring, MatrixStore: what the adapters share: the ring of neighbours and the dense float matrix with its label map; the
    locale \<open>matrix_backend\<close> gives \<open>hard_delete_backend\<close> by a sublocale.
  \<^item> PointStore: a vector database as a map from point ids to vectors; the locale \<open>point_adapter\<close> extends \<open>matrix_backend\<close>, and
    its refinement says that additions, erasures and compactions act on what the database serves as on a map.
  \<^item> HnswlibAdapter, FaissAdapter, QdrantAdapter, WeaviateAdapter: the four adapters as further backends.
  \<^item> ChromaHook: the wrapper that erases before it deletes in Chroma.
  \<^item> Workflow: tickets, their store and the runner; Outbox, QueueTransports, ReplicaFanout: delivery of delete intents;
    CryptoShred, VaultTransit, Hooks: keys, key services and the hooks of a ticket; Access: keys of the API and tenants.
  \<^item> JsonText: the text of JSON values, written and read, and what reading makes of a text that goes on or is cut off. ReceiptLog: the file of
    receipts (\<open>integrations/receipt_log.py\<close>) on that text; the locale \<open>append_log\<close> is what its readers rely on.
  \<^item> Metrics: counters, gauges and timers with their text format.
  \<^item> RecallBounds, VendorAttach: the connectivity check behind the recall bounds with the exact search it is measured by, and erasure in buffers that others hold, as a store of
    buffers with aliases.
  \<^item> Api: the HTTP handlers that change state, start and stop of the process. ApiReads: search, health, metrics and the other handlers that
    only read, and what a search answers after a delete. This theory: properties that span components.

  \<^bold>\<open>What is shown.\<close> Of the durable core: an acknowledged delete is committed and published, a crash at any point never brings a
  row back, recovery replays every pending delete once, the log reads back what was appended also behind a torn tail. Of the
  service: a complete receipt accounts for every id, its rows are zero and its proofs passed, a clean batch completes and touches
  nothing else, errors of a backend never escape. Of the components around it: the registry stays bijective and never reuses a
  label, tickets are complete only with a complete receipt, the outbox implements a map of letters and empties after
  bounded retries, a file queue accounts for every message, a met quorum means a majority applied the delete, shredded keys
  stay unavailable, the receipts on file are read back as they were appended, production needs a key, tenants are apart. Of the native calls: a search ends with distinct, ordered, linked hits;
  exclusive guards exclude each other in every interleaving and do not deadlock among themselves. Of the adapters: a compacted index holds no copy of an erased vector, a deleted item is not found, the databases serve what
  a map would; in-place erasure reaches the caller's buffer and every process. Of the whole: ids that are ingested and
  deleted through the API stay erased over a restart, and a search no longer finds them. Several theorems state what the code does where that differs from its documentation; they are of kind \<open>error\<close>.

  \<^bold>\<open>Parameters and hypotheses.\<close> Code outside the repository is an argument: floating-point operations of the index (\<open>fp\<close>, no
  hypothesis), numpy's norm (\<open>norm_law\<close>), AES-GCM (\<open>aead_ok\<close>), cloud clients (\<open>client_ok\<close>), the vector libraries (\<open>ann_lib\<close>:
  \<open>lib_ok\<close>, and \<open>marks_ok\<close> for deletion marks), the Vault client (\<open>transit_ok\<close>), the Qdrant client, HTTP clients, clocks, uuids and random
  bytes. For the search, the comparison of distances is a strict order (\<open>fp_order\<close>), and the priority queue and \<open>std::sort\<close> are
  any that respect it (\<open>std_ok\<close>). Of numpy's \<open>argpartition\<close> and \<open>argsort\<close> the documented order is used (\<open>numpy_order\<close>). \<open>penv\<close> chooses, step by step, clock values, lock contention and failing file operations;
  \<open>benign\<close> says that clocks fit their field, file operations work and contention ends before the retries do. The predicates
  \<open>reg_ok\<close>, \<open>wal_inv\<close>, \<open>engine_ok\<close>, \<open>ms_ok\<close> and \<open>served_inv\<close> are invariants of the initial states and of every operation. Bounds are those of the
  field widths: transaction ids below \<open>2\<^sup>6\<^sup>4\<close> (\<open>ids_left\<close>), row counts below \<open>2\<^sup>6\<^sup>3\<close>. Loops are
  recursive over lists, the retry loop over its attempts, the reader of JSON has fuel of twice the length of its text, which is never used up
  (\<open>loads_errors\<close>), the searches of a graph have termination proofs, and the greedy descent, which could run
  for ever on a comparison that is no order, is a partial function that is shown to return.

  \<^bold>\<open>Not modelled.\<close> Characters beyond Latin-1; \<open>NaN\<close> and infinities in JSON; log lines and the timings of the handlers; the interleaving of native calls inside each
  other (the locks are modelled by themselves, and in the other theories a call is one step, a timeout one of its outcomes); a search whose query is
  shorter than the rows, which reads beyond its buffer; the wrapper around the official Weaviate package and connections by URL; build scripts, examples and tests.
\<close>

section \<open>From ingest to restart\<close>

text \<open>
  C3: the golden path of the API: with contention that ends in time, working files and enough transaction ids, a clean
  ingest request is accepted, and a delete request for some of its ids is answered with a complete receipt. Before the
  delete every id maps to the row of its vector; after it exactly the deleted ids are unmapped and their rows zero, while
  all others keep mapping and vector. When the process then ends without an orderly shutdown and a new one starts on its
  files, the same still holds.
\<close>

theorem ingested_ids_erase_durably:
  assumes "benign (ae_penv a)" and "\<not> ae_save_fails a" and "can_start a'"
    and "reg_ok (ap_ids st)" and "wal_inv (pe_wal (ap_engine st))" and "pending (ap_engine st) = []"
    and "ingest_clean body k d (ap_ids st)" and "delete_clean del body"
    and "int (length (clean_ids (ed_ids del))) < ids_left (ap_engine st)"
  shows "\<exists>j st1 r st2 st3. ingest_vectors a body st = (Reply j, st1)
    \<and> enterprise_delete a (iv_collection body) del st1 = (Reply (receipt_response r), st2) \<and> rc_status r = complete
    \<and> lifespan_start a' net (data_dir_of st2) = Inr st3
    \<and> ingest_view a body k d {} st1 \<and> ingest_view a body k d (set (clean_ids (ed_ids del))) st2
    \<and> ingest_view a body k d (set (clean_ids (ed_ids del))) st3"
  by (rule golden_path [OF assms])

lemma ingested_ids_erase_durably_witness:
  "\<exists>j st1 r st2 st3. ingest_vectors demo_api_env (demo_ingest ''users'') demo_api = (Reply j, st1)
    \<and> enterprise_delete demo_api_env ''users'' demo_erase st1 = (Reply (receipt_response r), st2) \<and> rc_status r = complete
    \<and> lifespan_start demo_api_env () (data_dir_of st2) = Inr st3
    \<and> ingest_view demo_api_env (demo_ingest ''users'') 0 2 {''alice''} st3"
proof -
  have e: "benign (ae_penv demo_api_env)" "\<not> ae_save_fails demo_api_env" using demo_benign by (simp_all add: demo_api_env_def)
  have s: "reg_ok (ap_ids demo_api)" "wal_inv (pe_wal (ap_engine demo_api))" "pending (ap_engine demo_api) = []"
    "ingest_clean (demo_ingest ''users'') 0 2 (ap_ids demo_api)"
    "int (length (clean_ids (ed_ids demo_erase))) < ids_left (ap_engine demo_api)"
    using demo_api_start demo_wal demo_clean demo_erase_clean(2) by simp_all
  have c: "iv_collection (demo_ingest ''users'') = ''users''" by (simp add: demo_ingest_def)
  from ingested_ids_erase_durably [OF e demo_can_start s(1-4) demo_erase_clean(1) s(5), of "()"] show ?thesis
    unfolding demo_erase_clean(2) c by auto
qed

section \<open>Two collections, one index\<close>

text \<open>
  C26: collections are not separated in the index: labels are counted per collection, but there is one native index. After a
  clean ingest into one collection, deleting an id of another collection that has the same label is answered with a complete
  receipt and zeroes the row of the ingested id, which stays mapped to it.
\<close>

theorem collections_share_rows:
  assumes "benign (ae_penv a)" and "reg_ok (ap_ids st)" and "wal_inv (pe_wal (ap_engine st))" and "0 < ids_left (ap_engine st)"
    and "ingest_clean body k d (ap_ids st)" and "i < length (iv_ids body)"
    and "id_view (ap_ids st) c x = Some (int (k + i))" and "py_strip c \<noteq> py_strip (iv_collection body)"
    and "enterprise_delete_valid del" and "ed_collection del = c" and "ed_compact del = None" and "ed_max_m del < 2 ^ 31"
    and "clean_ids (ed_ids del) = [py_strip x]"
  shows "\<exists>j st1 r st2. ingest_vectors a body st = (Reply j, st1)
    \<and> enterprise_delete a c del st1 = (Reply (receipt_response r), st2) \<and> rc_status r = complete
    \<and> hx_rows (pe_mem (ap_engine st1)) ! (k + i) = map (ae_f32 a) (iv_vectors body ! i)
    \<and> hx_rows (pe_mem (ap_engine st2)) ! (k + i) = zero_row d
    \<and> id_view (ap_ids st2) (iv_collection body) (iv_ids body ! i) = Some (int (k + i))"
  by (rule shared_row [OF assms])

lemma collections_share_rows_witness:
  "\<exists>st1 r st2 j. ingest_vectors demo_api_env (demo_ingest ''docs'')
      (put_ids (reg_run [RegisterOp ''users'' ''alice'' None] empty_registry) demo_api) = (Reply j, st1)
    \<and> enterprise_delete demo_api_env ''users'' demo_erase st1 = (Reply (receipt_response r), st2)
    \<and> hx_rows (pe_mem (ap_engine st1)) ! 0 = [1, 2] \<and> hx_rows (pe_mem (ap_engine st2)) ! 0 = [0, 0]
    \<and> id_view (ap_ids st2) ''docs'' ''alice'' = Some 0"
proof -
  let ?r = "reg_run [RegisterOp ''users'' ''alice'' None] empty_registry" and ?b = "demo_ingest ''docs''"
  let ?st = "put_ids ?r demo_api"
  have ids: "ap_ids ?st = ?r" "ap_engine ?st = ap_engine demo_api" by (simp_all add: put_ids_def)
  have s: "benign (ae_penv demo_api_env)" "reg_ok (ap_ids ?st)" "wal_inv (pe_wal (ap_engine ?st))" "0 < ids_left (ap_engine ?st)"
    using demo_benign demo_api_start demo_wal reg_run_ok [OF reg_ok_empty] by (simp_all add: ids demo_api_env_def)
  have st: "py_strip ''users'' = ''users''" "py_strip ''docs'' = ''docs''" "py_strip ''alice'' = ''alice''" "py_strip '' bob'' = ''bob''"
    by code_simp+
  have v: "id_view ?r ''users'' ''alice'' = Some 0" "next_of ?r ''docs'' = 0" "fwd_of ?r ''docs'' = []" by code_simp+
  have b: "ingest_clean ?b 0 2 (ap_ids ?st)"
    using v(2,3) by (simp add: ids ingest_clean_def ingest_vectors_valid_def demo_ingest_def id_view_def st)
  have d: "enterprise_delete_valid demo_erase" "ed_collection demo_erase = ''users''" "ed_compact demo_erase = None" "ed_max_m demo_erase < 2 ^ 31"
    "clean_ids (ed_ids demo_erase) = [py_strip ''alice'']"
    using demo_erase_clean(2) by (simp_all add: enterprise_delete_valid_def demo_erase_def st)
  have i: "0 < length (iv_ids ?b)" "id_view (ap_ids ?st) ''users'' ''alice'' = Some (int (0 + 0))" "py_strip ''users'' \<noteq> py_strip (iv_collection ?b)"
    using v(1) by (simp_all add: ids demo_ingest_def st)
  have x: "iv_collection ?b = ''docs''" "iv_ids ?b ! 0 = ''alice''" "map (ae_f32 demo_api_env) (iv_vectors ?b ! 0) = [1, 2]"
    by (simp_all add: demo_ingest_def demo_api_env_def)
  have z: "zero_row 2 = [0, 0]" by (simp add: zero_row_def numeral_2_eq_2)
  from collections_share_rows [OF s b i d] show ?thesis unfolding x z add_0 by auto
qed

end
